(* ===== verification/Prelude.thy ===== *)
theory Prelude
  imports Main "HOL-Library.Word"
begin

unbundle bit_operations_syntax

text \<open>
  Shared vocabulary of the development: the machine integers of the Go sources, byte
  slices, results that may be an error or a run-time panic, big-endian integers as the
  package \<^verbatim>\<open>encoding/binary\<close> lays them out, and the generic list lemmas the wire
  format proofs use.
\<close>

section \<open>Types\<close>

type_synonym u8 = "8 word"
type_synonym u16 = "16 word"
type_synonym u32 = "32 word"
type_synonym u64 = "64 word"
type_synonym bytes = "u8 list"

named_theorems wire_simps \<open>equations that evaluate the wire format on lists\<close>
named_theorems res_simps \<open>case analysis of results\<close>

section \<open>Results: error values and panics\<close>

text \<open>
  A Go function that returns \<^verbatim>\<open>(x, error)\<close> yields \<open>Inr x\<close>, \<open>Inl (Err e)\<close> when it
  returns a non-nil error, or \<open>Inl Panic\<close> when a slice expression or an index is out of
  range. An error can be wrapped by a caller; a panic passes through every caller.
\<close>

datatype 'e fail = Panic | Err 'e

type_synonym ('e, 'a) res = "'e fail + 'a"

fun thenE :: "'f + 'a \<Rightarrow> ('a \<Rightarrow> 'f + 'b) \<Rightarrow> 'f + 'b" where
  "thenE (Inr a) k = k a"
| "thenE (Inl f) k = Inl f"

text \<open>A sequence succeeds if both parts do; otherwise it is the first failure.\<close>

lemma thenE_eq_Inr [res_simps]: "thenE r k = Inr b \<longleftrightarrow> (\<exists>a. r = Inr a \<and> k a = Inr b)"
  and thenE_eq_Inl [res_simps]: "thenE r k = Inl f \<longleftrightarrow> (case r of Inr a \<Rightarrow> k a = Inl f | Inl f' \<Rightarrow> f' = f)"
  by (induction r k rule: thenE.induct) simp_all

text \<open>Recursive calls below a sequence are guarded by the success of what comes first.\<close>

lemma thenE_guard [fundef_cong]:
  assumes "r = r'" and "\<And>a. Inr a = r' \<Longrightarrow> k a = k' a"
  shows "thenE r k = thenE r' k'"
  using assms by (cases r') simp_all

definition wrapE :: "('e \<Rightarrow> 'e) \<Rightarrow> ('e, 'a) res \<Rightarrow> ('e, 'a) res" where
  "wrapE w m = (case m of Inl (Err e) \<Rightarrow> Inl (Err (w e)) | Inl Panic \<Rightarrow> Inl Panic | Inr x \<Rightarrow> Inr x)"

lemma wrapE_Inr [simp]: "wrapE w (Inr x) = Inr x"
  by (simp add: wrapE_def)

lemma wrapE_eq_Inr [simp]: "wrapE w m = Inr x \<longleftrightarrow> m = Inr x"
  by (auto simp: wrapE_def split: sum.splits fail.splits)

lemma wrapE_eq_Panic [simp]: "wrapE w m = Inl Panic \<longleftrightarrow> m = Inl Panic"
  by (auto simp: wrapE_def split: sum.splits fail.splits)

text \<open>A result that is not a panic.\<close>

definition safe :: "('e, 'a) res \<Rightarrow> bool" where
  "safe m \<longleftrightarrow> m \<noteq> Inl Panic"

lemma safe_Inr [simp]: "safe (Inr x)" and safe_Err [simp]: "safe (Inl (Err e))"
  and not_safe_Panic [simp]: "\<not> safe (Inl Panic)"
  by (simp_all add: safe_def)

lemma safe_wrapE [simp]: "safe (wrapE w m) = safe m"
  by (simp add: safe_def)

lemma safe_thenE: "safe m \<Longrightarrow> (\<And>x. m = Inr x \<Longrightarrow> safe (f x)) \<Longrightarrow> safe (thenE m f)"
  by (cases m) (auto simp: safe_def)

section \<open>Bytes\<close>

text \<open>The conversion \<^verbatim>\<open>byte(n)\<close> of a Go integer: the low eight bits.\<close>

definition byte_of :: "nat \<Rightarrow> u8" where
  "byte_of n = word_of_nat n"

lemma unat_byte_of [simp]: "n < 256 \<Longrightarrow> unat (byte_of n) = n"
  by (simp add: byte_of_def unat_of_nat)

lemma byte_of_eq_0_iff [simp]: "n < 256 \<Longrightarrow> byte_of n = 0 \<longleftrightarrow> n = 0"
  by (metis unat_byte_of unat_eq_zero)

lemma byte_of_inj: "m < 256 \<Longrightarrow> n < 256 \<Longrightarrow> byte_of m = byte_of n \<longleftrightarrow> m = n"
  by (metis unat_byte_of)

lemma byte_of_unat [simp]: "byte_of (unat c) = c"
  by (simp add: byte_of_def)

lemma unat_u8_less [simp]: "unat (c :: u8) < 256"
  using unsigned_less [of c] by simp

lemma unat_u16_le [simp]: "unat (c :: u16) \<le> 65535"
proof -
  have "unat c < 2 ^ LENGTH(16)" by (rule unsigned_less)
  then show ?thesis by simp
qed

text \<open>Facts about one byte can be checked on all 256 of them.\<close>

lemma u8_allI: "list_all (\<lambda>n. P (byte_of n)) [0..<256] \<Longrightarrow> P c"
proof -
  assume "list_all (\<lambda>n. P (byte_of n)) [0..<256]"
  moreover have "unat c \<in> set [0..<256]" by simp
  ultimately have "P (byte_of (unat c))"
    unfolding list_all_iff by blast
  then show "P c" by simp
qed

section \<open>Big-endian integers\<close>

definition put_u16 :: "u16 \<Rightarrow> bytes" where
  "put_u16 v = [ucast (drop_bit 8 v), ucast v]"

definition get_u16 :: "u8 \<Rightarrow> u8 \<Rightarrow> u16" where
  "get_u16 a b = push_bit 8 (ucast a) OR ucast b"

definition put_u32 :: "u32 \<Rightarrow> bytes" where
  "put_u32 v = [ucast (drop_bit 24 v), ucast (drop_bit 16 v), ucast (drop_bit 8 v), ucast v]"

definition get_u32 :: "u8 \<Rightarrow> u8 \<Rightarrow> u8 \<Rightarrow> u8 \<Rightarrow> u32" where
  "get_u32 a b c d = push_bit 24 (ucast a) OR push_bit 16 (ucast b) OR push_bit 8 (ucast c) OR ucast d"

lemma length_put_u16 [simp]: "length (put_u16 v) = 2"
  by (simp add: put_u16_def)

lemma length_put_u32 [simp]: "length (put_u32 v) = 4"
  by (simp add: put_u32_def)

lemma put_u16_nth [simp]:
  "put_u16 v ! 0 = ucast (drop_bit 8 v)" "put_u16 v ! Suc 0 = ucast v"
  by (simp_all add: put_u16_def)

lemma get_u16_put [simp]: "get_u16 (ucast (drop_bit 8 v)) (ucast v) = v"
  unfolding get_u16_def by (rule bit_word_eqI) (auto simp: bit_simps)

lemma get_u32_put [simp]:
  "get_u32 (ucast (drop_bit 24 v)) (ucast (drop_bit 16 v)) (ucast (drop_bit 8 v)) (ucast v) = v"
proof (rule bit_word_eqI, unfold get_u32_def)
  fix n
  assume "n < LENGTH(32)"
  then consider "n < 8" | "8 \<le> n" "n < 16" | "16 \<le> n" "n < 24" | "24 \<le> n" "n < 32"
    by fastforce
  then show "bit (push_bit 24 (ucast (ucast (drop_bit 24 v) :: u8) :: u32)
      OR push_bit 16 (ucast (ucast (drop_bit 16 v) :: u8))
      OR push_bit 8 (ucast (ucast (drop_bit 8 v) :: u8)) OR ucast (ucast v :: u8)) n = bit v n"
    by cases (auto simp: bit_simps)
qed

lemma put_get_u16 [simp]: "put_u16 (get_u16 a b) = [a, b]"
  unfolding get_u16_def put_u16_def
  by (simp, intro conjI; rule bit_word_eqI; auto simp: bit_simps dest: bit_imp_le_length)

text \<open>Eight bytes are two times four.\<close>

definition put_u64 :: "u64 \<Rightarrow> bytes" where
  "put_u64 v = put_u32 (ucast (drop_bit 32 v)) @ put_u32 (ucast v)"

definition be32 :: "bytes \<Rightarrow> u32" where
  "be32 b = get_u32 (b ! 0) (b ! 1) (b ! 2) (b ! 3)"

definition be64 :: "bytes \<Rightarrow> u64" where
  "be64 b = push_bit 32 (ucast (be32 b)) OR ucast (be32 (drop 4 b))"

lemma length_put_u64 [simp]: "length (put_u64 v) = 8"
  by (simp add: put_u64_def)

lemma be32_put [simp]: "be32 (put_u32 v @ z) = v" "be32 (put_u32 v) = v"
  by (simp_all add: be32_def put_u32_def numeral_2_eq_2 numeral_3_eq_3)

lemma u64_halves: "push_bit 32 (ucast (ucast (drop_bit 32 v) :: u32)) OR ucast (ucast v :: u32) = (v :: u64)"
  by (rule bit_word_eqI) (auto simp: bit_simps)

lemma be64_put [simp]: "be64 (put_u64 v @ z) = v"
  by (simp add: be64_def put_u64_def u64_halves)

text \<open>A Go \<^verbatim>\<open>int\<close> has 64 bits: what is left of an integer result when it is stored.\<close>

definition int64 :: "int \<Rightarrow> int" where
  "int64 x = sint (word_of_int x :: u64)"

lemma int64_add: "int64 (int64 x + y) = int64 (x + y)"
  by (simp add: int64_def)

lemma int64_id: "- (2 ^ 63) \<le> x \<Longrightarrow> x < 2 ^ 63 \<Longrightarrow> int64 x = x"
  by (simp add: int64_def sint_sbintrunc' signed_take_bit_int_eq_self)

section \<open>Lists\<close>

lemma drop_append_le [wire_simps]: "n \<le> length xs \<Longrightarrow> drop n (xs @ ys) = drop n xs @ ys"
  by simp

lemma nth_append_drop [wire_simps]: "k \<le> length xs \<Longrightarrow> i < length xs - k \<Longrightarrow> drop k xs ! i = xs ! (k + i)"
  by simp

lemma take_drop_append_mid [wire_simps]:
  "take (length ys) (drop (length xs) (xs @ ys @ zs)) = ys"
  by simp

end
