(* ===== verification/DnsName.thy ===== *)
theory DnsName
  imports Prelude
begin

text \<open>
  Domain names of \<^verbatim>\<open>pkg/dnsmsg/name.go\<close>: the type \<^verbatim>\<open>Name\<close>, its wire format with
  and without compression, and the readable format. A \<^verbatim>\<open>Name\<close> holds the wire bytes
  \<open>nb\<close> (field \<^verbatim>\<open>b\<close>) and its labels (field \<^verbatim>\<open>s\<close>), which are slices of \<open>nb\<close>: they are
  kept as (start, end) positions in \<open>nb\<close>.
\<close>

section \<open>Errors of the package\<close>

datatype err =
    ErrSmallBuffer
  | ErrBaseLen | ErrCalcLen | ErrReserved | ErrTooManyPtr | ErrInvalidPtr
  | ErrSegTooLong | ErrNameTooLong | ErrZeroSegLen | ErrResTooLong
  | ErrTooManyQuestions | ErrTooManyAnswers | ErrTooManyAuthorities | ErrTooManyAdditionals
  | ErrInvalidResourceBodyLen
  | ErrNameBufTooShort | ErrNameBufTooLong | ErrDirtyName
  | ErrInvalidChar nat
  | InternalErr err
  | SectionErr string err

type_synonym 'a dres = "(err, 'a) res"

definition newSectionErr :: "string \<Rightarrow> 'a dres \<Rightarrow> 'a dres" where
  "newSectionErr sec m = wrapE (SectionErr sec) m"

lemma newSectionErr_eq_Inr [simp]: "newSectionErr sec m = Inr x \<longleftrightarrow> m = Inr x"
  and newSectionErr_Inr [simp]: "newSectionErr sec (Inr x) = Inr x"
  and safe_newSectionErr [simp]: "safe (newSectionErr sec m) = safe m"
  by (simp_all add: newSectionErr_def)

section \<open>The type Name\<close>

record Name =
  nb :: bytes
  ns :: "(nat \<times> nat) list"

definition emptyName :: Name where
  "emptyName = \<lparr>nb = [], ns = []\<rparr>"

definition slice :: "bytes \<Rightarrow> nat \<times> nat \<Rightarrow> bytes" where
  "slice b r = take (snd r - fst r) (drop (fst r) b)"

definition Data :: "Name \<Rightarrow> bytes" where
  "Data n = nb n"

definition Labels :: "Name \<Rightarrow> bytes list" where
  "Labels n = map (slice (nb n)) (ns n)"

definition dirty :: "Name \<Rightarrow> bool" where
  "dirty n \<longleftrightarrow> nb n \<noteq> [] \<or> ns n \<noteq> []"

definition nameReset :: "Name \<Rightarrow> Name" where
  "nameReset n = n\<lparr>nb := [], ns := []\<rparr>"

definition nameCopyFrom :: "Name \<Rightarrow> Name \<Rightarrow> Name" where
  "nameCopyFrom n n2 = (let n1 = nameReset n in n1\<lparr>nb := nb n1 @ nb n2, ns := ns n1 @ ns n2\<rparr>)"

section \<open>Splitting the wire bytes into labels\<close>

text \<open>
  The loop of \<^verbatim>\<open>parseLabels\<close>: \<open>rest\<close> is \<^verbatim>\<open>n.b[i:]\<close>, \<open>i\<close> the loop variable. A
  slice that runs past the end of the buffer is a panic.
\<close>

fun parseLabelsFrom :: "nat \<Rightarrow> bytes \<Rightarrow> (nat \<times> nat) list \<Rightarrow> (nat \<times> nat) list dres" where
  "parseLabelsFrom i [] s = Inl (Err ErrNameBufTooShort)"
| "parseLabelsFrom i (c # cs) s =
    (if c = 0 then
       (if cs \<noteq> [] then Inl (Err ErrNameBufTooLong) else Inr s)
     else if unat c > length cs then Inl Panic
     else parseLabelsFrom (i + 1 + unat c) (drop (unat c) cs) (s @ [(i + 1, i + 1 + unat c)]))"

definition parseLabels :: "Name \<Rightarrow> Name dres" where
  "parseLabels n = thenE (parseLabelsFrom 0 (nb n) (ns n)) (\<lambda>s. Inr (n\<lparr>ns := s\<rparr>))"

definition internalErr :: "'a dres \<Rightarrow> 'a dres" where
  "internalErr m = wrapE InternalErr m"

section \<open>Packing\<close>

text \<open>
  A compression map is \<open>None\<close> for the nil map and \<open>Some m\<close> otherwise. The loop variable
  \<^verbatim>\<open>i\<close> is represented by \<^verbatim>\<open>n.b[i:]\<close>, which is also the key the code looks up.
\<close>

type_synonym cmap = "(bytes \<rightharpoonup> u16) option"

fun cmap_find :: "cmap \<Rightarrow> bytes \<Rightarrow> u16 option" where
  "cmap_find None k = None"
| "cmap_find (Some m) k = m k"

definition cmap_add :: "cmap \<Rightarrow> bytes \<Rightarrow> nat \<Rightarrow> cmap" where
  "cmap_add cm k newPtr = (case cm of None \<Rightarrow> None
     | Some m \<Rightarrow> if newPtr \<le> 0x3FFF then Some (m(k \<mapsto> word_of_nat newPtr)) else Some m)"

definition packNamePtr :: "bytes \<Rightarrow> u16 \<Rightarrow> bytes" where
  "packNamePtr msg ptr = msg @ [ucast (drop_bit 8 ptr OR 0xC0), ucast ptr]"

fun namePackFrom :: "bytes \<Rightarrow> bytes \<Rightarrow> cmap \<Rightarrow> nat \<Rightarrow> (bytes \<times> cmap) dres" where
  "namePackFrom [] msg cm off = Inl (Err ErrNameBufTooShort)"
| "namePackFrom (c # cs) msg cm off =
    (if c = 0 then
       (if cs \<noteq> [] then Inl (Err ErrNameBufTooLong) else Inr (msg @ [0], cm))
     else case cmap_find cm (c # cs) of
       Some ptr \<Rightarrow> Inr (packNamePtr msg ptr, cm)
     | None \<Rightarrow>
       if unat c > length cs then Inl Panic
       else namePackFrom (drop (unat c) cs) (msg @ c # take (unat c) cs)
              (cmap_add cm (c # cs) (length msg - off)) off)"

definition namePack :: "Name \<Rightarrow> bytes \<Rightarrow> cmap \<Rightarrow> nat \<Rightarrow> (bytes \<times> cmap) dres" where
  "namePack n msg cm off = namePackFrom (nb n) msg cm off"

text \<open>
  The code steps \<^verbatim>\<open>i\<close> past the end of the buffer without slicing here, which ends the
  loop with \<open>ErrNameBufTooShort\<close>; \<open>drop\<close> gives the empty rest in that case.
\<close>

fun namePackLenFrom :: "nat \<Rightarrow> bytes \<Rightarrow> cmap \<Rightarrow> nat dres" where
  "namePackLenFrom i [] cm = Inl (Err ErrNameBufTooShort)"
| "namePackLenFrom i (c # cs) cm =
    (if c = 0 then
       (if cs \<noteq> [] then Inl (Err ErrNameBufTooLong) else Inr (i + 1))
     else case cmap_find cm (c # cs) of
       Some _ \<Rightarrow> Inr (i + 2)
     | None \<Rightarrow> namePackLenFrom (i + 1 + unat c) (drop (unat c) cs) cm)"

definition namePackLen :: "Name \<Rightarrow> cmap \<Rightarrow> nat dres" where
  "namePackLen n cm = namePackLenFrom 0 (nb n) cm"

section \<open>Unpacking\<close>

text \<open>
  The loop of \<^verbatim>\<open>Name.unpack\<close> with its variables \<^verbatim>\<open>currOff\<close>, \<^verbatim>\<open>newOff\<close>, \<^verbatim>\<open>ptr\<close> and
  the buffer \<^verbatim>\<open>n.b\<close>. It stops because every step either follows a pointer, at most ten
  times, or moves \<^verbatim>\<open>currOff\<close> forward inside the message.
\<close>

function nameUnpackLoop ::
    "bytes \<Rightarrow> nat \<Rightarrow> nat \<Rightarrow> nat \<Rightarrow> bytes \<Rightarrow> (bytes \<times> nat \<times> nat \<times> nat) dres" where
  "nameUnpackLoop msg currOff newOff ptr b =
    (if length msg \<le> currOff then Inl (Err ErrBaseLen)
     else let c = msg ! currOff; currOff = currOff + 1 in
       if c AND 0xC0 = 0 then
         (let b = b @ [c] in
          if c = 0 then Inr (b, currOff, newOff, ptr)
          else let endOff = currOff + unat c in
            if endOff > length msg then Inl (Err ErrCalcLen)
            else if length b + 1 + unat c + 1 > 255 then Inl (Err ErrNameTooLong)
            else nameUnpackLoop msg endOff newOff ptr (b @ slice msg (currOff, endOff)))
       else if c AND 0xC0 = 0xC0 then
         (if length msg \<le> currOff then Inl (Err ErrInvalidPtr)
          else let c1 = msg ! currOff; currOff = currOff + 1;
                   newOff = (if ptr = 0 then currOff else newOff); ptr = ptr + 1 in
            if ptr > 10 then Inl (Err ErrTooManyPtr)
            else nameUnpackLoop msg (unat (c XOR 0xC0) * 256 + unat c1) newOff ptr b)
       else Inl (Err ErrReserved))"
  by pat_completeness auto
termination
  by (relation "measures [\<lambda>(msg, cur, new, ptr, b). 10 - ptr, \<lambda>(msg, cur, new, ptr, b). length msg - cur]")
     auto

declare nameUnpackLoop.simps [simp del]

definition nameUnpack :: "Name \<Rightarrow> bytes \<Rightarrow> nat \<Rightarrow> (Name \<times> nat) dres" where
  "nameUnpack n msg off =
    (if dirty n then Inl (Err ErrDirtyName)
     else thenE (nameUnpackLoop msg off off 0 (nb n)) (\<lambda>(b, currOff, newOff, ptr).
       let newOff = (if ptr = 0 then currOff else newOff) in
       thenE (internalErr (parseLabels (n\<lparr>nb := b\<rparr>))) (\<lambda>n'. Inr (n', newOff))))"

end
