(* ===== verification/DnsNameWire.thy ===== *)
theory DnsNameWire
  imports DnsName
begin

text \<open>
  What the wire format of names means, independently of the loops: a name is a list of
  labels, \<open>wire\<close> is its uncompressed encoding, and \<open>decodes\<close> says which labels are
  read at an offset of a message, how many pointers are followed and where the next
  field starts. Packing establishes \<open>decodes\<close>; unpacking computes it.
\<close>

section \<open>Labels and the uncompressed encoding\<close>

definition label_ok :: "bytes \<Rightarrow> bool" where
  "label_ok l \<longleftrightarrow> 0 < length l \<and> length l \<le> 63"

fun wire :: "bytes list \<Rightarrow> bytes" where
  "wire [] = [0]"
| "wire (l # ls) = byte_of (length l) # l @ wire ls"

fun ranges :: "nat \<Rightarrow> bytes list \<Rightarrow> (nat \<times> nat) list" where
  "ranges i [] = []"
| "ranges i (l # ls) = (i + 1, i + 1 + length l) # ranges (i + 1 + length l) ls"

definition name_of :: "bytes list \<Rightarrow> Name" where
  "name_of ls = \<lparr>nb = wire ls, ns = ranges 0 ls\<rparr>"

definition labels_ok :: "bytes list \<Rightarrow> bool" where
  "labels_ok ls \<longleftrightarrow> (\<forall>l \<in> set ls. label_ok l)"

text \<open>A name that fits the wire format: what every constructor of the package produces.\<close>

definition name_ok :: "Name \<Rightarrow> bool" where
  "name_ok n \<longleftrightarrow> (\<exists>ls. labels_ok ls \<and> n = name_of ls \<and> length (wire ls) \<le> 255)"

lemma labels_ok_simps [simp]:
  "labels_ok []" "labels_ok (l # ls) \<longleftrightarrow> label_ok l \<and> labels_ok ls"
  by (auto simp: labels_ok_def)

lemma label_ok_byte [simp]:
  assumes "label_ok l"
  shows "unat (byte_of (length l)) = length l" "byte_of (length l) \<noteq> 0"
    "length l < 64" "length l \<noteq> 0" "l \<noteq> []"
  using assms by (auto simp: label_ok_def)

lemma wire_not_Nil [simp]: "wire ls \<noteq> []"
  by (cases ls) auto

lemma length_wire_pos: "0 < length (wire ls)"
  by simp

lemma wire_inj:
  "labels_ok ls \<Longrightarrow> labels_ok ls' \<Longrightarrow> wire ls = wire ls' \<Longrightarrow> ls = ls'"
proof (induction ls arbitrary: ls')
  case Nil
  show ?case
  proof (cases ls')
    case (Cons l' ls'')
    then show ?thesis using Nil label_ok_byte(2) [of l'] by simp
  qed simp
next
  case (Cons l ls)
  have "ls' \<noteq> []"
    using Cons.prems label_ok_byte(2) [of l] by auto
  then obtain l' ls'' where ls': "ls' = l' # ls''"
    by (cases ls') auto
  have "length l = length l'"
    using Cons.prems ls' byte_of_inj [of "length l" "length l'"]
    by (simp add: label_ok_def)
  moreover have "l @ wire ls = l' @ wire ls''"
    using Cons.prems ls' by simp
  ultimately have "l = l'" "wire ls = wire ls''" by simp_all
  then show ?case using Cons.IH [of ls''] Cons.prems ls' by simp
qed

lemma slice_append_right:
  "length p \<le> i \<Longrightarrow> slice (p @ xs) (i, j) = slice xs (i - length p, j - length p)"
  by (auto simp: slice_def)

lemma Labels_ranges:
  "map (slice (p @ wire ls)) (ranges (length p) ls) = ls"
proof (induction ls arbitrary: p)
  case Nil
  show ?case by simp
next
  case (Cons l ls)
  have "p @ wire (l # ls) = (p @ [byte_of (length l)] @ l) @ wire ls"
    by simp
  then show ?case using Cons.IH [of "p @ [byte_of (length l)] @ l"]
    by (simp add: slice_def)
qed

lemma Labels_name_of [simp]: "Labels (name_of ls) = ls"
  using Labels_ranges [of "[]" ls] by (simp add: Labels_def name_of_def)

lemma nb_name_of [simp]: "nb (name_of ls) = wire ls"
  by (simp add: name_of_def)

lemma parseLabelsFrom_wire:
  "labels_ok ls \<Longrightarrow> parseLabelsFrom i (wire ls) s = Inr (s @ ranges i ls)"
  by (induction ls arbitrary: i s) (auto simp: label_ok_byte)

lemma parseLabels_wire:
  "labels_ok ls \<Longrightarrow> parseLabels \<lparr>nb = wire ls, ns = []\<rparr> = Inr (name_of ls)"
  by (simp add: parseLabels_def parseLabelsFrom_wire name_of_def)

section \<open>Bits of length and pointer bytes\<close>

lemma segment_byte: "(c :: u8) AND 0xC0 = 0 \<longleftrightarrow> unat c < 64"
  by (rule u8_allI [of _ c]) code_simp

lemma pointer_byte: "((c :: u8) OR 0xC0) AND 0xC0 = 0xC0"
  by (rule u8_allI [of _ c]) code_simp

lemma pointer_byte_target: "unat (c :: u8) < 64 \<longrightarrow> (c OR 0xC0) XOR 0xC0 = c"
  by (rule u8_allI [of _ c]) code_simp

definition ptr_target :: "u8 \<Rightarrow> u8 \<Rightarrow> nat" where
  "ptr_target c c1 = unat (c XOR 0xC0) * 256 + unat c1"

lemma ptr_target_pack:
  assumes "unat ptr \<le> 0x3FFF"
  shows "ptr_target (ucast (drop_bit 8 ptr OR 0xC0)) (ucast ptr) = unat (ptr :: u16)"
proof -
  let ?hi = "ucast (drop_bit 8 ptr) :: u8"
  have d: "unat (drop_bit 8 ptr) = unat ptr div 256"
    by (subst unat_drop_bit_eq) (simp add: drop_bit_eq_div)
  have hi: "unat ?hi = unat ptr div 256"
    using d assms by (simp add: unsigned_ucast_eq take_bit_eq_mod del: drop_bit_eq_div)
  have "ucast (drop_bit 8 ptr OR 0xC0) = ?hi OR 0xC0"
    by (rule bit_word_eqI) (auto simp: bit_simps)
  moreover have "unat ?hi < 64" using hi assms by simp
  ultimately have "ucast (drop_bit 8 ptr OR 0xC0) XOR 0xC0 = ?hi"
    using pointer_byte_target [of ?hi] by simp
  moreover have "unat (ucast ptr :: u8) = unat ptr mod 256"
    by (simp add: unsigned_ucast_eq take_bit_eq_mod)
  ultimately show ?thesis
    using hi by (simp add: ptr_target_def)
qed

lemma ptr_hi_byte: "(ucast (drop_bit 8 (ptr :: u16) OR 0xC0) :: u8) AND 0xC0 = 0xC0"
proof -
  have "(ucast (drop_bit 8 ptr OR 0xC0) :: u8) = ucast (drop_bit 8 ptr) OR 0xC0"
    by (rule bit_word_eqI) (auto simp: bit_simps)
  then show ?thesis using pointer_byte by simp
qed

section \<open>What is read at an offset\<close>

text \<open>
  \<open>decodes msg off ls k e\<close>: the name at offset \<open>off\<close> of \<open>msg\<close> has the labels
  \<open>ls\<close>, following it takes \<open>k\<close> pointers, and the next field starts at \<open>e\<close>.
\<close>

inductive decodes :: "bytes \<Rightarrow> nat \<Rightarrow> bytes list \<Rightarrow> nat \<Rightarrow> nat \<Rightarrow> bool" for msg where
  decodes_root: "off < length msg \<Longrightarrow> msg ! off = 0 \<Longrightarrow> decodes msg off [] 0 (off + 1)"
| decodes_label: "label_ok l \<Longrightarrow> off + 1 + length l \<le> length msg \<Longrightarrow>
    msg ! off = byte_of (length l) \<Longrightarrow> slice msg (off + 1, off + 1 + length l) = l \<Longrightarrow>
    decodes msg (off + 1 + length l) ls k e \<Longrightarrow> decodes msg off (l # ls) k e"
| decodes_ptr: "off + 1 < length msg \<Longrightarrow> msg ! off AND 0xC0 = 0xC0 \<Longrightarrow>
    decodes msg (ptr_target (msg ! off) (msg ! (off + 1))) ls k e \<Longrightarrow>
    decodes msg off ls (Suc k) (off + 2)"

inductive_simps decodes_zero: "decodes msg off ls 0 e"

lemma slice_append_left [simp]: "j \<le> length msg \<Longrightarrow> slice (msg @ x) (i, j) = slice msg (i, j)"
  by (cases "i \<le> j") (auto simp: slice_def)

lemma length_slice [simp]: "i \<le> j \<Longrightarrow> j \<le> length msg \<Longrightarrow> length (slice msg (i, j)) = j - i"
  by (simp add: slice_def)

lemma decodes_append: "decodes msg off ls k e \<Longrightarrow> decodes (msg @ x) off ls k e"
proof (induction rule: decodes.induct)
  case (decodes_root off)
  then show ?case by (intro decodes.decodes_root) (auto simp: nth_append)
next
  case (decodes_label l off ls k e)
  then show ?case by (intro decodes.decodes_label) (auto simp: nth_append)
next
  case (decodes_ptr off ls k e)
  then show ?case by (intro decodes.decodes_ptr) (auto simp: nth_append)
qed

lemma decodes_bounds: "decodes msg off ls k e \<Longrightarrow> off < e \<and> e \<le> length msg"
  by (induction rule: decodes.induct) auto

lemma decodes_labels_ok: "decodes msg off ls k e \<Longrightarrow> labels_ok ls"
  by (induction rule: decodes.induct) auto

text \<open>Reading is deterministic.\<close>

lemma byte_class_disjoint:
  assumes "label_ok l" "c = byte_of (length l)"
  shows "c \<noteq> 0" "c AND 0xC0 = 0" "c AND 0xC0 \<noteq> 0xC0"
proof -
  show "c \<noteq> 0" using assms by simp
  show *: "c AND 0xC0 = 0" using assms segment_byte [of c] by simp
  show "c AND 0xC0 \<noteq> 0xC0" unfolding * by simp
qed

lemma decodes_det:
  "decodes msg off ls k e \<Longrightarrow> decodes msg off ls' k' e' \<Longrightarrow> ls = ls' \<and> k = k' \<and> e = e'"
proof (induction arbitrary: ls' k' e' rule: decodes.induct)
  case (decodes_root off)
  from decodes_root.prems decodes_root.hyps show ?case
    by (cases rule: decodes.cases) (auto dest: byte_class_disjoint(1))
next
  case (decodes_label l off ls k e)
  note c = byte_class_disjoint [OF decodes_label.hyps(1,3)]
  note decodes_hyps = decodes_label.hyps and IH = decodes_label.IH
  from decodes_label.prems show ?case
  proof (cases rule: decodes.cases)
    case (decodes_label l2 ls2)
    have "length l = length l2"
      using decodes_label(2,4) decodes_hyps(1,3) byte_of_inj [of "length l" "length l2"]
      by (simp add: label_ok_def)
    then have "l = l2" using decodes_label(5) decodes_hyps(4) by simp
    then have "ls = ls2 \<and> k = k' \<and> e = e'"
      using IH decodes_label(6) \<open>l = l2\<close> by simp
    then show ?thesis using \<open>l = l2\<close> decodes_label(1) by simp
  qed (use c in auto)
next
  case (decodes_ptr off ls k e)
  from decodes_ptr.prems show ?case
  proof (cases rule: decodes.cases)
    case (decodes_ptr k2 e2)
    then show ?thesis using decodes_ptr.IH by blast
  qed (use decodes_ptr.hyps in \<open>auto dest: byte_class_disjoint(3)\<close>)
qed

section \<open>Unpacking computes what is read\<close>

lemma nameUnpackLoop_decodes:
  assumes "decodes msg off ls k e" "ptr + k \<le> 10" "ls = [] \<or> length b + length (wire ls) \<le> 254"
  shows "\<exists>cur new. nameUnpackLoop msg off newOff ptr b = Inr (b @ wire ls, cur, new, ptr + k) \<and>
    (k = 0 \<longrightarrow> cur = e \<and> new = newOff) \<and> (k > 0 \<longrightarrow> new = (if ptr = 0 then e else newOff))"
  using assms
proof (induction arbitrary: newOff ptr b rule: decodes.induct)
  case (decodes_root off)
  then show ?case by (subst nameUnpackLoop.simps) simp
next
  case (decodes_label l off ls k e)
  note c = byte_class_disjoint [OF decodes_label.hyps(1,3)]
  let ?b = "b @ byte_of (length l) # l"
  have len: "length b + length l + 3 \<le> 255"
    using decodes_label.prems(2) by (cases "length (wire ls)") auto
  have "ls = [] \<or> length ?b + length (wire ls) \<le> 254"
    using decodes_label.prems(2) by simp
  then obtain cur new where *: "nameUnpackLoop msg (off + 1 + length l) newOff ptr ?b
      = Inr (?b @ wire ls, cur, new, ptr + k)"
    "k = 0 \<longrightarrow> cur = e \<and> new = newOff" "k > 0 \<longrightarrow> new = (if ptr = 0 then e else newOff)"
    using decodes_label.IH [OF decodes_label.prems(1)] by blast
  have "nameUnpackLoop msg off newOff ptr b = nameUnpackLoop msg (off + 1 + length l) newOff ptr ?b"
    using decodes_label.hyps c len
    by (subst nameUnpackLoop.simps) (simp add: Let_def)
  with * show ?case by simp
next
  case (decodes_ptr off ls k e)
  have 0: "msg ! off AND 0xC0 \<noteq> 0" using decodes_ptr.hyps(2) by simp
  let ?new = "if ptr = 0 then off + 2 else newOff"
  have step: "nameUnpackLoop msg off newOff ptr b
      = nameUnpackLoop msg (ptr_target (msg ! off) (msg ! (off + 1))) ?new (Suc ptr) b"
    using decodes_ptr.hyps(1,2) 0 decodes_ptr.prems(1)
    by (subst nameUnpackLoop.simps) (simp add: Let_def ptr_target_def)
  show ?case
    using decodes_ptr.IH [of "Suc ptr" b ?new] decodes_ptr.prems step by auto
qed

lemma nameUnpackLoop_sound:
  assumes "nameUnpackLoop msg off newOff ptr b = Inr (b', cur, new, ptr')" "ptr \<le> 10"
  shows "\<exists>ls k e. decodes msg off ls k e \<and> b' = b @ wire ls \<and> ptr' = ptr + k \<and> ptr' \<le> 10 \<and>
    (ls = [] \<or> length b' \<le> 254)"
  using assms
proof (induction msg off newOff ptr b rule: nameUnpackLoop.induct)
  case (1 msg off newOff ptr b)
  let ?c = "msg ! off"
  note res = "1.prems"(1) [unfolded nameUnpackLoop.simps [of msg off newOff ptr b] Let_def]
  from res have off: "off < length msg" by (auto split: if_splits)
  consider (root) "?c = 0"
    | (label) "?c AND 0xC0 = 0" "?c \<noteq> 0"
    | (pointer) "?c AND 0xC0 = 0xC0" "?c AND 0xC0 \<noteq> 0"
    | (bad) "?c AND 0xC0 \<noteq> 0" "?c AND 0xC0 \<noteq> 0xC0"
    by auto
  then show ?case
  proof cases
    case root
    then have "b' = b @ [0]" "ptr' = ptr" using res off by auto
    moreover have "decodes msg off [] 0 (off + 1)" using root off by (rule decodes_root [rotated])
    ultimately show ?thesis using "1.prems"(2) by force
  next
    case label
    let ?l = "slice msg (off + 1, off + 1 + unat ?c)" and ?off' = "off + 1 + unat ?c"
    have b: "?off' \<le> length msg" "length b + 1 + 1 + unat ?c + 1 \<le> 255"
      and rec: "nameUnpackLoop msg ?off' newOff ptr ((b @ [?c]) @ ?l) = Inr (b', cur, new, ptr')"
      using res off label by (auto split: if_splits)
    have "unat ?c < 64" "unat ?c > 0"
      using label segment_byte [of ?c] by (auto simp: unat_gt_0)
    with b have l: "label_ok ?l" "length ?l = unat ?c" "?c = byte_of (length ?l)"
      by (auto simp: label_ok_def)
    have "\<exists>ls k e. decodes msg ?off' ls k e \<and> b' = ((b @ [?c]) @ ?l) @ wire ls \<and> ptr' = ptr + k \<and>
        ptr' \<le> 10 \<and> (ls = [] \<or> length b' \<le> 254)"
      by (rule "1.IH"(1) [OF _ refl refl _ refl _ refl]) (use label off b rec "1.prems"(2) in auto)
    then obtain ls k e where ls: "decodes msg ?off' ls k e" "b' = ((b @ [?c]) @ ?l) @ wire ls"
      "ptr' = ptr + k" "ptr' \<le> 10" "ls = [] \<or> length b' \<le> 254" by blast
    have "decodes msg off (?l # ls) k e"
      using l ls(1) b by (intro decodes_label) auto
    moreover have "b' = b @ wire (?l # ls)" using ls(2) l(3) by simp
    moreover have "length b' \<le> 254" using ls(2,5) b(2) l(2) by auto
    ultimately show ?thesis using ls(3,4) by blast
  next
    case pointer
    let ?t = "ptr_target ?c (msg ! (off + 1))" and ?new = "if ptr = 0 then off + 2 else newOff"
    have b: "off + 1 < length msg" "Suc ptr \<le> 10"
      and rec: "nameUnpackLoop msg ?t ?new (Suc ptr) b = Inr (b', cur, new, ptr')"
      using res off pointer by (auto split: if_splits simp: ptr_target_def)
    have "\<exists>ls k e. decodes msg ?t ls k e \<and> b' = b @ wire ls \<and> ptr' = Suc ptr + k \<and>
        ptr' \<le> 10 \<and> (ls = [] \<or> length b' \<le> 254)"
      using "1.IH"(2) [OF _ refl refl, of "msg ! (off + 1)" "off + 2" ?new "Suc ptr"]
        pointer off b rec by (simp add: ptr_target_def)
    then obtain ls k e where ls: "decodes msg ?t ls k e" "b' = b @ wire ls"
      "ptr' = Suc ptr + k" "ptr' \<le> 10" "ls = [] \<or> length b' \<le> 254" by blast
    have "decodes msg off ls (Suc k) (off + 2)"
      using pointer b ls(1) by (intro decodes_ptr) auto
    with ls show ?thesis by force
  next
    case bad
    then show ?thesis using res off by simp
  qed
qed

text \<open>
  \<^verbatim>\<open>Name.unpack\<close> succeeds exactly on the names that can be read with at most ten pointers
  and fit 254 bytes, and it returns them with the offset of the next field.
\<close>

lemma nameUnpack_iff:
  "nameUnpack emptyName msg off = Inr (n, e) \<longleftrightarrow>
    (\<exists>ls k. decodes msg off ls k e \<and> k \<le> 10 \<and> length (wire ls) \<le> 254 \<and> n = name_of ls)"
proof
  assume "\<exists>ls k. decodes msg off ls k e \<and> k \<le> 10 \<and> length (wire ls) \<le> 254 \<and> n = name_of ls"
  then obtain ls k where ls: "decodes msg off ls k e" "k \<le> 10" "length (wire ls) \<le> 254" "n = name_of ls"
    by blast
  obtain cur new where loop: "nameUnpackLoop msg off off 0 [] = Inr (wire ls, cur, new, k)"
    "k = 0 \<longrightarrow> cur = e" "k > 0 \<longrightarrow> new = e"
    using nameUnpackLoop_decodes [OF ls(1), of 0 "[]" off] ls(2,3) by auto
  have "labels_ok ls" using ls(1) by (rule decodes_labels_ok)
  with loop ls(4) show "nameUnpack emptyName msg off = Inr (n, e)"
    by (auto simp: nameUnpack_def emptyName_def dirty_def internalErr_def parseLabels_wire)
next
  assume "nameUnpack emptyName msg off = Inr (n, e)"
  then obtain b cur new ptr where loop: "nameUnpackLoop msg off off 0 [] = Inr (b, cur, new, ptr)"
    and n: "parseLabels \<lparr>nb = b, ns = []\<rparr> = Inr n" "e = (if ptr = 0 then cur else new)"
    by (auto simp: nameUnpack_def emptyName_def dirty_def internalErr_def res_simps)
  from nameUnpackLoop_sound [OF loop] obtain ls k e' where ls: "decodes msg off ls k e'"
    "b = wire ls" "ptr = k" "k \<le> 10" "ls = [] \<or> length b \<le> 254" by auto
  have lok: "labels_ok ls" using ls(1) by (rule decodes_labels_ok)
  have len: "length (wire ls) \<le> 254" using ls(2,5) by auto
  have "e = e'" using nameUnpackLoop_decodes [OF ls(1), of 0 "[]" off] ls(2-4) loop n(2) len by auto
  with ls n(1) lok len show "\<exists>ls k. decodes msg off ls k e \<and> k \<le> 10 \<and> length (wire ls) \<le> 254 \<and>
      n = name_of ls"
    by (auto simp: parseLabels_wire)
qed

lemma nameUnpackLoop_safe: "safe (nameUnpackLoop msg off newOff ptr b)"
  by (induction msg off newOff ptr b rule: nameUnpackLoop.induct)
     (subst nameUnpackLoop.simps, simp add: Let_def)

lemma nameUnpack_safe: "safe (nameUnpack emptyName msg off)"
proof (cases "nameUnpackLoop msg off off 0 []")
  case (Inl f)
  then show ?thesis using nameUnpackLoop_safe [of msg off off 0 "[]"]
    by (simp add: nameUnpack_def emptyName_def dirty_def safe_def)
next
  case (Inr r)
  obtain b cur new ptr where r: "r = (b, cur, new, ptr)" by (cases r)
  from nameUnpackLoop_sound [OF Inr [unfolded r]] obtain ls k e where
    "decodes msg off ls k e" "b = wire ls" by auto
  then have "parseLabels \<lparr>nb = b, ns = []\<rparr> = Inr (name_of ls)"
    using decodes_labels_ok parseLabels_wire by blast
  then show ?thesis
    by (simp add: nameUnpack_def emptyName_def dirty_def Inr r internalErr_def)
qed

lemma nameUnpack_name_ok:
  "nameUnpack emptyName msg off = Inr (n, e) \<Longrightarrow> name_ok n \<and> off < e \<and> e \<le> length msg"
  unfolding nameUnpack_iff name_ok_def
  using decodes_bounds decodes_labels_ok by fastforce

end
