(* ===== verification/DnsNamePack.thy ===== *)
theory DnsNamePack
  imports DnsNameWire
begin

text \<open>
  Packing of names: the compression map only ever holds suffixes that can be read at the
  recorded offset, packing a name appends bytes that read back as that name, and
  \<^verbatim>\<open>packLen\<close> is exactly the number of bytes packing appends.
\<close>

section \<open>The compression map\<close>

text \<open>
  A map entry is good for a message body if its offset fits a pointer and the suffix is
  what is read there, following fewer pointers than the suffix has labels.
\<close>

definition good_entry :: "bytes \<Rightarrow> bytes \<Rightarrow> u16 \<Rightarrow> bool" where
  "good_entry body suf p \<longleftrightarrow> (\<exists>ls k e. suf = wire ls \<and> ls \<noteq> [] \<and> decodes body (unat p) ls k e \<and> k < length ls \<and>
     unat p \<le> 0x3FFF)"

definition cmap_ok :: "bytes \<Rightarrow> cmap \<Rightarrow> bool" where
  "cmap_ok body cm \<longleftrightarrow> (\<forall>suf p. cmap_find cm suf = Some p \<longrightarrow> good_entry body suf p)"

definition cmap_le :: "cmap \<Rightarrow> cmap \<Rightarrow> bool" where
  "cmap_le cm cm' \<longleftrightarrow> (cm = None \<longleftrightarrow> cm' = None) \<and> (\<forall>suf. cmap_find cm suf \<noteq> None \<longrightarrow> cmap_find cm' suf \<noteq> None)"

text \<open>The pointers that reading a name of \<open>k\<close> labels may follow when it is packed with this map.\<close>

definition hops :: "cmap \<Rightarrow> nat \<Rightarrow> nat" where
  "hops cm D = (case cm of None \<Rightarrow> 0 | Some _ \<Rightarrow> D)"

lemma hops_None [simp]: "hops None D = 0"
  and hops_le: "hops cm D \<le> D"
  by (simp_all add: hops_def split: option.splits)

lemma hops_mono: "m \<le> n \<Longrightarrow> hops cm m \<le> hops cm n"
  by (simp add: hops_def split: option.splits)

lemma good_entry_append: "good_entry body suf p \<Longrightarrow> good_entry (body @ x) suf p"
  unfolding good_entry_def using decodes_append by blast

lemma cmap_ok_append: "cmap_ok body cm \<Longrightarrow> cmap_ok (body @ x) cm"
  unfolding cmap_ok_def using good_entry_append by blast

lemma cmap_ok_None [simp]: "cmap_ok body None" and cmap_ok_empty [simp]: "cmap_ok body (Some Map.empty)"
  by (simp_all add: cmap_ok_def)

lemma cmap_le_refl [simp]: "cmap_le cm cm" and cmap_le_trans: "cmap_le a b \<Longrightarrow> cmap_le b c \<Longrightarrow> cmap_le a c"
  by (auto simp: cmap_le_def)

lemma cmap_add_find:
  "cmap_find (cmap_add cm key q) suf = Some p \<Longrightarrow>
    cmap_find cm suf = Some p \<or> (suf = key \<and> q \<le> 0x3FFF \<and> p = word_of_nat q)"
  by (cases cm) (auto simp: cmap_add_def split: if_splits)

lemma cmap_add_le: "cmap_le cm (cmap_add cm key q)"
  by (cases cm) (auto simp: cmap_le_def cmap_add_def)

lemma cmap_add_eq_None [simp]: "cmap_add cm key q = None \<longleftrightarrow> cm = None"
  by (cases cm) (auto simp: cmap_add_def)

lemma hops_cmap_add [simp]: "hops (cmap_add cm key q) D = hops cm D"
  by (cases cm) (auto simp: cmap_add_def hops_def)

lemma unat_word_of_nat_14: "q \<le> 0x3FFF \<Longrightarrow> unat (word_of_nat q :: u16) = q"
  by (simp add: unat_of_nat)

section \<open>Packing appends bytes that read back\<close>

lemma namePackFrom_decodes:
  assumes "labels_ok ls" "off \<le> length msg"
    and "\<forall>suf p. cmap_find cm suf = Some p \<and> length suf \<le> length (wire ls) \<longrightarrow>
      good_entry (drop off msg) suf p"
  shows "\<exists>x cm' k. namePackFrom (wire ls) msg cm off = Inr (msg @ x, cm') \<and> cmap_le cm cm' \<and>
    decodes (drop off (msg @ x)) (length msg - off) ls k (length (msg @ x) - off) \<and>
    k \<le> hops cm (length ls) \<and>
    (\<forall>suf p. cmap_find cm' suf = Some p \<longrightarrow>
      cmap_find cm suf = Some p \<or> good_entry (drop off (msg @ x)) suf p)"
  using assms
proof (induction ls arbitrary: msg cm)
  case Nil
  have "decodes (drop off (msg @ [0])) (length msg - off) [] 0 (length msg - off + 1)"
    by (rule decodes_root) (use Nil in \<open>auto simp: nth_append\<close>)
  moreover have "length msg - off + 1 = length (msg @ [0]) - off"
    using Nil(2) by simp
  ultimately show ?case
    by (intro exI [of _ "[0]"] exI [of _ cm] exI [of _ 0]) auto
next
  case (Cons l ls)
  let ?key = "byte_of (length l) # l @ wire ls" and ?o = "length msg - off"
  have lok: "label_ok l" "labels_ok ls" using Cons.prems(1) by auto
  show ?case
  proof (cases "cmap_find cm ?key")
    case (Some ptr)
    let ?hi = "ucast (drop_bit 8 ptr OR 0xC0) :: u8" and ?lo = "ucast ptr :: u8"
    let ?body = "drop off (msg @ [?hi, ?lo])"
    have "good_entry (drop off msg) (wire (l # ls)) ptr" using Some Cons.prems(3) by simp
    then obtain ls' k e where
      g: "wire (l # ls) = wire ls'" "decodes (drop off msg) (unat ptr) ls' k e" "k < length ls'" "unat ptr \<le> 0x3FFF"
      unfolding good_entry_def by blast
    have "ls' = l # ls"
      using wire_inj [OF _ _ g(1)] Cons.prems(1) decodes_labels_ok [OF g(2)] by simp
    have at: "?body ! ?o = ?hi" "?body ! (?o + 1) = ?lo"
      using Cons.prems(2) by (auto simp: nth_append)
    have "decodes ?body (unat ptr) (l # ls) k e"
      using g(2) decodes_append Cons.prems(2) \<open>ls' = l # ls\<close> by simp
    moreover have "length (msg @ [?hi, ?lo]) - off = ?o + 2" using Cons.prems(2) by simp
    ultimately have "decodes ?body ?o (l # ls) (Suc k) (length (msg @ [?hi, ?lo]) - off)"
      using at Cons.prems(2) g(4) by (simp only:) (intro decodes_ptr, auto simp: ptr_target_pack ptr_hi_byte)
    moreover have "hops cm (length (l # ls)) = length (l # ls)" using Some by (cases cm) (auto simp: hops_def)
    moreover have "namePackFrom (wire (l # ls)) msg cm off = Inr (msg @ [?hi, ?lo], cm)"
      using Some lok by (simp add: packNamePtr_def)
    ultimately show ?thesis using g(3) Cons.prems(2) \<open>ls' = l # ls\<close>
      by (intro exI [of _ "[?hi, ?lo]"] exI [of _ cm] exI [of _ "Suc k"]) auto
  next
    case None
    let ?msg = "msg @ byte_of (length l) # l" and ?cm = "cmap_add cm ?key ?o"
    have step: "namePackFrom (wire (l # ls)) msg cm off = namePackFrom (wire ls) ?msg ?cm off"
      using None lok by simp
    have "\<forall>suf p. cmap_find ?cm suf = Some p \<and> length suf \<le> length (wire ls) \<longrightarrow>
        good_entry (drop off ?msg) suf p"
    proof (intro allI impI)
      fix suf p assume a: "cmap_find ?cm suf = Some p \<and> length suf \<le> length (wire ls)"
      then have "cmap_find cm suf = Some p" using cmap_add_find by fastforce
      then have "good_entry (drop off msg) suf p" using a Cons.prems(3) by auto
      then show "good_entry (drop off ?msg) suf p" using Cons.prems(2) good_entry_append by simp
    qed
    then obtain x cm' k where IH: "namePackFrom (wire ls) ?msg ?cm off = Inr (?msg @ x, cm')"
      "cmap_le ?cm cm'"
      "decodes (drop off (?msg @ x)) (length ?msg - off) ls k (length (?msg @ x) - off)"
      "k \<le> hops ?cm (length ls)"
      "\<forall>suf p. cmap_find cm' suf = Some p \<longrightarrow>
        cmap_find ?cm suf = Some p \<or> good_entry (drop off (?msg @ x)) suf p"
      using Cons.IH [of ?msg ?cm] lok(2) Cons.prems(2) by auto
    let ?x = "byte_of (length l) # l @ x" and ?body = "drop off (msg @ byte_of (length l) # l @ x)"
    have off': "length ?msg - off = ?o + 1 + length l" using Cons.prems(2) by simp
    have d: "decodes ?body ?o (l # ls) k (length (msg @ ?x) - off)"
    proof (rule decodes_label)
      show "slice ?body (?o + 1, ?o + 1 + length l) = l"
        using Cons.prems(2) by (simp add: slice_def)
      show "?body ! ?o = byte_of (length l)" using Cons.prems(2) by (simp add: nth_append)
      show "decodes ?body (?o + 1 + length l) ls k (length (msg @ ?x) - off)"
        using IH(3) off' by simp
    qed (use lok Cons.prems(2) in auto)
    have "good_entry ?body suf p" if "cmap_find cm' suf = Some p" "cmap_find cm suf \<noteq> Some p" for suf p
    proof -
      from that IH(5) consider "cmap_find ?cm suf = Some p" | "good_entry ?body suf p" by auto
      then show ?thesis
      proof cases
        case 1
        then have new: "suf = wire (l # ls)" "?o \<le> 0x3FFF" "p = word_of_nat ?o"
          using cmap_add_find that(2) by fastforce+
        have "k < length (l # ls)" using IH(4) hops_le [of ?cm "length ls"] by simp
        moreover have "unat p = ?o" using new unat_word_of_nat_14 by simp
        ultimately show ?thesis
          unfolding good_entry_def using d new(1,2) by (intro exI [of _ "l # ls"]) auto
      qed
    qed
    then show ?thesis using step IH(1,2,4) d cmap_le_trans [OF cmap_add_le IH(2)] hops_mono [of "length ls" "Suc (length ls)" cm]
      by (intro exI [of _ ?x] exI [of _ cm'] exI [of _ k]) auto
  qed
qed

text \<open>What packing appends depends on the length of the message so far, not on its bytes.\<close>

lemma namePackFrom_append_only:
  "length msg2 = length msg \<Longrightarrow> namePackFrom r msg cm off = Inr (msg', cm') \<Longrightarrow>
    \<exists>x. msg' = msg @ x \<and> namePackFrom r msg2 cm off = Inr (msg2 @ x, cm')"
proof (induction r msg cm off arbitrary: msg2 rule: namePackFrom.induct)
  case (1 msg cm off)
  then show ?case by simp
next
  case (2 c cs msg cm off)
  show ?case
  proof (cases "c = 0 \<or> cmap_find cm (c # cs) \<noteq> None")
    case True
    then show ?thesis using "2.prems" by (auto simp: packNamePtr_def split: if_splits)
  next
    case False
    then show ?thesis using "2.prems" "2.IH" [of "msg2 @ c # take (unat c) cs"]
      by (auto split: if_splits)
  qed
qed

section \<open>packLen\<close>

lemma namePackLenFrom_wire:
  assumes "labels_ok ls" "\<forall>suf. length suf \<le> length (wire ls) \<longrightarrow> cmap_find cm suf = cmap_find cm0 suf"
  shows "\<exists>x cm'. namePackFrom (wire ls) msg cm off = Inr (msg @ x, cm') \<and>
    namePackLenFrom i (wire ls) cm0 = Inr (i + length x)"
  using assms
proof (induction ls arbitrary: msg cm i)
  case Nil
  then show ?case by simp
next
  case (Cons l ls)
  let ?key = "byte_of (length l) # l @ wire ls" and ?o = "length msg - off"
  have lok: "label_ok l" "labels_ok ls" using Cons.prems(1) by auto
  have same: "cmap_find cm ?key = cmap_find cm0 ?key" using Cons.prems(2) by simp
  show ?case
  proof (cases "cmap_find cm ?key")
    case (Some ptr)
    then show ?thesis using lok same by (simp add: packNamePtr_def)
  next
    case None
    have "cmap_find (cmap_add cm ?key ?o) suf = cmap_find cm0 suf" if "length suf \<le> length (wire ls)" for suf
    proof -
      have "suf \<noteq> ?key" using that by auto
      then show ?thesis using that Cons.prems(2) by (cases cm) (auto simp: cmap_add_def)
    qed
    then obtain x cm' where IH: "namePackFrom (wire ls) (msg @ byte_of (length l) # l) (cmap_add cm ?key ?o) off
        = Inr ((msg @ byte_of (length l) # l) @ x, cm')"
      "namePackLenFrom (i + 1 + length l) (wire ls) cm0 = Inr (i + 1 + length l + length x)"
      using Cons.IH [OF lok(2), of "cmap_add cm ?key ?o" "msg @ byte_of (length l) # l" "i + 1 + length l"] by blast
    have "namePackFrom (wire (l # ls)) msg cm off = Inr (msg @ (byte_of (length l) # l @ x), cm')"
      using None lok IH(1) by simp
    moreover have "namePackLenFrom i (wire (l # ls)) cm0 = Inr (i + length (byte_of (length l) # l @ x))"
      using None lok IH(2) same by simp
    ultimately show ?thesis by blast
  qed
qed

text \<open>A larger compression map never makes a name longer.\<close>

lemma namePackLenFrom_antimono:
  assumes "labels_ok ls" "\<forall>suf. cmap_find cm suf \<noteq> None \<longrightarrow> cmap_find cm' suf \<noteq> None"
  shows "\<exists>n n'. namePackLenFrom i (wire ls) cm = Inr n \<and> namePackLenFrom i (wire ls) cm' = Inr n' \<and>
    n' \<le> n \<and> n \<le> i + length (wire ls) \<and> (ls \<noteq> [] \<longrightarrow> i + 2 \<le> n') \<and> (cm = None \<longrightarrow> n = i + length (wire ls))"
  using assms(1)
proof (induction ls arbitrary: i)
  case Nil
  then show ?case by simp
next
  case (Cons l ls)
  let ?key = "byte_of (length l) # l @ wire ls"
  have lok: "label_ok l" "labels_ok ls" using Cons.prems by auto
  obtain n n' where IH: "namePackLenFrom (i + 1 + length l) (wire ls) cm = Inr n"
    "namePackLenFrom (i + 1 + length l) (wire ls) cm' = Inr n'" "n' \<le> n"
    "n \<le> i + 1 + length l + length (wire ls)" "ls \<noteq> [] \<longrightarrow> i + 1 + length l + 2 \<le> n'"
    "cm = None \<longrightarrow> n = i + 1 + length l + length (wire ls)"
    using Cons.IH [OF lok(2), of "i + 1 + length l"] by blast
  have low: "i + 1 + length l + 1 \<le> n'"
  proof (cases ls)
    case Nil
    then show ?thesis using IH(2) by simp
  qed (use IH(5) in simp)
  have l: "1 \<le> length l" using lok(1) by (cases l) (auto simp: label_ok_def)
  show ?case
  proof (cases "cmap_find cm' ?key")
    case None
    then have "cmap_find cm ?key = None" using assms(2) by metis
    with None show ?thesis using lok IH low by auto
  next
    case (Some p)
    show ?thesis
    proof (cases "cmap_find cm ?key")
      case None
      then show ?thesis using Some lok IH low l by auto
    next
      case (Some q)
      then have "cm \<noteq> None" by (cases cm) auto
      then show ?thesis using Some \<open>cmap_find cm' ?key = Some p\<close> lok l by auto
    qed
  qed
qed

end
