(* ===== verification/DnsCodec.thy ===== *)
theory DnsCodec
  imports DnsNamePack
begin

text \<open>
  The fixed-width readers of \<^verbatim>\<open>pkg/dnsmsg/utils.go\<close>, and the interface every wire
  element of a message (a name, a question, a resource) offers to \<^verbatim>\<open>Msg.Pack\<close> and
  \<^verbatim>\<open>Msg.Unpack\<close>: a packer that only appends, a length estimate and an unpacker. The
  section loops of a message are proved once against that interface.
\<close>

section \<open>Fixed-width fields\<close>

definition unpackUint16Msg :: "bytes \<Rightarrow> nat \<Rightarrow> (u16 \<times> nat) dres" where
  "unpackUint16Msg msg off =
    (if length msg < off then Inl Panic
     else let buf = drop off msg in
       if length buf < 2 then Inl (Err ErrSmallBuffer)
       else Inr (get_u16 (buf ! 0) (buf ! 1), off + 2))"

definition unpackUint32Msg :: "bytes \<Rightarrow> nat \<Rightarrow> (u32 \<times> nat) dres" where
  "unpackUint32Msg msg off =
    (if length msg < off then Inl Panic
     else let buf = drop off msg in
       if length buf < 4 then Inl (Err ErrSmallBuffer)
       else Inr (get_u32 (buf ! 0) (buf ! 1) (buf ! 2) (buf ! 3), off + 4))"

text \<open>\<^verbatim>\<open>unpackBytesMsg\<close> (a destination of length \<open>l\<close>) and \<^verbatim>\<open>unpackBytesMsgToBuffer\<close>.\<close>

definition unpackBytesMsg :: "bytes \<Rightarrow> nat \<Rightarrow> nat \<Rightarrow> (bytes \<times> nat) dres" where
  "unpackBytesMsg msg off l =
    (if length msg < off then Inl Panic
     else let buf = drop off msg in
       if length buf < l then Inl (Err ErrSmallBuffer)
       else Inr (take l buf, off + l))"

text \<open>\<open>reads u pre x a\<close>: after \<open>pre\<close>, the bytes \<open>x\<close> are read as \<open>a\<close>, whatever follows.\<close>

definition reads :: "(bytes \<Rightarrow> nat \<Rightarrow> ('a \<times> nat) dres) \<Rightarrow> bytes \<Rightarrow> bytes \<Rightarrow> 'a \<Rightarrow> bool" where
  "reads u pre x a \<longleftrightarrow> (\<forall>z. u (pre @ x @ z) (length pre) = Inr (a, length pre + length x))"

lemma readsD: "reads u pre x a \<Longrightarrow> u (pre @ x @ z) (length pre) = Inr (a, length pre + length x)"
  by (simp add: reads_def)

lemma reads_u16 [simp]: "reads unpackUint16Msg pre (put_u16 v) v"
  by (simp add: reads_def unpackUint16Msg_def put_u16_def)

lemma reads_u32 [simp]: "reads unpackUint32Msg pre (put_u32 v) v"
  by (simp add: reads_def unpackUint32Msg_def put_u32_def numeral_2_eq_2 numeral_3_eq_3)

lemma reads_bytes [simp]: "reads (\<lambda>m off. unpackBytesMsg m off (length v)) pre v v"
  by (simp add: reads_def unpackBytesMsg_def)

text \<open>Reading one field after another.\<close>

lemma reads_bindI:
  assumes "reads u pre x a" and "reads (\<lambda>m off. v m off a) (pre @ x) y b"
    and "\<And>m off. w m off = thenE (u m off) (\<lambda>(a, off). v m off a)"
  shows "reads w pre (x @ y) b"
proof (unfold reads_def, intro allI)
  fix z
  have "u (pre @ x @ y @ z) (length pre) = Inr (a, length pre + length x)"
    using readsD [OF assms(1), of "y @ z"] by simp
  moreover have "v (pre @ x @ y @ z) (length pre + length x) a = Inr (b, length pre + length x + length y)"
    using readsD [OF assms(2), of z] by simp
  ultimately show "w (pre @ (x @ y) @ z) (length pre) = Inr (b, length pre + length (x @ y))"
    by (simp add: assms(3))
qed

lemma reads_returnI: "reads (\<lambda>m off. Inr (f, off)) pre [] f"
  by (simp add: reads_def)

lemma reads_mapI:
  assumes "reads u pre x a" and "\<And>m off. w m off = thenE (u m off) (\<lambda>(a, off). Inr (f a, off))"
  shows "reads w pre x (f a)"
  using readsD [OF assms(1)] by (simp add: reads_def assms(2))

text \<open>Readers that never leave the message.\<close>

definition bounded_reader :: "(bytes \<Rightarrow> nat \<Rightarrow> ('a \<times> nat) dres) \<Rightarrow> bool" where
  "bounded_reader u \<longleftrightarrow> (\<forall>msg off. off \<le> length msg \<longrightarrow> safe (u msg off) \<and>
     (\<forall>a e. u msg off = Inr (a, e) \<longrightarrow> off \<le> e \<and> e \<le> length msg))"

lemma bounded_readerD:
  "bounded_reader u \<Longrightarrow> off \<le> length msg \<Longrightarrow> safe (u msg off)"
  "bounded_reader u \<Longrightarrow> off \<le> length msg \<Longrightarrow> u msg off = Inr (a, e) \<Longrightarrow> off \<le> e"
  "bounded_reader u \<Longrightarrow> off \<le> length msg \<Longrightarrow> u msg off = Inr (a, e) \<Longrightarrow> e \<le> length msg"
  unfolding bounded_reader_def by blast+

lemma bounded_readerI:
  assumes "\<And>msg off. off \<le> length msg \<Longrightarrow> safe (u msg off)"
    and "\<And>msg off a e. off \<le> length msg \<Longrightarrow> u msg off = Inr (a, e) \<Longrightarrow> off \<le> e \<and> e \<le> length msg"
  shows "bounded_reader u"
  using assms unfolding bounded_reader_def by blast

lemma bounded_u16 [simp]: "bounded_reader unpackUint16Msg"
  and bounded_u32 [simp]: "bounded_reader unpackUint32Msg"
  and bounded_bytes [simp]: "bounded_reader (\<lambda>m off. unpackBytesMsg m off l)"
  by (rule bounded_readerI;
      auto simp: unpackUint16Msg_def unpackUint32Msg_def unpackBytesMsg_def Let_def split: if_splits)+

lemma bounded_return [simp]: "bounded_reader (\<lambda>m off. Inr (f, off))"
  by (rule bounded_readerI) auto

lemma bounded_name [simp]: "bounded_reader (nameUnpack emptyName)"
  by (rule bounded_readerI) (auto simp: nameUnpack_safe dest: nameUnpack_name_ok)

lemma bounded_section [simp]: "bounded_reader u \<Longrightarrow> bounded_reader (\<lambda>m off. newSectionErr sec (u m off))"
  by (rule bounded_readerI) (auto dest: bounded_readerD)

lemma bounded_bind:
  assumes "bounded_reader u" "\<And>a. bounded_reader (\<lambda>m off. v a m off)"
  shows "bounded_reader (\<lambda>m off. thenE (u m off) (\<lambda>(a, off). v a m off))"
proof (rule bounded_readerI)
  fix msg off assume off: "off \<le> length (msg :: bytes)"
  show "safe (thenE (u msg off) (\<lambda>(a, off). v a msg off))"
    using bounded_readerD [OF assms(1) off] bounded_readerD(1) [OF assms(2)]
    by (intro safe_thenE) auto
  fix b e assume "thenE (u msg off) (\<lambda>(a, off). v a msg off) = Inr (b, e)"
  then obtain a e' where a: "u msg off = Inr (a, e')" "v a msg e' = Inr (b, e)"
    by (auto simp: thenE_eq_Inr)
  have e': "off \<le> e'" "e' \<le> length msg" using bounded_readerD(2,3) [OF assms(1) off a(1)] .
  have "e' \<le> e" "e \<le> length msg" using bounded_readerD(2,3) [OF assms(2) e'(2) a(2)] .
  with e' show "off \<le> e \<and> e \<le> length msg" by simp
qed

section \<open>Packing steps\<close>

text \<open>
  A packing step takes the message, the compression map and the offset of the message in
  the buffer. \<open>appends\<close>: it only appends, and what it appends depends on the length of the
  message alone. \<open>writes f u a k\<close>: it always succeeds, keeps the compression map sound,
  and the reader \<open>u\<close> reads \<open>a\<close> from the result, if names of \<open>k\<close> labels can be read.
  \<open>takes f l\<close>: \<open>l\<close> bounds the bytes appended, exactly when there is no compression.
\<close>

type_synonym pstep = "bytes \<Rightarrow> cmap \<Rightarrow> nat \<Rightarrow> (bytes \<times> cmap) dres"

definition appends :: "pstep \<Rightarrow> bool" where
  "appends f \<longleftrightarrow> (\<forall>msg cm off msg' cm' msg2. f msg cm off = Inr (msg', cm') \<longrightarrow> length msg2 = length msg \<longrightarrow>
     (\<exists>x. msg' = msg @ x \<and> f msg2 cm off = Inr (msg2 @ x, cm')))"

definition writes :: "pstep \<Rightarrow> (bytes \<Rightarrow> nat \<Rightarrow> ('a \<times> nat) dres) \<Rightarrow> 'a \<Rightarrow> nat \<Rightarrow> bool" where
  "writes f u a k \<longleftrightarrow> (\<forall>msg cm off. off \<le> length msg \<longrightarrow> cmap_ok (drop off msg) cm \<longrightarrow>
     (\<exists>x cm'. f msg cm off = Inr (msg @ x, cm') \<and> cmap_le cm cm' \<and>
        cmap_ok (drop off msg @ x) cm' \<and>
        (hops cm k \<le> 10 \<longrightarrow> reads u (drop off msg) x a)))"

definition takes :: "pstep \<Rightarrow> (cmap \<Rightarrow> nat dres) \<Rightarrow> bool" where
  "takes f l \<longleftrightarrow> (\<forall>cm0 cm msg off x cm'. cmap_le cm0 cm \<longrightarrow> f msg cm off = Inr (msg @ x, cm') \<longrightarrow>
     (\<exists>n. l cm0 = Inr n \<and> length x \<le> n \<and> (cm0 = None \<longrightarrow> n = length x)) \<and> cmap_le cm cm')"

definition thenP :: "pstep \<Rightarrow> pstep \<Rightarrow> pstep" where
  "thenP f g msg cm off = thenE (f msg cm off) (\<lambda>(msg, cm). g msg cm off)"

definition putP :: "bytes \<Rightarrow> pstep" where
  "putP x msg cm off = Inr (msg @ x, cm)"

lemma appendsD: "appends f \<Longrightarrow> f msg cm off = Inr (msg', cm') \<Longrightarrow> length msg2 = length msg \<Longrightarrow>
    \<exists>x. msg' = msg @ x \<and> f msg2 cm off = Inr (msg2 @ x, cm')"
  unfolding appends_def by blast

lemma writesD: "writes f u a k \<Longrightarrow> off \<le> length msg \<Longrightarrow> cmap_ok (drop off msg) cm \<Longrightarrow>
    \<exists>x cm'. f msg cm off = Inr (msg @ x, cm') \<and> cmap_le cm cm' \<and> cmap_ok (drop off msg @ x) cm' \<and>
      (hops cm k \<le> 10 \<longrightarrow> reads u (drop off msg) x a)"
  unfolding writes_def by blast

lemma takesD: "takes f l \<Longrightarrow> cmap_le cm0 cm \<Longrightarrow> f msg cm off = Inr (msg @ x, cm') \<Longrightarrow>
    (\<exists>n. l cm0 = Inr n \<and> length x \<le> n \<and> (cm0 = None \<longrightarrow> n = length x)) \<and> cmap_le cm cm'"
  unfolding takes_def by blast

lemma appends_putP [simp]: "appends (putP x)"
  by (simp add: appends_def putP_def)

lemma writes_putP [simp]: "(\<And>pre. reads u pre x a) \<Longrightarrow> writes (putP x) u a 0"
  by (auto simp: writes_def putP_def intro: cmap_ok_append)

lemma takes_putP [simp]: "takes (putP x) (\<lambda>_. Inr (length x))"
  by (auto simp: takes_def putP_def)

lemma appends_thenP [simp]:
  assumes "appends f" "appends g"
  shows "appends (thenP f g)"
proof (unfold appends_def, intro allI impI)
  fix msg cm off msg' cm' msg2
  assume a: "thenP f g msg cm off = Inr (msg', cm')" "length (msg2 :: bytes) = length msg"
  then obtain m1 cm1 where 1: "f msg cm off = Inr (m1, cm1)" "g m1 cm1 off = Inr (msg', cm')"
    by (auto simp: thenP_def thenE_eq_Inr)
  from appendsD [OF assms(1) 1(1) a(2)] obtain x where x: "m1 = msg @ x" "f msg2 cm off = Inr (msg2 @ x, cm1)"
    by blast
  from appendsD [OF assms(2) 1(2), of "msg2 @ x"] a(2) x(1) obtain y where
    "msg' = m1 @ y" "g (msg2 @ x) cm1 off = Inr ((msg2 @ x) @ y, cm')" by auto
  with x show "\<exists>x. msg' = msg @ x \<and> thenP f g msg2 cm off = Inr (msg2 @ x, cm')"
    by (intro exI [of _ "x @ y"]) (simp add: thenP_def)
qed

lemma hops_cong: "cmap_le cm cm' \<Longrightarrow> hops cm' n = hops cm n"
  by (auto simp: hops_def cmap_le_def split: option.splits)

lemma hops_maxD: "hops cm (max m n) \<le> j \<Longrightarrow> hops cm m \<le> j" "hops cm (max m n) \<le> j \<Longrightarrow> hops cm n \<le> j"
  by (auto simp: hops_def split: option.splits)

lemma writes_thenP:
  assumes "writes f u a k" "writes g (\<lambda>m off. v m off a) b k2"
    and "\<And>m off. w m off = thenE (u m off) (\<lambda>(a, off). v m off a)"
  shows "writes (thenP f g) w b (max k k2)"
proof (unfold writes_def, intro allI impI)
  fix msg cm off
  assume a: "off \<le> length msg" "cmap_ok (drop off msg) cm"
  from writesD [OF assms(1) a] obtain x cm1 where 1: "f msg cm off = Inr (msg @ x, cm1)" "cmap_le cm cm1"
    "cmap_ok (drop off msg @ x) cm1" "hops cm k \<le> 10 \<longrightarrow> reads u (drop off msg) x a" by blast
  have d: "drop off (msg @ x) = drop off msg @ x" using a by simp
  from writesD [OF assms(2), of off "msg @ x" cm1] a 1(3) d obtain y cm2 where 2:
    "g (msg @ x) cm1 off = Inr (msg @ x @ y, cm2)" "cmap_le cm1 cm2" "cmap_ok (drop off msg @ x @ y) cm2"
    "hops cm1 k2 \<le> 10 \<longrightarrow> reads (\<lambda>m off. v m off a) (drop off msg @ x) y b" by auto
  have "reads w (drop off msg) (x @ y) b" if "hops cm (max k k2) \<le> 10"
  proof (rule reads_bindI [where u = u and v = v])
    show "reads u (drop off msg) x a" using 1(4) hops_maxD(1) [OF that] by simp
    show "reads (\<lambda>m off. v m off a) (drop off msg @ x) y b"
      using 2(4) hops_maxD(2) [OF that] hops_cong [OF 1(2)] by simp
  qed (rule assms(3))
  with 1 2 cmap_le_trans [OF 1(2) 2(2)]
  show "\<exists>x cm'. thenP f g msg cm off = Inr (msg @ x, cm') \<and> cmap_le cm cm' \<and>
      cmap_ok (drop off msg @ x) cm' \<and>
      (hops cm (max k k2) \<le> 10 \<longrightarrow> reads w (drop off msg) x b)"
    by (intro exI [of _ "x @ y"] exI [of _ cm2]) (auto simp: thenP_def)
qed

lemma takes_thenP:
  assumes "appends f" "takes f la" "appends g" "takes g lb"
    and "\<And>cm n n2. la cm = Inr n \<Longrightarrow> lb cm = Inr n2 \<Longrightarrow> lc cm = Inr (n + n2)"
  shows "takes (thenP f g) lc"
proof (unfold takes_def, intro allI impI)
  fix cm0 cm msg off x cm'
  assume a: "cmap_le cm0 cm" "thenP f g msg cm off = Inr (msg @ x, cm')"
  then obtain m1 cm1 where 1: "f msg cm off = Inr (m1, cm1)" "g m1 cm1 off = Inr (msg @ x, cm')"
    by (auto simp: thenP_def thenE_eq_Inr)
  from appendsD [OF assms(1) 1(1) refl] obtain y where y: "m1 = msg @ y" by blast
  from appendsD [OF assms(3) 1(2) refl] y obtain z where z: "x = y @ z" by auto
  from takesD [OF assms(2) a(1) 1(1) [unfolded y]] obtain n where n: "la cm0 = Inr n" "length y \<le> n"
    "cm0 = None \<longrightarrow> n = length y" "cmap_le cm cm1" by blast
  have "g m1 cm1 off = Inr (m1 @ z, cm')" using 1(2) y z by simp
  from takesD [OF assms(4) cmap_le_trans [OF a(1) n(4)] this] obtain n2 where n2: "lb cm0 = Inr n2"
    "length z \<le> n2" "cm0 = None \<longrightarrow> n2 = length z" "cmap_le cm1 cm'" by blast
  have "lc cm0 = Inr (n + n2)" using n(1) n2(1) by (rule assms(5))
  then show "(\<exists>n. lc cm0 = Inr n \<and> length x \<le> n \<and> (cm0 = None \<longrightarrow> n = length x)) \<and> cmap_le cm cm'"
    using n n2 z cmap_le_trans [OF n(4) n2(4)] by (intro conjI exI [of _ "n + n2"]) auto
qed

section \<open>The section loops\<close>

text \<open>
  \<^verbatim>\<open>Msg.Unpack\<close> reads the announced number of elements one after another.
\<close>

fun unpackMany :: "(bytes \<Rightarrow> nat \<Rightarrow> ('a \<times> nat) dres) \<Rightarrow> nat \<Rightarrow> bytes \<Rightarrow> nat \<Rightarrow> 'a list \<Rightarrow>
    ('a list \<times> nat) dres" where
  "unpackMany u 0 msg off acc = Inr (acc, off)"
| "unpackMany u (Suc n) msg off acc =
     thenE (u msg off) (\<lambda>(a, off). unpackMany u n msg off (acc @ [a]))"

text \<open>
  \<^verbatim>\<open>Msg.Pack\<close> packs the elements of a section, leaving out those to \<open>skip\<close> and, when a
  size limit is set, those that would not fit, which sets the truncated flag \<open>tc\<close> of the
  header copy.
\<close>

fun packMany :: "('a \<Rightarrow> bytes \<Rightarrow> cmap \<Rightarrow> nat \<Rightarrow> (bytes \<times> cmap) dres) \<Rightarrow> ('a \<Rightarrow> cmap \<Rightarrow> nat dres) \<Rightarrow>
    ('a \<Rightarrow> bool) \<Rightarrow> int \<Rightarrow> nat \<Rightarrow> 'a list \<Rightarrow> bytes \<Rightarrow> cmap \<Rightarrow> bool \<Rightarrow> (bytes \<times> cmap \<times> bool) dres" where
  "packMany pk pl skip limit off [] b cm tc = Inr (b, cm, tc)"
| "packMany pk pl skip limit off (x # xs) b cm tc =
    (if skip x then packMany pk pl skip limit off xs b cm tc
     else if limit > 0 then
       thenE (pl x cm) (\<lambda>l.
         if int (length b + l) > limit then packMany pk pl skip limit off xs b cm True
         else thenE (pk x b cm off) (\<lambda>(b, cm). packMany pk pl skip limit off xs b cm tc))
     else thenE (pk x b cm off) (\<lambda>(b, cm). packMany pk pl skip limit off xs b cm tc))"

lemma bounded_unpackMany [simp]:
  assumes "bounded_reader u"
  shows "bounded_reader (\<lambda>m off. unpackMany u n m off acc)"
proof (induction n arbitrary: acc)
  case (Suc n)
  show ?case using bounded_bind [OF assms, of "\<lambda>a m off. unpackMany u n m off (acc @ [a])"] Suc by simp
qed simp

lemma unpackMany_length:
  "unpackMany u n msg off acc = Inr (ys, e) \<Longrightarrow> length ys = length acc + n"
  by (induction n arbitrary: off acc) (auto simp: res_simps)

lemma unpackMany_all:
  assumes "\<And>msg off a e. u msg off = Inr (a, e) \<Longrightarrow> P a"
  shows "unpackMany u n msg off acc = Inr (ys, e) \<Longrightarrow> list_all P acc \<Longrightarrow> list_all P ys"
  using assms by (induction n arbitrary: off acc) (auto simp: res_simps)

lemma packMany_append_only:
  assumes "\<And>a msg cm off msg' cm' msg2. pk a msg cm off = Inr (msg', cm') \<Longrightarrow> length msg2 = length msg \<Longrightarrow>
      \<exists>x. msg' = msg @ x \<and> pk a msg2 cm off = Inr (msg2 @ x, cm')"
  shows "packMany pk pl skip limit off xs b cm tc = Inr (b', cm', tc') \<Longrightarrow> length b2 = length b \<Longrightarrow>
    \<exists>x. b' = b @ x \<and> packMany pk pl skip limit off xs b2 cm tc = Inr (b2 @ x, cm', tc')"
proof (induction xs arbitrary: b b2 cm tc)
  case (Cons y ys)
  have go: ?case if "thenE (pk y b cm off) (\<lambda>(b, cm). packMany pk pl skip limit off ys b cm tc) = Inr (b', cm', tc')"
    and "packMany pk pl skip limit off (y # ys) b2 cm tc =
      thenE (pk y b2 cm off) (\<lambda>(b, cm). packMany pk pl skip limit off ys b cm tc)"
  proof -
    from that(1) obtain b1 cm1 where 1: "pk y b cm off = Inr (b1, cm1)"
      "packMany pk pl skip limit off ys b1 cm1 tc = Inr (b', cm', tc')" by (auto simp: thenE_eq_Inr)
    from assms [OF 1(1) Cons.prems(2)] obtain x where x: "b1 = b @ x" "pk y b2 cm off = Inr (b2 @ x, cm1)"
      by blast
    from Cons.IH [OF 1(2), of "b2 @ x"] x(1) Cons.prems(2) obtain x' where
      "b' = b1 @ x'" "packMany pk pl skip limit off ys (b2 @ x) cm1 tc = Inr (b2 @ x @ x', cm', tc')"
      by auto
    with x that(2) show ?thesis by auto
  qed
  show ?case
  proof (cases "skip y")
    case True
    then show ?thesis using Cons by simp
  next
    case ns: False
    show ?thesis
    proof (cases "limit > 0")
      case True
      then obtain l where l: "pl y cm = Inr l" using Cons.prems(1) ns by (auto simp: thenE_eq_Inr)
      show ?thesis
      proof (cases "int (length b + l) > limit")
        case big: True
        then show ?thesis using Cons ns l True by simp
      next
        case False
        then show ?thesis using go Cons.prems ns l True by simp
      qed
    next
      case False
      then show ?thesis using go Cons.prems ns by simp
    qed
  qed
qed simp

section \<open>The interface of a wire element\<close>

text \<open>
  \<open>depth a\<close> is the number of labels of the longest name of \<open>a\<close>, \<open>same\<close> says what an unpacked element has in common with the packed one.
\<close>

locale wire_codec =
  fixes pack :: "'a \<Rightarrow> bytes \<Rightarrow> cmap \<Rightarrow> nat \<Rightarrow> (bytes \<times> cmap) dres"
    and packLen :: "'a \<Rightarrow> cmap \<Rightarrow> nat dres"
    and unpack :: "bytes \<Rightarrow> nat \<Rightarrow> ('a \<times> nat) dres"
    and valid :: "'a \<Rightarrow> bool"
    and same :: "'a \<Rightarrow> 'a \<Rightarrow> bool"
    and depth :: "'a \<Rightarrow> nat"
  assumes append_only: "pack a msg cm off = Inr (msg', cm') \<Longrightarrow> length msg2 = length msg \<Longrightarrow>
      \<exists>x. msg' = msg @ x \<and> pack a msg2 cm off = Inr (msg2 @ x, cm')"
    and packs: "valid a \<Longrightarrow> off \<le> length msg \<Longrightarrow> cmap_ok (drop off msg) cm \<Longrightarrow>
      \<exists>x cm'. pack a msg cm off = Inr (msg @ x, cm') \<and> cmap_le cm cm' \<and>
        cmap_ok (drop off msg @ x) cm' \<and>
        (hops cm (depth a) \<le> 10 \<longrightarrow> (\<exists>a'. reads unpack (drop off msg) x a' \<and> same a a'))"
    and len: "valid a \<Longrightarrow> cmap_le cm0 cm \<Longrightarrow> pack a msg cm off = Inr (msg @ x, cm') \<Longrightarrow>
      \<exists>n. packLen a cm0 = Inr n \<and> length x \<le> n \<and> (cm0 = None \<longrightarrow> n = length x)"
    and bounded: "bounded_reader unpack"
    and unpack_valid: "unpack msg off = Inr (a, e) \<Longrightarrow> valid a"

fun names_depth :: "('a \<Rightarrow> nat) \<Rightarrow> 'a list \<Rightarrow> nat" where
  "names_depth d [] = 0"
| "names_depth d (x # xs) = max (d x) (names_depth d xs)"

context wire_codec begin

lemma packMany_appends:
  "packMany pack pl skip limit off xs b cm tc = Inr (b', cm', tc') \<Longrightarrow> length b2 = length b \<Longrightarrow>
    \<exists>x. b' = b @ x \<and> packMany pack pl skip limit off xs b2 cm tc = Inr (b2 @ x, cm', tc')"
  by (rule packMany_append_only) (blast dest: append_only)+

lemma packMany_unlimited:
  assumes "list_all valid xs" "off \<le> length b" "cmap_ok (drop off b) cm" "\<not> limit > 0"
    and "\<forall>x \<in> set xs. \<not> skip x"
  shows "\<exists>x cm'. packMany pack packLen skip limit off xs b cm tc = Inr (b @ x, cm', tc) \<and> cmap_le cm cm' \<and>
    cmap_ok (drop off b @ x) cm' \<and>
    (hops cm (names_depth depth xs) \<le> 10 \<longrightarrow>
      (\<exists>ys. reads (\<lambda>m off. unpackMany unpack (length xs) m off acc) (drop off b) x (acc @ ys) \<and>
        list_all2 same xs ys))"
  using assms
proof (induction xs arbitrary: b cm acc)
  case Nil
  then show ?case by (auto simp: reads_def intro!: exI [of _ "[]"])
next
  case (Cons a as)
  let ?S = "names_depth depth as"
  from packs [of a off b cm] Cons.prems obtain x cm1 where 1:
    "pack a b cm off = Inr (b @ x, cm1)" "cmap_le cm cm1" "cmap_ok (drop off b @ x) cm1"
    "hops cm (depth a) \<le> 10 \<longrightarrow> (\<exists>a'. reads unpack (drop off b) x a' \<and> same a a')" by auto
  have d: "drop off (b @ x) = drop off b @ x" using Cons.prems(2) by simp
  have hops1: "hops cm1 n = hops cm n" for n
    using 1(2) by (auto simp: hops_def cmap_le_def split: option.splits)
  from Cons.IH [of "b @ x" cm1 acc] Cons.prems 1(3) obtain y cm' where 2:
    "packMany pack packLen skip limit off as (b @ x) cm1 tc = Inr (b @ x @ y, cm', tc)" "cmap_le cm1 cm'"
    "cmap_ok (drop off b @ x @ y) cm'"
    by (auto simp: d)
  have rd: "\<exists>ys. reads (\<lambda>m off. unpackMany unpack (length (a # as)) m off acc) (drop off b) (x @ y) (acc @ ys) \<and>
      list_all2 same (a # as) ys" if h: "hops cm (max (depth a) ?S) \<le> 10"
  proof -
    have "hops cm (depth a) \<le> 10" using hops_maxD(1) [OF h] .
    then obtain a' where a': "reads unpack (drop off b) x a'" "same a a'" using 1(4) by blast
    from Cons.IH [of "b @ x" cm1 "acc @ [a']"] Cons.prems 1(3) 2(1) hops_maxD(2) [OF h] obtain ys where ys:
      "reads (\<lambda>m off. unpackMany unpack (length as) m off (acc @ [a'])) (drop off b @ x) y (acc @ [a'] @ ys)"
      "list_all2 same as ys"
      by (auto simp: d hops1)
    have "reads (\<lambda>m off. unpackMany unpack (length (a # as)) m off acc) (drop off b) (x @ y) (acc @ [a'] @ ys)"
      by (rule reads_bindI [where v = "\<lambda>m off a. unpackMany unpack (length as) m off (acc @ [a])", OF a'(1)])
        (use ys(1) in simp_all)
    with a'(2) ys(2) show ?thesis by (intro exI [of _ "a' # ys"]) simp
  qed
  show ?case using 1 2 rd Cons.prems cmap_le_trans [OF 1(2) 2(2)] by (auto simp: add.assoc)
qed

lemma packMany_limited:
  assumes "list_all valid xs" "off \<le> length b" "cmap_ok (drop off b) cm" "limit > 0"
  shows "\<exists>x cm' tc'. packMany pack packLen skip limit off xs b cm tc = Inr (b @ x, cm', tc') \<and>
    cmap_le cm cm' \<and> cmap_ok (drop off b @ x) cm' \<and> (tc \<longrightarrow> tc') \<and>
    int (length (b @ x)) \<le> max (int (length b)) limit"
  using assms
proof (induction xs arbitrary: b cm tc)
  case Nil
  then show ?case by (auto intro!: exI [of _ "[]"])
next
  case (Cons a as)
  show ?case
  proof (cases "skip a")
    case True
    then show ?thesis using Cons.IH [of b cm tc] Cons.prems by simp
  next
    case ns: False
    from packs [of a off b cm] Cons.prems obtain x cm1 where 1:
      "pack a b cm off = Inr (b @ x, cm1)" "cmap_le cm cm1" "cmap_ok (drop off b @ x) cm1" by auto
    from len [OF _ cmap_le_refl 1(1)] Cons.prems(1) obtain l where l: "packLen a cm = Inr l" "length x \<le> l" by auto
    show ?thesis
    proof (cases "int (length b + l) > limit")
      case True
      then show ?thesis using Cons.IH [of b cm True] Cons.prems ns l by auto
    next
      case False
      have d: "drop off (b @ x) = drop off b @ x" using Cons.prems(2) by simp
      from Cons.IH [of "b @ x" cm1 tc] Cons.prems 1(3) d obtain y cm' tc' where 2:
        "packMany pack packLen skip limit off as (b @ x) cm1 tc = Inr (b @ x @ y, cm', tc')"
        "cmap_le cm1 cm'" "cmap_ok (drop off b @ x @ y) cm'" "tc \<longrightarrow> tc'"
        "int (length (b @ x @ y)) \<le> max (int (length (b @ x))) limit"
        by auto
      have "int (length (b @ x @ y)) \<le> max (int (length b)) limit"
        using 2(5) False l(2) by auto
      then show ?thesis using 1(1) 2 l(1) False ns Cons.prems(4) cmap_le_trans [OF 1(2) 2(2)]
        by (intro exI [of _ "x @ y"] exI [of _ cm'] exI [of _ tc'] ) simp
    qed
  qed
qed

lemma packMany_total_len:
  assumes "list_all valid xs" "\<not> limit > 0" "\<forall>x \<in> set xs. \<not> skip x" "off \<le> length b"
    and "packMany pack packLen skip limit off xs b None tc = Inr (b', cm', tc')"
  shows "\<exists>ns. list_all2 (\<lambda>x n. packLen x None = Inr n) xs ns \<and> length b' = length b + sum_list ns \<and> cm' = None"
  using assms
proof (induction xs arbitrary: b)
  case Nil
  then show ?case by simp
next
  case (Cons a as)
  then obtain b1 cm1 where 1: "pack a b None off = Inr (b1, cm1)"
    "packMany pack packLen skip limit off as b1 cm1 tc = Inr (b', cm', tc')" by (auto simp: thenE_eq_Inr)
  have v: "valid a" using Cons.prems by simp
  from packs [OF v Cons.prems(4), of None] 1(1) obtain x where x: "b1 = b @ x" "cm1 = None"
    by (auto simp: cmap_le_def)
  from len [OF v cmap_le_refl 1(1) [unfolded x(1)]] obtain n where n: "packLen a None = Inr n" "n = length x"
    by auto
  from Cons.IH [of b1] Cons.prems 1(2) x obtain ns where
    "list_all2 (\<lambda>x n. packLen x None = Inr n) as ns" "length b' = length b1 + sum_list ns" "cm' = None"
    by auto
  with n x show ?case by (intro exI [of _ "n # ns"]) simp
qed

end

section \<open>Names offer the interface\<close>

text \<open>A name that unpacking can return: \<^verbatim>\<open>Name.unpack\<close> accepts 254 wire bytes at most.\<close>

definition packable :: "Name \<Rightarrow> bool" where
  "packable n \<longleftrightarrow> name_ok n \<and> length (nb n) \<le> 254"

definition nlabels :: "Name \<Rightarrow> nat" where
  "nlabels n = length (ns n)"

lemma length_ranges [simp]: "length (ranges i ls) = length ls"
  by (induction ls arbitrary: i) auto

lemma nlabels_name_of [simp]: "nlabels (name_of ls) = length ls"
  by (simp add: nlabels_def name_of_def)

abbreviation nameUnpackNew :: "bytes \<Rightarrow> nat \<Rightarrow> (Name \<times> nat) dres" where
  "nameUnpackNew \<equiv> nameUnpack emptyName"

lemma appends_name [simp]: "appends (namePack n)"
  unfolding appends_def namePack_def using namePackFrom_append_only by blast

lemma writes_name:
  assumes "name_ok n" "length (nb n) \<le> 254"
  shows "writes (namePack n) nameUnpackNew n (nlabels n)"
proof (unfold writes_def, intro allI impI)
  fix msg cm off
  assume a: "off \<le> length msg" "cmap_ok (drop off msg) cm"
  from assms obtain ls where ls: "n = name_of ls" "labels_ok ls" "length (wire ls) \<le> 254"
    by (auto simp: name_ok_def)
  have "\<forall>suf p. cmap_find cm suf = Some p \<and> length suf \<le> length (wire ls) \<longrightarrow> good_entry (drop off msg) suf p"
    using a(2) by (simp add: cmap_ok_def)
  from namePackFrom_decodes [OF ls(2) a(1) this] obtain x cm' k where 1:
    "namePackFrom (wire ls) msg cm off = Inr (msg @ x, cm')" "cmap_le cm cm'"
    "decodes (drop off (msg @ x)) (length msg - off) ls k (length (msg @ x) - off)" "k \<le> hops cm (length ls)"
    "\<forall>suf p. cmap_find cm' suf = Some p \<longrightarrow>
      cmap_find cm suf = Some p \<or> good_entry (drop off (msg @ x)) suf p" by blast
  have ok: "cmap_ok (drop off msg @ x) cm'"
    unfolding cmap_ok_def
  proof (intro allI impI)
    fix suf p assume "cmap_find cm' suf = Some p"
    then consider "cmap_find cm suf = Some p" | "good_entry (drop off (msg @ x)) suf p"
      using 1(5) by blast
    then show "good_entry (drop off msg @ x) suf p"
    proof cases
      case 1
      then show ?thesis
        using cmap_ok_append [OF a(2), of x] by (simp add: cmap_ok_def)
    qed (use a in simp)
  qed
  have "reads nameUnpackNew (drop off msg) x n" if "hops cm (nlabels n) \<le> 10"
  proof (unfold reads_def, intro allI)
    fix z
    have "decodes (drop off msg @ x @ z) (length msg - off) ls k (length (msg @ x) - off)"
      using decodes_append [OF 1(3), of z] a(1) by simp
    then show "nameUnpackNew (drop off msg @ x @ z) (length (drop off msg)) =
        Inr (n, length (drop off msg) + length x)"
      unfolding nameUnpack_iff using that 1(4) ls a(1) nlabels_name_of [of ls] by (intro exI [of _ ls] exI [of _ k]) auto
  qed
  with 1(1,2) ok ls(1) show "\<exists>x cm'. namePack n msg cm off = Inr (msg @ x, cm') \<and> cmap_le cm cm' \<and>
      cmap_ok (drop off msg @ x) cm' \<and> (hops cm (nlabels n) \<le> 10 \<longrightarrow> reads nameUnpackNew (drop off msg) x n)"
    by (auto simp: namePack_def)
qed

lemma takes_name_le:
  assumes "name_ok n" "\<forall>suf. cmap_find cm0 suf \<noteq> None \<longrightarrow> cmap_find cm suf \<noteq> None"
    and "namePack n msg cm off = Inr (msg @ x, cm')"
  shows "\<exists>m. namePackLen n cm0 = Inr m \<and> length x \<le> m \<and> m \<le> length (nb n) \<and>
    (cm0 = None \<and> cm = None \<longrightarrow> m = length x)"
proof -
  from assms(1) obtain ls where ls: "n = name_of ls" "labels_ok ls" by (auto simp: name_ok_def)
  from namePackLenFrom_wire [OF ls(2), of cm cm msg off 0] assms(3) ls(1)
  have x: "namePackLenFrom 0 (wire ls) cm = Inr (length x)" by (auto simp: namePack_def)
  from namePackLenFrom_antimono [OF ls(2) assms(2), of 0] x ls(1) show ?thesis
    by (auto simp: namePackLen_def)
qed

lemma cmap_le_namePack:
  assumes "name_ok n" "namePack n msg cm off = Inr (msg', cm')"
  shows "cmap_le cm cm'"
proof -
  have "namePackFrom r msg cm off = Inr (msg', cm') \<Longrightarrow> cmap_le cm cm'" for r
  proof (induction r msg cm off rule: namePackFrom.induct)
    case (2 c cs msg cm off)
    then show ?case using cmap_le_trans [OF cmap_add_le]
      by (auto split: if_splits option.splits)
  qed simp
  then show ?thesis using assms(2) by (simp add: namePack_def)
qed

lemma takes_name [simp]: "name_ok n \<Longrightarrow> takes (namePack n) (namePackLen n)"
  unfolding takes_def
proof (intro allI impI)
  fix cm0 cm msg off x cm'
  assume a: "name_ok n" "cmap_le cm0 cm" "namePack n msg cm off = Inr (msg @ x, cm')"
  show "(\<exists>m. namePackLen n cm0 = Inr m \<and> length x \<le> m \<and> (cm0 = None \<longrightarrow> m = length x)) \<and> cmap_le cm cm'"
    using takes_name_le [OF a(1) _ a(3), of cm0] a(2) cmap_le_namePack [OF a(1,3)]
    by (auto simp: cmap_le_def)
qed

interpretation name_codec: wire_codec namePack namePackLen nameUnpackNew packable "(=)" nlabels
proof unfold_locales
  fix a :: Name and msg cm off msg' cm' and msg2 :: bytes
  show "namePack a msg cm off = Inr (msg', cm') \<Longrightarrow> length msg2 = length msg \<Longrightarrow>
      \<exists>x. msg' = msg @ x \<and> namePack a msg2 cm off = Inr (msg2 @ x, cm')"
    by (rule appendsD [OF appends_name])
next
  fix a off msg cm
  assume "packable a" "off \<le> length msg" "cmap_ok (drop off msg) cm"
  then show "\<exists>x cm'. namePack a msg cm off = Inr (msg @ x, cm') \<and> cmap_le cm cm' \<and>
      cmap_ok (drop off msg @ x) cm' \<and>
      (hops cm (nlabels a) \<le> 10 \<longrightarrow> (\<exists>a'. reads nameUnpackNew (drop off msg) x a' \<and> a = a'))"
    using writesD [OF writes_name, of a off msg cm] by (auto simp: packable_def)
next
  fix a cm0 cm msg off x cm'
  assume "packable a" "cmap_le cm0 cm" "namePack a msg cm off = Inr (msg @ x, cm')"
  then show "\<exists>n. namePackLen a cm0 = Inr n \<and> length x \<le> n \<and> (cm0 = None \<longrightarrow> n = length x)"
    using takesD [OF takes_name] by (auto simp: packable_def)
next
  show "bounded_reader nameUnpackNew" by simp
next
  fix msg off a e
  assume "nameUnpackNew msg off = Inr (a, e)"
  then show "packable a" using nameUnpack_name_ok [of msg off a e]
    by (auto simp: packable_def nameUnpack_iff)
qed

end
