(* ===== verification/DnsRR.thy ===== *)
theory DnsRR
  imports DnsCodec
begin

text \<open>
  Questions (\<^verbatim>\<open>question.go\<close>) and resource records (\<^verbatim>\<open>rr.go\<close>): the record types the
  package decodes, packing and unpacking of the header and of each body, and the two
  interpretations of the wire interface that \<^verbatim>\<open>Msg\<close> relies on.
\<close>

section \<open>Questions\<close>

record Question =
  qName :: Name
  qType :: u16
  qClass :: u16

definition questionPack :: "Question \<Rightarrow> pstep" where
  "questionPack q msg cm off =
    thenE (newSectionErr ''name'' (namePack (qName q) msg cm off)) (\<lambda>(msg, cm).
      Inr (msg @ put_u16 (qType q) @ put_u16 (qClass q), cm))"

definition questionPackLen :: "Question \<Rightarrow> cmap \<Rightarrow> nat dres" where
  "questionPackLen q cm = thenE (newSectionErr ''name'' (namePackLen (qName q) cm)) (\<lambda>l. Inr (l + 4))"

definition questionUnpack :: "bytes \<Rightarrow> nat \<Rightarrow> (Question \<times> nat) dres" where
  "questionUnpack msg off =
    thenE (newSectionErr ''name'' (nameUnpackNew msg off)) (\<lambda>(name, off).
    thenE (newSectionErr ''type'' (unpackUint16Msg msg off)) (\<lambda>(typ, off).
    thenE (newSectionErr ''class'' (unpackUint16Msg msg off)) (\<lambda>(cls, off).
      Inr (\<lparr>qName = name, qType = typ, qClass = cls\<rparr>, off))))"

section \<open>Resource records\<close>

abbreviation TypeA :: u16 where "TypeA \<equiv> 1"
abbreviation TypeNS :: u16 where "TypeNS \<equiv> 2"
abbreviation TypeCNAME :: u16 where "TypeCNAME \<equiv> 5"
abbreviation TypeSOA :: u16 where "TypeSOA \<equiv> 6"
abbreviation TypePTR :: u16 where "TypePTR \<equiv> 12"
abbreviation TypeMX :: u16 where "TypeMX \<equiv> 15"
abbreviation TypeAAAA :: u16 where "TypeAAAA \<equiv> 28"
abbreviation TypeSRV :: u16 where "TypeSRV \<equiv> 33"
abbreviation TypeOPT :: u16 where "TypeOPT \<equiv> 41"
abbreviation ClassINET :: u16 where "ClassINET \<equiv> 1"

record ResourceHdr =
  hName :: Name
  hType :: u16
  hClass :: u16
  hTTL :: u32
  hLength :: u16

definition hdrUnpack :: "bytes \<Rightarrow> nat \<Rightarrow> (ResourceHdr \<times> nat) dres" where
  "hdrUnpack msg off =
    thenE (newSectionErr ''name'' (nameUnpackNew msg off)) (\<lambda>(name, off).
    thenE (newSectionErr ''type'' (unpackUint16Msg msg off)) (\<lambda>(typ, off).
    thenE (newSectionErr ''class'' (unpackUint16Msg msg off)) (\<lambda>(cls, off).
    thenE (newSectionErr ''ttl'' (unpackUint32Msg msg off)) (\<lambda>(ttl, off).
    thenE (newSectionErr ''length'' (unpackUint16Msg msg off)) (\<lambda>(dataLen, off).
      Inr (\<lparr>hName = name, hType = typ, hClass = cls, hTTL = ttl, hLength = dataLen\<rparr>, off))))))"

definition hdrPack :: "ResourceHdr \<Rightarrow> u16 \<Rightarrow> pstep" where
  "hdrPack h dataLen msg cm off =
    thenE (newSectionErr ''name'' (namePack (hName h) msg cm off)) (\<lambda>(msg, cm).
      Inr (msg @ put_u16 (hType h) @ put_u16 (hClass h) @ put_u32 (hTTL h) @ put_u16 dataLen, cm))"

definition hdrPackLen :: "ResourceHdr \<Rightarrow> cmap \<Rightarrow> nat dres" where
  "hdrPackLen h cm = thenE (namePackLen (hName h) cm) (\<lambda>l. Inr (l + 10))"

text \<open>The record types; each carries its header, as the structs embed \<^verbatim>\<open>ResourceHdr\<close>.\<close>

datatype Resource =
    A_rr (Hdr: ResourceHdr) (rA: bytes)
  | AAAA_rr (Hdr: ResourceHdr) (rAAAA: bytes)
  | NAME_rr (Hdr: ResourceHdr) (rNameData: Name)
  | SOA_rr (Hdr: ResourceHdr) (rNS: Name) (rMBox: Name)
      (rSerial: u32) (rRefresh: u32) (rRetry: u32) (rExpire: u32) (rMinTTL: u32)
  | MX_rr (Hdr: ResourceHdr) (rPref: u16) (rMX: Name)
  | SRV_rr (Hdr: ResourceHdr) (rPriority: u16) (rWeight: u16) (rPort: u16) (rTarget: Name)
  | Raw_rr (Hdr: ResourceHdr) (rData: bytes)

fun setHdr :: "ResourceHdr \<Rightarrow> Resource \<Rightarrow> Resource" where
  "setHdr h (A_rr _ a) = A_rr h a"
| "setHdr h (AAAA_rr _ a) = AAAA_rr h a"
| "setHdr h (NAME_rr _ n) = NAME_rr h n"
| "setHdr h (SOA_rr _ nsd mb s rf rt ex mt) = SOA_rr h nsd mb s rf rt ex mt"
| "setHdr h (MX_rr _ p n) = MX_rr h p n"
| "setHdr h (SRV_rr _ p w po n) = SRV_rr h p w po n"
| "setHdr h (Raw_rr _ d) = Raw_rr h d"

text \<open>\<^verbatim>\<open>packBody\<close> of each type.\<close>

definition packBodyA :: "bytes \<Rightarrow> pstep" where [simp]:
  "packBodyA a msg cm off = Inr (msg @ a, cm)"

definition packBodyAAAA :: "bytes \<Rightarrow> pstep" where [simp]:
  "packBodyAAAA a msg cm off = Inr (msg @ a, cm)"

definition packBodyNAME :: "Name \<Rightarrow> pstep" where [simp]:
  "packBodyNAME n msg cm off = newSectionErr ''data'' (namePack n msg cm off)"

definition packBodySOA :: "Name \<Rightarrow> Name \<Rightarrow> u32 \<Rightarrow> u32 \<Rightarrow> u32 \<Rightarrow> u32 \<Rightarrow> u32 \<Rightarrow> pstep" where [simp]:
  "packBodySOA nsd mb serial refresh retry expire minttl msg cm off =
    thenE (newSectionErr ''ns'' (namePack nsd msg cm off)) (\<lambda>(msg, cm).
    thenE (newSectionErr ''mbox'' (namePack mb msg cm off)) (\<lambda>(msg, cm).
      Inr (msg @ put_u32 serial @ put_u32 refresh @ put_u32 retry @ put_u32 expire @ put_u32 minttl, cm)))"

definition packBodyMX :: "u16 \<Rightarrow> Name \<Rightarrow> pstep" where [simp]:
  "packBodyMX pref n msg cm off = newSectionErr ''mx'' (namePack n (msg @ put_u16 pref) cm off)"

definition packBodySRV :: "u16 \<Rightarrow> u16 \<Rightarrow> u16 \<Rightarrow> Name \<Rightarrow> pstep" where [simp]:
  "packBodySRV priority weight port n msg cm off =
    newSectionErr ''target'' (namePack n (msg @ put_u16 priority @ put_u16 weight @ put_u16 port) cm off)"

definition packBodyRaw :: "bytes \<Rightarrow> pstep" where [simp]:
  "packBodyRaw d msg cm off = Inr (msg @ d, cm)"

fun packBody :: "Resource \<Rightarrow> pstep" where
  "packBody (A_rr _ a) msg cm off = packBodyA a msg cm off"
| "packBody (AAAA_rr _ a) msg cm off = packBodyAAAA a msg cm off"
| "packBody (NAME_rr _ n) msg cm off = packBodyNAME n msg cm off"
| "packBody (SOA_rr _ nsd mb serial refresh retry expire minttl) msg cm off =
    packBodySOA nsd mb serial refresh retry expire minttl msg cm off"
| "packBody (MX_rr _ pref n) msg cm off = packBodyMX pref n msg cm off"
| "packBody (SRV_rr _ priority weight port n) msg cm off = packBodySRV priority weight port n msg cm off"
| "packBody (Raw_rr _ d) msg cm off = packBodyRaw d msg cm off"

text \<open>\<^verbatim>\<open>packBodyLen\<close> of each type; the one of a name is its \<open>namePackLen\<close>.\<close>

definition packBodyLenSOA :: "Name \<Rightarrow> Name \<Rightarrow> cmap \<Rightarrow> nat dres" where [simp]:
  "packBodyLenSOA nsd mb cm =
    thenE (newSectionErr ''ns'' (namePackLen nsd cm)) (\<lambda>l.
    thenE (newSectionErr ''mbox'' (namePackLen mb cm)) (\<lambda>l2. Inr (l + l2 + 20)))"

definition packBodyLenMX :: "Name \<Rightarrow> cmap \<Rightarrow> nat dres" where [simp]:
  "packBodyLenMX n cm = thenE (newSectionErr ''mx'' (namePackLen n cm)) (\<lambda>l. Inr (2 + l))"

definition packBodyLenSRV :: "Name \<Rightarrow> cmap \<Rightarrow> nat dres" where [simp]:
  "packBodyLenSRV n cm = thenE (newSectionErr ''target'' (namePackLen n None)) (\<lambda>l. Inr (6 + l))"

fun packBodyLen :: "Resource \<Rightarrow> cmap \<Rightarrow> nat dres" where
  "packBodyLen (A_rr _ a) cm = Inr 4"
| "packBodyLen (AAAA_rr _ a) cm = Inr 16"
| "packBodyLen (NAME_rr _ n) cm = namePackLen n cm"
| "packBodyLen (SOA_rr _ nsd mb _ _ _ _ _) cm = packBodyLenSOA nsd mb cm"
| "packBodyLen (MX_rr _ _ n) cm = packBodyLenMX n cm"
| "packBodyLen (SRV_rr _ _ _ _ n) cm = packBodyLenSRV n cm"
| "packBodyLen (Raw_rr _ d) cm = Inr (length d)"

text \<open>\<^verbatim>\<open>unpackBody\<close> of each type.\<close>

type_synonym 'a reader = "bytes \<Rightarrow> nat \<Rightarrow> ('a \<times> nat) dres"

definition unpackBodyA :: "ResourceHdr \<Rightarrow> Resource reader" where
  "unpackBodyA h msg off = thenE (unpackBytesMsg msg off 4) (\<lambda>(a, off). Inr (A_rr h a, off))"

definition unpackBodyAAAA :: "ResourceHdr \<Rightarrow> Resource reader" where
  "unpackBodyAAAA h msg off = thenE (unpackBytesMsg msg off 16) (\<lambda>(a, off). Inr (AAAA_rr h a, off))"

definition unpackBodyMX :: "ResourceHdr \<Rightarrow> Resource reader" where
  "unpackBodyMX h msg off =
    thenE (newSectionErr ''pref'' (unpackUint16Msg msg off)) (\<lambda>(pref, off).
    thenE (newSectionErr ''mx'' (nameUnpackNew msg off)) (\<lambda>(n, off). Inr (MX_rr h pref n, off)))"

definition unpackBodyNAME :: "ResourceHdr \<Rightarrow> Resource reader" where
  "unpackBodyNAME h msg off =
    thenE (newSectionErr ''data'' (nameUnpackNew msg off)) (\<lambda>(n, off). Inr (NAME_rr h n, off))"

definition unpackBodySOA :: "ResourceHdr \<Rightarrow> Resource reader" where
  "unpackBodySOA h msg off =
    thenE (newSectionErr ''ns'' (nameUnpackNew msg off)) (\<lambda>(nsd, off).
    thenE (newSectionErr ''mbox'' (nameUnpackNew msg off)) (\<lambda>(mb, off).
    thenE (newSectionErr ''serial'' (unpackUint32Msg msg off)) (\<lambda>(serial, off).
    thenE (newSectionErr ''refresh'' (unpackUint32Msg msg off)) (\<lambda>(refresh, off).
    thenE (newSectionErr ''retry'' (unpackUint32Msg msg off)) (\<lambda>(retry, off).
    thenE (newSectionErr ''expire'' (unpackUint32Msg msg off)) (\<lambda>(expire, off).
    thenE (newSectionErr ''minttl'' (unpackUint32Msg msg off)) (\<lambda>(minttl, off).
      Inr (SOA_rr h nsd mb serial refresh retry expire minttl, off))))))))"

definition unpackBodySRV :: "ResourceHdr \<Rightarrow> Resource reader" where
  "unpackBodySRV h msg off =
    thenE (newSectionErr ''priority'' (unpackUint16Msg msg off)) (\<lambda>(priority, off).
    thenE (newSectionErr ''weight'' (unpackUint16Msg msg off)) (\<lambda>(weight, off).
    thenE (newSectionErr ''port'' (unpackUint16Msg msg off)) (\<lambda>(port, off).
    thenE (newSectionErr ''target'' (nameUnpackNew msg off)) (\<lambda>(n, off).
      Inr (SRV_rr h priority weight port n, off)))))"

definition unpackBodyRaw :: "ResourceHdr \<Rightarrow> Resource reader" where
  "unpackBodyRaw h msg off =
    thenE (newSectionErr ''data'' (unpackBytesMsg msg off (unat (hLength h)))) (\<lambda>(d, off).
      Inr (Raw_rr h d, off))"

text \<open>
  \<^verbatim>\<open>unpackResource\<close> picks the record type by the type code of the header, and the
  record's \<^verbatim>\<open>unpackBody\<close> reads its fields.
\<close>

definition unpackBody :: "ResourceHdr \<Rightarrow> Resource reader" where
  "unpackBody h msg off =
    (if hType h = TypeA then unpackBodyA h msg off
     else if hType h = TypeAAAA then unpackBodyAAAA h msg off
     else if hType h = TypeMX then unpackBodyMX h msg off
     else if hType h = TypeCNAME \<or> hType h = TypeNS \<or> hType h = TypePTR then unpackBodyNAME h msg off
     else if hType h = TypeSOA then unpackBodySOA h msg off
     else if hType h = TypeSRV then unpackBodySRV h msg off
     else unpackBodyRaw h msg off)"

lemmas unpackBody_defs = unpackBody_def unpackBodyA_def unpackBodyAAAA_def unpackBodyMX_def
  unpackBodyNAME_def unpackBodySOA_def unpackBodySRV_def unpackBodyRaw_def

definition packRR :: "Resource \<Rightarrow> pstep" where
  "packRR r msg cm off =
    thenE (newSectionErr ''hdr'' (hdrPack (Hdr r) 0 msg cm off)) (\<lambda>(msg, cm).
      let dataLenOff = length msg - 2; dataOff = length msg in
      thenE (newSectionErr ''body'' (packBody r msg cm off)) (\<lambda>(msg, cm).
        let dataLen = length msg - dataOff in
        if dataLen > 65535 then Inl (Err ErrResTooLong)
        else Inr (take dataLenOff msg @ put_u16 (word_of_nat dataLen) @ drop (dataLenOff + 2) msg, cm)))"

definition packRRLen :: "Resource \<Rightarrow> cmap \<Rightarrow> nat dres" where
  "packRRLen r cm =
    thenE (newSectionErr ''hdr'' (hdrPackLen (Hdr r) cm)) (\<lambda>l1.
    thenE (newSectionErr ''body'' (packBodyLen r cm)) (\<lambda>l2.
      if l2 > 65535 then Inl (Err ErrResTooLong) else Inr (l1 + l2)))"

definition unpackResource :: "bytes \<Rightarrow> nat \<Rightarrow> (Resource \<times> nat) dres" where
  "unpackResource msg off =
    thenE (hdrUnpack msg off) (\<lambda>(hdr, off).
      let dataOff = off in
      thenE (unpackBody hdr msg off) (\<lambda>(r, off).
        if off - dataOff \<noteq> unat (hLength hdr) then Inl (Err ErrInvalidResourceBodyLen)
        else Inr (r, off)))"

text \<open>A record as \<^verbatim>\<open>unpackResource\<close> makes it: the record type belongs to the type code.\<close>

fun tag_ok :: "Resource \<Rightarrow> bool" where
  "tag_ok (A_rr h a) \<longleftrightarrow> hType h = TypeA \<and> length a = 4"
| "tag_ok (AAAA_rr h a) \<longleftrightarrow> hType h = TypeAAAA \<and> length a = 16"
| "tag_ok (NAME_rr h n) \<longleftrightarrow> hType h \<in> {TypeCNAME, TypeNS, TypePTR} \<and> packable n"
| "tag_ok (SOA_rr h nsd mb _ _ _ _ _) \<longleftrightarrow> hType h = TypeSOA \<and> packable nsd \<and> packable mb"
| "tag_ok (MX_rr h _ n) \<longleftrightarrow> hType h = TypeMX \<and> packable n"
| "tag_ok (SRV_rr h _ _ _ n) \<longleftrightarrow> hType h = TypeSRV \<and> packable n"
| "tag_ok (Raw_rr h d) \<longleftrightarrow> hType h \<notin> {TypeA, TypeAAAA, TypeMX, TypeCNAME, TypeNS, TypePTR, TypeSOA, TypeSRV} \<and>
     length d \<le> 65535"

definition resource_ok :: "Resource \<Rightarrow> bool" where
  "resource_ok r \<longleftrightarrow> packable (hName (Hdr r)) \<and> tag_ok r"

text \<open>Equal up to the length field of the header, which packing ignores and unpacking fills in.\<close>

definition same_rr :: "Resource \<Rightarrow> Resource \<Rightarrow> bool" where
  "same_rr r r' \<longleftrightarrow> (\<exists>n. r' = setHdr ((Hdr r)\<lparr>hLength := n\<rparr>) r)"

text \<open>The number of labels of the longest name in a record.\<close>

fun body_depth :: "Resource \<Rightarrow> nat" where
  "body_depth (NAME_rr _ n) = nlabels n"
| "body_depth (SOA_rr _ nsd mb _ _ _ _ _) = max (nlabels nsd) (nlabels mb)"
| "body_depth (MX_rr _ _ n) = nlabels n"
| "body_depth (SRV_rr _ _ _ _ n) = nlabels n"
| "body_depth _ = 0"

definition rr_depth :: "Resource \<Rightarrow> nat" where
  "rr_depth r = max (nlabels (hName (Hdr r))) (body_depth r)"

end
