(* ===== verification/DnsRRCodec.thy ===== *)
theory DnsRRCodec
  imports DnsRR
begin

text \<open>
  Questions and resource records offer the wire interface: their packers append only,
  what they append reads back, and the length functions bound the bytes appended.
\<close>

section \<open>Composition rules\<close>

lemma reads_bind:
  "reads u pre x a \<Longrightarrow> reads (\<lambda>m off. v m off a) (pre @ x) y b \<Longrightarrow>
    reads (\<lambda>m off. thenE (u m off) (\<lambda>(a, off). v m off a)) pre (x @ y) b"
  by (rule reads_bindI [where u = u and v = v]) simp_all

lemma reads_last:
  "reads u pre x a \<Longrightarrow> f a = b \<Longrightarrow> reads (\<lambda>m off. thenE (u m off) (\<lambda>(a, off). Inr (f a, off))) pre x b"
  by (simp add: reads_def)

lemma reads_section [simp]: "reads u pre x a \<Longrightarrow> reads (\<lambda>m off. newSectionErr s (u m off)) pre x a"
  by (simp add: reads_def)

lemma writes_mono:
  assumes "writes f u a k" "\<And>pre x. reads u pre x a \<Longrightarrow> reads u' pre x a'"
  shows "writes f u' a' k"
proof (unfold writes_def, intro allI impI)
  fix msg cm off
  assume "off \<le> length msg" "cmap_ok (drop off msg) cm"
  from writesD [OF assms(1) this] assms(2)
  show "\<exists>x cm'. f msg cm off = Inr (msg @ x, cm') \<and> cmap_le cm cm' \<and> cmap_ok (drop off msg @ x) cm' \<and>
      (hops cm k \<le> 10 \<longrightarrow> reads u' (drop off msg) x a')"
    by blast
qed

lemma writes_bind:
  "writes f u a k \<Longrightarrow> writes g (\<lambda>m off. v m off a) b k2 \<Longrightarrow>
    writes (thenP f g) (\<lambda>m off. thenE (u m off) (\<lambda>(a, off). v m off a)) b (max k k2)"
  by (rule writes_thenP [where u = u and v = v]) simp_all

lemma writes_wrap:
  assumes "writes f u a k"
  shows "writes (\<lambda>m c off. newSectionErr s (f m c off)) u a k"
proof (unfold writes_def, intro allI impI)
  fix msg cm off
  assume "off \<le> length msg" "cmap_ok (drop off msg) cm"
  from writesD [OF assms this]
  show "\<exists>x cm'. newSectionErr s (f msg cm off) = Inr (msg @ x, cm') \<and> cmap_le cm cm' \<and>
      cmap_ok (drop off msg @ x) cm' \<and> (hops cm k \<le> 10 \<longrightarrow> reads u (drop off msg) x a)"
    by simp
qed

lemma writes_section:
  "writes f u a k \<Longrightarrow>
    writes (\<lambda>m c off. newSectionErr s (f m c off)) (\<lambda>m off. newSectionErr s2 (u m off)) a k"
  by (rule writes_wrap) (erule writes_mono, simp)

lemma writes_last:
  "writes f u a k \<Longrightarrow> g a = b \<Longrightarrow> writes f (\<lambda>m off. thenE (u m off) (\<lambda>(a, off). Inr (g a, off))) b k"
  by (erule writes_mono) (erule reads_last)

lemmas writes_name_section = writes_section [OF writes_name]
lemmas reads_u16_section = reads_section [OF reads_u16]
lemmas reads_u32_section = reads_section [OF reads_u32]

lemma appends_section [simp]: "appends f \<Longrightarrow> appends (\<lambda>m c off. newSectionErr s (f m c off))"
  unfolding appends_def by simp

lemma takes_section [simp]: "takes f l \<Longrightarrow> takes (\<lambda>m c off. newSectionErr s (f m c off)) l"
  and takes_section_len: "takes f l \<Longrightarrow> takes f (\<lambda>cm. newSectionErr s2 (l cm))"
  by (simp_all add: takes_def)

lemma takes_map:
  assumes "takes f l" "\<And>cm n. l cm = Inr n \<Longrightarrow> l2 cm = Inr n"
  shows "takes f l2"
  using assms unfolding takes_def by meson

section \<open>Questions\<close>

lemma questionPack_steps:
  "questionPack q = thenP (\<lambda>m c off. newSectionErr ''name'' (namePack (qName q) m c off))
     (putP (put_u16 (qType q) @ put_u16 (qClass q)))"
  by (rule ext)+ (simp add: questionPack_def thenP_def putP_def)

definition question_ok :: "Question \<Rightarrow> bool" where
  "question_ok q \<longleftrightarrow> packable (qName q)"

lemma writes_question:
  assumes "question_ok q"
  shows "writes (questionPack q) questionUnpack q (nlabels (qName q))"
proof -
  have n: "name_ok (qName q)" "length (nb (qName q)) \<le> 254"
    using assms by (auto simp: question_ok_def packable_def)
  have "writes (questionPack q) questionUnpack q (max (nlabels (qName q)) 0)"
    unfolding questionPack_steps questionUnpack_def
    by (intro writes_bind [OF writes_name_section] n writes_putP
        reads_bind [OF reads_u16_section] reads_last [OF reads_u16_section]) simp
  then show ?thesis by simp
qed

lemma appends_question [simp]: "appends (questionPack q)"
  by (simp add: questionPack_steps)

lemma takes_question:
  assumes "question_ok q"
  shows "takes (questionPack q) (questionPackLen q)"
  unfolding questionPack_steps
  by (rule takes_thenP [where la = "namePackLen (qName q)" and lb = "\<lambda>_. Inr 4"])
     (use assms takes_putP [of "put_u16 (qType q) @ put_u16 (qClass q)"] in
       \<open>auto simp: questionPackLen_def question_ok_def packable_def\<close>)

lemma questionUnpack_ok: "questionUnpack msg off = Inr (q, e) \<Longrightarrow> question_ok q"
  by (auto simp: questionUnpack_def question_ok_def res_simps dest: name_codec.unpack_valid)

lemma bounded_question [simp]: "bounded_reader questionUnpack"
proof -
  have "bounded_reader (\<lambda>msg off. questionUnpack msg off)"
    unfolding questionUnpack_def by (intro bounded_bind bounded_section bounded_return) simp_all
  then show ?thesis .
qed

interpretation question_codec: wire_codec questionPack questionPackLen questionUnpack question_ok "(=)" "\<lambda>q. nlabels (qName q)"
proof unfold_locales
  fix a :: Question and msg cm off msg' cm' and msg2 :: bytes
  show "questionPack a msg cm off = Inr (msg', cm') \<Longrightarrow> length msg2 = length msg \<Longrightarrow>
      \<exists>x. msg' = msg @ x \<and> questionPack a msg2 cm off = Inr (msg2 @ x, cm')"
    by (rule appendsD [OF appends_question])
next
  fix a off msg cm
  assume a: "question_ok a" "off \<le> length msg" "cmap_ok (drop off msg) cm"
  from writesD [OF writes_question [OF a(1)] a(2,3)]
  show "\<exists>x cm'. questionPack a msg cm off = Inr (msg @ x, cm') \<and> cmap_le cm cm' \<and>
      cmap_ok (drop off msg @ x) cm' \<and>
      (hops cm (nlabels (qName a)) \<le> 10 \<longrightarrow> (\<exists>a'. reads questionUnpack (drop off msg) x a' \<and> a = a'))"
    by simp
next
  fix a cm0 cm msg off x cm'
  assume a: "question_ok a" "cmap_le cm0 cm" "questionPack a msg cm off = Inr (msg @ x, cm')"
  from takesD [OF takes_question [OF a(1)] a(2,3)]
  show "\<exists>n. questionPackLen a cm0 = Inr n \<and> length x \<le> n \<and> (cm0 = None \<longrightarrow> n = length x)" by simp
qed (simp_all add: questionUnpack_ok)

section \<open>Record bodies\<close>

lemma appends_packBody [simp]: "appends (packBody r)"
proof (cases r)
  case (SOA_rr h nsd mb s rf rt ex mt)
  then have "packBody r = thenP (\<lambda>m c off. newSectionErr ''ns'' (namePack nsd m c off))
      (thenP (\<lambda>m c off. newSectionErr ''mbox'' (namePack mb m c off))
        (putP (put_u32 s @ put_u32 rf @ put_u32 rt @ put_u32 ex @ put_u32 mt)))"
    by (intro ext) (simp add: thenP_def putP_def)
  then show ?thesis by simp
next
  case (MX_rr h p n)
  then have "packBody r = thenP (putP (put_u16 p)) (\<lambda>m c off. newSectionErr ''mx'' (namePack n m c off))"
    by (intro ext) (simp add: thenP_def putP_def)
  then show ?thesis by simp
next
  case (SRV_rr h p w po n)
  then have "packBody r = thenP (putP (put_u16 p @ put_u16 w @ put_u16 po))
      (\<lambda>m c off. newSectionErr ''target'' (namePack n m c off))"
    by (intro ext) (simp add: thenP_def putP_def)
  then show ?thesis by simp
next
  case (NAME_rr h n)
  then have "packBody r = (\<lambda>m c off. newSectionErr ''data'' (namePack n m c off))"
    by (intro ext) simp
  then show ?thesis by simp
next
  case (A_rr h a)
  then have "packBody r = putP a" by (intro ext) (simp add: putP_def)
  then show ?thesis by simp
next
  case (AAAA_rr h a)
  then have "packBody r = putP a" by (intro ext) (simp add: putP_def)
  then show ?thesis by simp
next
  case (Raw_rr h d)
  then have "packBody r = putP d" by (intro ext) (simp add: putP_def)
  then show ?thesis by simp
qed

text \<open>The body written after any header of the right type and length reads back.\<close>

definition body_hdr_ok :: "ResourceHdr \<Rightarrow> Resource \<Rightarrow> bool" where
  "body_hdr_ok h r \<longleftrightarrow> hType h = hType (Hdr r) \<and>
     (\<forall>h' d. r = Raw_rr h' d \<longrightarrow> unat (hLength h) = length d)"

lemma packableD: "packable n \<Longrightarrow> name_ok n" "packable n \<Longrightarrow> length (nb n) \<le> 254"
  by (simp_all add: packable_def)

lemma writes_body_simple:
  assumes "tag_ok r" "body_hdr_ok h r" "\<forall>h nsd mb s rf rt ex mt. r \<noteq> SOA_rr h nsd mb s rf rt ex mt"
  shows "writes (packBody r) (unpackBody h) (setHdr h r) (body_depth r)"
proof (cases r)
  case (A_rr h0 a)
  have f: "packBody r = putP a" using A_rr by (intro ext) (simp add: putP_def)
  have u: "unpackBody h = (\<lambda>m off. thenE (unpackBytesMsg m off (length a)) (\<lambda>(a, off). Inr (A_rr h a, off)))"
    using assms A_rr by (intro ext) (simp add: unpackBody_defs body_hdr_ok_def)
  show ?thesis unfolding f u using A_rr by (auto intro!: writes_putP reads_last)
next
  case (AAAA_rr h0 a)
  have f: "packBody r = putP a" using AAAA_rr by (intro ext) (simp add: putP_def)
  have u: "unpackBody h = (\<lambda>m off. thenE (unpackBytesMsg m off (length a)) (\<lambda>(a, off). Inr (AAAA_rr h a, off)))"
    using assms AAAA_rr by (intro ext) (simp add: unpackBody_defs body_hdr_ok_def)
  show ?thesis unfolding f u using AAAA_rr by (auto intro!: writes_putP reads_last)
next
  case (Raw_rr h0 d)
  have f: "packBody r = putP d" using Raw_rr by (intro ext) (simp add: putP_def)
  have u: "unpackBody h = (\<lambda>m off. thenE (newSectionErr ''data'' (unpackBytesMsg m off (length d)))
      (\<lambda>(d, off). Inr (Raw_rr h d, off)))"
    using assms Raw_rr by (intro ext) (simp add: unpackBody_defs body_hdr_ok_def)
  show ?thesis unfolding f u using Raw_rr by (auto intro!: writes_putP reads_last reads_section)
next
  case (NAME_rr h0 n)
  have f: "packBody r = (\<lambda>m c off. newSectionErr ''data'' (namePack n m c off))"
    using NAME_rr by (intro ext) simp
  have u: "unpackBody h = (\<lambda>m off. thenE (newSectionErr ''data'' (nameUnpackNew m off))
      (\<lambda>(n, off). Inr (NAME_rr h n, off)))"
    using assms NAME_rr by (intro ext) (auto simp: unpackBody_defs body_hdr_ok_def)
  have "packable n" using assms NAME_rr by simp
  from writes_last [OF writes_name_section [OF packableD [OF this]], of "\<lambda>n. NAME_rr h n"]
  show ?thesis unfolding f u using NAME_rr by simp
next
  case (MX_rr h0 p n)
  have f: "packBody r = thenP (putP (put_u16 p)) (\<lambda>m c off. newSectionErr ''mx'' (namePack n m c off))"
    using MX_rr by (intro ext) (simp add: thenP_def putP_def)
  have u: "unpackBody h = (\<lambda>m off. thenE (newSectionErr ''pref'' (unpackUint16Msg m off)) (\<lambda>(p, off).
       thenE (newSectionErr ''mx'' (nameUnpackNew m off)) (\<lambda>(n, off). Inr (MX_rr h p n, off))))"
    using assms MX_rr by (intro ext) (simp add: unpackBody_defs body_hdr_ok_def)
  have "packable n" using assms MX_rr by simp
  then have "writes (packBody r) (unpackBody h) (MX_rr h p n) (max 0 (nlabels n))"
    unfolding f u by (intro writes_bind [OF writes_putP [OF reads_u16_section]] writes_last [OF writes_name_section] packableD)
      simp_all
  then show ?thesis using MX_rr by simp
next
  case (SRV_rr h0 p w po n)
  have f: "packBody r = thenP (putP (put_u16 p)) (thenP (putP (put_u16 w)) (thenP (putP (put_u16 po))
      (\<lambda>m c off. newSectionErr ''target'' (namePack n m c off))))"
    using SRV_rr by (intro ext) (simp add: thenP_def putP_def)
  have u: "unpackBody h = (\<lambda>m off. thenE (newSectionErr ''priority'' (unpackUint16Msg m off)) (\<lambda>(p, off).
       thenE (newSectionErr ''weight'' (unpackUint16Msg m off)) (\<lambda>(w, off).
       thenE (newSectionErr ''port'' (unpackUint16Msg m off)) (\<lambda>(po, off).
       thenE (newSectionErr ''target'' (nameUnpackNew m off)) (\<lambda>(n, off). Inr (SRV_rr h p w po n, off))))))"
    using assms SRV_rr by (intro ext) (simp add: unpackBody_defs body_hdr_ok_def)
  have "packable n" using assms SRV_rr by simp
  then have "writes (packBody r) (unpackBody h) (SRV_rr h p w po n) (max 0 (max 0 (max 0 (nlabels n))))"
    unfolding f u by (intro writes_bind [OF writes_putP [OF reads_u16_section]] writes_last [OF writes_name_section] packableD)
      simp_all
  then show ?thesis using SRV_rr by simp
qed (use assms in auto)

lemma writes_body_soa:
  assumes "tag_ok r" "body_hdr_ok h r" and r: "r = SOA_rr h0 nsd mb s rf rt ex mt"
  shows "writes (packBody r) (unpackBody h) (setHdr h r) (body_depth r)"
proof -
  have f: "packBody r = thenP (\<lambda>m c off. newSectionErr ''ns'' (namePack nsd m c off))
      (thenP (\<lambda>m c off. newSectionErr ''mbox'' (namePack mb m c off))
        (putP (put_u32 s @ put_u32 rf @ put_u32 rt @ put_u32 ex @ put_u32 mt)))"
    using r by (intro ext) (simp add: thenP_def putP_def)
  have u: "unpackBody h = (\<lambda>m off.
       thenE (newSectionErr ''ns'' (nameUnpackNew m off)) (\<lambda>(nsd, off).
       thenE (newSectionErr ''mbox'' (nameUnpackNew m off)) (\<lambda>(mb, off).
       thenE (newSectionErr ''serial'' (unpackUint32Msg m off)) (\<lambda>(serial, off).
       thenE (newSectionErr ''refresh'' (unpackUint32Msg m off)) (\<lambda>(refresh, off).
       thenE (newSectionErr ''retry'' (unpackUint32Msg m off)) (\<lambda>(retry, off).
       thenE (newSectionErr ''expire'' (unpackUint32Msg m off)) (\<lambda>(expire, off).
       thenE (newSectionErr ''minttl'' (unpackUint32Msg m off)) (\<lambda>(minttl, off).
         Inr (SOA_rr h nsd mb serial refresh retry expire minttl, off)))))))))"
    using assms by (intro ext) (simp add: unpackBody_defs body_hdr_ok_def)
  have "packable nsd" "packable mb" using assms by auto
  then have "writes (packBody r) (unpackBody h) (SOA_rr h nsd mb s rf rt ex mt) (max (nlabels nsd) (max (nlabels mb) 0))"
    unfolding f u
    by (intro writes_bind [OF writes_name_section] writes_putP packableD
        reads_bind [OF reads_u32_section] reads_last [OF reads_u32_section]) simp_all
  then show ?thesis using r by simp
qed

lemma writes_body:
  "tag_ok r \<Longrightarrow> body_hdr_ok h r \<Longrightarrow> writes (packBody r) (unpackBody h) (setHdr h r) (body_depth r)"
  using writes_body_simple writes_body_soa by (cases r) blast+

lemma namePackLen_le:
  assumes "packable n"
  shows "\<exists>m. namePackLen n cm = Inr m \<and> m \<le> 254"
proof -
  from assms obtain ls where ls: "n = name_of ls" "labels_ok ls" "length (wire ls) \<le> 254"
    by (auto simp: packable_def name_ok_def)
  from namePackLenFrom_antimono [OF ls(2), of cm cm 0] ls(1,3) show ?thesis
    by (auto simp: namePackLen_def)
qed

lemma takes_body:
  assumes "tag_ok r"
  shows "takes (packBody r) (packBodyLen r)"
proof (cases r)
  case (SOA_rr h nsd mb s rf rt ex mt)
  let ?fix = "put_u32 s @ put_u32 rf @ put_u32 rt @ put_u32 ex @ put_u32 mt"
  let ?fmb = "\<lambda>m c off. newSectionErr ''mbox'' (namePack mb m c off)"
  have f: "packBody r = thenP (\<lambda>m c off. newSectionErr ''ns'' (namePack nsd m c off)) (thenP ?fmb (putP ?fix))"
    using SOA_rr by (intro ext) (simp add: thenP_def putP_def)
  have ok: "name_ok nsd" "name_ok mb" using assms SOA_rr by (auto simp: packable_def)
  have "takes (putP ?fix) (\<lambda>_. Inr 20)" using takes_putP [of ?fix] by simp
  then have "takes (thenP ?fmb (putP ?fix)) (\<lambda>cm. thenE (namePackLen mb cm) (\<lambda>l. Inr (l + 20)))"
    using ok by (intro takes_thenP [where la = "namePackLen mb" and lb = "\<lambda>_. Inr 20"]) simp_all
  then show ?thesis unfolding f
    by (rule takes_thenP [where la = "namePackLen nsd" and lb = "\<lambda>cm. thenE (namePackLen mb cm) (\<lambda>l. Inr (l + 20))", rotated 3])
       (use ok SOA_rr in \<open>auto simp: res_simps\<close>)
next
  case (MX_rr h p n)
  have f: "packBody r = thenP (putP (put_u16 p)) (\<lambda>m c off. newSectionErr ''mx'' (namePack n m c off))"
    using MX_rr by (intro ext) (simp add: thenP_def putP_def)
  have "takes (putP (put_u16 p)) (\<lambda>_. Inr 2)" using takes_putP [of "put_u16 p"] by simp
  then show ?thesis unfolding f using assms MX_rr
    by (intro takes_thenP [where la = "\<lambda>_. Inr 2" and lb = "namePackLen n"]) (simp_all add: packable_def)
next
  case (SRV_rr h p w po n)
  let ?fix = "put_u16 p @ put_u16 w @ put_u16 po"
  have ok: "name_ok n" using assms SRV_rr by (simp add: packable_def)
  show ?thesis unfolding takes_def
  proof (intro allI impI)
    fix cm0 cm msg off x cm'
    assume a: "cmap_le cm0 cm" "packBody r msg cm off = Inr (msg @ x, cm')"
    then have p: "namePack n (msg @ ?fix) cm off = Inr (msg @ x, cm')" using SRV_rr by simp
    from appendsD [OF appends_name p refl] obtain y where y: "x = ?fix @ y" by auto
    have p': "namePack n (msg @ ?fix) cm off = Inr ((msg @ ?fix) @ y, cm')" using p y by simp
    from takes_name_le [OF ok _ p', of None] obtain m where
      "namePackLen n None = Inr m" "length y \<le> m" "cm = None \<longrightarrow> m = length y" by auto
    moreover have "cmap_le cm cm'" using cmap_le_namePack [OF ok p] .
    moreover have "cm0 = None \<longrightarrow> cm = None" using a(1) by (simp add: cmap_le_def)
    ultimately show "(\<exists>n. packBodyLen r cm0 = Inr n \<and> length x \<le> n \<and> (cm0 = None \<longrightarrow> n = length x)) \<and> cmap_le cm cm'"
      using SRV_rr y by auto
  qed
next
  case (NAME_rr h n)
  have f: "packBody r = (\<lambda>m c off. newSectionErr ''data'' (namePack n m c off))"
    using NAME_rr by (intro ext) simp
  have "packBodyLen r = namePackLen n" using NAME_rr by (intro ext) simp
  then show ?thesis unfolding f using assms NAME_rr by (simp add: packable_def)
qed (use assms in \<open>auto simp: takes_def\<close>)

lemma packBodyLen_le:
  assumes "tag_ok r"
  shows "\<exists>n. packBodyLen r cm = Inr n \<and> n \<le> 65535"
proof (cases r)
  case (SOA_rr h nsd mb s rf rt ex mt)
  then show ?thesis using assms namePackLen_le [of nsd cm] namePackLen_le [of mb cm] by fastforce
next
  case (NAME_rr h n)
  then show ?thesis using assms namePackLen_le [of n cm] by fastforce
next
  case (MX_rr h p n)
  then show ?thesis using assms namePackLen_le [of n cm] by fastforce
next
  case (SRV_rr h p w po n)
  then show ?thesis using assms namePackLen_le [of n None] by fastforce
qed (use assms in auto)

lemma packBody_len_le:
  assumes "tag_ok r" "packBody r msg cm off = Inr (msg @ x, cm')"
  shows "length x \<le> 65535"
  using takesD [OF takes_body [OF assms(1)] cmap_le_refl assms(2)] packBodyLen_le [OF assms(1), of cm] by auto

section \<open>Whole records\<close>

definition hdr_fixed :: "ResourceHdr \<Rightarrow> bytes" where
  "hdr_fixed h = put_u16 (hType h) @ put_u16 (hClass h) @ put_u32 (hTTL h)"

lemma length_hdr_fixed [simp]: "length (hdr_fixed h) = 8"
  by (simp add: hdr_fixed_def)

lemma hdrPack_steps:
  "hdrPack h L = thenP (\<lambda>m c off. newSectionErr ''name'' (namePack (hName h) m c off))
     (putP (hdr_fixed h @ put_u16 L))"
  by (intro ext) (simp add: hdrPack_def thenP_def putP_def hdr_fixed_def)

lemma appends_hdr [simp]: "appends (hdrPack h L)"
  by (simp add: hdrPack_steps)

lemma writes_hdr:
  assumes "packable (hName h)"
  shows "writes (hdrPack h L) hdrUnpack (h\<lparr>hLength := L\<rparr>) (nlabels (hName h))"
proof -
  have n: "name_ok (hName h)" "length (nb (hName h)) \<le> 254" using assms by (auto simp: packable_def)
  have "writes (hdrPack h L) hdrUnpack (h\<lparr>hLength := L\<rparr>) (max (nlabels (hName h)) 0)"
    unfolding hdrPack_steps hdrUnpack_def hdr_fixed_def append_assoc
    by (intro writes_bind [OF writes_name_section] n writes_putP
        reads_bind [OF reads_u16_section] reads_bind [OF reads_u32_section] reads_last [OF reads_u16_section]) simp
  then show ?thesis by simp
qed

lemma takes_hdr:
  assumes "packable (hName h)"
  shows "takes (hdrPack h L) (hdrPackLen h)"
  unfolding hdrPack_steps
  by (rule takes_thenP [where la = "namePackLen (hName h)" and lb = "\<lambda>_. Inr 10"])
     (use assms takes_putP [of "hdr_fixed h @ put_u16 L"] in \<open>auto simp: hdrPackLen_def packable_def\<close>)

text \<open>
  Patching the length afterwards is the same as packing the header with the length of the
  body in the first place.
\<close>

lemma packRR_patch:
  assumes "hdrPack (Hdr r) 0 msg cm off = Inr (m1, cm1)" "packBody r m1 cm1 off = Inr (m1 @ x, cm2)"
    and "length x \<le> 65535"
  shows "\<exists>y. hdrPack (Hdr r) (word_of_nat (length x)) msg cm off = Inr (msg @ y, cm1) \<and>
    packBody r (msg @ y) cm1 off = Inr (msg @ y @ x, cm2) \<and> packRR r msg cm off = Inr (msg @ y @ x, cm2)"
proof -
  let ?L = "word_of_nat (length x) :: u16" and ?n = "hName (Hdr r)"
  obtain m0 where m0: "namePack ?n msg cm off = Inr (m0, cm1)" "m1 = m0 @ hdr_fixed (Hdr r) @ put_u16 0"
    using assms(1) by (auto simp: hdrPack_steps thenP_def putP_def thenE_eq_Inr)
  from appendsD [OF appends_name m0(1) refl] obtain w where w: "m0 = msg @ w" by blast
  let ?y = "w @ hdr_fixed (Hdr r) @ put_u16 ?L"
  have h: "hdrPack (Hdr r) ?L msg cm off = Inr (msg @ ?y, cm1)"
    using m0(1) w by (simp add: hdrPack_steps thenP_def putP_def)
  have b: "packBody r (msg @ ?y) cm1 off = Inr (msg @ ?y @ x, cm2)"
    using appendsD [OF appends_packBody assms(2), of "msg @ ?y"] m0(2) w by auto
  have "packRR r msg cm off = Inr (msg @ ?y @ x, cm2)"
    using assms m0(2) w by (simp add: packRR_def Let_def)
  with h b show ?thesis by blast
qed

lemma packRR_inv:
  assumes "packRR r msg cm off = Inr (m, cm2)"
  shows "\<exists>m1 cm1 x. hdrPack (Hdr r) 0 msg cm off = Inr (m1, cm1) \<and> packBody r m1 cm1 off = Inr (m1 @ x, cm2) \<and>
    length x \<le> 65535"
proof -
  obtain m1 cm1 m2 where 1: "hdrPack (Hdr r) 0 msg cm off = Inr (m1, cm1)" "packBody r m1 cm1 off = Inr (m2, cm2)"
    "length m2 - length m1 \<le> 65535"
    using assms by (auto simp: packRR_def Let_def thenE_eq_Inr split: if_splits)
  from appendsD [OF appends_packBody 1(2) refl] obtain x where "m2 = m1 @ x" by blast
  with 1 show ?thesis by auto
qed

lemma appends_packRR: "appends (packRR r)"
proof (unfold appends_def, intro allI impI)
  fix msg cm off m cm2 msg2
  assume a: "packRR r msg cm off = Inr (m, cm2)" "length (msg2 :: bytes) = length msg"
  from packRR_inv [OF a(1)] obtain m1 cm1 x where 1:
    "hdrPack (Hdr r) 0 msg cm off = Inr (m1, cm1)" "packBody r m1 cm1 off = Inr (m1 @ x, cm2)" "length x \<le> 65535" by blast
  from packRR_patch [OF 1] obtain y where y:
    "hdrPack (Hdr r) (word_of_nat (length x)) msg cm off = Inr (msg @ y, cm1)"
    "packRR r msg cm off = Inr (msg @ y @ x, cm2)" by blast
  from appendsD [OF appends_hdr 1(1) a(2)] obtain z where z: "m1 = msg @ z" "hdrPack (Hdr r) 0 msg2 cm off = Inr (msg2 @ z, cm1)"
    by blast
  have "packBody r (msg2 @ z) cm1 off = Inr ((msg2 @ z) @ x, cm2)"
    using appendsD [OF appends_packBody 1(2), of "msg2 @ z"] a(2) z(1) by auto
  from packRR_patch [OF z(2) this 1(3)] obtain y2 where y2:
    "hdrPack (Hdr r) (word_of_nat (length x)) msg2 cm off = Inr (msg2 @ y2, cm1)"
    "packRR r msg2 cm off = Inr (msg2 @ y2 @ x, cm2)" by blast
  from appendsD [OF appends_hdr y(1) a(2)] y2(1) have "y2 = y" by auto
  with y(2) y2(2) a(1) show "\<exists>x. m = msg @ x \<and> packRR r msg2 cm off = Inr (msg2 @ x, cm2)" by auto
qed

lemma packBody_succeeds:
  assumes "tag_ok r" "off \<le> length msg" "cmap_ok (drop off msg) cm"
  shows "\<exists>x cm'. packBody r msg cm off = Inr (msg @ x, cm') \<and> (\<forall>h d. r = Raw_rr h d \<longrightarrow> x = d)"
proof (cases "\<exists>h d. r = Raw_rr h d")
  case True
  then show ?thesis by auto
next
  case False
  then have "body_hdr_ok (Hdr r) r" by (auto simp: body_hdr_ok_def)
  from writesD [OF writes_body [OF assms(1) this] assms(2,3)] False show ?thesis by blast
qed

lemma packRR_succeeds:
  assumes ok: "resource_ok r" and off: "off \<le> length msg" and cm: "cmap_ok (drop off msg) cm"
  shows "\<exists>y x cm1 cm2. hdrPack (Hdr r) (word_of_nat (length x)) msg cm off = Inr (msg @ y, cm1) \<and>
    packBody r (msg @ y) cm1 off = Inr (msg @ y @ x, cm2) \<and> packRR r msg cm off = Inr (msg @ y @ x, cm2) \<and>
    length x \<le> 65535 \<and> (\<forall>h d. r = Raw_rr h d \<longrightarrow> x = d)"
proof -
  have n: "packable (hName (Hdr r))" and t: "tag_ok r" using ok by (auto simp: resource_ok_def)
  from writesD [OF writes_hdr [OF n, of 0] off cm] obtain y0 cm1 where 1:
    "hdrPack (Hdr r) 0 msg cm off = Inr (msg @ y0, cm1)" "cmap_ok (drop off msg @ y0) cm1" by blast
  have "cmap_ok (drop off (msg @ y0)) cm1" using 1(2) off by simp
  from packBody_succeeds [OF t _ this] off obtain x cm2 where 2:
    "packBody r (msg @ y0) cm1 off = Inr ((msg @ y0) @ x, cm2)" "\<forall>h d. r = Raw_rr h d \<longrightarrow> x = d" by auto
  have "length x \<le> 65535" using packBody_len_le [OF t 2(1)] .
  with packRR_patch [OF 1(1) 2(1)] 2(2) show ?thesis by blast
qed

lemma reads_resource:
  assumes "reads hdrUnpack pre y h" "reads (unpackBody h) (pre @ y) x r" "unat (hLength h) = length x"
  shows "reads unpackResource pre (y @ x) r"
proof (unfold reads_def, intro allI)
  fix z
  have "hdrUnpack (pre @ y @ x @ z) (length pre) = Inr (h, length pre + length y)"
    using readsD [OF assms(1), of "x @ z"] by simp
  moreover have "unpackBody h (pre @ y @ x @ z) (length pre + length y) = Inr (r, length pre + length y + length x)"
    using readsD [OF assms(2), of z] by simp
  ultimately show "unpackResource (pre @ (y @ x) @ z) (length pre) = Inr (r, length pre + length (y @ x))"
    using assms(3) by (simp add: unpackResource_def Let_def)
qed

lemma packs_resource:
  assumes ok: "resource_ok r" and off: "off \<le> length msg" and cm: "cmap_ok (drop off msg) cm"
  shows "\<exists>x cm'. packRR r msg cm off = Inr (msg @ x, cm') \<and> cmap_le cm cm' \<and>
    cmap_ok (drop off msg @ x) cm' \<and>
    (hops cm (rr_depth r) \<le> 10 \<longrightarrow> (\<exists>r'. reads unpackResource (drop off msg) x r' \<and> same_rr r r'))"
proof -
  have n: "packable (hName (Hdr r))" and t: "tag_ok r" using ok by (auto simp: resource_ok_def)
  from packRR_succeeds [OF assms] obtain y x cm1 cm2 where 1:
    "hdrPack (Hdr r) (word_of_nat (length x)) msg cm off = Inr (msg @ y, cm1)"
    "packBody r (msg @ y) cm1 off = Inr (msg @ y @ x, cm2)" "packRR r msg cm off = Inr (msg @ y @ x, cm2)"
    "length x \<le> 65535" "\<forall>h d. r = Raw_rr h d \<longrightarrow> x = d" by blast
  let ?h = "(Hdr r)\<lparr>hLength := word_of_nat (length x)\<rparr>"
  have L: "unat (hLength ?h) = length x" using 1(4) by (simp add: unat_of_nat)
  have bok: "body_hdr_ok ?h r" using 1(5) L by (auto simp: body_hdr_ok_def)
  from writesD [OF writes_hdr [OF n, of "word_of_nat (length x)"] off cm] 1(1) have 2: "cmap_le cm cm1"
    "cmap_ok (drop off msg @ y) cm1" "hops cm (nlabels (hName (Hdr r))) \<le> 10 \<longrightarrow> reads hdrUnpack (drop off msg) y ?h" by auto
  have off': "off \<le> length (msg @ y)" and d: "drop off (msg @ y) = drop off msg @ y" using off by auto
  from writesD [OF writes_body [OF t bok] off', of cm1] 2(2) 1(2) d have 3: "cmap_le cm1 cm2"
    "cmap_ok (drop off msg @ y @ x) cm2"
    "hops cm1 (body_depth r) \<le> 10 \<longrightarrow> reads (unpackBody ?h) (drop off msg @ y) x (setHdr ?h r)" by auto
  have "reads unpackResource (drop off msg) (y @ x) (setHdr ?h r)" if h: "hops cm (rr_depth r) \<le> 10"
  proof (rule reads_resource [OF _ _ L])
    show "reads hdrUnpack (drop off msg) y ?h"
      using 2(3) hops_maxD(1) [OF h [unfolded rr_depth_def]] by simp
    show "reads (unpackBody ?h) (drop off msg @ y) x (setHdr ?h r)"
      using 3(3) hops_maxD(2) [OF h [unfolded rr_depth_def]] hops_cong [OF 2(1)] by simp
  qed
  then show ?thesis using 1(3) 3 cmap_le_trans [OF 2(1) 3(1)]
    by (intro exI [of _ "y @ x"] exI [of _ cm2]) (auto simp: same_rr_def)
qed

lemma len_resource:
  assumes ok: "resource_ok r" and le: "cmap_le cm0 cm" and p: "packRR r msg cm off = Inr (msg @ x, cm')"
  shows "\<exists>n. packRRLen r cm0 = Inr n \<and> length x \<le> n \<and> (cm0 = None \<longrightarrow> n = length x)"
proof -
  have n: "packable (hName (Hdr r))" and t: "tag_ok r" using ok by (auto simp: resource_ok_def)
  from packRR_inv [OF p] obtain m1 cm1 z where 1: "hdrPack (Hdr r) 0 msg cm off = Inr (m1, cm1)"
    "packBody r m1 cm1 off = Inr (m1 @ z, cm')" "length z \<le> 65535" by blast
  from packRR_patch [OF 1] obtain y where y:
    "hdrPack (Hdr r) (word_of_nat (length z)) msg cm off = Inr (msg @ y, cm1)"
    "packBody r (msg @ y) cm1 off = Inr (msg @ y @ z, cm')" "packRR r msg cm off = Inr (msg @ y @ z, cm')" by blast
  have x: "x = y @ z" using y(3) p by simp
  from takesD [OF takes_hdr [OF n] le y(1)] obtain l1 where l1: "hdrPackLen (Hdr r) cm0 = Inr l1"
    "length y \<le> l1" "cm0 = None \<longrightarrow> l1 = length y" "cmap_le cm cm1" by blast
  from takesD [OF takes_body [OF t] cmap_le_trans [OF le l1(4)], of "msg @ y" off z cm'] y(2) obtain l2 where l2:
    "packBodyLen r cm0 = Inr l2" "length z \<le> l2" "cm0 = None \<longrightarrow> l2 = length z" by auto
  have "l2 \<le> 65535" using packBodyLen_le [OF t, of cm0] l2(1) by simp
  with l1 l2 x show ?thesis by (auto simp: packRRLen_def)
qed

lemma bounded_if:
  "bounded_reader u \<Longrightarrow> bounded_reader v \<Longrightarrow> bounded_reader (\<lambda>m off. if b then u m off else v m off)"
  by (cases b) simp_all

lemma bounded_hdrUnpack [simp]: "bounded_reader hdrUnpack"
proof -
  have "bounded_reader (\<lambda>msg off. hdrUnpack msg off)"
    unfolding hdrUnpack_def by (intro bounded_bind bounded_section bounded_return) simp_all
  then show ?thesis .
qed

lemma bounded_unpackBody [simp]: "bounded_reader (unpackBody h)"
proof -
  have "bounded_reader (\<lambda>msg off. unpackBody h msg off)"
    unfolding unpackBody_defs
    by (intro bounded_if bounded_bind bounded_section bounded_return) simp_all
  then show ?thesis .
qed

lemma bounded_resource [simp]: "bounded_reader unpackResource"
proof (rule bounded_readerI)
  fix msg off assume off: "off \<le> length (msg :: bytes)"
  note h = bounded_readerD [OF bounded_hdrUnpack off] and b = bounded_readerD [OF bounded_unpackBody]
  show "safe (unpackResource msg off)"
    unfolding unpackResource_def Let_def
    by (intro safe_thenE) (use h b(1) in \<open>auto intro!: safe_thenE split: prod.splits\<close>)
  fix r e assume "unpackResource msg off = Inr (r, e)"
  then obtain hd o1 where 1: "hdrUnpack msg off = Inr (hd, o1)" "unpackBody hd msg o1 = Inr (r, e)"
    by (auto simp: unpackResource_def Let_def res_simps split: if_splits)
  have "off \<le> o1" "o1 \<le> length msg" using h(2,3) 1(1) by auto
  then show "off \<le> e \<and> e \<le> length msg" using b(2,3) [OF _ 1(2)] by auto
qed

lemma unpackBytesMsg_length: "unpackBytesMsg msg off l = Inr (d, e) \<Longrightarrow> length d = l"
  by (auto simp: unpackBytesMsg_def Let_def split: if_splits)

lemma unpackBody_tag_ok: "unpackBody h msg off = Inr (r, e) \<Longrightarrow> tag_ok r \<and> Hdr r = h"
  by (auto simp: unpackBody_defs res_simps split: if_splits
      dest!: unpackBytesMsg_length name_codec.unpack_valid)

lemma unpackResource_ok: "unpackResource msg off = Inr (r, e) \<Longrightarrow> resource_ok r"
  by (auto simp: unpackResource_def hdrUnpack_def resource_ok_def Let_def res_simps split: if_splits
      dest!: unpackBody_tag_ok name_codec.unpack_valid)

interpretation resource_codec: wire_codec packRR packRRLen unpackResource resource_ok same_rr rr_depth
proof unfold_locales
  fix a :: Resource and msg cm off msg' cm' and msg2 :: bytes
  show "packRR a msg cm off = Inr (msg', cm') \<Longrightarrow> length msg2 = length msg \<Longrightarrow>
      \<exists>x. msg' = msg @ x \<and> packRR a msg2 cm off = Inr (msg2 @ x, cm')"
    by (rule appendsD [OF appends_packRR])
qed (simp_all add: packs_resource len_resource unpackResource_ok)

end
