(* ===== verification/DnsMsg.thy ===== *)
theory DnsMsg
  imports DnsRRCodec
begin

text \<open>
  Whole messages of \<^verbatim>\<open>pkg/dnsmsg/msg.go\<close>: the header and its bit field, packing with
  compression and a size limit, unpacking, the uncompressed length, and the removal of
  EDNS0 records.
\<close>

section \<open>The header\<close>

record rawHeader =
  rId :: u16
  rBits :: u16
  rQuestions :: u16
  rAnswers :: u16
  rAuthorities :: u16
  rAdditionals :: u16

record Header =
  ID :: u16
  Response :: bool
  OpCode :: u16
  Authoritative :: bool
  Truncated :: bool
  RecursionDesired :: bool
  RecursionAvailable :: bool
  AuthenticData :: bool
  CheckingDisabled :: bool
  RCode :: u16

text \<open>The constants \<^verbatim>\<open>1 << n\<close> of the bit field.\<close>

definition headerBit :: "nat \<Rightarrow> u16" where
  "headerBit n = push_bit n 1"

abbreviation headerBitQR :: u16 where "headerBitQR \<equiv> headerBit 15"
abbreviation headerBitAA :: u16 where "headerBitAA \<equiv> headerBit 10"
abbreviation headerBitTC :: u16 where "headerBitTC \<equiv> headerBit 9"
abbreviation headerBitRD :: u16 where "headerBitRD \<equiv> headerBit 8"
abbreviation headerBitRA :: u16 where "headerBitRA \<equiv> headerBit 7"
abbreviation headerBitAD :: u16 where "headerBitAD \<equiv> headerBit 5"
abbreviation headerBitCD :: u16 where "headerBitCD \<equiv> headerBit 4"

definition headerOfRaw :: "rawHeader \<Rightarrow> Header" where
  "headerOfRaw h = \<lparr>ID = rId h,
     Response = (rBits h AND headerBitQR \<noteq> 0),
     OpCode = drop_bit 11 (rBits h) AND 0xF,
     Authoritative = (rBits h AND headerBitAA \<noteq> 0),
     Truncated = (rBits h AND headerBitTC \<noteq> 0),
     RecursionDesired = (rBits h AND headerBitRD \<noteq> 0),
     RecursionAvailable = (rBits h AND headerBitRA \<noteq> 0),
     AuthenticData = (rBits h AND headerBitAD \<noteq> 0),
     CheckingDisabled = (rBits h AND headerBitCD \<noteq> 0),
     RCode = rBits h AND 0xF\<rparr>"

definition headerPack :: "Header \<Rightarrow> u16 \<times> u16" where
  "headerPack m =
    (let bits = push_bit 11 (OpCode m) OR RCode m;
         bits = (if RecursionAvailable m then bits OR headerBitRA else bits);
         bits = (if RecursionDesired m then bits OR headerBitRD else bits);
         bits = (if Truncated m then bits OR headerBitTC else bits);
         bits = (if Authoritative m then bits OR headerBitAA else bits);
         bits = (if Response m then bits OR headerBitQR else bits);
         bits = (if AuthenticData m then bits OR headerBitAD else bits);
         bits = (if CheckingDisabled m then bits OR headerBitCD else bits)
     in (ID m, bits))"

text \<open>\<^verbatim>\<open>rawHeader.pack\<close> writes the twelve bytes; \<^verbatim>\<open>rawHeader.unpack\<close> reads them at \<^verbatim>\<open>off\<close>.\<close>

definition rawHeaderBytes :: "rawHeader \<Rightarrow> bytes" where
  "rawHeaderBytes h = put_u16 (rId h) @ put_u16 (rBits h) @ put_u16 (rQuestions h) @
     put_u16 (rAnswers h) @ put_u16 (rAuthorities h) @ put_u16 (rAdditionals h)"

definition rawHeaderUnpack :: "bytes \<Rightarrow> nat \<Rightarrow> (rawHeader \<times> nat) dres" where
  "rawHeaderUnpack msg off =
    (if length msg < off then Inl Panic
     else let hdr = drop off msg in
       if length hdr < 12 then Inl (Err ErrSmallBuffer)
       else Inr (\<lparr>rId = get_u16 (hdr ! 0) (hdr ! 1), rBits = get_u16 (hdr ! 2) (hdr ! 3),
                  rQuestions = get_u16 (hdr ! 4) (hdr ! 5), rAnswers = get_u16 (hdr ! 6) (hdr ! 7),
                  rAuthorities = get_u16 (hdr ! 8) (hdr ! 9), rAdditionals = get_u16 (hdr ! 10) (hdr ! 11)\<rparr>,
                off + 12))"

section \<open>Messages\<close>

record Msg =
  mHeader :: Header
  Questions :: "Question list"
  Answers :: "Resource list"
  Authorities :: "Resource list"
  Additionals :: "Resource list"

definition msgUnpack :: "bytes \<Rightarrow> Msg dres" where
  "msgUnpack msg =
    thenE (newSectionErr ''header'' (rawHeaderUnpack msg 0)) (\<lambda>(h, off).
    thenE (newSectionErr ''questions'' (unpackMany questionUnpack (unat (rQuestions h)) msg off [])) (\<lambda>(qs, off).
    thenE (newSectionErr ''answers'' (unpackMany unpackResource (unat (rAnswers h)) msg off [])) (\<lambda>(ans, off).
    thenE (newSectionErr ''authorities'' (unpackMany unpackResource (unat (rAuthorities h)) msg off [])) (\<lambda>(ns, off).
    thenE (newSectionErr ''additionals'' (unpackMany unpackResource (unat (rAdditionals h)) msg off [])) (\<lambda>(ads, off).
      Inr \<lparr>mHeader = headerOfRaw h, Questions = qs, Answers = ans, Authorities = ns, Additionals = ads\<rparr>)))))"

definition isOPT :: "Resource \<Rightarrow> bool" where
  "isOPT r \<longleftrightarrow> hType (Hdr r) = TypeOPT"

text \<open>The record found by scanning \<^verbatim>\<open>Additionals\<close> from its end.\<close>

definition lastOPT :: "Resource list \<Rightarrow> Resource option" where
  "lastOPT rs = find isOPT (rev rs)"

text \<open>
  \<^verbatim>\<open>Msg.Pack\<close>: \<open>b\<close> is the buffer to append to and \<open>limit\<close> the parameter \<^verbatim>\<open>size\<close>. The
  header fields are computed before the sections are packed, and the truncated flag \<open>tc\<close> the
  section loops set stays in a copy of the header that is not written. \<open>ednsLimit\<close> is the
  limit left after the reservation for the EDNS0 record \<open>opt\<close>, \<open>packSections\<close> the part of the
  function from the questions to the EDNS0 record.
\<close>

definition ednsLimit :: "Resource option \<Rightarrow> int \<Rightarrow> int dres" where
  "ednsLimit opt limit = (case opt of None \<Rightarrow> Inr limit
     | Some r \<Rightarrow> thenE (newSectionErr ''edns0'' (packBodyLen r None)) (\<lambda>l. Inr (limit - int l)))"

definition packSections :: "Msg \<Rightarrow> Resource option \<Rightarrow> int \<Rightarrow> nat \<Rightarrow> bytes \<Rightarrow> cmap \<Rightarrow> (bytes \<times> cmap) dres" where
  "packSections m opt limit msgOff b cm =
    thenE (newSectionErr ''question'' (packMany questionPack questionPackLen (\<lambda>_. False)
       limit msgOff (Questions m) b cm False)) (\<lambda>(b, cm, tc).
    thenE (newSectionErr ''answers'' (packMany packRR packRRLen (\<lambda>_. False)
       limit msgOff (Answers m) b cm tc)) (\<lambda>(b, cm, tc).
    thenE (newSectionErr ''authority'' (packMany packRR packRRLen (\<lambda>_. False)
       limit msgOff (Authorities m) b cm tc)) (\<lambda>(b, cm, tc).
    thenE (newSectionErr ''additional'' (packMany packRR packRRLen (\<lambda>r. opt \<noteq> None \<and> isOPT r)
       limit msgOff (Additionals m) b cm tc)) (\<lambda>(b, cm, tc).
    case opt of None \<Rightarrow> Inr (b, cm) | Some r \<Rightarrow> newSectionErr ''edns0'' (packRR r b cm msgOff)))))"

definition rawHeaderOf :: "Msg \<Rightarrow> rawHeader" where
  "rawHeaderOf m =
    \<lparr>rId = fst (headerPack (mHeader m)), rBits = snd (headerPack (mHeader m)),
     rQuestions = word_of_nat (length (Questions m)), rAnswers = word_of_nat (length (Answers m)),
     rAuthorities = word_of_nat (length (Authorities m)),
     rAdditionals = word_of_nat (length (Additionals m))\<rparr>"

definition msgPack :: "Msg \<Rightarrow> bytes \<Rightarrow> bool \<Rightarrow> int \<Rightarrow> bytes dres" where
  "msgPack m b compression limit =
    (let msgOff = length b in
     if length (Questions m) > 65535 then Inl (Err ErrTooManyQuestions)
     else if length (Answers m) > 65535 then Inl (Err ErrTooManyAnswers)
     else if length (Authorities m) > 65535 then Inl (Err ErrTooManyAuthorities)
     else if length (Additionals m) > 65535 then Inl (Err ErrTooManyAdditionals)
     else let
       h = rawHeaderOf m;
       limit = (if limit > 0 \<and> limit < 512 then 512 else limit);
       b = b @ replicate 12 0;
       opt = (if limit > 0 then lastOPT (Additionals m) else None) in
     thenE (ednsLimit opt limit) (\<lambda>limit.
       let cm = (if compression \<and> length (Questions m) + length (Answers m) + length (Authorities m) +
                   length (Additionals m) > 1 then Some Map.empty else None) in
       thenE (packSections m opt limit msgOff b cm) (\<lambda>(b, cm).
         Inr (take msgOff b @ rawHeaderBytes h @ drop (msgOff + 12) b))))"

definition sumLen :: "('a \<Rightarrow> nat dres) \<Rightarrow> 'a list \<Rightarrow> nat \<Rightarrow> nat dres" where
  "sumLen f xs s = foldl (\<lambda>acc x. thenE acc (\<lambda>s. thenE (f x) (\<lambda>l. Inr (s + l)))) (Inr s) xs"

definition maxPackLen :: "Msg \<Rightarrow> nat dres" where
  "maxPackLen m =
    thenE (newSectionErr ''question'' (sumLen (\<lambda>q. questionPackLen q None) (Questions m) 12)) (\<lambda>s.
    thenE (newSectionErr ''answers'' (sumLen (\<lambda>r. packRRLen r None) (Answers m) s)) (\<lambda>s.
    thenE (newSectionErr ''authorities'' (sumLen (\<lambda>r. packRRLen r None) (Authorities m) s)) (\<lambda>s.
      newSectionErr ''additionals'' (sumLen (\<lambda>r. packRRLen r None) (Additionals m) s))))"

text \<open>
  \<^verbatim>\<open>PopEDNS0\<close> takes the last OPT record out by moving the last additional record into
  its place.
\<close>

fun popFrom :: "Resource list \<Rightarrow> nat \<Rightarrow> (Resource list \<times> Resource) option" where
  "popFrom rs 0 = None"
| "popFrom rs (Suc i) =
    (if isOPT (rs ! i) then Some (butlast (rs[i := last rs]), rs ! i) else popFrom rs i)"

definition popEDNS0 :: "Msg \<Rightarrow> Msg \<times> Resource option" where
  "popEDNS0 m = (case popFrom (Additionals m) (length (Additionals m)) of
     None \<Rightarrow> (m, None) | Some (rs, r) \<Rightarrow> (m\<lparr>Additionals := rs\<rparr>, Some r))"

definition removeEDNS0 :: "Msg \<Rightarrow> Msg" where
  "removeEDNS0 m = fst (popEDNS0 m)"

end
