(* ===== verification/DnsMsgHeader.thy ===== *)
theory DnsMsgHeader
  imports DnsMsg
begin

text \<open>
  The header of a message: the bit field and its two conversions, and the twelve bytes on
  the wire.
\<close>

section \<open>The bit field\<close>

lemma small_word_bits: "(w :: u16) < 16 \<Longrightarrow> 4 \<le> n \<Longrightarrow> \<not> bit w n"
proof -
  assume w: "w < 16" and n: "4 \<le> n"
  have "unat w < 2 ^ 4" using w by (simp add: word_less_nat_alt)
  also have "(2 :: nat) ^ 4 \<le> 2 ^ n" using n by (intro power_increasing) auto
  finally have "\<not> bit (unat w) n" by (simp add: bit_iff_odd)
  then show ?thesis by (simp add: bit_unsigned_iff)
qed

lemma flag_bit: "w AND headerBit n \<noteq> 0 \<longleftrightarrow> bit (w :: u16) n"
  unfolding headerBit_def by (rule bit_iff_and_push_bit_not_eq_0 [symmetric])

lemma bit_flag: "bit (headerBit k) n \<longleftrightarrow> n = k \<and> k < 16"
  unfolding headerBit_def bit_push_bit_iff bit_1_iff by (auto simp del: push_bit_of_1)

lemma headerPack_bits:
  "bit (snd (headerPack h)) n \<longleftrightarrow>
    (n < 16 \<and> 11 \<le> n \<and> bit (OpCode h) (n - 11)) \<or> bit (RCode h) n \<or>
    (RecursionAvailable h \<and> n = 7) \<or> (RecursionDesired h \<and> n = 8) \<or> (Truncated h \<and> n = 9) \<or>
    (Authoritative h \<and> n = 10) \<or> (Response h \<and> n = 15) \<or> (AuthenticData h \<and> n = 5) \<or>
    (CheckingDisabled h \<and> n = 4)"
  by (auto simp: headerPack_def Let_def bit_or_iff bit_flag bit_push_bit_iff)

lemma bit_15: "bit (0xF :: u16) n \<longleftrightarrow> n < 4"
proof -
  have "(0xF :: u16) = mask 4" by (simp add: mask_eq_exp_minus_1)
  moreover have "bit (mask 4 :: u16) n \<longleftrightarrow> n < 4" by (auto simp only: bit_mask_iff) simp
  ultimately show ?thesis by simp
qed

definition hdr_ok :: "Header \<Rightarrow> bool" where
  "hdr_ok h \<longleftrightarrow> OpCode h < 16 \<and> RCode h < 16"

lemma header_of_bits:
  assumes "hdr_ok h" "rBits r = snd (headerPack h)" "rId r = ID h"
  shows "headerOfRaw r = h"
proof -
  have o: "\<And>n. bit (OpCode h) n \<Longrightarrow> n < 4" and c: "\<And>n. bit (RCode h) n \<Longrightarrow> n < 4"
    using assms(1) small_word_bits by (auto simp: hdr_ok_def not_less [symmetric])
  have op: "drop_bit 11 (rBits r) AND 0xF = OpCode h"
    by (rule bit_word_eqI)
       (unfold assms(2) bit_and_iff bit_15 bit_drop_bit_eq comp_apply headerPack_bits, auto dest: o c)
  have rc: "rBits r AND 0xF = RCode h"
    by (rule bit_word_eqI)
       (unfold assms(2) bit_and_iff bit_15 headerPack_bits, auto dest: o c)
  have "bit (rBits r) 15 = Response h" "bit (rBits r) 10 = Authoritative h" "bit (rBits r) 9 = Truncated h"
    "bit (rBits r) 8 = RecursionDesired h" "bit (rBits r) 7 = RecursionAvailable h"
    "bit (rBits r) 5 = AuthenticData h" "bit (rBits r) 4 = CheckingDisabled h"
    unfolding assms(2) headerPack_bits by (auto dest: o c)
  with op rc assms(3) show ?thesis
    by (intro Header.equality) (simp_all add: headerOfRaw_def flag_bit)
qed

lemma headerOfRaw_ok: "hdr_ok (headerOfRaw r)"
proof -
  have "(w :: u16) AND 0xF < 16" for w
    by (rule le_less_trans [OF word_and_le1]) simp
  then show ?thesis by (simp add: hdr_ok_def headerOfRaw_def)
qed

lemma bits_of_header:
  "snd (headerPack (headerOfRaw r)) = rBits r AND NOT (headerBit 6)"
proof (rule bit_word_eqI)
  fix n assume "n < LENGTH(16)"
  then have "n < 16" by simp
  then have "n = 15 \<or> (11 \<le> n \<and> n < 15) \<or> n = 10 \<or> n = 9 \<or> n = 7 \<or> n = 8 \<or> n = 6 \<or> n = 4 \<or> n = 5 \<or> n < 4"
    by linarith
  then show "bit (snd (headerPack (headerOfRaw r))) n = bit (rBits r AND NOT (headerBit 6)) n"
    unfolding headerPack_bits bit_and_iff bit_not_iff bit_flag headerOfRaw_def flag_bit
      rawHeader.simps Header.simps bit_15 bit_drop_bit_eq comp_apply
    by (elim disjE) auto
qed

section \<open>The bytes\<close>

lemma length_rawHeaderBytes [simp]: "length (rawHeaderBytes h) = 12"
  by (simp add: rawHeaderBytes_def)

lemma rawHeaderUnpack_bytes [simp]: "rawHeaderUnpack (rawHeaderBytes h @ z) 0 = Inr (h, 12)"
  by (simp add: rawHeaderUnpack_def rawHeaderBytes_def put_u16_def nth_append)

end
