(* ===== verification/DnsMsgCodec.thy ===== *)
theory DnsMsgCodec
  imports DnsMsgHeader "HOL-Library.Multiset"
begin

text \<open>
  Whole messages: unpacking is safe on every input and returns messages that can be packed,
  packing and unpacking are inverse up to the length fields, the length function is exact,
  and the size limit bounds the output.
\<close>

section \<open>Packing writes the header first\<close>

lemmas question_appends = question_codec.packMany_appends
lemmas resource_appends = resource_codec.packMany_appends

lemma packSections_append_only:
  assumes "packSections m opt limit off b cm = Inr (b', cm')" "length b2 = length b"
  shows "\<exists>x. b' = b @ x \<and> packSections m opt limit off b2 cm = Inr (b2 @ x, cm')"
proof -
  from assms(1) obtain b1 cm1 t1 b3 cm3 t3 b4 cm4 t4 b5 cm5 t5 where
    1: "packMany questionPack questionPackLen (\<lambda>_. False) limit off (Questions m) b cm False = Inr (b1, cm1, t1)" and
    3: "packMany packRR packRRLen (\<lambda>_. False) limit off (Answers m) b1 cm1 t1 = Inr (b3, cm3, t3)" and
    4: "packMany packRR packRRLen (\<lambda>_. False) limit off (Authorities m) b3 cm3 t3 = Inr (b4, cm4, t4)" and
    5: "packMany packRR packRRLen (\<lambda>r. opt \<noteq> None \<and> isOPT r) limit off (Additionals m) b4 cm4 t4 = Inr (b5, cm5, t5)" and
    6: "(case opt of None \<Rightarrow> Inr (b5, cm5) | Some r \<Rightarrow> newSectionErr ''edns0'' (packRR r b5 cm5 off)) = Inr (b', cm')"
    unfolding packSections_def by (auto simp: thenE_eq_Inr)
  from question_appends [OF 1 assms(2)] obtain x1 where x1: "b1 = b @ x1"
    "packMany questionPack questionPackLen (\<lambda>_. False) limit off (Questions m) b2 cm False = Inr (b2 @ x1, cm1, t1)" by blast
  from resource_appends [OF 3, of "b2 @ x1"] x1(1) assms(2) obtain x3 where x3: "b3 = b1 @ x3"
    "packMany packRR packRRLen (\<lambda>_. False) limit off (Answers m) (b2 @ x1) cm1 t1 = Inr (b2 @ x1 @ x3, cm3, t3)" by auto
  from resource_appends [OF 4, of "b2 @ x1 @ x3"] x1(1) x3(1) assms(2) obtain x4 where x4: "b4 = b3 @ x4"
    "packMany packRR packRRLen (\<lambda>_. False) limit off (Authorities m) (b2 @ x1 @ x3) cm3 t3 =
      Inr (b2 @ x1 @ x3 @ x4, cm4, t4)" by auto
  from resource_appends [OF 5, of "b2 @ x1 @ x3 @ x4"] x1(1) x3(1) x4(1) assms(2) obtain x5 where x5: "b5 = b4 @ x5"
    "packMany packRR packRRLen (\<lambda>r. opt \<noteq> None \<and> isOPT r) limit off (Additionals m) (b2 @ x1 @ x3 @ x4) cm4 t4 =
      Inr (b2 @ x1 @ x3 @ x4 @ x5, cm5, t5)" by auto
  obtain x6 where x6: "b' = b5 @ x6"
    "(case opt of None \<Rightarrow> Inr (b2 @ x1 @ x3 @ x4 @ x5, cm5)
      | Some r \<Rightarrow> newSectionErr ''edns0'' (packRR r (b2 @ x1 @ x3 @ x4 @ x5) cm5 off)) =
     Inr (b2 @ x1 @ x3 @ x4 @ x5 @ x6, cm')"
  proof (cases opt)
    case (Some r)
    then have r: "packRR r b5 cm5 off = Inr (b', cm')" using 6 by simp
    have "length (b2 @ x1 @ x3 @ x4 @ x5) = length b5" using x1(1) x3(1) x4(1) x5(1) assms(2) by simp
    from appendsD [OF appends_packRR r this] Some show thesis using that by auto
  qed (use 6 that in auto)
  have "packSections m opt limit off b2 cm = Inr (b2 @ x1 @ x3 @ x4 @ x5 @ x6, cm')"
    unfolding packSections_def using x1(2) x3(2) x4(2) x5(2) x6(2) by simp
  then show ?thesis using x1(1) x3(1) x4(1) x5(1) x6(1) by auto
qed

definition counts_ok :: "Msg \<Rightarrow> bool" where
  "counts_ok m \<longleftrightarrow> length (Questions m) \<le> 65535 \<and> length (Answers m) \<le> 65535 \<and>
     length (Authorities m) \<le> 65535 \<and> length (Additionals m) \<le> 65535"

definition startMap :: "Msg \<Rightarrow> bool \<Rightarrow> cmap" where
  "startMap m compression = (if compression \<and> length (Questions m) + length (Answers m) +
     length (Authorities m) + length (Additionals m) > 1 then Some Map.empty else None)"

definition minLimit :: "int \<Rightarrow> int" where
  "minLimit limit = (if limit > 0 \<and> limit < 512 then 512 else limit)"

definition limitOPT :: "Msg \<Rightarrow> int \<Rightarrow> Resource option" where
  "limitOPT m limit = (if minLimit limit > 0 then lastOPT (Additionals m) else None)"

abbreviation headerBytes :: "Msg \<Rightarrow> bytes" where
  "headerBytes m \<equiv> rawHeaderBytes (rawHeaderOf m)"

lemma msgPack_eq_Inr:
  "msgPack m b compression limit = Inr out \<longleftrightarrow> counts_ok m \<and>
    (\<exists>l cm. ednsLimit (limitOPT m limit) (minLimit limit) = Inr l \<and>
      packSections m (limitOPT m limit) l (length b) (b @ headerBytes m) (startMap m compression) = Inr (out, cm))"
proof -
  let ?P = "\<lambda>l b2. packSections m (limitOPT m limit) l (length b) b2 (startMap m compression)"
  have sw: "?P l (b @ replicate 12 0) = Inr (b1, cm) \<Longrightarrow>
      ?P l (b @ headerBytes m) = Inr (take (length b) b1 @ headerBytes m @ drop (length b + 12) b1, cm)" for l b1 cm
    using packSections_append_only [of m "limitOPT m limit" l "length b" "b @ replicate 12 0"
        "startMap m compression" b1 cm "b @ headerBytes m"] by auto
  have sw': "?P l (b @ headerBytes m) = Inr (out, cm) \<Longrightarrow>
      \<exists>b1. ?P l (b @ replicate 12 0) = Inr (b1, cm) \<and> out = take (length b) b1 @ headerBytes m @ drop (length b + 12) b1"
    for l cm
    using packSections_append_only [of m "limitOPT m limit" l "length b" "b @ headerBytes m"
        "startMap m compression" out cm "b @ replicate 12 0"] by auto
  have "msgPack m b compression limit = Inr out \<longleftrightarrow> counts_ok m \<and>
    (\<exists>l b1 cm. ednsLimit (limitOPT m limit) (minLimit limit) = Inr l \<and>
      ?P l (b @ replicate 12 0) = Inr (b1, cm) \<and>
      take (length b) b1 @ headerBytes m @ drop (length b + 12) b1 = out)"
    by (auto simp: msgPack_def Let_def counts_ok_def startMap_def minLimit_def limitOPT_def res_simps)
  then show ?thesis using sw sw' by blast
qed

text \<open>A message every part of which the wire format can hold.\<close>

definition msg_ok :: "Msg \<Rightarrow> bool" where
  "msg_ok m \<longleftrightarrow> counts_ok m \<and> list_all question_ok (Questions m) \<and> list_all resource_ok (Answers m) \<and>
     list_all resource_ok (Authorities m) \<and> list_all resource_ok (Additionals m)"

text \<open>The number of labels of the longest name of a message.\<close>

definition msg_depth :: "Msg \<Rightarrow> nat" where
  "msg_depth m = max (names_depth (\<lambda>q. nlabels (qName q)) (Questions m)) (max (names_depth rr_depth (Answers m))
     (max (names_depth rr_depth (Authorities m)) (names_depth rr_depth (Additionals m))))"

definition same_msg :: "Msg \<Rightarrow> Msg \<Rightarrow> bool" where
  "same_msg m m' \<longleftrightarrow> mHeader m' = mHeader m \<and> Questions m' = Questions m \<and>
     list_all2 same_rr (Answers m) (Answers m') \<and> list_all2 same_rr (Authorities m) (Authorities m') \<and>
     list_all2 same_rr (Additionals m) (Additionals m')"

lemma startMap_ok [simp]: "cmap_ok body (startMap m compression)"
  by (simp add: startMap_def)

lemma limitOPT_unlimited [simp]: "\<not> limit > 0 \<Longrightarrow> limitOPT m limit = None"
  and minLimit_unlimited [simp]: "\<not> limit > 0 \<Longrightarrow> minLimit limit = limit"
  by (auto simp: limitOPT_def minLimit_def)

section \<open>Without a limit\<close>

text \<open>
  Packing never fails on a well-formed message, and the sections can be read one after the
  other if the names are short enough for the pointers they may follow.
\<close>

definition sections_read :: "Msg \<Rightarrow> bytes \<Rightarrow> bytes \<Rightarrow> bytes \<Rightarrow> bytes \<Rightarrow> bytes \<Rightarrow> Resource list \<Rightarrow>
    Resource list \<Rightarrow> Resource list \<Rightarrow> bool" where
  "sections_read m pre x1 x2 x3 x4 r2 r3 r4 \<longleftrightarrow>
    reads (\<lambda>m' o'. unpackMany questionUnpack (length (Questions m)) m' o' []) pre x1 (Questions m) \<and>
    reads (\<lambda>m' o'. unpackMany unpackResource (length (Answers m)) m' o' []) (pre @ x1) x2 r2 \<and>
    reads (\<lambda>m' o'. unpackMany unpackResource (length (Authorities m)) m' o' []) (pre @ x1 @ x2) x3 r3 \<and>
    reads (\<lambda>m' o'. unpackMany unpackResource (length (Additionals m)) m' o' []) (pre @ x1 @ x2 @ x3) x4 r4 \<and>
    list_all2 same_rr (Answers m) r2 \<and> list_all2 same_rr (Authorities m) r3 \<and> list_all2 same_rr (Additionals m) r4"

lemma packSections_unlimited:
  assumes ok: "msg_ok m" and lim: "\<not> limit > 0" and off: "off \<le> length b" and cm: "cmap_ok (drop off b) cm"
  shows "\<exists>x1 x2 x3 x4 cm'. packSections m None limit off b cm = Inr (b @ x1 @ x2 @ x3 @ x4, cm') \<and>
    (hops cm (msg_depth m) \<le> 10 \<longrightarrow> (\<exists>r2 r3 r4. sections_read m (drop off b) x1 x2 x3 x4 r2 r3 r4))"
proof -
  have v: "list_all question_ok (Questions m)" "list_all resource_ok (Answers m)"
    "list_all resource_ok (Authorities m)" "list_all resource_ok (Additionals m)" using ok by (auto simp: msg_ok_def)
  let ?dq = "names_depth (\<lambda>q. nlabels (qName q)) (Questions m)"
  from question_codec.packMany_unlimited [OF v(1) off cm lim, of "\<lambda>_. False" False "[]"] obtain x1 c1 where 1:
    "packMany questionPack questionPackLen (\<lambda>_. False) limit off (Questions m) b cm False = Inr (b @ x1, c1, False)"
    "cmap_le cm c1" "cmap_ok (drop off b @ x1) c1"
    "hops cm ?dq \<le> 10 \<longrightarrow> reads (\<lambda>m' o'. unpackMany questionUnpack (length (Questions m)) m' o' []) (drop off b) x1 (Questions m)"
    by (auto simp: list.rel_eq)
  have o1: "off \<le> length (b @ x1)" "cmap_ok (drop off (b @ x1)) c1" "drop off (b @ x1) = drop off b @ x1" using off 1(3) by auto
  from resource_codec.packMany_unlimited [OF v(2) o1(1,2) lim, of "\<lambda>_. False" False "[]"] obtain x2 c2 where 2:
    "packMany packRR packRRLen (\<lambda>_. False) limit off (Answers m) (b @ x1) c1 False = Inr (b @ x1 @ x2, c2, False)"
    "cmap_le c1 c2" "cmap_ok (drop off b @ x1 @ x2) c2"
    "hops c1 (names_depth rr_depth (Answers m)) \<le> 10 \<longrightarrow> (\<exists>ys.
       reads (\<lambda>m' o'. unpackMany unpackResource (length (Answers m)) m' o' []) (drop off b @ x1) x2 ys \<and>
       list_all2 same_rr (Answers m) ys)"
    unfolding o1(3) by auto
  have o2: "off \<le> length (b @ x1 @ x2)" "cmap_ok (drop off (b @ x1 @ x2)) c2" "drop off (b @ x1 @ x2) = drop off b @ x1 @ x2"
    using off 2(3) by auto
  from resource_codec.packMany_unlimited [OF v(3) o2(1,2) lim, of "\<lambda>_. False" False "[]"] obtain x3 c3 where 3:
    "packMany packRR packRRLen (\<lambda>_. False) limit off (Authorities m) (b @ x1 @ x2) c2 False = Inr (b @ x1 @ x2 @ x3, c3, False)"
    "cmap_le c2 c3" "cmap_ok (drop off b @ x1 @ x2 @ x3) c3"
    "hops c2 (names_depth rr_depth (Authorities m)) \<le> 10 \<longrightarrow> (\<exists>ys.
       reads (\<lambda>m' o'. unpackMany unpackResource (length (Authorities m)) m' o' []) (drop off b @ x1 @ x2) x3 ys \<and>
       list_all2 same_rr (Authorities m) ys)"
    unfolding o2(3) by auto
  have o3: "off \<le> length (b @ x1 @ x2 @ x3)" "cmap_ok (drop off (b @ x1 @ x2 @ x3)) c3"
    "drop off (b @ x1 @ x2 @ x3) = drop off b @ x1 @ x2 @ x3" using off 3(3) by auto
  from resource_codec.packMany_unlimited [OF v(4) o3(1,2) lim, of "\<lambda>r. False" False "[]"] obtain x4 c4 where 4:
    "packMany packRR packRRLen (\<lambda>_. False) limit off (Additionals m) (b @ x1 @ x2 @ x3) c3 False =
      Inr (b @ x1 @ x2 @ x3 @ x4, c4, False)"
    "hops c3 (names_depth rr_depth (Additionals m)) \<le> 10 \<longrightarrow> (\<exists>ys.
       reads (\<lambda>m' o'. unpackMany unpackResource (length (Additionals m)) m' o' []) (drop off b @ x1 @ x2 @ x3) x4 ys \<and>
       list_all2 same_rr (Additionals m) ys)"
    unfolding o3(3) by auto
  have "packSections m None limit off b cm = Inr (b @ x1 @ x2 @ x3 @ x4, c4)"
    unfolding packSections_def using 1(1) 2(1) 3(1) 4(1) by simp
  moreover have h: "hops c1 k = hops cm k" "hops c2 k = hops cm k" "hops c3 k = hops cm k" for k
    using hops_cong [OF 1(2)] hops_cong [OF 2(2)] hops_cong [OF 3(2)] by simp_all
  have "\<exists>r2 r3 r4. sections_read m (drop off b) x1 x2 x3 x4 r2 r3 r4" if "hops cm (msg_depth m) \<le> 10"
  proof -
    note d1 = hops_maxD [OF that [unfolded msg_depth_def]]
    note d2 = hops_maxD [OF d1(2)]
    note d3 = hops_maxD [OF d2(2)]
    from 2(4) h d2(1) obtain r2 where "reads (\<lambda>m' o'. unpackMany unpackResource (length (Answers m)) m' o' []) (drop off b @ x1) x2 r2"
      "list_all2 same_rr (Answers m) r2" by auto
    moreover from 3(4) h d3(1) obtain r3 where
      "reads (\<lambda>m' o'. unpackMany unpackResource (length (Authorities m)) m' o' []) (drop off b @ x1 @ x2) x3 r3"
      "list_all2 same_rr (Authorities m) r3" by auto
    moreover from 4(2) h d3(2) obtain r4 where
      "reads (\<lambda>m' o'. unpackMany unpackResource (length (Additionals m)) m' o' []) (drop off b @ x1 @ x2 @ x3) x4 r4"
      "list_all2 same_rr (Additionals m) r4" by auto
    ultimately show ?thesis using 1(4) d1(1) unfolding sections_read_def by blast
  qed
  ultimately show ?thesis by blast
qed

lemma msgUnpack_sections:
  assumes "reads (\<lambda>m' o'. unpackMany questionUnpack (unat (rQuestions h)) m' o' []) (rawHeaderBytes h) x1 qs"
    and "reads (\<lambda>m' o'. unpackMany unpackResource (unat (rAnswers h)) m' o' []) (rawHeaderBytes h @ x1) x2 r2"
    and "reads (\<lambda>m' o'. unpackMany unpackResource (unat (rAuthorities h)) m' o' []) (rawHeaderBytes h @ x1 @ x2) x3 r3"
    and "reads (\<lambda>m' o'. unpackMany unpackResource (unat (rAdditionals h)) m' o' []) (rawHeaderBytes h @ x1 @ x2 @ x3) x4 r4"
  shows "msgUnpack (rawHeaderBytes h @ x1 @ x2 @ x3 @ x4) =
    Inr \<lparr>mHeader = headerOfRaw h, Questions = qs, Answers = r2, Authorities = r3, Additionals = r4\<rparr>"
  using readsD [OF assms(1), of "x2 @ x3 @ x4"] readsD [OF assms(2), of "x3 @ x4"] readsD [OF assms(3), of x4]
    readsD [OF assms(4), of "[]"]
  by (simp add: msgUnpack_def add.assoc)

lemma pack_unpack_unlimited:
  assumes ok: "msg_ok m" and hdr: "hdr_ok (mHeader m)" and lim: "\<not> limit > 0"
    and d: "compression \<longrightarrow> msg_depth m \<le> 10"
  shows "\<exists>x m'. msgPack m b compression limit = Inr (b @ x) \<and> msgUnpack x = Inr m' \<and> same_msg m m'"
proof -
  let ?H = "headerBytes m"
  have dr: "drop (length b) (b @ ?H) = ?H" and off: "length b \<le> length (b @ ?H)"
    and cmo: "cmap_ok (drop (length b) (b @ ?H)) (startMap m compression)" by simp_all
  from packSections_unlimited [OF ok lim off cmo, unfolded dr] obtain x1 x2 x3 x4 cm' where
    p: "packSections m None limit (length b) (b @ ?H) (startMap m compression) = Inr ((b @ ?H) @ x1 @ x2 @ x3 @ x4, cm')"
    and r: "hops (startMap m compression) (msg_depth m) \<le> 10 \<longrightarrow> (\<exists>r2 r3 r4. sections_read m ?H x1 x2 x3 x4 r2 r3 r4)"
    by blast
  have "hops (startMap m compression) (msg_depth m) \<le> 10" using d by (simp add: hops_def startMap_def)
  with r obtain r2 r3 r4 where s: "sections_read m ?H x1 x2 x3 x4 r2 r3 r4" by blast
  have c: "counts_ok m" using ok by (simp add: msg_ok_def)
  have n: "unat (rQuestions (rawHeaderOf m)) = length (Questions m)" "unat (rAnswers (rawHeaderOf m)) = length (Answers m)"
    "unat (rAuthorities (rawHeaderOf m)) = length (Authorities m)" "unat (rAdditionals (rawHeaderOf m)) = length (Additionals m)"
    using c by (simp_all add: rawHeaderOf_def counts_ok_def unat_of_nat)
  have hd: "headerOfRaw (rawHeaderOf m) = mHeader m"
    by (rule header_of_bits [OF hdr]) (simp_all add: rawHeaderOf_def headerPack_def Let_def)
  have "msgUnpack (?H @ x1 @ x2 @ x3 @ x4) =
      Inr \<lparr>mHeader = mHeader m, Questions = Questions m, Answers = r2, Authorities = r3, Additionals = r4\<rparr>"
    using s unfolding sections_read_def by (intro msgUnpack_sections [of "rawHeaderOf m", unfolded n hd]) blast+
  moreover have "msgPack m b compression limit = Inr (b @ ?H @ x1 @ x2 @ x3 @ x4)"
    unfolding msgPack_eq_Inr using c p lim by (simp add: ednsLimit_def)
  moreover have "same_msg m \<lparr>mHeader = mHeader m, Questions = Questions m, Answers = r2, Authorities = r3, Additionals = r4\<rparr>"
    using s by (simp add: same_msg_def sections_read_def)
  ultimately show ?thesis by blast
qed

section \<open>Unpacking\<close>

lemma rawHeaderUnpack_safe [simp]: "safe (rawHeaderUnpack msg 0)"
  by (simp add: rawHeaderUnpack_def Let_def)

lemma rawHeaderUnpack_off: "rawHeaderUnpack msg 0 = Inr (h, off) \<Longrightarrow> off \<le> length msg"
  by (auto simp: rawHeaderUnpack_def Let_def split: if_splits)

lemmas bounded_questions = bounded_unpackMany [OF bounded_question]
lemmas bounded_resources = bounded_unpackMany [OF bounded_resource]

lemma safe_bind_reader:
  assumes "bounded_reader u" "off \<le> length msg" "\<And>a e. e \<le> length msg \<Longrightarrow> safe (f (a, e))"
  shows "safe (thenE (newSectionErr sec (u msg off)) f)"
  using bounded_readerD(1) [OF assms(1,2)] bounded_readerD(3) [OF assms(1,2)] assms(3)
  by (intro safe_thenE) auto

lemma unpack_safe: "safe (msgUnpack msg)"
proof (cases "rawHeaderUnpack msg 0")
  case (Inl e)
  then show ?thesis using rawHeaderUnpack_safe [of msg] by (cases e) (auto simp: msgUnpack_def newSectionErr_def wrapE_def)
next
  case (Inr r)
  then obtain h off where h: "rawHeaderUnpack msg 0 = Inr (h, off)" by (cases r) auto
  show ?thesis
    unfolding msgUnpack_def h newSectionErr_Inr thenE.simps(1) prod.case
    by (rule safe_bind_reader [OF bounded_questions rawHeaderUnpack_off [OF h]], unfold prod.case,
        (rule safe_bind_reader [OF bounded_resources], assumption, unfold prod.case)+) (rule safe_Inr)
qed

lemma questions_ok:
  "unpackMany questionUnpack n msg off [] = Inr (qs, e) \<Longrightarrow> length qs = n \<and> list_all question_ok qs"
  using unpackMany_length unpackMany_all [OF questionUnpack_ok] by fastforce

lemma resources_ok:
  "unpackMany unpackResource n msg off [] = Inr (rs, e) \<Longrightarrow> length rs = n \<and> list_all resource_ok rs"
  using unpackMany_length unpackMany_all [OF unpackResource_ok] by fastforce

lemma unpack_msg_ok: "msgUnpack msg = Inr m \<Longrightarrow> msg_ok m \<and> hdr_ok (mHeader m)"
  by (auto simp: msgUnpack_def res_simps msg_ok_def counts_ok_def headerOfRaw_ok
      dest!: questions_ok resources_ok)

section \<open>What packing writes\<close>

lemma pack_header:
  assumes "msgPack m b compression limit = Inr out"
  shows "\<exists>x. out = b @ headerBytes m @ x"
proof -
  from assms obtain l cm where "packSections m (limitOPT m limit) l (length b) (b @ headerBytes m)
      (startMap m compression) = Inr (out, cm)"
    by (auto simp: msgPack_eq_Inr)
  from packSections_append_only [OF this refl] show ?thesis by auto
qed

lemma sumLen_Cons [simp]: "sumLen f (x # xs) s = thenE (f x) (\<lambda>l. sumLen f xs (s + l))"
proof -
  have "foldl (\<lambda>acc x. thenE acc (\<lambda>s. thenE (f x) (\<lambda>l. Inr (s + l)))) (Inl e) xs = Inl e" for e
    by (induction xs) auto
  then show ?thesis by (cases "f x") (simp_all add: sumLen_def)
qed

lemma sumLen_Nil [simp]: "sumLen f [] s = Inr s"
  by (simp add: sumLen_def)

lemma sumLen_list_all2:
  "list_all2 (\<lambda>x n. f x = Inr n) xs lens \<Longrightarrow> sumLen f xs s = Inr (s + sum_list lens)"
  by (induction arbitrary: s rule: list_all2_induct) auto

lemma max_len_exact_at:
  assumes ok: "msg_ok m" and p: "msgPack m b False limit = Inr x" and lim: "\<not> limit > 0"
  shows "maxPackLen m = Inr (length x - length b)"
proof -
  have v: "list_all question_ok (Questions m)" "list_all resource_ok (Answers m)"
    "list_all resource_ok (Authorities m)" "list_all resource_ok (Additionals m)" using ok by (auto simp: msg_ok_def)
  have cm: "startMap m False = None" by (simp add: startMap_def)
  from p lim obtain cm' where "packSections m None limit (length b) (b @ headerBytes m) None = Inr (x, cm')"
    by (auto simp: msgPack_eq_Inr ednsLimit_def cm)
  then obtain b1 c1 t1 b3 c3 t3 b4 c4 t4 t5 where
    1: "packMany questionPack questionPackLen (\<lambda>_. False) limit (length b) (Questions m) (b @ headerBytes m) None False = Inr (b1, c1, t1)" and
    3: "packMany packRR packRRLen (\<lambda>_. False) limit (length b) (Answers m) b1 c1 t1 = Inr (b3, c3, t3)" and
    4: "packMany packRR packRRLen (\<lambda>_. False) limit (length b) (Authorities m) b3 c3 t3 = Inr (b4, c4, t4)" and
    5: "packMany packRR packRRLen (\<lambda>_. False) limit (length b) (Additionals m) b4 c4 t4 = Inr (x, cm', t5)"
    unfolding packSections_def by (auto simp: thenE_eq_Inr)
  from question_codec.packMany_total_len [OF v(1) lim _ _ 1] obtain n1 where
    n1: "list_all2 (\<lambda>q n. questionPackLen q None = Inr n) (Questions m) n1" "length b1 = length b + 12 + sum_list n1" "c1 = None"
    by auto
  from resource_codec.packMany_total_len [OF v(2) lim _ _ 3 [unfolded n1(3)]] obtain n3 where
    n3: "list_all2 (\<lambda>r n. packRRLen r None = Inr n) (Answers m) n3" "length b3 = length b1 + sum_list n3" "c3 = None"
    by (auto simp: n1(2))
  from resource_codec.packMany_total_len [OF v(3) lim _ _ 4 [unfolded n3(3)]] obtain n4 where
    n4: "list_all2 (\<lambda>r n. packRRLen r None = Inr n) (Authorities m) n4" "length b4 = length b3 + sum_list n4" "c4 = None"
    by (auto simp: n1(2) n3(2))
  from resource_codec.packMany_total_len [OF v(4) lim _ _ 5 [unfolded n4(3)]] obtain n5 where
    n5: "list_all2 (\<lambda>r n. packRRLen r None = Inr n) (Additionals m) n5" "length x = length b4 + sum_list n5"
    by (auto simp: n1(2) n3(2) n4(2))
  show ?thesis
    by (simp add: maxPackLen_def sumLen_list_all2 [OF n1(1)] sumLen_list_all2 [OF n3(1)]
        sumLen_list_all2 [OF n4(1)] sumLen_list_all2 [OF n5(1)] n1(2) n3(2) n4(2) n5(2))
qed

lemma max_len_exact:
  "msg_ok m \<Longrightarrow> msgPack m [] False limit = Inr x \<Longrightarrow> \<not> limit > 0 \<Longrightarrow> maxPackLen m = Inr (length x)"
  using max_len_exact_at [of m "[]" limit x] by simp

section \<open>With a limit\<close>

text \<open>The bytes of the EDNS0 record that packing sets aside, and those it does not.\<close>

definition optData :: "Msg \<Rightarrow> int" where
  "optData m = (case lastOPT (Additionals m) of None \<Rightarrow> 0 | Some r \<Rightarrow> int (length (rData r)))"

definition optOverhead :: "Msg \<Rightarrow> int" where
  "optOverhead m = (case lastOPT (Additionals m) of None \<Rightarrow> 0 | Some r \<Rightarrow> int (length (nb (hName (Hdr r))) + 10))"

lemma lastOPT_SomeD: "lastOPT rs = Some r \<Longrightarrow> isOPT r \<and> r \<in> set rs"
  unfolding lastOPT_def find_Some_iff by (auto simp: rev_nth)

lemma opt_raw:
  assumes "list_all resource_ok rs" "lastOPT rs = Some r"
  shows "resource_ok r" "\<exists>h d. r = Raw_rr h d"
proof -
  from lastOPT_SomeD [OF assms(2)] assms(1) show r: "resource_ok r" by (auto simp: list_all_iff)
  then have "tag_ok r" "isOPT r" using lastOPT_SomeD [OF assms(2)] by (auto simp: resource_ok_def)
  then show "\<exists>h d. r = Raw_rr h d" by (cases r) (auto simp: isOPT_def)
qed

lemma pack_opt:
  assumes "resource_ok r" "r = Raw_rr h d" "off \<le> length b" "cmap_ok (drop off b) cm"
  shows "\<exists>x cm'. packRR r b cm off = Inr (b @ x, cm') \<and> length x \<le> length (nb (hName h)) + 10 + length d"
proof -
  from resource_codec.packs [OF assms(1,3,4)] obtain x cm' where p: "packRR r b cm off = Inr (b @ x, cm')" by blast
  from resource_codec.len [OF assms(1) cmap_le_refl p] obtain n where n: "packRRLen r cm = Inr n" "length x \<le> n" by auto
  from assms(1,2) obtain ls where ls: "hName h = name_of ls" "labels_ok ls"
    by (auto simp: resource_ok_def packable_def name_ok_def)
  from namePackLenFrom_antimono [OF ls(2), of cm cm 0] obtain k where "namePackLen (hName h) cm = Inr k" "k \<le> length (nb (hName h))"
    using ls(1) by (auto simp: namePackLen_def)
  with n assms(2) p show ?thesis by (auto simp: packRRLen_def hdrPackLen_def split: if_splits)
qed

lemma packSections_limited:
  assumes ok: "msg_ok m" and lim: "limit > 0" and off: "off \<le> length b" and cm: "cmap_ok (drop off b) cm"
    and opt: "opt = lastOPT (Additionals m)" and room: "int (length b) \<le> limit"
  shows "\<exists>x cm'. packSections m opt limit off b cm = Inr (b @ x, cm') \<and>
    int (length (b @ x)) \<le> limit + optData m + optOverhead m"
proof -
  have v: "list_all question_ok (Questions m)" "list_all resource_ok (Answers m)"
    "list_all resource_ok (Authorities m)" "list_all resource_ok (Additionals m)" using ok by (auto simp: msg_ok_def)
  from question_codec.packMany_limited [OF v(1) off cm lim, of "\<lambda>_. False" False] obtain x1 c1 t1 where
    1: "packMany questionPack questionPackLen (\<lambda>_. False) limit off (Questions m) b cm False = Inr (b @ x1, c1, t1)"
      "cmap_ok (drop off b @ x1) c1" "int (length (b @ x1)) \<le> max (int (length b)) limit" by blast
  have o1: "off \<le> length (b @ x1)" "cmap_ok (drop off (b @ x1)) c1" using off 1(2) by auto
  from resource_codec.packMany_limited [OF v(2) o1 lim, of "\<lambda>_. False" t1] off obtain x2 c2 t2 where
    2: "packMany packRR packRRLen (\<lambda>_. False) limit off (Answers m) (b @ x1) c1 t1 = Inr (b @ x1 @ x2, c2, t2)"
      "cmap_ok (drop off b @ x1 @ x2) c2" "int (length (b @ x1 @ x2)) \<le> max (int (length (b @ x1))) limit" by auto
  have o2: "off \<le> length (b @ x1 @ x2)" "cmap_ok (drop off (b @ x1 @ x2)) c2" using off 2(2) by auto
  from resource_codec.packMany_limited [OF v(3) o2 lim, of "\<lambda>_. False" t2] off obtain x3 c3 t3 where
    3: "packMany packRR packRRLen (\<lambda>_. False) limit off (Authorities m) (b @ x1 @ x2) c2 t2 = Inr (b @ x1 @ x2 @ x3, c3, t3)"
      "cmap_ok (drop off b @ x1 @ x2 @ x3) c3" "int (length (b @ x1 @ x2 @ x3)) \<le> max (int (length (b @ x1 @ x2))) limit" by auto
  have o3: "off \<le> length (b @ x1 @ x2 @ x3)" "cmap_ok (drop off (b @ x1 @ x2 @ x3)) c3" using off 3(2) by auto
  from resource_codec.packMany_limited [OF v(4) o3 lim, of "\<lambda>r. opt \<noteq> None \<and> isOPT r" t3] off obtain x4 c4 t4 where
    4: "packMany packRR packRRLen (\<lambda>r. opt \<noteq> None \<and> isOPT r) limit off (Additionals m) (b @ x1 @ x2 @ x3) c3 t3 =
        Inr (b @ x1 @ x2 @ x3 @ x4, c4, t4)"
      "cmap_ok (drop off b @ x1 @ x2 @ x3 @ x4) c4"
      "int (length (b @ x1 @ x2 @ x3 @ x4)) \<le> max (int (length (b @ x1 @ x2 @ x3))) limit" by auto
  let ?b4 = "b @ x1 @ x2 @ x3 @ x4"
  have len: "int (length ?b4) \<le> limit" using 1(3) 2(3) 3(3) 4(3) room by linarith
  have run: "packSections m opt limit off b cm =
      (case opt of None \<Rightarrow> Inr (?b4, c4) | Some r \<Rightarrow> newSectionErr ''edns0'' (packRR r ?b4 c4 off))"
    unfolding packSections_def using 1(1) 2(1) 3(1) 4(1) by simp
  show ?thesis
  proof (cases opt)
    case None
    then show ?thesis using run len opt
      by (intro exI [of _ "x1 @ x2 @ x3 @ x4"] exI [of _ c4]) (simp add: optData_def optOverhead_def)
  next
    case (Some r)
    then have r: "lastOPT (Additionals m) = Some r" using opt by simp
    obtain h d where hd: "r = Raw_rr h d" using opt_raw(2) [OF v(4) r] by blast
    have o4: "off \<le> length ?b4" "cmap_ok (drop off ?b4) c4" using off 4(2) by auto
    from pack_opt [OF opt_raw(1) [OF v(4) r] hd o4] obtain x5 c5 where
      "packRR r ?b4 c4 off = Inr (?b4 @ x5, c5)" "length x5 \<le> length (nb (hName h)) + 10 + length d" by blast
    then show ?thesis using run len Some r hd
      by (intro exI [of _ "x1 @ x2 @ x3 @ x4 @ x5"] exI [of _ c5]) (simp add: optData_def optOverhead_def)
  qed
qed

lemma pack_limited:
  assumes ok: "msg_ok m" and lim: "limit > 0" and room: "int (length b + 12) + optData m \<le> minLimit limit"
  shows "\<exists>x. msgPack m b compression limit = Inr (b @ x) \<and>
    int (length (b @ x)) \<le> minLimit limit + optOverhead m"
proof -
  have pos: "minLimit limit > 0" using lim by (simp add: minLimit_def)
  have opt: "limitOPT m limit = lastOPT (Additionals m)" using pos by (simp add: limitOPT_def)
  have v: "list_all resource_ok (Additionals m)" using ok by (auto simp: msg_ok_def)
  have l: "ednsLimit (limitOPT m limit) (minLimit limit) = Inr (minLimit limit - optData m)"
    using opt_raw(2) [OF v] unfolding opt
    by (auto simp: ednsLimit_def optData_def split: option.splits)
  have "minLimit limit - optData m > 0" using room by auto
  from packSections_limited [OF ok this, of "length b" "b @ headerBytes m" "startMap m compression" _, OF _ _ refl] room
  obtain x cm' where "packSections m (lastOPT (Additionals m)) (minLimit limit - optData m) (length b) (b @ headerBytes m)
      (startMap m compression) = Inr ((b @ headerBytes m) @ x, cm')"
    "int (length ((b @ headerBytes m) @ x)) \<le> minLimit limit + optOverhead m" by auto
  then show ?thesis using l ok opt
    by (intro exI [of _ "headerBytes m @ x"]) (auto simp: msgPack_eq_Inr msg_ok_def)
qed

section \<open>Removing EDNS0 records\<close>

lemma popFrom_None: "popFrom rs n = None \<longleftrightarrow> (\<forall>i<n. \<not> isOPT (rs ! i))"
  by (induction rs n rule: popFrom.induct) (auto simp: less_Suc_eq)

lemma mset_move_last:
  assumes "i < length rs"
  shows "mset (butlast (rs[i := last rs])) + {# rs ! i #} = mset rs"
proof -
  have ne: "rs \<noteq> []" using assms by auto
  let ?u = "rs[i := last rs]"
  have "last ?u = last rs" using ne by (simp add: last_list_update)
  then have "mset ?u = mset (butlast ?u) + {# last rs #}"
    using ne append_butlast_last_id [of ?u] by (metis list_update_nonempty mset_append mset_single_iff_right mset.simps(1,2)
        add_mset_add_single union_mset_add_mset_left)
  moreover have "mset ?u = add_mset (last rs) (mset rs - {# rs ! i #})"
    using assms by (simp add: mset_update)
  moreover have "rs ! i \<in># mset rs" using assms by simp
  ultimately show ?thesis by (metis add_mset_add_single add_right_imp_eq insert_DiffM2)
qed

lemma popFrom_Some:
  assumes "n \<le> length rs" "popFrom rs n = Some (rs', r)"
  shows "isOPT r \<and> mset rs' + {# r #} = mset rs \<and>
    (\<exists>i<n. r = rs ! i \<and> (\<forall>j<n. i < j \<longrightarrow> \<not> isOPT (rs ! j)))"
  using assms
proof (induction n)
  case (Suc n)
  show ?case
  proof (cases "isOPT (rs ! n)")
    case True
    then show ?thesis using Suc.prems mset_move_last [of n rs] by (auto intro!: exI [of _ n])
  next
    case False
    then have "isOPT r \<and> mset rs' + {# r #} = mset rs \<and> (\<exists>i<n. r = rs ! i \<and> (\<forall>j<n. i < j \<longrightarrow> \<not> isOPT (rs ! j)))"
      using Suc by simp
    then show ?thesis using False by (auto simp: less_Suc_eq)
  qed
qed simp

lemma lastOPT_snoc: "lastOPT (rs @ [r]) = (if isOPT r then Some r else lastOPT rs)"
  by (simp add: lastOPT_def)

lemma lastOPT_at: "i < length rs \<Longrightarrow> isOPT (rs ! i) \<Longrightarrow> (\<forall>j<length rs. i < j \<longrightarrow> \<not> isOPT (rs ! j)) \<Longrightarrow>
    lastOPT rs = Some (rs ! i)"
  by (induction rs rule: rev_induct) (auto simp: lastOPT_snoc nth_append less_Suc_eq split: if_splits)

lemma lastOPT_None: "lastOPT rs = None \<longleftrightarrow> (\<forall>r \<in> set rs. \<not> isOPT r)"
  by (induction rs rule: rev_induct) (auto simp: lastOPT_snoc lastOPT_def)

lemma popEDNS0_None: "snd (popEDNS0 m) = None \<longleftrightarrow> lastOPT (Additionals m) = None"
  using popFrom_None [of "Additionals m" "length (Additionals m)"]
  unfolding lastOPT_None all_set_conv_all_nth
  by (cases "popFrom (Additionals m) (length (Additionals m))") (auto simp: popEDNS0_def)

lemma pop_edns0:
  "popEDNS0 m = (m', r) \<Longrightarrow> r = lastOPT (Additionals m) \<and> m' = m\<lparr>Additionals := Additionals m'\<rparr> \<and>
    mset (Additionals m) = mset (Additionals m') + (case r of None \<Rightarrow> {#} | Some x \<Rightarrow> {# x #})"
proof (cases "popFrom (Additionals m) (length (Additionals m))")
  case None
  moreover assume "popEDNS0 m = (m', r)"
  ultimately show ?thesis using popEDNS0_None [of m] by (auto simp: popEDNS0_def)
next
  case (Some p)
  moreover assume pop: "popEDNS0 m = (m', r)"
  ultimately obtain rs x where p: "popFrom (Additionals m) (length (Additionals m)) = Some (rs, x)"
    "m' = m\<lparr>Additionals := rs\<rparr>" "r = Some x" by (cases p) (auto simp: popEDNS0_def)
  from popFrom_Some [OF le_refl p(1)] obtain i where i: "mset rs + {# x #} = mset (Additionals m)"
    "i < length (Additionals m)" "x = Additionals m ! i" "isOPT x"
    "\<forall>j<length (Additionals m). i < j \<longrightarrow> \<not> isOPT (Additionals m ! j)" by blast
  have "lastOPT (Additionals m) = Some x" using lastOPT_at [OF i(2)] i(3-5) by simp
  with p i show ?thesis by auto
qed

section \<open>Properties\<close>

text \<open>A small message: a question for the name a.b and two answers, the second for b.\<close>

definition sampleMsg :: Msg where
  "sampleMsg = \<lparr>mHeader = \<lparr>ID = 7, Response = True, OpCode = 0, Authoritative = False, Truncated = False,
       RecursionDesired = True, RecursionAvailable = True, AuthenticData = False, CheckingDisabled = False, RCode = 0\<rparr>,
     Questions = [\<lparr>qName = name_of [[97], [98]], qType = TypeA, qClass = ClassINET\<rparr>],
     Answers = [NAME_rr \<lparr>hName = name_of [[97], [98]], hType = TypeCNAME, hClass = ClassINET, hTTL = 60, hLength = 0\<rparr> (name_of [[98]]),
       A_rr \<lparr>hName = name_of [[98]], hType = TypeA, hClass = ClassINET, hTTL = 60, hLength = 0\<rparr> [10, 0, 0, 1]],
     Authorities = [],
     Additionals = [Raw_rr \<lparr>hName = name_of [], hType = TypeOPT, hClass = 1232, hTTL = 0, hLength = 0\<rparr> [0, 10, 0, 1, 7]]\<rparr>"

lemma packable_name_of: "labels_ok ls \<Longrightarrow> length (wire ls) \<le> 254 \<Longrightarrow> packable (name_of ls)"
  by (auto simp: packable_def name_ok_def)

lemma sampleMsg_ok: "msg_ok sampleMsg" "hdr_ok (mHeader sampleMsg)" "msg_depth sampleMsg \<le> 10"
  by (simp_all add: sampleMsg_def msg_ok_def counts_ok_def question_ok_def resource_ok_def hdr_ok_def
      packable_name_of label_ok_def msg_depth_def rr_depth_def)

text \<open>C1: A well-formed message can be packed without a size limit, with or without compression, and unpacking the bytes
  gives the message back, record by record, the length field of a record aside. With compression this holds
  when no name has more than ten labels, whatever the number of records that share their suffixes.\<close>

theorem msg_pack_unpack:
  assumes "msg_ok m" "hdr_ok (mHeader m)" "\<not> limit > 0" "compression \<longrightarrow> msg_depth m \<le> 10"
  shows "\<exists>x m'. msgPack m b compression limit = Inr (b @ x) \<and> msgUnpack x = Inr m' \<and> same_msg m m'"
  using assms by (rule pack_unpack_unlimited)

theorem msg_pack_unpack_witness:
  "\<exists>x m'. msgPack sampleMsg [1, 2] True 0 = Inr ([1, 2] @ x) \<and> msgUnpack x = Inr m' \<and> same_msg sampleMsg m'"
  by (rule msg_pack_unpack) (use sampleMsg_ok in auto)

text \<open>C2: Unpacking is total on arbitrary input: it never indexes or slices outside the message, follows finitely many
  pointers, and every message it returns is well formed, so that it can be packed again and then
  unpacks to the same message.\<close>

theorem msg_unpack_total:
  "safe (msgUnpack msg) \<and> (case msgUnpack msg of Inl _ \<Rightarrow> True
    | Inr m \<Rightarrow> msg_ok m \<and> (\<exists>x m'. msgPack m b False 0 = Inr (b @ x) \<and> msgUnpack x = Inr m' \<and> same_msg m m'))"
  using unpack_safe [of msg] unpack_msg_ok [of msg] pack_unpack_unlimited [of _ 0 False b]
  by (auto split: sum.splits)

text \<open>C3: With a size limit packing succeeds on every well-formed message, and its output, the bytes already in
  the buffer included, is at most the limit (at least 512) plus the owner name and the ten fixed bytes of
  the EDNS0 record, which the function does not set aside.\<close>

theorem msg_pack_limit:
  assumes "msg_ok m" "limit > 0" "int (length b + 12) + optData m \<le> minLimit limit"
  shows "\<exists>x. msgPack m b compression limit = Inr (b @ x) \<and> int (length (b @ x)) \<le> minLimit limit + optOverhead m"
  using assms by (rule pack_limited)

theorem msg_pack_limit_witness:
  "\<exists>x. msgPack sampleMsg [] True 600 = Inr ([] @ x) \<and> int (length ([] @ x)) \<le> minLimit 600 + optOverhead sampleMsg"
  by (rule msg_pack_limit)
     (use sampleMsg_ok in \<open>simp_all add: sampleMsg_def optData_def minLimit_def lastOPT_def isOPT_def\<close>)

text \<open>Whatever is left out for the limit, packing leaves the buffer alone and writes the header of the whole
  message: its counts are the numbers of records of the message and its truncated flag is the one of the
  message's own header.\<close>

theorem msg_pack_header:
  assumes "msgPack m b compression limit = Inr out"
  shows "take (length b) out = b \<and> take 12 (drop (length b) out) = rawHeaderBytes (rawHeaderOf m) \<and>
    unat (rAnswers (rawHeaderOf m)) = length (Answers m) \<and>
    bit (rBits (rawHeaderOf m)) 9 = (Truncated (mHeader m) \<or> bit (RCode (mHeader m)) 9)"
proof -
  have "counts_ok m" using assms by (simp add: msgPack_eq_Inr)
  then have "unat (rAnswers (rawHeaderOf m)) = length (Answers m)"
    by (simp add: rawHeaderOf_def counts_ok_def unat_of_nat)
  moreover have "bit (rBits (rawHeaderOf m)) 9 = (Truncated (mHeader m) \<or> bit (RCode (mHeader m)) 9)"
    by (auto simp: rawHeaderOf_def headerPack_bits)
  ultimately show ?thesis using pack_header [OF assms] by auto
qed

text \<open>A message whose only answer does not fit 512 bytes.\<close>

definition bigMsg :: Msg where
  "bigMsg = sampleMsg\<lparr>Questions := [], Additionals := [],
     Answers := [Raw_rr \<lparr>hName = name_of [], hType = 16, hClass = ClassINET, hTTL = 0, hLength = 0\<rparr> (replicate 600 1)]\<rparr>"

lemma bigMsg_pack: "msgPack bigMsg [] False 512 = Inr (rawHeaderBytes (rawHeaderOf bigMsg))"
  unfolding msgPack_eq_Inr
  by (simp add: bigMsg_def sampleMsg_def counts_ok_def ednsLimit_def limitOPT_def minLimit_def lastOPT_def
    packSections_def packRRLen_def hdrPackLen_def namePackLen_def name_of_def startMap_def)

lemma truncated_not_unpacked: "msgUnpack (rawHeaderBytes (rawHeaderOf bigMsg)) = 
    Inl (Err (SectionErr ''answers'' (SectionErr ''name'' ErrBaseLen)))"
proof -
  have n: "rQuestions (rawHeaderOf bigMsg) = 0" "rAnswers (rawHeaderOf bigMsg) = 1"
    by (simp_all add: rawHeaderOf_def bigMsg_def sampleMsg_def)
  have "unpackResource (rawHeaderBytes (rawHeaderOf bigMsg)) 12 = Inl (Err (SectionErr ''name'' ErrBaseLen))"
    by (simp add: unpackResource_def hdrUnpack_def nameUnpack_def dirty_def emptyName_def
        nameUnpackLoop.simps [of _ 12] newSectionErr_def wrapE_def)
  then show ?thesis using rawHeaderUnpack_bytes [of "rawHeaderOf bigMsg" "[]"]
    by (simp add: msgUnpack_def n newSectionErr_def wrapE_def)
qed

theorem msg_pack_header_witness:
  "take 12 (rawHeaderBytes (rawHeaderOf bigMsg)) = rawHeaderBytes (rawHeaderOf bigMsg) \<and> \<not> bit (rBits (rawHeaderOf bigMsg)) 9"
  using msg_pack_header [OF bigMsg_pack] by (simp add: bigMsg_def sampleMsg_def)

text \<open>The length \<^verbatim>\<open>MaxPackLen\<close> computes is the exact length of the uncompressed message.\<close>

theorem msg_max_pack_len:
  assumes "msg_ok m"
  shows "\<exists>x. msgPack m [] False 0 = Inr x \<and> maxPackLen m = Inr (length x)"
proof -
  have "cmap_ok body (startMap m False)" for body by simp
  from packSections_unlimited [of m 0 0 "headerBytes m" "startMap m False"] assms obtain x where "msgPack m [] False 0 = Inr x"
    by (auto simp: msgPack_eq_Inr msg_ok_def ednsLimit_def)
  with max_len_exact [OF assms] show ?thesis by auto
qed

theorem msg_max_pack_len_witness: "\<exists>x. msgPack sampleMsg [] False 0 = Inr x \<and> maxPackLen sampleMsg = Inr (length x)"
  by (rule msg_max_pack_len) (rule sampleMsg_ok)

text \<open>The bit field keeps every header the message type can express: reading back what was packed gives the
  header if its two codes have four bits, and packing what was read gives the bits, the reserved bit cleared.\<close>

theorem header_bits_roundtrip:
  "(OpCode h < 16 \<and> RCode h < 16 \<longrightarrow>
     headerOfRaw (r\<lparr>rId := fst (headerPack h), rBits := snd (headerPack h)\<rparr>) = h) \<and>
   snd (headerPack (headerOfRaw r)) = rBits r AND NOT (headerBit 6)"
proof -
  have "headerOfRaw (r\<lparr>rId := fst (headerPack h), rBits := snd (headerPack h)\<rparr>) = h" if "hdr_ok h"
    by (rule header_of_bits [OF that]) (simp_all add: headerPack_def Let_def)
  then show ?thesis using bits_of_header [of r] by (auto simp: hdr_ok_def)
qed

theorem header_bits_roundtrip_witness:
  "headerOfRaw ((rawHeaderOf sampleMsg)\<lparr>rId := fst (headerPack (mHeader sampleMsg)), rBits := snd (headerPack (mHeader sampleMsg))\<rparr>) =
    mHeader sampleMsg"
  using header_bits_roundtrip [of "mHeader sampleMsg" "rawHeaderOf sampleMsg"] sampleMsg_ok(2) by (simp add: hdr_ok_def)

text \<open>\<^verbatim>\<open>PopEDNS0\<close> returns the last EDNS0 record, if there is one, and takes exactly this record out of the
  additional section; nothing else of the message changes.\<close>

theorem pop_edns0_removes_one:
  "case popEDNS0 m of (m', r) \<Rightarrow> r = find isOPT (rev (Additionals m)) \<and> m' = m\<lparr>Additionals := Additionals m'\<rparr> \<and>
    mset (Additionals m) = mset (Additionals m') + (case r of None \<Rightarrow> {#} | Some x \<Rightarrow> {# x #})"
  using pop_edns0 [of m] by (cases "popEDNS0 m") (simp add: lastOPT_def)

end
