(* ===== verification/DnsText.thy ===== *)
theory DnsText
  imports DnsNamePack
begin

text \<open>
  The readable format of names (\<^verbatim>\<open>AppendReadableTo\<close>, \<^verbatim>\<open>ParseName\<close> and their helpers in
  \<^verbatim>\<open>pkg/dnsmsg/name.go\<close> and \<^verbatim>\<open>utils.go\<close>): printing, parsing, the other constructors
  of names and lower-casing.
\<close>

section \<open>Printing\<close>

definition isPrintableLabelChar :: "u8 \<Rightarrow> bool" where
  "isPrintableLabelChar b \<longleftrightarrow> (97 \<le> b \<and> b \<le> 122) \<or> (65 \<le> b \<and> b \<le> 90) \<or> (48 \<le> b \<and> b \<le> 57) \<or> b = 45"

text \<open>\<^verbatim>\<open>strconv.AppendUint\<close> in base 10.\<close>

fun decimal :: "nat \<Rightarrow> bytes" where
  "decimal n = (if n < 10 then [byte_of (48 + n)] else decimal (n div 10) @ [byte_of (48 + n mod 10)])"

declare decimal.simps [simp del]

definition escapeByte :: "u8 \<Rightarrow> bytes" where
  "escapeByte b =
    (if isPrintableLabelChar b then [b]
     else if b = 46 then [92, 46]
     else if b = 92 then [92, 92]
     else [92] @ (if b < 10 then [48, 48] else if b < 100 then [48] else []) @ decimal (unat b))"

fun appendEscapedLabel :: "bytes \<Rightarrow> bytes \<Rightarrow> bytes" where
  "appendEscapedLabel dst [] = dst"
| "appendEscapedLabel dst (b # bs) = appendEscapedLabel (dst @ escapeByte b) bs"

fun appendSegs :: "nat \<Rightarrow> bytes list \<Rightarrow> bytes \<Rightarrow> bytes" where
  "appendSegs i [] b = b"
| "appendSegs i (seg # segs) b =
    appendSegs (i + 1) segs (appendEscapedLabel (if i > 0 then b @ [46] else b) seg)"

definition appendReadableTo :: "Name \<Rightarrow> bytes \<Rightarrow> bytes" where
  "appendReadableTo n b = (let b = appendSegs 0 (Labels n) b in if length b = 0 then b @ [46] else b)"

section \<open>Parsing\<close>

fun parseDigits :: "bytes \<Rightarrow> nat \<Rightarrow> nat option" where
  "parseDigits [] s = Some s"
| "parseDigits (c # cs) s = (if c < 48 \<or> c > 57 then None else parseDigits cs (s * 10 + unat (c - 48)))"

definition parseDDD :: "bytes \<Rightarrow> u8 option" where
  "parseDDD b =
    (if length b \<noteq> 3 then None
     else case parseDigits b 0 of None \<Rightarrow> None | Some s \<Rightarrow> if s > 255 then None else Some (byte_of s))"

definition appendLabelTo :: "bytes \<Rightarrow> bytes \<Rightarrow> bytes dres" where
  "appendLabelTo b s =
    (let l = length s in
     if l = 0 then Inl (Err ErrZeroSegLen)
     else if l > 63 then Inl (Err ErrSegTooLong)
     else if length b + 1 + l \<ge> 255 then Inl (Err ErrNameTooLong)
     else Inr (b @ [byte_of l] @ s))"

text \<open>
  The loop of \<^verbatim>\<open>ParseName\<close>: \<open>i\<close> is the position in the input, the next argument the
  input from there on, \<open>buf\<close> is \<^verbatim>\<open>buf[:p]\<close> and \<open>b\<close> the bytes of the name.
\<close>

function parseNameLoop :: "nat \<Rightarrow> bytes \<Rightarrow> bytes \<Rightarrow> bytes \<Rightarrow> (bytes \<times> bytes) dres" where
  "parseNameLoop i [] buf b = Inr (buf, b)"
| "parseNameLoop i (c # cs) buf b =
    (if c = 92 then
       (if cs = [] then Inl (Err (ErrInvalidChar i))
        else if hd cs = 46 \<or> hd cs = 92 then
          (if length buf \<ge> 63 then Inl (Err ErrSegTooLong)
           else parseNameLoop (i + 2) (tl cs) (buf @ [hd cs]) b)
        else if length cs < 3 then Inl (Err (ErrInvalidChar i))
        else case parseDDD (take 3 cs) of
          None \<Rightarrow> Inl (Err (ErrInvalidChar (i + 3)))
        | Some v \<Rightarrow>
          (if length buf \<ge> 63 then Inl (Err ErrSegTooLong)
           else parseNameLoop (i + 4) (drop 3 cs) (buf @ [v]) b))
     else if c = 46 then thenE (appendLabelTo b buf) (\<lambda>b. parseNameLoop (i + 1) cs [] b)
     else if length buf \<ge> 63 then Inl (Err ErrSegTooLong)
     else parseNameLoop (i + 1) cs (buf @ [c]) b)"
  by pat_completeness auto
termination
  by (relation "measure (\<lambda>(i, s, buf, b). length s)") auto

definition ParseName :: "Name \<Rightarrow> bytes \<Rightarrow> Name dres" where
  "ParseName n s =
    (if dirty n then Inl (Err ErrDirtyName)
     else if length s = 0 \<or> s = [46] then Inr (n\<lparr>nb := nb n @ [0]\<rparr>)
     else thenE (parseNameLoop 0 s [] (nb n)) (\<lambda>(buf, b).
       thenE (if length buf > 0 then appendLabelTo b buf else Inr b) (\<lambda>b.
         internalErr (parseLabels (n\<lparr>nb := b @ [0]\<rparr>)))))"

fun appendLabels :: "bytes \<Rightarrow> bytes list \<Rightarrow> bytes dres" where
  "appendLabels b [] = Inr b"
| "appendLabels b (l # ls) = thenE (appendLabelTo b l) (\<lambda>b. appendLabels b ls)"

definition ParseNameLabels :: "Name \<Rightarrow> bytes list \<Rightarrow> Name dres" where
  "ParseNameLabels n ls =
    (if dirty n then Inl (Err ErrDirtyName)
     else thenE (appendLabels (nb n) ls) (\<lambda>b. internalErr (parseLabels (n\<lparr>nb := b @ [0]\<rparr>))))"

definition ParseNameRaw :: "Name \<Rightarrow> bytes \<Rightarrow> Name dres" where
  "ParseNameRaw n s = (if dirty n then Inl (Err ErrDirtyName) else parseLabels (n\<lparr>nb := nb n @ s\<rparr>))"

section \<open>Lower case\<close>

definition lowerByte :: "u8 \<Rightarrow> u8" where
  "lowerByte c = (if 65 \<le> c \<and> c \<le> 90 then c + 32 else c)"

definition asciiToLower :: "bytes \<Rightarrow> bytes" where
  "asciiToLower s = map lowerByte s"

text \<open>The labels are slices of the bytes of the name, which change with them.\<close>

definition lowerRange :: "bytes \<Rightarrow> nat \<times> nat \<Rightarrow> bytes" where
  "lowerRange b r = take (fst r) b @ asciiToLower (slice b r) @ drop (snd r) b"

definition ToLower :: "Name \<Rightarrow> Name" where
  "ToLower n = n\<lparr>nb := foldl lowerRange (nb n) (ns n)\<rparr>"

section \<open>Printing and parsing are inverse\<close>

text \<open>Three digits read back as the number they print.\<close>

lemma digit_byte: "d < 10 \<Longrightarrow> \<not> byte_of (48 + d) < 48 \<and> \<not> byte_of (48 + d) > 57 \<and> unat (byte_of (48 + d) - 48) = d"
  by (simp add: word_less_nat_alt unat_sub word_le_nat_alt)

definition digits3 :: "nat \<Rightarrow> bytes" where
  "digits3 n = [byte_of (48 + n div 100), byte_of (48 + n div 10 mod 10), byte_of (48 + n mod 10)]"

lemma parseDDD_digits3:
  assumes "n < 256"
  shows "parseDDD (digits3 n) = Some (byte_of n)"
proof -
  have d: "n div 100 < 10" "n div 10 mod 10 < 10" "n mod 10 < 10" using assms by auto
  have "n div 100 = n div 10 div 10" by (simp add: div_mult2_eq [symmetric])
  then have "(n div 100 * 10 + n div 10 mod 10) * 10 + n mod 10 = n"
    by (simp only: div_mult_mod_eq)
  then show ?thesis
    using digit_byte [OF d(1)] digit_byte [OF d(2)] digit_byte [OF d(3)] assms
    by (simp add: parseDDD_def digits3_def)
qed

lemma escapeByte_number:
  assumes "\<not> isPrintableLabelChar c" "c \<noteq> 46" "c \<noteq> 92"
  shows "escapeByte c = 92 # digits3 (unat c)"
proof -
  have u: "c < 10 \<longleftrightarrow> unat c < 10" "c < 100 \<longleftrightarrow> unat c < 100" by (simp_all add: word_less_nat_alt)
  have l: "unat c < 256" by simp
  consider "unat c < 10" | "10 \<le> unat c" "unat c < 100" | "100 \<le> unat c" by linarith
  then show ?thesis
  proof cases
    case 1
    then show ?thesis using assms u
      by (simp add: escapeByte_def digits3_def decimal.simps [of "unat c"]) (simp add: byte_of_def)
  next
    case 2
    then have d: "unat c div 10 < 10" "unat c div 100 = 0" by auto
    then show ?thesis using assms u 2
      by (simp add: escapeByte_def digits3_def decimal.simps [of "unat c"] decimal.simps [of "unat c div 10"])
         (simp add: byte_of_def)
  next
    case 3
    have "unat c div 100 < 10" using l by linarith
    with 3 have d: "unat c div 10 \<ge> 10" "unat c div 10 div 10 < 10" "unat c div 10 div 10 = unat c div 100"
      by (auto simp: div_mult2_eq [symmetric])
    then show ?thesis using assms u 3
      by (simp add: escapeByte_def digits3_def decimal.simps [of "unat c"] decimal.simps [of "unat c div 10"]
          decimal.simps [of "unat c div 100"])
  qed
qed

lemma escape_cases:
  obtains (plain) "escapeByte c = [c]" "c \<noteq> 92" "c \<noteq> 46"
  | (quoted) "escapeByte c = [92, c]" "c = 46 \<or> c = 92"
  | (number) d1 d2 d3 where "escapeByte c = [92, d1, d2, d3]" "d1 \<noteq> 46" "d1 \<noteq> 92"
      "parseDDD [d1, d2, d3] = Some c"
proof -
  consider "isPrintableLabelChar c" | "c = 46 \<or> c = 92" "\<not> isPrintableLabelChar c"
    | "\<not> isPrintableLabelChar c" "c \<noteq> 46" "c \<noteq> 92" by blast
  then show thesis
  proof cases
    case 1
    moreover have "c \<noteq> 92" "c \<noteq> 46" using 1 by (auto simp: isPrintableLabelChar_def word_le_nat_alt)
    ultimately show thesis by (intro plain) (auto simp: escapeByte_def)
  next
    case 2
    then show thesis by (intro quoted) (auto simp: escapeByte_def)
  next
    case 3
    have "unat c div 100 < 10" using unat_u8_less [of c] by linarith
    from digit_byte [OF this] have "byte_of (48 + unat c div 100) \<noteq> 46" "byte_of (48 + unat c div 100) \<noteq> 92"
      by auto
    then show thesis using escapeByte_number [OF 3] parseDDD_digits3 [OF unat_u8_less [of c]]
      by (intro number) (auto simp: digits3_def)
  qed
qed

lemma appendEscapedLabel_concat: "appendEscapedLabel dst l = dst @ concat (map escapeByte l)"
  by (induction dst l rule: appendEscapedLabel.induct) auto

lemma parseNameLoop_label:
  assumes "length buf + length l \<le> 63"
  shows "\<exists>j. parseNameLoop i (concat (map escapeByte l) @ rest) buf b = parseNameLoop j rest (buf @ l) b"
  using assms
proof (induction l arbitrary: i buf)
  case (Cons c cs)
  have "\<exists>k. parseNameLoop i (escapeByte c @ concat (map escapeByte cs) @ rest) buf b =
      parseNameLoop k (concat (map escapeByte cs) @ rest) (buf @ [c]) b"
    using Cons.prems by (cases c rule: escape_cases) auto
  then show ?case using Cons.IH [of "buf @ [c]"] Cons.prems by auto
qed auto

fun dotted :: "bytes list \<Rightarrow> bytes" where
  "dotted [] = []"
| "dotted [l] = concat (map escapeByte l)"
| "dotted (l # ls) = concat (map escapeByte l) @ [46] @ dotted ls"

lemma appendSegs_Suc: "appendSegs (Suc i) ls b = b @ concat (map (\<lambda>l. 46 # concat (map escapeByte l)) ls)"
  by (induction ls arbitrary: i b) (auto simp: appendEscapedLabel_concat)

lemma dotted_Cons: "dotted (l # ls) = concat (map escapeByte l) @ concat (map (\<lambda>l. 46 # concat (map escapeByte l)) ls)"
  by (induction ls arbitrary: l) auto

lemma appendSegs_dotted: "appendSegs 0 ls [] = dotted ls"
  by (cases ls) (auto simp: appendSegs_Suc dotted_Cons appendEscapedLabel_concat)

lemma wire_append: "wire (ls @ ls') = butlast (wire ls) @ wire ls'"
  by (induction ls) (auto simp: butlast_append)

lemma length_wire_Cons_le: "length (wire (l # ls)) \<ge> length l + 2"
  by (simp add: Suc_le_eq)

lemma appendLabelTo_ok:
  "label_ok l \<Longrightarrow> length b + 1 + length l < 255 \<Longrightarrow> appendLabelTo b l = Inr (b @ byte_of (length l) # l)"
  by (auto simp: appendLabelTo_def label_ok_def)

lemma parseNameLoop_dotted:
  assumes "labels_ok ls" "ls \<noteq> []" "length b + length (wire ls) \<le> 255"
  shows "\<exists>buf b'. parseNameLoop i (dotted ls) [] b = Inr (buf, b') \<and> buf \<noteq> [] \<and>
    appendLabelTo b' buf = Inr (b @ butlast (wire ls))"
  using assms
proof (induction ls arbitrary: i b rule: dotted.induct)
  case (2 l)
  have l: "label_ok l" using "2.prems" by simp
  from parseNameLoop_label [of "[]" l i "[]" b] l obtain j where
    "parseNameLoop i (dotted [l]) [] b = parseNameLoop j [] l b" by (auto simp: label_ok_def)
  with l "2.prems"(3) show ?case by (auto simp: appendLabelTo_ok)
next
  case (3 l l' ls)
  have l: "label_ok l" using "3.prems" by simp
  from parseNameLoop_label [of "[]" l i "46 # dotted (l' # ls)" b] l obtain j where
    j: "parseNameLoop i (dotted (l # l' # ls)) [] b = parseNameLoop j (46 # dotted (l' # ls)) l b"
    by (auto simp: label_ok_def)
  let ?b = "b @ byte_of (length l) # l"
  have "appendLabelTo b l = Inr ?b" using l "3.prems"(3) by (intro appendLabelTo_ok) auto
  then have "parseNameLoop i (dotted (l # l' # ls)) [] b = parseNameLoop (j + 1) (dotted (l' # ls)) [] ?b"
    using j by simp
  with "3.IH" [of ?b "j + 1"] "3.prems" show ?case by (auto simp: butlast_append)
qed simp

lemma parse_print:
  assumes "name_ok n"
  shows "ParseName emptyName (appendReadableTo n []) = Inr n"
proof -
  from assms obtain ls where ls: "labels_ok ls" "n = name_of ls" "length (wire ls) \<le> 255" by (auto simp: name_ok_def)
  show ?thesis
  proof (cases ls)
    case Nil
    then show ?thesis using ls(2)
      by (simp add: appendReadableTo_def ParseName_def dirty_def emptyName_def name_of_def Labels_def)
  next
    case (Cons l ls')
    from parseNameLoop_dotted [OF ls(1), of "[]" 0] Cons ls(3) obtain buf b' where
      p: "parseNameLoop 0 (dotted ls) [] [] = Inr (buf, b')" "buf \<noteq> []" "appendLabelTo b' buf = Inr (butlast (wire ls))"
      by auto
    have ne: "dotted ls \<noteq> []" "dotted ls \<noteq> [46]"
      using p by (auto simp: appendLabelTo_def)
    have w: "butlast (wire ls) @ [0] = wire ls"
      using wire_append [of ls "[]"] by simp
    have "appendReadableTo n [] = dotted ls"
      using ne ls(2) by (simp add: appendReadableTo_def appendSegs_dotted)
    then show ?thesis using p ne w ls
      by (simp add: ParseName_def dirty_def emptyName_def internalErr_def parseLabels_wire)
  qed
qed

section \<open>What parsing accepts\<close>

lemma appendLabelTo_inv:
  assumes "appendLabelTo b s = Inr b'"
  shows "label_ok s \<and> b' = b @ byte_of (length s) # s \<and> length b' \<le> 254"
  using assms by (auto simp: appendLabelTo_def label_ok_def Let_def split: if_splits)

text \<open>The bytes of a name under construction.\<close>

definition name_prefix :: "bytes \<Rightarrow> bool" where
  "name_prefix b \<longleftrightarrow> (\<exists>ls. labels_ok ls \<and> b @ [0] = wire ls \<and> length b \<le> 254)"

lemma name_prefix_Nil [simp]: "name_prefix []"
  unfolding name_prefix_def by (rule exI [of _ "[]"]) simp

lemma labels_ok_append [simp]: "labels_ok (xs @ ys) \<longleftrightarrow> labels_ok xs \<and> labels_ok ys"
  by (auto simp: labels_ok_def)

lemma name_prefix_label:
  assumes "name_prefix b" "appendLabelTo b s = Inr b'"
  shows "name_prefix b'"
proof -
  from assms(1) obtain ls where ls: "labels_ok ls" "b @ [0] = wire ls" by (auto simp: name_prefix_def)
  from appendLabelTo_inv [OF assms(2)] have s: "label_ok s" "b' = b @ byte_of (length s) # s" "length b' \<le> 254" by auto
  have "butlast (wire ls) = b" using ls(2) by (metis butlast_snoc)
  then have "b' @ [0] = wire (ls @ [s])" using s(2) by (simp add: wire_append)
  then show ?thesis using ls(1) s unfolding name_prefix_def by (intro exI [of _ "ls @ [s]"]) simp
qed

lemma parseNameLoop_prefix:
  "parseNameLoop i s buf b = Inr (buf', b') \<Longrightarrow> name_prefix b \<Longrightarrow> name_prefix b'"
  by (induction i s buf b rule: parseNameLoop.induct)
     (auto simp: res_simps split: if_splits option.splits dest: name_prefix_label)

lemma parseLabels_prefix:
  assumes "name_prefix b"
  shows "\<exists>n. internalErr (parseLabels \<lparr>nb = b @ [0], ns = []\<rparr>) = Inr n \<and> name_ok n"
proof -
  from assms obtain ls where "labels_ok ls" "b @ [0] = wire ls" "length b \<le> 254" by (auto simp: name_prefix_def)
  moreover from this(2,3) have "length (wire ls) \<le> 255" by (metis length_append_singleton Suc_le_mono eval_nat_numeral(3))
  ultimately show ?thesis by (auto simp: internalErr_def parseLabels_wire name_ok_def)
qed

lemma safe_parseNameLoop: "safe (parseNameLoop i s buf b)"
  by (induction i s buf b rule: parseNameLoop.induct)
     (auto simp: appendLabelTo_def Let_def split: option.splits)

lemma parse_name_ok:
  "safe (ParseName emptyName s) \<and> (case ParseName emptyName s of Inl _ \<Rightarrow> True | Inr n \<Rightarrow> name_ok n)"
proof -
  have root: "name_ok \<lparr>nb = [0], ns = []\<rparr>"
    unfolding name_ok_def by (rule exI [of _ "[]"]) (simp add: name_of_def)
  show ?thesis
  proof (cases "parseNameLoop 0 s [] []")
    case (Inl e)
    then show ?thesis using safe_parseNameLoop [of 0 s "[]" "[]"] root
      by (auto simp: ParseName_def emptyName_def dirty_def safe_def)
  next
    case (Inr r)
    obtain buf b where r: "r = (buf, b)" by (cases r)
    have pre: "name_prefix b" using parseNameLoop_prefix [OF Inr [unfolded r]] by simp
    have "\<exists>e. appendLabelTo b buf = Inl (Err e)" if "\<forall>b'. appendLabelTo b buf \<noteq> Inr b'"
      using that by (auto simp: appendLabelTo_def Let_def split: if_splits)
    then show ?thesis
      using root parseLabels_prefix [OF pre] parseLabels_prefix [OF name_prefix_label [OF pre, of buf]] Inr r
      by (cases "appendLabelTo b buf") (auto simp: ParseName_def emptyName_def dirty_def)
  qed
qed

section \<open>Lower case\<close>

lemma length_asciiToLower [simp]: "length (asciiToLower s) = length s"
  by (simp add: asciiToLower_def)

lemma lowerByte_idem [simp]: "lowerByte (lowerByte c) = lowerByte c"
  by (auto simp: lowerByte_def word_le_nat_alt unat_word_ariths)

lemma asciiToLower_idem [simp]: "asciiToLower (asciiToLower s) = asciiToLower s"
  by (simp add: asciiToLower_def)

lemma lower_ranges:
  "foldl lowerRange (pre @ wire ls) (ranges (length pre) ls) = pre @ wire (map asciiToLower ls)"
proof (induction ls arbitrary: pre)
  case (Cons l ls)
  let ?r = "(length pre + 1, length pre + 1 + length l)" and ?c = "byte_of (length l)"
  have "lowerRange (pre @ wire (l # ls)) ?r = (pre @ ?c # asciiToLower l) @ wire ls"
    by (simp add: lowerRange_def slice_def)
  then show ?case using Cons.IH [of "pre @ ?c # asciiToLower l"] by simp
qed simp

lemma ranges_lower [simp]: "ranges i (map asciiToLower ls) = ranges i ls"
  by (induction ls arbitrary: i) auto

lemma ToLower_name_of: "ToLower (name_of ls) = name_of (map asciiToLower ls)"
  using lower_ranges [of "[]" ls] by (simp add: ToLower_def name_of_def)

lemma length_wire_lower [simp]: "length (wire (map asciiToLower ls)) = length (wire ls)"
  by (induction ls) auto

lemma labels_ok_lower [simp]: "labels_ok (map asciiToLower ls) \<longleftrightarrow> labels_ok ls"
proof -
  have "label_ok (asciiToLower l) \<longleftrightarrow> label_ok l" for l
    unfolding label_ok_def length_asciiToLower by simp
  then show ?thesis by (simp add: labels_ok_def)
qed

section \<open>Properties\<close>

text \<open>C4: Printing a name and parsing the text gives the name back, for every sequence of labels of
  arbitrary bytes, dots, backslashes and unprintable bytes included.\<close>

theorem name_print_parse:
  assumes "name_ok n"
  shows "ParseName emptyName (appendReadableTo n []) = Inr n"
  using assms by (rule parse_print)

text \<open>The labels of the sample name: a dot, a backslash and a byte that needs three digits.\<close>

theorem name_print_parse_witness:
  "ParseName emptyName (appendReadableTo (name_of [[46, 92], [97, 200]]) []) = Inr (name_of [[46, 92], [97, 200]])"
  by (rule name_print_parse)
     (auto simp: name_ok_def label_ok_def intro!: exI [of _ "[[46, 92], [97, 200]]"])

text \<open>Parsing never indexes outside its input, and what it accepts is a well-formed name: labels of 1 to 63 bytes
  and at most 255 bytes on the wire.\<close>

theorem name_parse_total:
  "safe (ParseName emptyName s) \<and> (case ParseName emptyName s of Inl _ \<Rightarrow> True | Inr n \<Rightarrow> name_ok n)"
  by (rule parse_name_ok)

text \<open>\<^verbatim>\<open>ToLower\<close> lower-cases every label in place: the labels keep their number and positions, a second
  application changes nothing, and the name stays well formed.\<close>

theorem name_to_lower:
  assumes "name_ok n"
  shows "Labels (ToLower n) = map asciiToLower (Labels n) \<and> ToLower (ToLower n) = ToLower n \<and> name_ok (ToLower n)"
proof -
  from assms obtain ls where ls: "n = name_of ls" "labels_ok ls" "length (wire ls) \<le> 255" by (auto simp: name_ok_def)
  have "ToLower n = name_of (map asciiToLower ls)" using ls(1) ToLower_name_of by simp
  moreover have "name_ok (name_of (map asciiToLower ls))" using ls by (auto simp: name_ok_def intro!: exI [of _ "map asciiToLower ls"])
  ultimately show ?thesis using ls(1) by (simp add: ToLower_name_of comp_def)
qed

theorem name_to_lower_witness:
  "Labels (ToLower (name_of [[65, 66], [97]])) = [[97, 98], [97]]"
proof -
  have "name_ok (name_of [[65, 66], [97]])"
    by (auto simp: name_ok_def label_ok_def intro!: exI [of _ "[[65, 66], [97]]"])
  from name_to_lower [OF this] show ?thesis by (simp add: asciiToLower_def lowerByte_def)
qed

text \<open>Parsing and unpacking disagree on names of 255 bytes: \<^verbatim>\<open>ParseNameLabels\<close> builds them, as the
  protocol allows, and packing writes them, but unpacking what was written is an error.\<close>

theorem name_255_not_unpacked:
  assumes "labels_ok ls" "length (wire ls) = 255"
  shows "ParseNameLabels emptyName ls = Inr (name_of ls) \<and>
    (\<exists>x. namePack (name_of ls) pre None 0 = Inr (pre @ x, None) \<and>
      (\<exists>e. nameUnpack emptyName (pre @ x) (length pre) = Inl (Err e)))"
proof -
  have b: "appendLabels b ls' = Inr (b @ butlast (wire ls'))" if "labels_ok ls'" "length b + length (wire ls') \<le> 255" for b ls'
    using that
  proof (induction ls' arbitrary: b)
    case (Cons l ls')
    have "1 \<le> length (wire ls')" by (cases ls') auto
    then have "length b + 1 + length l < 255"
      using Cons.prems(2) unfolding wire.simps length_append list.size by linarith
    then have "appendLabelTo b l = Inr (b @ byte_of (length l) # l)"
      using Cons.prems(1) by (intro appendLabelTo_ok) auto
    then show ?case using Cons.IH [of "b @ byte_of (length l) # l"] Cons.prems by (simp add: butlast_append)
  qed simp
  have "butlast (wire ls) @ [0] = wire ls" using wire_append [of ls "[]"] by simp
  then have p: "ParseNameLabels emptyName ls = Inr (name_of ls)"
    using b [of ls "[]"] assms
    by (simp add: ParseNameLabels_def emptyName_def dirty_def internalErr_def parseLabels_wire)
  have cm: "\<forall>suf p. cmap_find None suf = Some p \<and> length suf \<le> length (wire ls) \<longrightarrow> good_entry (drop 0 pre) suf p" by simp
  from namePackFrom_decodes [OF assms(1) _ cm] obtain x cm' k where x:
    "namePackFrom (wire ls) pre None 0 = Inr (pre @ x, cm')" "cmap_le None cm'"
    "decodes (pre @ x) (length pre) ls k (length (pre @ x))" by auto
  have "nameUnpack emptyName (pre @ x) (length pre) \<noteq> Inr (n, e)" for n e
    using decodes_det [OF x(3)] assms(2) by (fastforce simp: nameUnpack_iff)
  then obtain f where "nameUnpack emptyName (pre @ x) (length pre) = Inl f"
    by (cases "nameUnpack emptyName (pre @ x) (length pre)") auto
  then have "\<exists>e. nameUnpack emptyName (pre @ x) (length pre) = Inl (Err e)"
    using nameUnpack_safe [of "pre @ x" "length pre"] by (cases f) auto
  then show ?thesis using p x(1,2) by (auto simp: namePack_def cmap_le_def)
qed

theorem name_255_not_unpacked_witness:
  "\<exists>x. namePack (name_of [replicate 63 97, replicate 63 97, replicate 63 97, replicate 61 97]) [] None 0 = Inr ([] @ x, None) \<and>
    (\<exists>e. nameUnpack emptyName ([] @ x) (length ([] :: bytes)) = Inl (Err e))"
  by (rule conjunct2 [OF name_255_not_unpacked]) (simp_all add: label_ok_def)

end
