(* ===== verification/DomainTree.thy ===== *)
theory DomainTree
  imports DnsText "HOL-Library.List_Lexorder"
begin

text \<open>
  The domain tree of \<^verbatim>\<open>internal/domain_matcher\<close>: building it (\<^verbatim>\<open>tree.go\<close>), compiling it into
  arrays and matching a name against the arrays (\<^verbatim>\<open>compiled_tree.go\<close>, \<^verbatim>\<open>utils.go\<close>).
\<close>

section \<open>The tree\<close>

datatype dmErr =
    ErrTooManyNodes | ErrIndexSectionOverflowed | ErrLabelSectionOverflowed
  | ErrUInt31Overflowed | ErrUInt16Overflowed | ErrEOF | ErrUnexpectedEOF
  | ErrInvalidIdxSeg nat | ErrInvalidChildIdx nat nat | ErrInvalidLabelSeg nat nat | ErrInvalidLabelOrder nat nat
  | ErrInvalidRegexp | ErrInvalidPreface | ErrZstd | ErrName err | ErrInvalidRuleType string | ErrRule nat dmErr

type_synonym 'a dmres = "(dmErr, 'a) res"

text \<open>
  A node owns its children: the map \<^verbatim>\<open>children\<close> is an association list with distinct keys, in
  the order in which the runtime iterates over the map.
\<close>

datatype node = Node (nodeIdx: nat) (hasData: bool) (nodeInherit: bool) (nodeOff: int) (children: "(bytes \<times> node) list")

record tree =
  root :: node
  assignedIdx :: nat

definition newTree :: tree where
  "newTree = \<lparr>root = Node 0 False False 0 [], assignedIdx = 0\<rparr>"

fun kidUpdate :: "bytes \<Rightarrow> node \<Rightarrow> (bytes \<times> node) list \<Rightarrow> (bytes \<times> node) list" where
  "kidUpdate l c [] = [(l, c)]"
| "kidUpdate l c ((k, d) # cs) = (if k = l then (k, c) # cs else (k, d) # kidUpdate l c cs)"

text \<open>
  The loop of \<^verbatim>\<open>tree.Add\<close> with the labels from the last to the first. When the indices run
  out the nodes made so far stay in the tree.
\<close>

fun addPath :: "nat \<Rightarrow> node \<Rightarrow> bytes list \<Rightarrow> int \<Rightarrow> bool \<Rightarrow> node \<times> nat \<times> dmErr option" where
  "addPath a (Node i h inh d cs) [] off inherit = (Node i True inherit off cs, a, None)"
| "addPath a (Node i h inh d cs) (l # ls) off inherit =
    (case map_of cs l of
       Some c \<Rightarrow> (let (c, a, e) = addPath a c ls off inherit in (Node i h inh d (kidUpdate l c cs), a, e))
     | None \<Rightarrow>
       if a \<ge> 2147483646 then (Node i h inh d cs, a, Some ErrTooManyNodes)
       else let (c, a, e) = addPath (a + 1) (Node (a + 1) False False 0 []) ls off inherit in
         (Node i h inh d (kidUpdate l c cs), a, e))"

definition treeAdd :: "tree \<Rightarrow> Name \<Rightarrow> int \<Rightarrow> bool \<Rightarrow> tree \<times> dmErr option" where
  "treeAdd t name off inherit =
    (let (r, a, e) = addPath (assignedIdx t) (root t) (rev (Labels name)) off inherit in
     (\<lparr>root = r, assignedIdx = a\<rparr>, e))"

section \<open>The compiled tree\<close>

text \<open>An \<^verbatim>\<open>int32\<close> is kept as the integer it stands for; \<open>int32\<close> is the conversion that wraps.\<close>

definition int32 :: "int \<Rightarrow> int" where
  "int32 x = sint (word_of_int x :: 32 word)"

abbreviation MaxInt32 :: int where
  "MaxInt32 \<equiv> 2147483647"

lemma int32_id [simp]: "- 2147483648 \<le> x \<Longrightarrow> x \<le> MaxInt32 \<Longrightarrow> int32 x = x"
  by (simp add: int32_def signed_of_int signed_take_bit_int_eq_self)

record segAddr =
  saOff :: int
  saLen :: int

record compiledNode =
  childIdxSeg :: segAddr
  cnDataOff :: int
  cnStat :: u8

record idxNode =
  labelSeg :: segAddr
  childIdx :: int

record compiledTree =
  ctNodes :: "compiledNode list"
  ctIdx :: "idxNode list"
  ctLabels :: bytes

definition statHasData :: u8 where "statHasData = 1"
definition statInherit :: u8 where "statInherit = 2"

text \<open>
  \<^verbatim>\<open>seg\<close> slices; a bound outside the slice is a panic. Go compares the bound with the capacity;
  the model takes the length, so it panics wherever some capacity makes the code panic.
\<close>

definition seg :: "'a list \<Rightarrow> segAddr \<Rightarrow> 'a list dmres" where
  "seg s sa =
    (if saOff sa < 0 then Inr []
     else let e = int32 (saOff sa + saLen sa) in
       if saOff sa \<le> e \<and> e \<le> int (length s)
       then Inr (take (nat (e - saOff sa)) (drop (nat (saOff sa)) s)) else Inl Panic)"

definition append32bs :: "bytes \<Rightarrow> bytes \<Rightarrow> (segAddr \<times> bytes) option" where
  "append32bs s d =
    (if int (length s) + int (length d) > MaxInt32 then None
     else Some (\<lparr>saOff = int (length s), saLen = int (length d)\<rparr>, s @ d))"

definition compiledStat :: "bool \<Rightarrow> bool \<Rightarrow> int \<Rightarrow> compiledNode \<Rightarrow> compiledNode" where
  "compiledStat h inh d cn =
    (if h then cn\<lparr>cnStat := (cnStat cn OR statHasData) OR (if inh then statInherit else 0), cnDataOff := d\<rparr> else cn)"

lemma size_child: "(l, c) \<in> set cs \<Longrightarrow> size c < Suc (size_list (size_prod (\<lambda>_. 0) size) cs)"
  by (induction cs) auto

function compileNodes :: "node \<Rightarrow> compiledNode list \<Rightarrow> compiledNode list" where
  "compileNodes (Node i h inh d cs) nodes =
    foldl (\<lambda>nodes (l, c). compileNodes c nodes) (nodes[i := compiledStat h inh d (nodes ! i)]) cs"
  by pat_completeness auto
termination by (relation "measure (\<lambda>(n, _). size n)") (auto simp: size_child)

text \<open>The loop of \<^verbatim>\<open>buildIdx\<close> over the children; \<^verbatim>\<open>labelCache\<close> is only read.\<close>

type_synonym labelCache = "bytes \<rightharpoonup> segAddr"

fun addKids :: "labelCache \<Rightarrow> (bytes \<times> node) list \<Rightarrow> compiledTree \<Rightarrow> compiledTree dmres" where
  "addKids cache [] e = Inr e"
| "addKids cache ((l, c) # cs) e =
    (case cache l of
       Some sa \<Rightarrow> addKids cache cs (e\<lparr>ctIdx := ctIdx e @ [\<lparr>labelSeg = sa, childIdx = int (nodeIdx c)\<rparr>]\<rparr>)
     | None \<Rightarrow>
       (case append32bs (ctLabels e) l of
          None \<Rightarrow> Inl (Err ErrLabelSectionOverflowed)
        | Some (sa, ls) \<Rightarrow>
          addKids cache cs (e\<lparr>ctLabels := ls, ctIdx := ctIdx e @ [\<lparr>labelSeg = sa, childIdx = int (nodeIdx c)\<rparr>]\<rparr>)))"

text \<open>The label an index entry points to, as the sort and the search compare it.\<close>

definition entryLabel :: "bytes \<Rightarrow> idxNode \<Rightarrow> bytes" where
  "entryLabel labels x = (case seg labels (labelSeg x) of Inr s \<Rightarrow> s | Inl _ \<Rightarrow> [])"

fun foldE :: "('a \<Rightarrow> 's \<Rightarrow> ('e, 's) res) \<Rightarrow> 'a list \<Rightarrow> 's \<Rightarrow> ('e, 's) res" where
  "foldE f [] s = Inr s"
| "foldE f (x # xs) s = thenE (f x s) (foldE f xs)"

lemma foldE_cong [fundef_cong]:
  assumes "xs = ys" "s = t" "\<And>x s. x \<in> set ys \<Longrightarrow> f x s = g x s"
  shows "foldE f xs s = foldE g ys t"
  unfolding assms(1,2) using assms(3) by (induction ys arbitrary: t) (auto intro!: thenE_guard)

function buildIdx :: "labelCache \<Rightarrow> node \<Rightarrow> compiledTree \<Rightarrow> compiledTree dmres" where
  "buildIdx cache (Node i h inh d cs) e =
    (if \<not> i < length (ctNodes e) then Inl Panic
     else if int (length (ctIdx e)) + int (length cs) > MaxInt32 then Inl (Err ErrIndexSectionOverflowed)
     else
       let start = length (ctIdx e);
           sa = \<lparr>saOff = int start, saLen = int (length cs)\<rparr> in
       thenE (addKids cache cs (e\<lparr>ctNodes := (ctNodes e)[i := (ctNodes e ! i)\<lparr>childIdxSeg := sa\<rparr>]\<rparr>)) (\<lambda>e.
         foldE (\<lambda>(l, c) e. buildIdx cache c e) cs
           (e\<lparr>ctIdx := take start (ctIdx e) @ sort_key (entryLabel (ctLabels e)) (drop start (ctIdx e))\<rparr>)))"
  by pat_completeness auto
termination by (relation "measure (\<lambda>(_, n, _). size n)") (auto simp: size_child)

definition emptyNode :: compiledNode where
  "emptyNode = \<lparr>childIdxSeg = \<lparr>saOff = 0, saLen = 0\<rparr>, cnDataOff = 0, cnStat = 0\<rparr>"

definition treeCompile :: "tree \<Rightarrow> compiledTree dmres" where
  "treeCompile t =
    (let nodes = replicate (assignedIdx t + 1) emptyNode in
     buildIdx Map.empty (root t) \<lparr>ctNodes = compileNodes (root t) nodes, ctIdx = [], ctLabels = []\<rparr>)"

section \<open>Matching\<close>

function searchLoop :: "bytes \<Rightarrow> idxNode list \<Rightarrow> bytes \<Rightarrow> nat \<Rightarrow> nat \<Rightarrow> nat dmres" where
  "searchLoop labels s target i j =
    (if i < j then
       let h = (i + j) div 2 in
       if \<not> h < length s then Inl Panic
       else thenE (seg labels (labelSeg (s ! h))) (\<lambda>x.
         if x < target then searchLoop labels s target (h + 1) j else searchLoop labels s target i h)
     else Inr i)"
  by pat_completeness auto
termination by (relation "measure (\<lambda>(labels, s, t, i, j). j - i)") auto

declare searchLoop.simps [simp del]

definition binarySearchIdx :: "compiledTree \<Rightarrow> idxNode list \<Rightarrow> bytes \<Rightarrow> int dmres" where
  "binarySearchIdx e s target =
    thenE (searchLoop (ctLabels e) s target 0 (length s)) (\<lambda>i.
      if i < length s then
        thenE (seg (ctLabels e) (labelSeg (s ! i))) (\<lambda>x. Inr (if x = target then int i else - 1))
      else Inr (- 1))"

text \<open>
  The loop of \<^verbatim>\<open>Match\<close> over the labels from the last to the first: \<open>fm\<close> holds \<^verbatim>\<open>fmOff\<close> and
  \<^verbatim>\<open>fmLvl\<close> when \<^verbatim>\<open>fm\<close> is set.
\<close>

definition nodeStep :: "compiledNode \<Rightarrow> int \<Rightarrow> int \<times> int \<Rightarrow> (int \<times> int) \<times> (int \<times> int) option" where
  "nodeStep cur i best =
    (if cnStat cur AND statHasData > 0 then
       (if cnStat cur AND statInherit > 0 then ((cnDataOff cur, i), None) else (best, Some (cnDataOff cur, i)))
     else (best, None))"

fun matchLoop :: "compiledTree \<Rightarrow> bytes list \<Rightarrow> int \<Rightarrow> compiledNode \<Rightarrow> int \<times> int \<Rightarrow> (int \<times> int) option \<Rightarrow>
    (int \<times> int) dmres" where
  "matchLoop e [] i cur best fm = Inr (case fm of Some r \<Rightarrow> r | None \<Rightarrow> best)"
| "matchLoop e (label # ls) i cur best fm =
    thenE (seg (ctIdx e) (childIdxSeg cur)) (\<lambda>idxSeg.
    thenE (binarySearchIdx e idxSeg label) (\<lambda>elemIdx.
      if elemIdx < 0 then Inr best
      else let ci = childIdx (idxSeg ! nat elemIdx) in
        if ci < 0 \<or> ci \<ge> int (length (ctNodes e)) then Inl Panic
        else let cur = ctNodes e ! nat ci; (best, fm) = nodeStep cur i best in
          matchLoop e ls (i + 1) cur best fm))"

definition ctMatch :: "compiledTree \<Rightarrow> Name \<Rightarrow> (int \<times> int) dmres" where
  "ctMatch e n =
    (if ctNodes e = [] then Inr (0, - 2)
     else let cur = ctNodes e ! 0; (best, fm) = nodeStep cur (- 1) (0, - 2) in
       matchLoop e (rev (Labels n)) 0 cur best fm)"

definition ctLen :: "compiledTree \<Rightarrow> nat" where
  "ctLen e = foldl (\<lambda>s n. if cnStat n AND statHasData > 0 then s + 1 else s) 0 (ctNodes e)"

end
