(* ===== verification/DomainTreeBuild.thy ===== *)
theory DomainTreeBuild
  imports DomainTree
begin

text \<open>
  Building the domain tree: adding a rule is a map update on the paths of the tree and keeps it
  well formed, and the first two steps of compiling, which fill the node array and lay out the
  children of one node.
\<close>

section \<open>The tree as a map from paths to rules\<close>

text \<open>A path lists the labels of a name from the last to the first.\<close>

fun absTree :: "node \<Rightarrow> bytes list \<Rightarrow> (bool \<times> int) option" where
  "absTree (Node i h inh d cs) [] = (if h then Some (inh, d) else None)"
| "absTree (Node i h inh d cs) (l # ls) = (case map_of cs l of None \<Rightarrow> None | Some c \<Rightarrow> absTree c ls)"

lemma map_of_kidUpdate [simp]: "map_of (kidUpdate l c cs) = (map_of cs)(l \<mapsto> c)"
  by (induction l c cs rule: kidUpdate.induct) auto

lemma absTree_fresh: "absTree (Node i False inh d []) p = None"
  by (cases p) auto

lemma absTree_update:
  "absTree (Node i h inh d (kidUpdate l c cs)) p =
    (case p of [] \<Rightarrow> if h then Some (inh, d) else None
     | k # ks \<Rightarrow> if k = l then absTree c ks else absTree (Node i h inh d cs) (k # ks))"
  by (cases p) auto

lemma addPath_abs:
  "addPath a n ls off inh = (n', a', e) \<Longrightarrow>
    absTree n' p = (if e = None \<and> p = ls then Some (inh, off) else absTree n p)"
proof (induction a n ls off inh arbitrary: n' a' e p rule: addPath.induct)
  case (1 a i h inh d cs off inherit)
  then show ?case by (cases p) auto
next
  case (2 a i h inh d cs l ls off inherit)
  show ?case
  proof (cases "map_of cs l")
    case None
    then show ?thesis using "2.prems" "2.IH"(1) [OF None]
      by (auto simp: absTree_update absTree_fresh Let_def split: if_splits prod.splits list.splits)
  next
    case (Some c)
    obtain c' a1 e1 where c: "addPath a c ls off inherit = (c', a1, e1)" by (cases "addPath a c ls off inherit") auto
    show ?thesis using "2.prems" "2.IH"(2) [OF Some c] Some c
      by (auto simp: absTree_update split: list.splits)
  qed
qed

section \<open>Well-formed trees\<close>

text \<open>The indices of a tree are distinct, and the keys of every map of children are.\<close>

function ids :: "node \<Rightarrow> nat list" where
  "ids (Node i h inh d cs) = i # concat (map (\<lambda>(l, c). ids c) cs)"
  by pat_completeness auto
termination by (relation "measure size") (auto simp: size_child)

definition kidIds :: "(bytes \<times> node) list \<Rightarrow> nat list" where
  "kidIds cs = concat (map (\<lambda>(l, c). ids c) cs)"

lemma kidIds_simps [simp]: "kidIds [] = []" "kidIds ((l, c) # cs) = ids c @ kidIds cs"
    "kidIds (cs @ cs') = kidIds cs @ kidIds cs'"
  and ids_Node [simp]: "ids (Node i h inh d cs) = i # kidIds cs"
  by (simp_all add: kidIds_def)

declare ids.simps [simp del]

lemma kidIds_mem: "(l, c) \<in> set cs \<Longrightarrow> set (ids c) \<subseteq> set (kidIds cs)"
  by (auto simp: kidIds_def)

function keys_ok :: "node \<Rightarrow> bool" where
  "keys_ok (Node i h inh d cs) \<longleftrightarrow> distinct (map fst cs) \<and> (\<forall>(l, c) \<in> set cs. keys_ok c)"
  by pat_completeness auto
termination by (relation "measure size") (auto simp: size_child)

definition wf_node :: "nat \<Rightarrow> node \<Rightarrow> bool" where
  "wf_node a n \<longleftrightarrow> distinct (ids n) \<and> (\<forall>i \<in> set (ids n). i \<le> a) \<and> keys_ok n"

lemma nodeIdx_in_ids [simp]: "nodeIdx n \<in> set (ids n)"
  by (cases n) auto

lemma kidUpdate_None: "map_of cs l = None \<Longrightarrow> kidUpdate l c cs = cs @ [(l, c)]"
  by (induction l c cs rule: kidUpdate.induct) (auto split: if_splits)

lemma kidUpdate_Some:
  "map_of cs l = Some c \<Longrightarrow> \<exists>xs ys. cs = xs @ (l, c) # ys \<and> kidUpdate l c' cs = xs @ (l, c') # ys"
proof (induction l c' cs rule: kidUpdate.induct)
  case (2 l c' k d cs)
  show ?case
  proof (cases "k = l")
    case True
    then show ?thesis using 2(2) by (intro exI [of _ "[]"] exI [of _ cs]) auto
  next
    case False
    then obtain xs ys where "cs = xs @ (l, c) # ys" "kidUpdate l c' cs = xs @ (l, c') # ys" using 2 by auto
    then show ?thesis using False by (intro exI [of _ "(k, d) # xs"] exI [of _ ys]) auto
  qed
qed simp

lemma addPath_wf:
  "addPath a n ls off inh = (n', a', e) \<Longrightarrow> wf_node a n \<Longrightarrow>
    wf_node a' n' \<and> a \<le> a' \<and> nodeIdx n' = nodeIdx n \<and> (\<forall>i \<in> set (ids n'). i \<in> set (ids n) \<or> a < i)"
proof (induction a n ls off inh arbitrary: n' a' e rule: addPath.induct)
  case (1 a i h inh d cs off inherit)
  then show ?case by (auto simp: wf_node_def)
next
  case (2 a i h inh d cs l ls off inherit)
  have wf: "i \<le> a" "distinct (map fst cs)" "\<forall>j \<in> set (kidIds cs). j \<le> a" "\<forall>(l, c) \<in> set cs. keys_ok c"
    "distinct (i # kidIds cs)"
    using "2.prems"(2) by (auto simp: wf_node_def)
  show ?case
  proof (cases "map_of cs l")
    case None
    note n = this
    show ?thesis
    proof (cases "a \<ge> 2147483646")
      case True
      then show ?thesis using "2.prems" None by (auto simp: wf_node_def)
    next
      case False
      obtain c' a1 e1 where c: "addPath (a + 1) (Node (a + 1) False False 0 []) ls off inherit = (c', a1, e1)"
        by (cases "addPath (a + 1) (Node (a + 1) False False 0 []) ls off inherit") auto
      have "wf_node (a + 1) (Node (a + 1) False False 0 [])" by (simp add: wf_node_def)
      from "2.IH"(1) [OF None False c this] have r: "wf_node a1 c'" "a + 1 \<le> a1" "\<forall>j \<in> set (ids c'). a < j" by auto
      have "n' = Node i h inh d (cs @ [(l, c')])" "a' = a1"
        using "2.prems"(1) None False c by (auto simp: kidUpdate_None)
      moreover have "l \<notin> fst ` set cs" using None by (simp add: map_of_eq_None_iff)
      moreover let ?A = "kidIds cs"
      have "distinct (ids c')" using r(1) by (simp add: wf_node_def)
      then have "distinct (i # ?A @ ids c')" using wf(1,3,5) r(3) by (force simp: disjoint_iff)
      moreover have "\<And>j. j \<in> set ?A \<Longrightarrow> j \<le> a1"
        by (rule order_trans [OF bspec [OF wf(3)]]) (use r(2) in auto)
      then have "\<forall>j \<in> set (i # ?A @ ids c'). j \<le> a1"
        using le_trans [OF wf(1) add_leD1 [OF r(2)]] r(1) unfolding wf_node_def set_append set_simps by blast
      moreover have "keys_ok (Node i h inh d (cs @ [(l, c')]))"
        using wf(2,4) r(1) \<open>l \<notin> fst ` set cs\<close> by (auto simp: wf_node_def)
      ultimately show ?thesis using r(2,3) by (auto simp: wf_node_def)
    qed
  next
    case (Some c)
    obtain c' a1 e1 where c: "addPath a c ls off inherit = (c', a1, e1)" by (cases "addPath a c ls off inherit") auto
    from kidUpdate_Some [OF Some, of c'] obtain xs ys where cs: "cs = xs @ (l, c) # ys"
      "kidUpdate l c' cs = xs @ (l, c') # ys" by blast
    have "wf_node a c" using wf cs(1) by (auto simp: wf_node_def)
    from "2.IH"(2) [OF Some c this] have r: "wf_node a1 c'" "a \<le> a1" "\<forall>j \<in> set (ids c'). j \<in> set (ids c) \<or> a < j" by auto
    have "n' = Node i h inh d (xs @ (l, c') # ys)" "a' = a1" using "2.prems"(1) Some c cs by auto
    moreover let ?A = "kidIds xs" and ?B = "kidIds ys"
    have d: "distinct (i # ?A @ ids c @ ?B)" "\<forall>j \<in> set ?A \<union> set ?B. j \<le> a" using wf(3,5) cs(1) by auto
    have "distinct (ids c')" using r(1) by (simp add: wf_node_def)
    then have "distinct (i # ?A @ ids c' @ ?B)" using d r(3) wf(1) by (force simp: disjoint_iff)
    moreover have "\<forall>j \<in> set (i # ?A @ ids c' @ ?B). j \<le> a1"
      using d(2) wf(1) r(1,2) unfolding ball_Un by (fastforce simp: wf_node_def)
    moreover have "keys_ok (Node i h inh d (xs @ (l, c') # ys))" using wf(2,4) cs(1) r(1) by (auto simp: wf_node_def)
    ultimately show ?thesis using r(2,3) cs(1) by (auto simp: wf_node_def)
  qed
qed

section \<open>The node array\<close>

definition statOf :: "bool \<Rightarrow> bool \<Rightarrow> u8" where
  "statOf h inh = (if h then statHasData OR (if inh then statInherit else 0) else 0)"

function stats_ok :: "compiledNode list \<Rightarrow> node \<Rightarrow> bool" where
  "stats_ok nodes (Node i h inh d cs) \<longleftrightarrow> i < length nodes \<and> cnStat (nodes ! i) = statOf h inh \<and>
    (h \<longrightarrow> cnDataOff (nodes ! i) = d) \<and> (\<forall>(l, c) \<in> set cs. stats_ok nodes c)"
  by pat_completeness auto
termination by (relation "measure (\<lambda>(_, n). size n)") (auto simp: size_child)

text \<open>Two node arrays agree on some indices, up to the segments of the children.\<close>

definition same_stats :: "compiledNode list \<Rightarrow> compiledNode list \<Rightarrow> nat set \<Rightarrow> bool" where
  "same_stats ns1 ns2 I \<longleftrightarrow> length ns1 = length ns2 \<and>
    (\<forall>j \<in> I. cnStat (ns2 ! j) = cnStat (ns1 ! j) \<and> cnDataOff (ns2 ! j) = cnDataOff (ns1 ! j))"

lemma stats_ok_frame: "stats_ok ns1 n \<Longrightarrow> same_stats ns1 ns2 (set (ids n)) \<Longrightarrow> stats_ok ns2 n"
proof (induction ns1 n rule: stats_ok.induct)
  case (1 ns1 i h inh d cs)
  have "stats_ok ns2 c" if "(l, c) \<in> set cs" for l c
  proof -
    have "same_stats ns1 ns2 (set (ids c))" using "1.prems"(2) kidIds_mem [OF that] by (auto simp: same_stats_def)
    then show ?thesis using "1.IH" [OF that] "1.prems"(1) that by auto
  qed
  then show ?case using "1.prems" by (auto simp: same_stats_def)
qed

lemma compileNodes_length [simp]: "length (compileNodes n nodes) = length nodes"
proof (induction n nodes rule: compileNodes.induct)
  case (1 i h inh d cs nodes)
  have "length (foldl (\<lambda>nodes (l, c). compileNodes c nodes) ns' ks) = length ns'" if "set ks \<subseteq> set cs" for ks ns'
    using that
  proof (induction ks arbitrary: ns')
    case (Cons k ks)
    obtain l c where k: "k = (l, c)" by (cases k)
    then have "length (compileNodes c ns') = length ns'" using "1.IH" Cons.prems by auto
    then show ?case using Cons k by simp
  qed simp
  then show ?case by simp
qed

definition compileKids :: "(bytes \<times> node) list \<Rightarrow> compiledNode list \<Rightarrow> compiledNode list" where
  "compileKids cs nodes = foldl (\<lambda>nodes (l, c). compileNodes c nodes) nodes cs"

lemma compileKids_simps [simp]:
  "compileKids [] nodes = nodes"
  "compileKids ((l, c) # cs) nodes = compileKids cs (compileNodes c nodes)"
  by (simp_all add: compileKids_def)

lemma compileNodes_Node: "compileNodes (Node i h inh d cs) nodes = compileKids cs (nodes[i := compiledStat h inh d (nodes ! i)])"
  by (simp add: compileKids_def)

definition blank :: "compiledNode list \<Rightarrow> nat list \<Rightarrow> bool" where
  "blank nodes js \<longleftrightarrow> (\<forall>i \<in> set js. i < length nodes \<and> cnStat (nodes ! i) = 0)"

lemma blank_simps [simp]:
  "blank nodes []" "blank nodes (i # js) \<longleftrightarrow> i < length nodes \<and> cnStat (nodes ! i) = 0 \<and> blank nodes js"
  "blank nodes (js @ ks) \<longleftrightarrow> blank nodes js \<and> blank nodes ks"
  by (auto simp: blank_def)

lemma blank_frame: "blank ns1 js \<Longrightarrow> length ns2 = length ns1 \<Longrightarrow> (\<And>j. j \<in> set js \<Longrightarrow> ns2 ! j = ns1 ! j) \<Longrightarrow> blank ns2 js"
  by (auto simp: blank_def)

definition compiles :: "node \<Rightarrow> bool" where
  "compiles n \<longleftrightarrow> (\<forall>nodes. distinct (ids n) \<longrightarrow> blank nodes (ids n) \<longrightarrow>
    stats_ok (compileNodes n nodes) n \<and> (\<forall>j. j \<notin> set (ids n) \<longrightarrow> compileNodes n nodes ! j = nodes ! j))"

lemma compileKids_spec:
  assumes "\<forall>(l, c) \<in> set cs. compiles c" "distinct (kidIds cs)" "blank nodes (kidIds cs)"
  shows "(\<forall>(l, c) \<in> set cs. stats_ok (compileKids cs nodes) c) \<and>
    (\<forall>j. j \<notin> set (kidIds cs) \<longrightarrow> compileKids cs nodes ! j = nodes ! j) \<and>
    length (compileKids cs nodes) = length nodes"
  using assms
proof (induction cs arbitrary: nodes)
  case (Cons k ks)
  obtain l c where k: "k = (l, c)" by (cases k)
  let ?n1 = "compileNodes c nodes"
  have d: "distinct (ids c)" "distinct (kidIds ks)" "set (ids c) \<inter> set (kidIds ks) = {}"
    "blank nodes (ids c)" "blank nodes (kidIds ks)" "compiles c" using Cons.prems k by auto
  have c: "stats_ok ?n1 c" "\<And>j. j \<notin> set (ids c) \<Longrightarrow> ?n1 ! j = nodes ! j"
    using d(1,4,6) unfolding compiles_def by blast+
  have "blank ?n1 (kidIds ks)" by (rule blank_frame [OF d(5)]) (use c(2) d(3) in auto)
  then have r: "\<forall>(l, c) \<in> set ks. stats_ok (compileKids ks ?n1) c"
    "\<And>j. j \<notin> set (kidIds ks) \<Longrightarrow> compileKids ks ?n1 ! j = ?n1 ! j" "length (compileKids ks ?n1) = length ?n1"
    using Cons.IH [of ?n1] Cons.prems(1) d(2) by auto
  have "same_stats ?n1 (compileKids ks ?n1) (set (ids c))"
    using r(2,3) d(3) by (auto simp: same_stats_def disjoint_iff)
  then have "stats_ok (compileKids ks ?n1) c" by (rule stats_ok_frame [OF c(1)])
  then show ?case using r c(2) k by auto
qed simp

lemma compileNodes_spec: "compiles n"
proof (induction n rule: node.induct)
  case (Node i h inh d cs)
  have kids: "\<forall>(l, c) \<in> set cs. compiles c" using Node.IH by fastforce
  show ?case unfolding compiles_def
  proof (intro allI impI)
    fix nodes
    assume a: "distinct (ids (Node i h inh d cs))" "blank nodes (ids (Node i h inh d cs))"
    let ?n0 = "nodes[i := compiledStat h inh d (nodes ! i)]"
    have i: "i \<notin> set (kidIds cs)" "i < length nodes" "cnStat (nodes ! i) = 0" "distinct (kidIds cs)" using a by auto
    have "blank ?n0 (kidIds cs)" by (rule blank_frame [of nodes]) (use a i in \<open>auto simp: nth_list_update\<close>)
    from compileKids_spec [OF kids i(4) this] i
    show "stats_ok (compileNodes (Node i h inh d cs) nodes) (Node i h inh d cs) \<and>
        (\<forall>j. j \<notin> set (ids (Node i h inh d cs)) \<longrightarrow> compileNodes (Node i h inh d cs) nodes ! j = nodes ! j)"
      unfolding compileNodes_Node by (auto simp: compiledStat_def statOf_def statHasData_def)
  qed
qed

section \<open>Segments\<close>

lemma seg_append: "seg s sa = Inr x \<Longrightarrow> seg (s @ t) sa = Inr x"
  by (auto simp: seg_def Let_def split: if_splits)

lemma seg_at:
  "length s \<le> 2147483647 \<Longrightarrow> length s = a + n + k \<Longrightarrow>
    seg s \<lparr>saOff = int a, saLen = int n\<rparr> = Inr (take n (drop a s))"
  by (simp add: seg_def Let_def)

lemma entryLabel_append: "seg labels (labelSeg x) = Inr y \<Longrightarrow> entryLabel (labels @ ys) x = entryLabel labels x"
  using seg_append [of labels "labelSeg x" y ys] by (simp add: entryLabel_def)

text \<open>An address inside a section of the given length.\<close>

definition addr_ok :: "segAddr \<Rightarrow> nat \<Rightarrow> bool" where
  "addr_ok sa len \<longleftrightarrow> (\<exists>a n. sa = \<lparr>saOff = int a, saLen = int n\<rparr> \<and> a + n \<le> len \<and> a + n \<le> 2147483647)"

lemma addr_ok_mono: "addr_ok sa m \<Longrightarrow> m \<le> n \<Longrightarrow> addr_ok sa n"
  by (auto simp: addr_ok_def)

lemma seg_addr_ok: "addr_ok sa (length s) \<Longrightarrow> \<exists>y. seg s sa = Inr y"
  by (auto simp: addr_ok_def seg_def Let_def)

lemma addr_ok_at: "length s \<le> len \<Longrightarrow> length s + n \<le> len \<Longrightarrow> int len \<le> MaxInt32 \<Longrightarrow>
    addr_ok \<lparr>saOff = int (length s), saLen = int n\<rparr> len"
  unfolding addr_ok_def by (intro exI [of _ "length s"] exI [of _ n]) simp

text \<open>The entries of a segment stand for the children.\<close>

definition kids_rep :: "bytes \<Rightarrow> (bytes \<times> node) list \<Rightarrow> idxNode list \<Rightarrow> bool" where
  "kids_rep labels cs xs \<longleftrightarrow> sorted (map (entryLabel labels) xs) \<and> distinct (map (entryLabel labels) xs) \<and>
    (\<forall>x \<in> set xs. addr_ok (labelSeg x) (length labels)) \<and>
    (\<lambda>x. (entryLabel labels x, childIdx x)) ` set xs = (\<lambda>(l, c). (l, int (nodeIdx c))) ` set cs"

lemma kids_rep_seg: "kids_rep labels cs xs \<Longrightarrow> \<forall>x \<in> set xs. \<exists>y. seg labels (labelSeg x) = Inr y"
  using seg_addr_ok by (auto simp: kids_rep_def)

lemma kids_rep_append: "kids_rep labels cs xs \<Longrightarrow> kids_rep (labels @ ys) cs xs"
proof -
  assume k: "kids_rep labels cs xs"
  then have e: "\<forall>x \<in> set xs. entryLabel (labels @ ys) x = entryLabel labels x"
    using entryLabel_append kids_rep_seg by blast
  have "map (entryLabel (labels @ ys)) xs = map (entryLabel labels) xs"
    and "(\<lambda>x. (entryLabel (labels @ ys) x, childIdx x)) ` set xs = (\<lambda>x. (entryLabel labels x, childIdx x)) ` set xs"
    using e by (auto intro!: image_cong)
  moreover have "\<forall>x \<in> set xs. addr_ok (labelSeg x) (length (labels @ ys))"
    using k by (auto simp: kids_rep_def intro: addr_ok_mono)
  ultimately show ?thesis using k unfolding kids_rep_def by metis
qed

lemma addKids_spec:
  "addKids Map.empty cs e = Inr e' \<Longrightarrow> int (length (ctLabels e)) \<le> MaxInt32 \<Longrightarrow>
    \<exists>ys xs. ctLabels e' = ctLabels e @ ys \<and> ctIdx e' = ctIdx e @ xs \<and> ctNodes e' = ctNodes e \<and>
      int (length (ctLabels e')) \<le> MaxInt32 \<and> length xs = length cs \<and>
      (\<forall>x \<in> set xs. addr_ok (labelSeg x) (length (ctLabels e'))) \<and>
      map (\<lambda>x. (entryLabel (ctLabels e') x, childIdx x)) xs = map (\<lambda>(l, c). (l, int (nodeIdx c))) cs"
proof (induction cs arbitrary: e)
  case (Cons k cs)
  obtain l c where k: "k = (l, c)" by (cases k)
  let ?x = "\<lparr>labelSeg = \<lparr>saOff = int (length (ctLabels e)), saLen = int (length l)\<rparr>, childIdx = int (nodeIdx c)\<rparr>"
  let ?e = "e\<lparr>ctLabels := ctLabels e @ l, ctIdx := ctIdx e @ [?x]\<rparr>"
  have a: "addKids Map.empty cs ?e = Inr e'" "int (length (ctLabels e @ l)) \<le> MaxInt32"
    using Cons.prems k by (auto simp: append32bs_def split: if_splits)
  from Cons.IH [OF a(1)] a(2) obtain ys xs where r: "ctLabels e' = (ctLabels e @ l) @ ys" "ctIdx e' = (ctIdx e @ [?x]) @ xs"
    "ctNodes e' = ctNodes e" "int (length (ctLabels e')) \<le> MaxInt32" "length xs = length cs"
    "\<forall>x \<in> set xs. addr_ok (labelSeg x) (length (ctLabels e'))"
    "map (\<lambda>x. (entryLabel (ctLabels e') x, childIdx x)) xs = map (\<lambda>(l, c). (l, int (nodeIdx c))) cs" by auto
  have "seg (ctLabels e @ l) (labelSeg ?x) = Inr l"
    using seg_at [of "ctLabels e @ l" "length (ctLabels e)" "length l" 0] a(2) by simp
  then have s: "seg (ctLabels e') (labelSeg ?x) = Inr l" using seg_append r(1) by metis
  then have "entryLabel (ctLabels e') ?x = l" by (simp add: entryLabel_def)
  moreover have "addr_ok (labelSeg ?x) (length (ctLabels e'))"
    using addr_ok_at [of "ctLabels e" "length (ctLabels e')" "length l"] r(1,4) by simp
  ultimately show ?case using r s k by (intro exI [of _ "l @ ys"] exI [of _ "?x # xs"]) auto
qed simp

end
