(* ===== verification/DomainTreeMatch.thy ===== *)
theory DomainTreeMatch
  imports DomainTreeBuild
begin

text \<open>
  Correctness of compiling and matching: the arrays represent the tree, the search in a sorted
  segment finds the label it is asked for, and matching returns the deepest rule that covers the
  name.
\<close>

section \<open>The arrays represent the tree\<close>

function rep :: "compiledTree \<Rightarrow> node \<Rightarrow> bool" where
  "rep e (Node i h inh d cs) \<longleftrightarrow> i < length (ctNodes e) \<and> cnStat (ctNodes e ! i) = statOf h inh \<and>
    (h \<longrightarrow> cnDataOff (ctNodes e ! i) = d) \<and>
    addr_ok (childIdxSeg (ctNodes e ! i)) (length (ctIdx e)) \<and>
    (\<exists>xs. seg (ctIdx e) (childIdxSeg (ctNodes e ! i)) = Inr xs \<and> kids_rep (ctLabels e) cs xs) \<and>
    (\<forall>(l, c) \<in> set cs. rep e c)"
  by pat_completeness auto
termination by (relation "measure (\<lambda>(_, n). size n)") (auto simp: size_child)

text \<open>Building the index only appends to the index and the labels, and keeps the nodes outside \<open>I\<close>.\<close>

definition grows :: "compiledTree \<Rightarrow> compiledTree \<Rightarrow> nat set \<Rightarrow> bool" where
  "grows e e' I \<longleftrightarrow> (\<exists>xs. ctIdx e' = ctIdx e @ xs) \<and> (\<exists>ys. ctLabels e' = ctLabels e @ ys) \<and>
    same_stats (ctNodes e) (ctNodes e') UNIV \<and> (\<forall>j. j \<notin> I \<longrightarrow> ctNodes e' ! j = ctNodes e ! j)"

lemma grows_refl [simp]: "grows e e I"
  by (simp add: grows_def same_stats_def)

lemma grows_trans: "grows e e1 I \<Longrightarrow> grows e1 e2 J \<Longrightarrow> grows e e2 (I \<union> J)"
  by (auto simp: grows_def same_stats_def)

lemma grows_mono: "grows e e' I \<Longrightarrow> I \<subseteq> J \<Longrightarrow> grows e e' J"
  by (auto simp: grows_def)

lemma rep_frame: "rep e n \<Longrightarrow> grows e e' I \<Longrightarrow> set (ids n) \<inter> I = {} \<Longrightarrow> rep e' n"
proof (induction e n rule: rep.induct)
  case (1 e i h inh d cs)
  have i: "ctNodes e' ! i = ctNodes e ! i" "length (ctNodes e') = length (ctNodes e)"
    using "1.prems" by (auto simp: grows_def same_stats_def)
  from "1.prems"(1) obtain xs where xs: "seg (ctIdx e) (childIdxSeg (ctNodes e ! i)) = Inr xs" "kids_rep (ctLabels e) cs xs"
    "addr_ok (childIdxSeg (ctNodes e ! i)) (length (ctIdx e))" by auto
  obtain xs' ys where g: "ctIdx e' = ctIdx e @ xs'" "ctLabels e' = ctLabels e @ ys" using "1.prems"(2) by (auto simp: grows_def)
  have "rep e' c" if "(l, c) \<in> set cs" for l c
  proof -
    have "rep e c" using that "1.prems"(1) by auto
    moreover have "set (ids c) \<inter> I = {}" using kidIds_mem [OF that] "1.prems"(3) by auto
    ultimately show ?thesis using "1.IH" [OF that] "1.prems"(2) by blast
  qed
  then show ?case using "1.prems"(1) i g seg_append [OF xs(1)] kids_rep_append [OF xs(2)] addr_ok_mono [OF xs(3)] by auto
qed

lemma stats_ok_grows: "grows e e' I \<Longrightarrow> stats_ok (ctNodes e) c \<Longrightarrow> stats_ok (ctNodes e') c"
  by (erule stats_ok_frame) (simp add: grows_def same_stats_def)

definition builds :: "node \<Rightarrow> bool" where
  "builds n \<longleftrightarrow> (\<forall>e e'. buildIdx Map.empty n e = Inr e' \<longrightarrow> distinct (ids n) \<longrightarrow> stats_ok (ctNodes e) n \<longrightarrow> keys_ok n \<longrightarrow>
    int (length (ctLabels e)) \<le> MaxInt32 \<longrightarrow>
    rep e' n \<and> grows e e' (set (ids n)) \<and> int (length (ctLabels e')) \<le> MaxInt32)"

lemma buildKids:
  assumes "\<forall>(l, c) \<in> set cs. builds c" "foldE (\<lambda>(l, c) e. buildIdx Map.empty c e) cs e = Inr e'"
    and "distinct (kidIds cs)" "\<forall>(l, c) \<in> set cs. stats_ok (ctNodes e) c" "int (length (ctLabels e)) \<le> MaxInt32"
    and "\<forall>(l, c) \<in> set cs. keys_ok c"
  shows "(\<forall>(l, c) \<in> set cs. rep e' c) \<and> grows e e' (set (kidIds cs)) \<and> int (length (ctLabels e')) \<le> MaxInt32"
  using assms
proof (induction cs arbitrary: e)
  case (Cons k ks)
  obtain l c where k: "k = (l, c)" by (cases k)
  from Cons.prems(2) k obtain e1 where 1: "buildIdx Map.empty c e = Inr e1"
    "foldE (\<lambda>(l, c) e. buildIdx Map.empty c e) ks e1 = Inr e'" by (auto simp: res_simps)
  have d: "builds c" "distinct (ids c)" "stats_ok (ctNodes e) c" "keys_ok c" "distinct (kidIds ks)"
    "set (ids c) \<inter> set (kidIds ks) = {}" using Cons.prems k by auto
  have c: "rep e1 c" "grows e e1 (set (ids c))" "int (length (ctLabels e1)) \<le> MaxInt32"
    using d(1) [unfolded builds_def, rule_format, OF 1(1) d(2-4) Cons.prems(5)] by blast+
  have "\<forall>(l, c) \<in> set ks. stats_ok (ctNodes e1) c"
    using Cons.prems(4) stats_ok_grows [OF c(2)] k by auto
  with Cons.IH [of e1] Cons.prems(1,6) 1(2) d(5) c(3) have r:
    "\<forall>(l, c) \<in> set ks. rep e' c" "grows e1 e' (set (kidIds ks))" "int (length (ctLabels e')) \<le> MaxInt32" by auto
  have "rep e' c" using rep_frame [OF c(1) r(2)] d(6) by blast
  then show ?case using r grows_trans [OF c(2) r(2)] k by auto
qed simp

lemma entry_image:
  "map (\<lambda>x. (entryLabel L x, childIdx x)) xs = map (\<lambda>(l, c). (l, int (nodeIdx c))) cs \<Longrightarrow>
    (\<lambda>x. (entryLabel L x, childIdx x)) ` set xs = (\<lambda>(l, c). (l, int (nodeIdx c))) ` set cs"
  by (metis (no_types, lifting) image_set)

lemma buildIdx_spec: "builds n"
proof (induction n rule: node.induct)
  case (Node i h inh d cs)
  have kids: "\<forall>(l, c) \<in> set cs. builds c" using Node.IH by fastforce
  show ?case unfolding builds_def
  proof (intro allI impI)
    fix e e'
    assume a: "buildIdx Map.empty (Node i h inh d cs) e = Inr e'" "distinct (ids (Node i h inh d cs))"
      "stats_ok (ctNodes e) (Node i h inh d cs)" "int (length (ctLabels e)) \<le> MaxInt32"
      "keys_ok (Node i h inh d cs)"
    let ?sa = "\<lparr>saOff = int (length (ctIdx e)), saLen = int (length cs)\<rparr>"
    let ?e1 = "e\<lparr>ctNodes := (ctNodes e)[i := (ctNodes e ! i)\<lparr>childIdxSeg := ?sa\<rparr>]\<rparr>"
    obtain e2 where 2: "addKids Map.empty cs ?e1 = Inr e2"
      "foldE (\<lambda>(l, c) e. buildIdx Map.empty c e) cs (e2\<lparr>ctIdx := take (length (ctIdx e)) (ctIdx e2) @
         sort_key (entryLabel (ctLabels e2)) (drop (length (ctIdx e)) (ctIdx e2))\<rparr>) = Inr e'"
      "int (length (ctIdx e)) + int (length cs) \<le> MaxInt32" "i < length (ctNodes e)"
      using a(1) by (auto simp: res_simps Let_def split: if_splits)
    from addKids_spec [OF 2(1)] a(4) obtain ys xs where k: "ctLabels e2 = ctLabels e @ ys" "ctIdx e2 = ctIdx e @ xs"
      "ctNodes e2 = ctNodes ?e1" "int (length (ctLabels e2)) \<le> MaxInt32" "length xs = length cs"
      "\<forall>x \<in> set xs. addr_ok (labelSeg x) (length (ctLabels e2))"
      "map (\<lambda>x. (entryLabel (ctLabels e2) x, childIdx x)) xs = map (\<lambda>(l, c). (l, int (nodeIdx c))) cs" by auto
    let ?ss = "sort_key (entryLabel (ctLabels e2)) xs"
    let ?e3 = "e2\<lparr>ctIdx := ctIdx e @ ?ss\<rparr>"
    have g3: "grows e ?e3 {i}"
      using k(1,3) 2(4) by (auto simp: grows_def same_stats_def nth_list_update)
    have st: "\<forall>(l, c) \<in> set cs. stats_ok (ctNodes ?e3) c"
      using a(3) stats_ok_grows [OF g3] by auto
    have dk: "distinct (kidIds cs)" "i \<notin> set (kidIds cs)" using a(2) by auto
    have f: "foldE (\<lambda>(l, c) e. buildIdx Map.empty c e) cs ?e3 = Inr e'" using 2(2) k(2) by simp
    from buildKids [OF kids f dk(1) st] k(4) a(5) have r: "\<forall>(l, c) \<in> set cs. rep e' c" "grows ?e3 e' (set (kidIds cs))"
      "int (length (ctLabels e')) \<le> MaxInt32" by auto
    have g: "grows e e' (set (ids (Node i h inh d cs)))" using grows_trans [OF g3 r(2)] by simp
    have n: "ctNodes e' ! i = (ctNodes e ! i)\<lparr>childIdxSeg := ?sa\<rparr>"
      using r(2) dk(2) k(3) 2(4) by (auto simp: grows_def)
    obtain zs ys' where e': "ctIdx e' = (ctIdx e @ ?ss) @ zs" "ctLabels e' = ctLabels e2 @ ys'"
      using r(2) by (auto simp: grows_def)
    have ad: "addr_ok ?sa (length (ctIdx e'))"
      using addr_ok_at [of "ctIdx e" "length (ctIdx e) + length cs" "length cs"] 2(3) k(5) e'(1)
      by (auto intro: addr_ok_mono)
    have lab: "map (entryLabel (ctLabels e2)) xs = map fst cs"
      using arg_cong [OF k(7), of "map fst"] by (simp add: comp_def case_prod_beta)
    have "distinct (map (entryLabel (ctLabels e2)) xs)" unfolding lab using a(5) by simp
    then have "distinct (map (entryLabel (ctLabels e2)) ?ss)" by (simp add: distinct_map)
    moreover have "seg (ctIdx e @ ?ss) ?sa = Inr ?ss"
      using seg_at [of "ctIdx e @ ?ss" "length (ctIdx e)" "length cs" 0] 2(3) k(5) by simp
    then have sg: "seg (ctIdx e') (childIdxSeg (ctNodes e' ! i)) = Inr ?ss" unfolding e' n by (simp add: seg_append del: append_assoc)
    ultimately have "kids_rep (ctLabels e2) cs ?ss"
      using k(6) entry_image [OF k(7)] by (simp add: kids_rep_def)
    then have "kids_rep (ctLabels e') cs ?ss" unfolding e' by (rule kids_rep_append)
    with sg ad n have "addr_ok (childIdxSeg (ctNodes e' ! i)) (length (ctIdx e'))"
      "\<exists>xs. seg (ctIdx e') (childIdxSeg (ctNodes e' ! i)) = Inr xs \<and> kids_rep (ctLabels e') cs xs" by auto
    moreover have "length (ctNodes e') = length (ctNodes e)" using g by (simp add: grows_def same_stats_def)
    ultimately have "rep e' (Node i h inh d cs)" using r(1) a(3) n by auto
    with g r(3) show "rep e' (Node i h inh d cs) \<and> grows e e' (set (ids (Node i h inh d cs))) \<and>
        int (length (ctLabels e')) \<le> MaxInt32" by blast
  qed
qed

lemma treeCompile_rep:
  assumes "treeCompile t = Inr e" "wf_node (assignedIdx t) (root t)"
  shows "rep e (root t)"
proof -
  let ?nodes = "replicate (assignedIdx t + 1) emptyNode"
  have "blank ?nodes (ids (root t))" "distinct (ids (root t))"
    using assms(2) by (auto simp: wf_node_def blank_def emptyNode_def less_Suc_eq_le simp del: replicate_Suc)
  then have "stats_ok (compileNodes (root t) ?nodes) (root t)"
    using compileNodes_spec [of "root t"] unfolding compiles_def by blast
  then show ?thesis
    using buildIdx_spec [of "root t"] assms unfolding builds_def treeCompile_def Let_def wf_node_def by auto
qed

section \<open>The search\<close>

lemma searchLoop_spec:
  assumes "sorted (map (entryLabel L) s)" "\<forall>x \<in> set s. \<exists>y. seg L (labelSeg x) = Inr y"
  shows "j \<le> length s \<Longrightarrow> i \<le> j \<Longrightarrow> \<forall>m<i. entryLabel L (s ! m) < t \<Longrightarrow>
    \<forall>m. j \<le> m \<and> m < length s \<longrightarrow> \<not> entryLabel L (s ! m) < t \<Longrightarrow>
    \<exists>k. searchLoop L s t i j = Inr k \<and> k \<le> length s \<and> (\<forall>m<k. entryLabel L (s ! m) < t) \<and>
      (\<forall>m. k \<le> m \<and> m < length s \<longrightarrow> \<not> entryLabel L (s ! m) < t)"
proof (induction "j - i" arbitrary: i j rule: less_induct)
  case less
  show ?case
  proof (cases "i < j")
    case False
    then show ?thesis using less.prems by (subst searchLoop.simps) auto
  next
    case True
    let ?h = "(i + j) div 2"
    have h: "i \<le> ?h" "?h < j" "?h < length s" using True less.prems by auto
    obtain x where x: "seg L (labelSeg (s ! ?h)) = Inr x" using assms(2) h(3) by (meson nth_mem)
    then have e: "entryLabel L (s ! ?h) = x" by (simp add: entryLabel_def)
    have mono: "entryLabel L (s ! m) \<le> entryLabel L (s ! m')" if "m \<le> m'" "m' < length s" for m m'
      using sorted_nth_mono [OF assms(1) that(1)] that by simp
    show ?thesis
    proof (cases "x < t")
      case lt: True
      have "\<forall>m<?h + 1. entryLabel L (s ! m) < t" using mono [of _ ?h] h(3) e lt by (auto simp: less_Suc_eq_le intro: le_less_trans)
      then show ?thesis using less.hyps [of j "?h + 1"] less.prems h x lt True
        by (subst searchLoop.simps) (simp add: Let_def)
    next
      case nlt: False
      have "\<forall>m. ?h \<le> m \<and> m < length s \<longrightarrow> \<not> entryLabel L (s ! m) < t"
        using mono [of ?h] e nlt by (auto intro: le_less_trans)
      then show ?thesis using less.hyps [of ?h i] less.prems h x nlt True
        by (subst searchLoop.simps) (simp add: Let_def)
    qed
  qed
qed

lemma binarySearch_spec:
  assumes "sorted (map (entryLabel (ctLabels e)) s)" "\<forall>x \<in> set s. \<exists>y. seg (ctLabels e) (labelSeg x) = Inr y"
  shows "\<exists>r. binarySearchIdx e s t = Inr r \<and>
    (if t \<in> entryLabel (ctLabels e) ` set s
     then 0 \<le> r \<and> nat r < length s \<and> entryLabel (ctLabels e) (s ! nat r) = t else r < 0)"
proof -
  let ?L = "ctLabels e"
  have out: "\<forall>m<0. entryLabel ?L (s ! m) < t" "\<forall>m. length s \<le> m \<and> m < length s \<longrightarrow> \<not> entryLabel ?L (s ! m) < t" by auto
  from searchLoop_spec [OF assms le_refl le0 out] obtain k where k: "searchLoop ?L s t 0 (length s) = Inr k" "k \<le> length s"
    "\<forall>m<k. entryLabel ?L (s ! m) < t" "\<forall>m. k \<le> m \<and> m < length s \<longrightarrow> \<not> entryLabel ?L (s ! m) < t" by blast
  have mono: "entryLabel ?L (s ! m) \<le> entryLabel ?L (s ! m')" if "m \<le> m'" "m' < length s" for m m'
    using sorted_nth_mono [OF assms(1) that(1)] that by simp
  show ?thesis
  proof (cases "k < length s")
    case True
    obtain x where x: "seg ?L (labelSeg (s ! k)) = Inr x" using assms(2) True by (meson nth_mem)
    then have e: "entryLabel ?L (s ! k) = x" by (simp add: entryLabel_def)
    have "x = t" if t: "t \<in> entryLabel ?L ` set s"
    proof -
      from t obtain m where m: "m < length s" "entryLabel ?L (s ! m) = t" by (auto simp: in_set_conv_nth)
      then have "k \<le> m" using k(3) by (metis less_irrefl not_le)
      then have "x \<le> t" using mono [of k m] m e by simp
      moreover have "\<not> x < t" using k(4) True e by blast
      ultimately show ?thesis by simp
    qed
    moreover have "x = t \<Longrightarrow> t \<in> entryLabel ?L ` set s" using e True by force
    ultimately show ?thesis using k(1) True x e by (auto simp: binarySearchIdx_def)
  next
    case False
    have "t \<notin> entryLabel ?L ` set s"
    proof
      assume "t \<in> entryLabel ?L ` set s"
      then obtain m where "m < length s" "entryLabel ?L (s ! m) = t" by (auto simp: in_set_conv_nth)
      then show False using k(3) False k(2) by auto
    qed
    then show ?thesis using k(1) False by (auto simp: binarySearchIdx_def)
  qed
qed

lemma search_kids:
  assumes "kids_rep (ctLabels e) cs xs" "distinct (map fst cs)"
  shows "\<exists>r. binarySearchIdx e xs l = Inr r \<and>
    (case map_of cs l of None \<Rightarrow> r < 0
     | Some c \<Rightarrow> 0 \<le> r \<and> nat r < length xs \<and> childIdx (xs ! nat r) = int (nodeIdx c))"
proof -
  let ?L = "ctLabels e"
  have img: "(\<lambda>x. (entryLabel ?L x, childIdx x)) ` set xs = (\<lambda>(l, c). (l, int (nodeIdx c))) ` set cs"
    and s: "sorted (map (entryLabel ?L) xs)" "\<forall>x \<in> set xs. \<exists>y. seg ?L (labelSeg x) = Inr y"
    using assms(1) kids_rep_seg [OF assms(1)] by (auto simp: kids_rep_def)
  have fst: "entryLabel ?L ` set xs = fst ` set cs"
    using arg_cong [OF img, of "image fst"] by (simp add: image_image case_prod_beta)
  from binarySearch_spec [OF s, of l] obtain r where r: "binarySearchIdx e xs l = Inr r"
    "if l \<in> entryLabel ?L ` set xs then 0 \<le> r \<and> nat r < length xs \<and> entryLabel ?L (xs ! nat r) = l else r < 0" by blast
  show ?thesis
  proof (cases "map_of cs l")
    case None
    then have "l \<notin> entryLabel ?L ` set xs" using fst by (simp add: map_of_eq_None_iff)
    then show ?thesis using r None by auto
  next
    case (Some c)
    then have "(l, c) \<in> set cs" by (rule map_of_SomeD)
    then have "l \<in> entryLabel ?L ` set xs" using fst by force
    then have n: "0 \<le> r" "nat r < length xs" "entryLabel ?L (xs ! nat r) = l" using r(2) by auto
    then have "(l, childIdx (xs ! nat r)) \<in> (\<lambda>(l, c). (l, int (nodeIdx c))) ` set cs" using img by force
    then obtain c' where "(l, c') \<in> set cs" "childIdx (xs ! nat r) = int (nodeIdx c')" by auto
    moreover have "c' = c" using calculation(1) \<open>(l, c) \<in> set cs\<close> assms(2) by (metis eq_key_imp_eq_value)
    ultimately show ?thesis using r(1) n Some by auto
  qed
qed

section \<open>Matching\<close>

text \<open>
  A rule covers a name at depth \<open>k\<close> if its path is the last \<open>k\<close> labels of the name and it is
  inherited by sub-domains or is for the name itself.
\<close>

definition covers :: "(bytes list \<Rightarrow> (bool \<times> int) option) \<Rightarrow> bytes list \<Rightarrow> nat \<Rightarrow> int \<Rightarrow> bool" where
  "covers m ls k d \<longleftrightarrow> k \<le> length ls \<and> (\<exists>inh. m (take k ls) = Some (inh, d) \<and> (inh \<or> k = length ls))"

fun deepest :: "(bytes list \<Rightarrow> (bool \<times> int) option) \<Rightarrow> bytes list \<Rightarrow> (nat \<times> int) option" where
  "deepest m [] = map_option (\<lambda>(inh, d). (0, d)) (m [])"
| "deepest m (l # ls) = (case deepest (\<lambda>p. m (l # p)) ls of Some (k, d) \<Rightarrow> Some (Suc k, d)
     | None \<Rightarrow> (case m [] of Some (True, d) \<Rightarrow> Some (0, d) | _ \<Rightarrow> None))"

lemma covers_Nil: "covers m [] k d \<longleftrightarrow> k = 0 \<and> (\<exists>inh. m [] = Some (inh, d))"
  by (auto simp: covers_def)

lemma covers_Cons: "covers m (l # ls) k d \<longleftrightarrow>
    (case k of 0 \<Rightarrow> m [] = Some (True, d) | Suc k \<Rightarrow> covers (\<lambda>p. m (l # p)) ls k d)"
  by (cases k) (auto simp: covers_def)

lemma deepest_spec:
  "case deepest m ls of None \<Rightarrow> \<forall>k d. \<not> covers m ls k d
   | Some (k, d) \<Rightarrow> covers m ls k d \<and> (\<forall>k' d'. covers m ls k' d' \<longrightarrow> k' \<le> k)"
proof (induction m ls rule: deepest.induct)
  case (2 m l ls)
  show ?case
  proof (cases "deepest (\<lambda>p. m (l # p)) ls")
    case None
    then show ?thesis using 2 by (auto simp: covers_Cons split: option.splits bool.splits nat.splits) (metis not0_implies_Suc)
  next
    case (Some r)
    obtain k d where r: "r = (k, d)" by (cases r)
    have c: "covers (\<lambda>p. m (l # p)) ls k d" "\<And>k' d'. covers (\<lambda>p. m (l # p)) ls k' d' \<Longrightarrow> k' \<le> k"
      using 2 Some r by auto
    have "k' \<le> Suc k" if "covers m (l # ls) k' d'" for k' d'
      using that c(2) by (cases k') (auto simp: covers_Cons)
    moreover have "covers m (l # ls) (Suc k) d" using c(1) by (simp add: covers_Cons)
    ultimately show ?thesis using Some r by auto
  qed
qed (auto simp: covers_Nil split: option.splits)

lemma deepest_empty: "deepest (\<lambda>p. None) ls = None"
  by (induction ls) auto

lemma stat_bits [simp]:
  "(statOf h inh AND statHasData > 0) = h" "h \<Longrightarrow> (statOf h inh AND statInherit > 0) = inh"
  by (cases h; cases inh; simp add: statOf_def statHasData_def statInherit_def)+

lemma matchLoop_rep:
  "rep e n \<Longrightarrow> keys_ok n \<Longrightarrow>
    (case nodeStep (ctNodes e ! nodeIdx n) i best of (best', fm) \<Rightarrow>
      matchLoop e ls (i + 1) (ctNodes e ! nodeIdx n) best' fm) =
    Inr (case deepest (absTree n) ls of None \<Rightarrow> best | Some (k, d) \<Rightarrow> (d, i + int k))"
proof (induction ls arbitrary: n i best)
  case Nil
  obtain j h inh d cs where n: "n = Node j h inh d cs" by (cases n)
  then show ?case using Nil.prems by (auto simp: nodeStep_def)
next
  case (Cons l ls)
  obtain j h inh d cs where n: "n = Node j h inh d cs" by (cases n)
  let ?cur = "ctNodes e ! j"
  let ?best = "if h \<and> inh then (d, i) else best"
  obtain xs where xs: "seg (ctIdx e) (childIdxSeg ?cur) = Inr xs" "kids_rep (ctLabels e) cs xs"
    using Cons.prems(1) n by auto
  have dk: "distinct (map fst cs)" using Cons.prems(2) n by simp
  obtain fm where st: "nodeStep ?cur i best = (?best, fm)"
    using Cons.prems(1) n by (cases h; cases inh) (auto simp: nodeStep_def)
  from search_kids [OF xs(2) dk, of l] obtain r where r: "binarySearchIdx e xs l = Inr r"
    "case map_of cs l of None \<Rightarrow> r < 0
     | Some c \<Rightarrow> 0 \<le> r \<and> nat r < length xs \<and> childIdx (xs ! nat r) = int (nodeIdx c)" by blast
  show ?case
  proof (cases "map_of cs l")
    case None
    then have "absTree n = (\<lambda>p. case p of [] \<Rightarrow> absTree n [] | k # ks \<Rightarrow> if k = l then None else absTree n p)"
      using n by (auto simp: fun_eq_iff split: list.splits)
    have "(\<lambda>p. absTree n (l # p)) = (\<lambda>p. None)" using None n by simp
    then have "deepest (absTree n) (l # ls) = (if h \<and> inh then Some (0, d) else None)"
      using n by (simp add: deepest_empty)
    then show ?thesis using None n xs(1) r st by auto
  next
    case (Some c)
    then have c: "(l, c) \<in> set cs" by (rule map_of_SomeD)
    have rc: "rep e c" "keys_ok c" using Cons.prems n c by auto
    have idx: "nodeIdx c < length (ctNodes e)" using rc(1) by (cases c) auto
    have "(\<lambda>p. absTree n (l # p)) = absTree c" using Some n by simp
    then have dp: "deepest (absTree n) (l # ls) = (case deepest (absTree c) ls of Some (k, d) \<Rightarrow> Some (Suc k, d)
        | None \<Rightarrow> if h \<and> inh then Some (0, d) else None)"
      using n by (auto split: option.splits)
    have IH: "(case nodeStep (ctNodes e ! nodeIdx c) (i + 1) ?best of (best', fm) \<Rightarrow>
        matchLoop e ls (i + 1 + 1) (ctNodes e ! nodeIdx c) best' fm) =
      Inr (case deepest (absTree c) ls of None \<Rightarrow> ?best | Some (k, d) \<Rightarrow> (d, i + 1 + int k))"
      by (rule Cons.IH [OF rc])
    have step: "(case nodeStep (ctNodes e ! nodeIdx n) i best of (best', fm) \<Rightarrow>
        matchLoop e (l # ls) (i + 1) (ctNodes e ! nodeIdx n) best' fm) =
      (case nodeStep (ctNodes e ! nodeIdx c) (i + 1) ?best of (best', fm) \<Rightarrow>
        matchLoop e ls (i + 1 + 1) (ctNodes e ! nodeIdx c) best' fm)"
      using n xs(1) r st Some idx by (simp add: Let_def)
    show ?thesis unfolding step IH dp by (auto split: option.splits)
  qed
qed

section \<open>When compiling succeeds\<close>

function labelBytes :: "node \<Rightarrow> nat" where
  "labelBytes (Node i h inh d cs) = sum_list (map (\<lambda>(l, c). length l + labelBytes c) cs)"
  by pat_completeness auto
termination by (relation "measure size") (auto simp: size_child)

definition kidBytes :: "(bytes \<times> node) list \<Rightarrow> nat" where
  "kidBytes cs = sum_list (map (\<lambda>(l, c). length l + labelBytes c) cs)"

definition keyBytes :: "(bytes \<times> node) list \<Rightarrow> nat" where
  "keyBytes cs = sum_list (map (length \<circ> fst) cs)"

definition subBytes :: "(bytes \<times> node) list \<Rightarrow> nat" where
  "subBytes cs = sum_list (map (labelBytes \<circ> snd) cs)"

lemma kidBytes_split: "kidBytes cs = keyBytes cs + subBytes cs"
  by (induction cs) (auto simp: kidBytes_def keyBytes_def subBytes_def)

text \<open>The number of nodes below a node, which is the number of index entries its subtree needs.\<close>

function below :: "node \<Rightarrow> nat" where
  "below (Node i h inh d cs) = length cs + sum_list (map (\<lambda>(l, c). below c) cs)"
  by pat_completeness auto
termination by (relation "measure size") (auto simp: size_child)

definition subBelow :: "(bytes \<times> node) list \<Rightarrow> nat" where
  "subBelow cs = sum_list (map (below \<circ> snd) cs)"

lemma below_Node [simp]: "below (Node i h inh d cs) = length cs + subBelow cs"
  by (induction cs) (auto simp: subBelow_def)

declare below.simps [simp del]

lemma sub_simps [simp]:
  "subBelow [] = 0" "subBelow ((l, c) # cs) = below c + subBelow cs"
  "subBytes [] = 0" "subBytes ((l, c) # cs) = labelBytes c + subBytes cs"
  "keyBytes [] = 0" "keyBytes ((l, c) # cs) = length l + keyBytes cs"
  by (simp_all add: subBelow_def subBytes_def keyBytes_def)

lemma labelBytes_Node [simp]: "labelBytes (Node i h inh d cs) = keyBytes cs + subBytes cs"
  using kidBytes_split [of cs] by (simp add: kidBytes_def)

declare labelBytes.simps [simp del]

lemma length_ids: "length (ids n) = Suc (below n)"
proof (induction n rule: node.induct)
  case (Node i h inh d cs)
  have "length (kidIds cs) = length cs + subBelow cs"
    using Node.IH
  proof (induction cs)
    case (Cons a cs)
    then show ?case by (cases a) fastforce
  qed simp
  then show ?case by simp
qed

lemma addKids_total:
  "int (length (ctLabels e)) + int (keyBytes cs) \<le> MaxInt32 \<Longrightarrow>
    \<exists>e'. addKids Map.empty cs e = Inr e' \<and> length (ctIdx e') = length (ctIdx e) + length cs \<and>
      length (ctLabels e') = length (ctLabels e) + keyBytes cs \<and> ctNodes e' = ctNodes e"
proof (induction cs arbitrary: e)
  case (Cons k ks)
  obtain l c where k: "k = (l, c)" by (cases k)
  let ?e = "e\<lparr>ctLabels := ctLabels e @ l, ctIdx := ctIdx e @ [\<lparr>labelSeg = \<lparr>saOff = int (length (ctLabels e)),
     saLen = int (length l)\<rparr>, childIdx = int (nodeIdx c)\<rparr>]\<rparr>"
  have "int (length (ctLabels ?e)) + int (keyBytes ks) \<le> MaxInt32" using Cons.prems k by simp
  from Cons.IH [OF this] Cons.prems k show ?case by (auto simp: append32bs_def)
qed simp

definition total :: "node \<Rightarrow> bool" where
  "total n \<longleftrightarrow> (\<forall>e. (\<forall>i \<in> set (ids n). i < length (ctNodes e)) \<longrightarrow>
    int (length (ctIdx e)) + int (below n) \<le> MaxInt32 \<longrightarrow> int (length (ctLabels e)) + int (labelBytes n) \<le> MaxInt32 \<longrightarrow>
    (\<exists>e'. buildIdx Map.empty n e = Inr e' \<and> length (ctIdx e') = length (ctIdx e) + below n \<and>
      length (ctLabels e') = length (ctLabels e) + labelBytes n \<and> length (ctNodes e') = length (ctNodes e)))"

lemma totalD:
  "total n \<Longrightarrow> \<forall>i \<in> set (ids n). i < length (ctNodes e) \<Longrightarrow> int (length (ctIdx e)) + int (below n) \<le> MaxInt32 \<Longrightarrow>
    int (length (ctLabels e)) + int (labelBytes n) \<le> MaxInt32 \<Longrightarrow>
    \<exists>e'. buildIdx Map.empty n e = Inr e' \<and> length (ctIdx e') = length (ctIdx e) + below n \<and>
      length (ctLabels e') = length (ctLabels e) + labelBytes n \<and> length (ctNodes e') = length (ctNodes e)"
  unfolding total_def by blast

lemma buildKids_total:
  assumes "\<forall>(l, c) \<in> set cs. total c" "\<forall>i \<in> set (kidIds cs). i < length (ctNodes e)"
    and "int (length (ctIdx e)) + int (subBelow cs) \<le> MaxInt32"
    and "int (length (ctLabels e)) + int (subBytes cs) \<le> MaxInt32"
  shows "\<exists>e'. foldE (\<lambda>(l, c) e. buildIdx Map.empty c e) cs e = Inr e' \<and>
      length (ctIdx e') = length (ctIdx e) + subBelow cs \<and>
      length (ctLabels e') = length (ctLabels e) + subBytes cs \<and> length (ctNodes e') = length (ctNodes e)"
  using assms
proof (induction cs arbitrary: e)
  case (Cons k ks)
  obtain l c where k: "k = (l, c)" by (cases k)
  have "total c" "\<forall>i \<in> set (ids c). i < length (ctNodes e)" "int (length (ctIdx e)) + int (below c) \<le> MaxInt32"
    "int (length (ctLabels e)) + int (labelBytes c) \<le> MaxInt32" using Cons.prems k by auto
  from totalD [OF this] obtain e1 where
    e1: "buildIdx Map.empty c e = Inr e1" "length (ctIdx e1) = length (ctIdx e) + below c"
    "length (ctLabels e1) = length (ctLabels e) + labelBytes c" "length (ctNodes e1) = length (ctNodes e)" by blast
  have "\<forall>(l, c) \<in> set ks. total c" "\<forall>i \<in> set (kidIds ks). i < length (ctNodes e1)"
    "int (length (ctIdx e1)) + int (subBelow ks) \<le> MaxInt32" "int (length (ctLabels e1)) + int (subBytes ks) \<le> MaxInt32"
    using Cons.prems k e1(2-4) by auto
  from Cons.IH [OF this] obtain e' where "foldE (\<lambda>(l, c) e. buildIdx Map.empty c e) ks e1 = Inr e'"
    "length (ctIdx e') = length (ctIdx e1) + subBelow ks"
    "length (ctLabels e') = length (ctLabels e1) + subBytes ks" "length (ctNodes e') = length (ctNodes e1)" by blast
  then show ?case using e1 k by auto
qed simp

lemma buildIdx_total: "total n"
proof (induction n rule: node.induct)
  case (Node i h inh d cs)
  have kids: "\<forall>(l, c) \<in> set cs. total c" using Node.IH by fastforce
  show ?case unfolding total_def
  proof (intro allI impI)
    fix e :: compiledTree
    assume a: "\<forall>j \<in> set (ids (Node i h inh d cs)). j < length (ctNodes e)"
      "int (length (ctIdx e)) + int (below (Node i h inh d cs)) \<le> MaxInt32"
      "int (length (ctLabels e)) + int (labelBytes (Node i h inh d cs)) \<le> MaxInt32"
    let ?e1 = "e\<lparr>ctNodes := (ctNodes e)[i := (ctNodes e ! i)\<lparr>childIdxSeg := \<lparr>saOff = int (length (ctIdx e)), saLen = int (length cs)\<rparr>\<rparr>]\<rparr>"
    have "int (length (ctLabels ?e1)) + int (keyBytes cs) \<le> MaxInt32" using a(3) by simp
    from addKids_total [OF this] obtain e2 where e2: "addKids Map.empty cs ?e1 = Inr e2"
      "length (ctIdx e2) = length (ctIdx e) + length cs" "length (ctLabels e2) = length (ctLabels e) + keyBytes cs"
      "ctNodes e2 = ctNodes ?e1" by auto
    let ?e3 = "e2\<lparr>ctIdx := take (length (ctIdx e)) (ctIdx e2) @
       sort_key (entryLabel (ctLabels e2)) (drop (length (ctIdx e)) (ctIdx e2))\<rparr>"
    have 3: "length (ctIdx ?e3) = length (ctIdx e) + length cs" using e2(2) by simp
    have n: "\<forall>j \<in> set (kidIds cs). j < length (ctNodes ?e3)" using a(1) e2(4) by simp
    have b: "int (length (ctIdx ?e3)) + int (subBelow cs) \<le> MaxInt32"
      "int (length (ctLabels ?e3)) + int (subBytes cs) \<le> MaxInt32"
      unfolding 3 using a(2,3) e2(3) by auto
    from buildKids_total [OF kids n b] obtain e' where e': "foldE (\<lambda>(l, c) e. buildIdx Map.empty c e) cs ?e3 = Inr e'"
      "length (ctIdx e') = length (ctIdx ?e3) + subBelow cs"
      "length (ctLabels e') = length (ctLabels ?e3) + subBytes cs" "length (ctNodes e') = length (ctNodes ?e3)" by blast
    have "buildIdx Map.empty (Node i h inh d cs) e = Inr e'"
      using a(1,2) e2(1) e'(1) by (simp add: Let_def)
    then show "\<exists>e'. buildIdx Map.empty (Node i h inh d cs) e = Inr e' \<and>
        length (ctIdx e') = length (ctIdx e) + below (Node i h inh d cs) \<and>
        length (ctLabels e') = length (ctLabels e) + labelBytes (Node i h inh d cs) \<and>
        length (ctNodes e') = length (ctNodes e)"
      using e'(2-4) 3 e2(3,4) by simp
  qed
qed

section \<open>Properties\<close>

text \<open>The state of a loader's tree: indices below the counter, the root first.\<close>

definition wf_tree :: "tree \<Rightarrow> bool" where
  "wf_tree t \<longleftrightarrow> wf_node (assignedIdx t) (root t) \<and> nodeIdx (root t) = 0 \<and> assignedIdx t \<le> 2147483646"

lemma treeCompile_total:
  assumes "wf_tree t" "int (labelBytes (root t)) \<le> MaxInt32"
  shows "\<exists>e. treeCompile t = Inr e"
proof -
  have "set (ids (root t)) \<subseteq> {..assignedIdx t}" "distinct (ids (root t))"
    using assms(1) by (auto simp: wf_tree_def wf_node_def)
  then have "length (ids (root t)) \<le> assignedIdx t + 1"
    by (metis card_atMost card_mono distinct_card finite_atMost Suc_eq_plus1)
  then have i: "int (length (ctIdx (\<lparr>ctNodes = [], ctIdx = [], ctLabels = []\<rparr> :: compiledTree))) + int (below (root t)) \<le> MaxInt32"
    using assms(1) by (auto simp: wf_tree_def length_ids)
  let ?e = "\<lparr>ctNodes = compileNodes (root t) (replicate (assignedIdx t + 1) emptyNode), ctIdx = [], ctLabels = []\<rparr>"
  have n: "\<forall>i \<in> set (ids (root t)). i < length (ctNodes ?e)"
    using assms(1) by (auto simp: wf_tree_def wf_node_def less_Suc_eq_le)
  from totalD [OF buildIdx_total n] i assms(2) show ?thesis by (auto simp: treeCompile_def)
qed

lemma addPath_assigned: "addPath a n ls off inh = (n', a', e) \<Longrightarrow> a \<le> 2147483646 \<Longrightarrow> a' \<le> 2147483646"
  by (induction a n ls off inh arbitrary: n' a' e rule: addPath.induct)
     (auto simp: Let_def split: option.splits if_splits prod.splits)

lemma treeAdd_wf: "wf_tree t \<Longrightarrow> wf_tree (fst (treeAdd t n off inh))"
proof -
  assume wf: "wf_tree t"
  obtain r a e where p: "addPath (assignedIdx t) (root t) (rev (Labels n)) off inh = (r, a, e)"
    by (cases "addPath (assignedIdx t) (root t) (rev (Labels n)) off inh") auto
  then show ?thesis using wf addPath_wf [OF p] addPath_assigned [OF p]
    by (auto simp: wf_tree_def treeAdd_def)
qed

lemma newTree_wf: "wf_tree newTree"
  by (simp add: wf_tree_def newTree_def wf_node_def)

text \<open>C5: Adding a rule keeps the tree well formed: node indices stay distinct and below the counter, which never
  passes its limit, and no map of children gets a second entry for a label.\<close>

theorem tree_add_invariant:
  assumes "wf_tree t"
  shows "wf_tree (fst (treeAdd t n off inh)) \<and> wf_tree newTree"
  using treeAdd_wf [OF assms] newTree_wf by blast

theorem tree_add_invariant_witness: "wf_tree (fst (treeAdd newTree (name_of [[97], [98]]) 5 True))"
  using tree_add_invariant [of newTree "name_of [[97], [98]]" 5 True] newTree_wf by blast

text \<open>C6: Adding a rule updates the map from label paths to rules at the path of the name and nowhere else, and
  leaves the map unchanged when it fails for lack of indices.\<close>

theorem tree_add_updates:
  "case treeAdd t n off inh of (t', e) \<Rightarrow>
    absTree (root t') = (if e = None then (absTree (root t))(rev (Labels n) := Some (inh, off)) else absTree (root t))"
proof -
  obtain r a e where p: "addPath (assignedIdx t) (root t) (rev (Labels n)) off inh = (r, a, e)"
    by (cases "addPath (assignedIdx t) (root t) (rev (Labels n)) off inh") auto
  show ?thesis using addPath_abs [OF p] p by (auto simp: treeAdd_def fun_eq_iff)
qed

text \<open>C7: A tree whose labels fit the label section compiles, and matching a name against the arrays returns the
  deepest rule that covers the name: its level is the number of labels it shares with the name less
  one, a rule for the name itself included and one for sub-domains inherited; without such a rule the
  level is -2.\<close>

theorem compiled_match_deepest:
  assumes "wf_tree t" "int (labelBytes (root t)) \<le> MaxInt32"
  shows "\<exists>e d lvl. treeCompile t = Inr e \<and> ctMatch e n = Inr (d, lvl) \<and>
    (if \<exists>k d. covers (absTree (root t)) (rev (Labels n)) k d
     then \<exists>k. lvl = int k - 1 \<and> covers (absTree (root t)) (rev (Labels n)) k d \<and>
       (\<forall>k' d'. covers (absTree (root t)) (rev (Labels n)) k' d' \<longrightarrow> k' \<le> k)
     else lvl = - 2)"
proof -
  let ?m = "absTree (root t)" and ?p = "rev (Labels n)"
  obtain e where e: "treeCompile t = Inr e" using treeCompile_total [OF assms] by blast
  have wf: "wf_node (assignedIdx t) (root t)" "nodeIdx (root t) = 0" using assms(1) by (auto simp: wf_tree_def)
  have r: "rep e (root t)" by (rule treeCompile_rep [OF e wf(1)])
  have k: "keys_ok (root t)" using wf(1) by (simp add: wf_node_def)
  have ne: "ctNodes e \<noteq> []" using r by (cases "root t") auto
  have "ctMatch e n = Inr (case deepest ?m ?p of None \<Rightarrow> (0, - 2) | Some (k, d) \<Rightarrow> (d, - 1 + int k))"
    using matchLoop_rep [OF r k, where i = "- 1" and best = "(0, - 2)" and ls = ?p] ne wf(2) by (simp add: ctMatch_def)
  then show ?thesis using e deepest_spec [of ?m ?p]
    by (cases "deepest ?m ?p") (fastforce split: prod.splits)+
qed

text \<open>A tree with one rule for a domain and one for a single name below it.\<close>

definition sampleTree :: tree where
  "sampleTree = fst (treeAdd (fst (treeAdd newTree (name_of [[98]]) 1 True)) (name_of [[97], [98]]) 2 False)"

theorem compiled_match_deepest_witness:
  "\<exists>e r. treeCompile sampleTree = Inr e \<and> ctMatch e (name_of [[120], [98]]) = Inr r"
proof -
  have "wf_tree sampleTree" by (simp add: sampleTree_def treeAdd_wf newTree_wf)
  moreover have "int (labelBytes (root sampleTree)) \<le> MaxInt32"
    by (simp add: sampleTree_def treeAdd_def newTree_def)
  ultimately show ?thesis using compiled_match_deepest [of sampleTree "name_of [[120], [98]]"] by blast
qed

end
