(* ===== verification/DomainMatcher.thy ===== *)
theory DomainMatcher
  imports DomainTreeMatch "HOL-Library.Char_ord"
begin

text \<open>
  The rule loader and the matcher of \<^verbatim>\<open>internal/domain_matcher/matcher.go\<close>. The regular
  expressions of the standard library are given by three functions: compiling an expression,
  matching a text, and printing the expression.
\<close>

section \<open>Loading rules\<close>

definition ascii :: "string \<Rightarrow> bytes" where
  "ascii s = map (\<lambda>c. byte_of (of_char c)) s"

record 're Loader =
  ldTree :: tree
  ldRe :: "'re list"
  ldDup :: "bytes set"

definition NewLoader :: "'re Loader" where
  "NewLoader = \<lparr>ldTree = newTree, ldRe = [], ldDup = {}\<rparr>"

fun indexByte :: "u8 \<Rightarrow> bytes \<Rightarrow> nat option" where
  "indexByte c [] = None"
| "indexByte c (b # bs) = (if b = c then Some 0 else map_option Suc (indexByte c bs))"

definition splitRule :: "bytes \<Rightarrow> bytes \<times> bytes" where
  "splitRule rule = (case indexByte 58 rule of
     Some i \<Rightarrow> (take i rule, drop (i + 1) rule) | None \<Rightarrow> ([], rule))"

text \<open>The result of \<^verbatim>\<open>Loader.Add\<close> is the loader, which may have changed, and the error.\<close>

definition addDomain :: "'re Loader \<Rightarrow> bytes \<Rightarrow> bool \<Rightarrow> 're Loader \<times> dmErr fail option" where
  "addDomain l exp inherit = (case ParseName emptyName exp of
     Inl Panic \<Rightarrow> (l, Some Panic)
   | Inl (Err e) \<Rightarrow> (l, Some (Err (ErrName e)))
   | Inr n \<Rightarrow> let (t, e) = treeAdd (ldTree l) (ToLower n) 0 inherit in (l\<lparr>ldTree := t\<rparr>, map_option Err e))"

definition loaderAdd :: "(bytes \<Rightarrow> 're option) \<Rightarrow> 're Loader \<Rightarrow> bytes \<Rightarrow> 're Loader \<times> dmErr fail option" where
  "loaderAdd compileRe l rule =
    (let (typ, exp) = splitRule rule in
     if typ = [] \<or> typ = ascii ''domain'' then addDomain l exp True
     else if typ = ascii ''full'' then addDomain l exp False
     else if typ = ascii ''regexp'' then
       (if exp \<in> ldDup l then (l, None)
        else case compileRe exp of
          None \<Rightarrow> (l, Some (Err ErrInvalidRegexp))
        | Some r \<Rightarrow> (l\<lparr>ldDup := insert exp (ldDup l), ldRe := ldRe l @ [r]\<rparr>, None))
     else (l, Some (Err (ErrInvalidRuleType (map (\<lambda>b. char_of (unat b)) typ)))))"

text \<open>
  \<^verbatim>\<open>bytes.TrimSpace\<close> removes the white space of Unicode at both ends. A space is one byte, or one of the
  runes that \<^verbatim>\<open>unicode.IsSpace\<close> names: U+0085, U+00A0, U+1680, U+2000 to U+200A, U+2028, U+2029, U+202F, U+205F
  and U+3000, in UTF-8. Their first bytes occur nowhere else in a rune, so the last rune of a text is a space
  exactly if the text ends with one of these encodings.
\<close>

definition isSpace :: "u8 \<Rightarrow> bool" where
  "isSpace b \<longleftrightarrow> b = 32 \<or> (9 \<le> b \<and> b \<le> 13)"

fun isSpaceRune :: "bytes \<Rightarrow> bool" where
  "isSpaceRune [a] = isSpace a"
| "isSpaceRune [a, b] = (a = 0xC2 \<and> (b = 0x85 \<or> b = 0xA0))"
| "isSpaceRune [a, b, c] =
    (a = 0xE1 \<and> b = 0x9A \<and> c = 0x80 \<or>
     a = 0xE2 \<and> b = 0x80 \<and> (0x80 \<le> c \<and> c \<le> 0x8A \<or> c = 0xA8 \<or> c = 0xA9 \<or> c = 0xAF) \<or>
     a = 0xE2 \<and> b = 0x81 \<and> c = 0x9F \<or>
     a = 0xE3 \<and> b = 0x80 \<and> c = 0x80)"
| "isSpaceRune _ = False"

fun trimStart :: "(bytes \<Rightarrow> bool) \<Rightarrow> bytes \<Rightarrow> bytes" where
  "trimStart p [] = []"
| "trimStart p (a # s) =
    (if p [a] then trimStart p s
     else if p (a # take 1 s) then trimStart p (drop 1 s)
     else if p (a # take 2 s) then trimStart p (drop 2 s)
     else a # s)"

definition trimSpace :: "bytes \<Rightarrow> bytes" where
  "trimSpace b = rev (trimStart (\<lambda>r. isSpaceRune (rev r)) (rev (trimStart isSpaceRune b)))"

text \<open>
  \<^verbatim>\<open>LoadRulesFromReader\<close>: the lines the scanner returns, and the error it ends with.
\<close>

definition stripComment :: "bytes \<Rightarrow> bytes" where
  "stripComment b = trimSpace (case indexByte 35 b of Some i \<Rightarrow> take i b | None \<Rightarrow> b)"

fun loadLines :: "(bytes \<Rightarrow> 're option) \<Rightarrow> nat \<Rightarrow> bytes list \<Rightarrow> dmErr fail option \<Rightarrow> 're Loader \<Rightarrow>
    're Loader \<times> dmErr fail option" where
  "loadLines compileRe line [] scanErr l = (l, scanErr)"
| "loadLines compileRe line (b # bs) scanErr l =
    (let b = stripComment b in
     if b = [] then loadLines compileRe (line + 1) bs scanErr l
     else case loaderAdd compileRe l b of
       (l, None) \<Rightarrow> loadLines compileRe (line + 1) bs scanErr l
     | (l, Some (Err e)) \<Rightarrow> (l, Some (Err (ErrRule (line + 1) e)))
     | (l, Some Panic) \<Rightarrow> (l, Some Panic))"

definition loadRulesFromReader :: "(bytes \<Rightarrow> 're option) \<Rightarrow> bytes list \<Rightarrow> dmErr fail option \<Rightarrow> 're Loader \<Rightarrow>
    're Loader \<times> dmErr fail option" where
  "loadRulesFromReader compileRe ls scanErr l = loadLines compileRe 0 ls scanErr l"

section \<open>Matching\<close>

record 're Matcher =
  mCt :: compiledTree
  mRe :: "'re list"

definition loaderCompile :: "'re Loader \<Rightarrow> 're Matcher dmres" where
  "loaderCompile l = thenE (treeCompile (ldTree l)) (\<lambda>ct. Inr \<lparr>mCt = ct, mRe = ldRe l\<rparr>)"

definition matcherLen :: "'re Matcher \<Rightarrow> nat" where
  "matcherLen m = ctLen (mCt m) + length (mRe m)"

definition matcherMatch :: "('re \<Rightarrow> bytes \<Rightarrow> bool) \<Rightarrow> 're Matcher \<Rightarrow> Name \<Rightarrow> bool dmres" where
  "matcherMatch reMatch m name =
    thenE (ctMatch (mCt m) name) (\<lambda>(_, lvl).
      if lvl > - 2 then Inr True
      else if length (mRe m) > 0 then
        (let b = appendReadableTo name [] in Inr (list_ex (\<lambda>r. reMatch r b) (mRe m)))
      else Inr False)"

section \<open>What a loaded matcher matches\<close>

definition wf_loader :: "'re Loader \<Rightarrow> bool" where
  "wf_loader l \<longleftrightarrow> wf_tree (ldTree l)"

lemma addDomain_wf: "wf_loader l \<Longrightarrow> wf_loader (fst (addDomain l exp inh))"
  using treeAdd_wf [of "ldTree l"]
  by (auto simp: addDomain_def wf_loader_def split: sum.splits fail.splits prod.splits) (metis fst_conv)

lemma loaderAdd_wf: "wf_loader l \<Longrightarrow> wf_loader (fst (loaderAdd c l rule))"
proof -
  assume wf: "wf_loader l"
  then have "wf_loader (l\<lparr>ldDup := d, ldRe := r\<rparr>)" for d r by (simp add: wf_loader_def)
  then show ?thesis using addDomain_wf [OF wf] wf
    by (auto simp: loaderAdd_def split: prod.splits option.splits)
qed

lemma loadLines_wf: "wf_loader l \<Longrightarrow> wf_loader (fst (loadLines c k ls e l))"
proof (induction c k ls e l rule: loadLines.induct)
  case (2 c k b bs e l)
  show ?case
  proof (cases "stripComment b = []")
    case True
    then show ?thesis using 2 by simp
  next
    case False
    obtain l' r where r: "loaderAdd c l (stripComment b) = (l', r)" by (cases "loaderAdd c l (stripComment b)") auto
    then have "wf_loader l'" using loaderAdd_wf [OF "2.prems", of c "stripComment b"] by simp
    then show ?thesis using "2.IH"(2) [OF refl False r [symmetric]] False r
      by (auto split: option.splits fail.splits)
  qed
qed simp

lemma addDomain_ok:
  assumes "addDomain l exp inh = (l', None)"
  shows "\<exists>n. ParseName emptyName exp = Inr n \<and> ldRe l' = ldRe l \<and>
    absTree (root (ldTree l')) = (absTree (root (ldTree l)))(rev (Labels (ToLower n)) := Some (inh, 0))"
proof -
  from assms obtain n t where n: "ParseName emptyName exp = Inr n" "treeAdd (ldTree l) (ToLower n) 0 inh = (t, None)"
    "l' = l\<lparr>ldTree := t\<rparr>"
    by (auto simp: addDomain_def split: sum.splits fail.splits prod.splits)
  obtain r a where p: "addPath (assignedIdx (ldTree l)) (root (ldTree l)) (rev (Labels (ToLower n))) 0 inh = (r, a, None)"
    "t = \<lparr>root = r, assignedIdx = a\<rparr>"
    using n(2) by (auto simp: treeAdd_def split: prod.splits)
  show ?thesis using n p addPath_abs [OF p(1)] by (auto simp: fun_eq_iff)
qed

text \<open>
  What a rule line asks for: nothing, a domain with or without its sub-domains, or a regular
  expression.
\<close>

definition ruleMap :: "bytes \<Rightarrow> (bytes list \<Rightarrow> (bool \<times> int) option) \<Rightarrow> (bytes list \<Rightarrow> (bool \<times> int) option)" where
  "ruleMap rule m =
    (let (typ, exp) = splitRule rule in
     if typ = ascii ''regexp'' then m
     else case ParseName emptyName exp of Inl _ \<Rightarrow> m
       | Inr n \<Rightarrow> m(rev (Labels (ToLower n)) := Some (typ \<noteq> ascii ''full'', 0)))"

lemma ascii_types: "ascii ''full'' \<noteq> []" "ascii ''regexp'' \<noteq> []" "ascii ''regexp'' \<noteq> ascii ''domain''"
  "ascii ''regexp'' \<noteq> ascii ''full''" "ascii ''full'' \<noteq> ascii ''domain''"
  "ascii ''domain'' \<noteq> ascii ''full''" "[] \<noteq> ascii ''full''" "[] \<noteq> ascii ''regexp''" "ascii ''domain'' \<noteq> ascii ''regexp''"
  by code_simp+

lemma loaderAdd_map:
  assumes "loaderAdd c l rule = (l', None)"
  shows "absTree (root (ldTree l')) = ruleMap rule (absTree (root (ldTree l)))"
proof -
  obtain ty ex where s: "splitRule rule = (ty, ex)" by (cases "splitRule rule")
  have d: "absTree (root (ldTree l')) = (case ParseName emptyName ex of Inl _ \<Rightarrow> absTree (root (ldTree l))
      | Inr n \<Rightarrow> (absTree (root (ldTree l)))(rev (Labels (ToLower n)) := Some (inh, 0)))"
    if "addDomain l ex inh = (l', None)" for inh
    using addDomain_ok [OF that] by auto
  consider "ty = [] \<or> ty = ascii ''domain''" | "ty = ascii ''full''" | "ty = ascii ''regexp''"
    using assms s by (auto simp: loaderAdd_def split: if_splits)
  then show ?thesis
  proof cases
    case 1
    then show ?thesis using assms s d [of True] ascii_types by (auto simp: loaderAdd_def ruleMap_def cong: sum.case_cong)
  next
    case 2
    then show ?thesis using assms s d [of False] ascii_types by (auto simp: loaderAdd_def ruleMap_def cong: sum.case_cong)
  next
    case 3
    then show ?thesis using assms s ascii_types by (auto simp: loaderAdd_def ruleMap_def split: if_splits option.splits)
  qed
qed

text \<open>The rules of a file: the lines without comments and blanks.\<close>

definition ruleLines :: "bytes list \<Rightarrow> bytes list" where
  "ruleLines ls = filter (\<lambda>b. b \<noteq> []) (map stripComment ls)"

lemma loadLines_map:
  "loadLines c k ls e l = (l', None) \<Longrightarrow>
    absTree (root (ldTree l')) = fold ruleMap (ruleLines ls) (absTree (root (ldTree l)))"
proof (induction c k ls e l rule: loadLines.induct)
  case (2 c k b bs e l)
  show ?case
  proof (cases "stripComment b = []")
    case True
    then show ?thesis using 2 by (simp add: ruleLines_def)
  next
    case False
    obtain l1 r where r: "loaderAdd c l (stripComment b) = (l1, r)" by (cases "loaderAdd c l (stripComment b)") auto
    then have n: "r = None" using "2.prems" False by (auto split: option.splits fail.splits)
    then have "loadLines c (k + 1) bs e l1 = (l', None)" using "2.prems" False r by simp
    with "2.IH"(2) [OF refl False r [symmetric] n] loaderAdd_map [OF r [unfolded n]] False
    show ?thesis by (simp add: ruleLines_def)
  qed
qed (simp add: ruleLines_def)

text \<open>The regular expressions of a loader are those of its rules, repeated ones once.\<close>

definition ruleRe :: "(bytes \<Rightarrow> 're option) \<Rightarrow> bytes \<Rightarrow> 're \<Rightarrow> bool" where
  "ruleRe compileRe rule r \<longleftrightarrow> (\<exists>exp. splitRule rule = (ascii ''regexp'', exp) \<and> compileRe exp = Some r)"

definition re_ok :: "(bytes \<Rightarrow> 're option) \<Rightarrow> 're Loader \<Rightarrow> bool" where
  "re_ok compileRe l \<longleftrightarrow> (\<forall>exp \<in> ldDup l. \<exists>r \<in> set (ldRe l). compileRe exp = Some r)"

lemma addDomain_re: "ldRe (fst (addDomain l ex inh)) = ldRe l \<and> ldDup (fst (addDomain l ex inh)) = ldDup l"
  by (simp add: addDomain_def split: sum.split fail.split prod.split)

lemma loaderAdd_re:
  assumes "loaderAdd c l rule = (l', None)" "re_ok c l"
  shows "re_ok c l' \<and> set (ldRe l') = set (ldRe l) \<union> {r. ruleRe c rule r}"
proof -
  obtain ty ex where s: "splitRule rule = (ty, ex)" by (cases "splitRule rule")
  show ?thesis
  proof (cases "ty = ascii ''regexp''")
    case True
    then show ?thesis using assms s ascii_types
      by (auto simp: loaderAdd_def re_ok_def ruleRe_def split: if_splits option.splits)
  next
    case False
    then have "\<exists>inh. addDomain l ex inh = (l', None)" using assms(1) s by (auto simp: loaderAdd_def split: if_splits)
    then have "ldRe l' = ldRe l \<and> ldDup l' = ldDup l" using addDomain_re [of l ex] by (metis fst_conv)
    then show ?thesis using False assms(2) s by (simp add: re_ok_def ruleRe_def)
  qed
qed

lemma loadLines_re:
  "loadLines c k ls e l = (l', None) \<Longrightarrow> re_ok c l \<Longrightarrow>
    set (ldRe l') = set (ldRe l) \<union> {r. \<exists>rule \<in> set (ruleLines ls). ruleRe c rule r}"
proof (induction c k ls e l rule: loadLines.induct)
  case (2 c k b bs e l)
  show ?case
  proof (cases "stripComment b = []")
    case True
    then show ?thesis using 2 by (simp add: ruleLines_def)
  next
    case False
    obtain l1 r where r: "loaderAdd c l (stripComment b) = (l1, r)" by (cases "loaderAdd c l (stripComment b)") auto
    then have n: "r = None" using "2.prems" False by (auto split: option.splits fail.splits)
    then have "loadLines c (k + 1) bs e l1 = (l', None)" using "2.prems" False r by simp
    with "2.IH"(2) [OF refl False r [symmetric] n] loaderAdd_re [OF r [unfolded n] "2.prems"(2)] False
    show ?thesis by (auto simp: ruleLines_def)
  qed
qed (simp add: ruleLines_def)

lemma compiled_match:
  assumes "wf_loader l" "loaderCompile l = Inr m"
  shows "matcherMatch reMatch m n =
    Inr ((\<exists>k d. covers (absTree (root (ldTree l))) (rev (Labels n)) k d) \<or>
         (\<exists>r \<in> set (ldRe l). reMatch r (appendReadableTo n [])))"
proof -
  let ?m = "absTree (root (ldTree l))" and ?p = "rev (Labels n)"
  have wf: "wf_tree (ldTree l)" using assms(1) by (simp add: wf_loader_def)
  obtain e where e: "treeCompile (ldTree l) = Inr e" "m = \<lparr>mCt = e, mRe = ldRe l\<rparr>"
    using assms(2) by (auto simp: loaderCompile_def res_simps)
  have r: "rep e (root (ldTree l))" "keys_ok (root (ldTree l))" "nodeIdx (root (ldTree l)) = 0"
    using treeCompile_rep [OF e(1)] wf by (auto simp: wf_tree_def wf_node_def)
  have ne: "ctNodes e \<noteq> []" using r(1) by (cases "root (ldTree l)") auto
  have "ctMatch e n = Inr (case deepest ?m ?p of None \<Rightarrow> (0, - 2) | Some (k, d) \<Rightarrow> (d, - 1 + int k))"
    using matchLoop_rep [OF r(1,2), where i = "- 1" and best = "(0, - 2)" and ls = ?p] ne r(3) by (simp add: ctMatch_def)
  then show ?thesis using e(2) deepest_spec [of ?m ?p]
    by (cases "deepest ?m ?p") (fastforce simp: matcherMatch_def list_ex_iff)+
qed

lemma loaded_compiles:
  assumes "wf_loader l" "int (labelBytes (root (ldTree l))) \<le> MaxInt32"
  shows "\<exists>m. loaderCompile l = Inr m"
  using treeCompile_total [of "ldTree l"] assms by (auto simp: loaderCompile_def wf_loader_def)

text \<open>The rules of a file, as a map from label paths to rules and a set of regular expressions.\<close>

definition fileMatches :: "(bytes \<Rightarrow> 're option) \<Rightarrow> ('re \<Rightarrow> bytes \<Rightarrow> bool) \<Rightarrow> bytes list \<Rightarrow> Name \<Rightarrow> bool" where
  "fileMatches compileRe reMatch ls n \<longleftrightarrow>
    (\<exists>k d. covers (fold ruleMap (ruleLines ls) (\<lambda>_. None)) (rev (Labels n)) k d) \<or>
    (\<exists>rule \<in> set (ruleLines ls). \<exists>r. ruleRe compileRe rule r \<and> reMatch r (appendReadableTo n []))"

lemma loaded_file:
  assumes "loadRulesFromReader compileRe ls scanErr NewLoader = (l, None)"
  shows "wf_loader l \<and> (loaderCompile l = Inr m \<longrightarrow> matcherMatch reMatch m n = Inr (fileMatches compileRe reMatch ls n))"
proof -
  have "wf_loader (NewLoader :: 'a Loader)" by (simp add: wf_loader_def NewLoader_def newTree_wf)
  then have wf: "wf_loader l" using loadLines_wf [of NewLoader compileRe 0 ls scanErr] assms(1)
    by (simp add: loadRulesFromReader_def)
  have "absTree (root newTree) = (\<lambda>_. None)" by (simp add: newTree_def absTree_fresh fun_eq_iff)
  then have "absTree (root (ldTree l)) = fold ruleMap (ruleLines ls) (\<lambda>_. None)"
    using loadLines_map [of compileRe 0 ls scanErr NewLoader l] assms(1)
    by (simp add: loadRulesFromReader_def NewLoader_def)
  moreover have "set (ldRe l) = {r. \<exists>rule \<in> set (ruleLines ls). ruleRe compileRe rule r}"
    using loadLines_re [of compileRe 0 ls scanErr NewLoader l] assms
    by (simp add: loadRulesFromReader_def NewLoader_def re_ok_def)
  ultimately show ?thesis using wf compiled_match [OF wf] unfolding fileMatches_def by fastforce
qed

section \<open>What a rule is documented to match\<close>

text \<open>The labels of a rule for names, from the last one on, and whether it is for sub-domains too.\<close>

definition rulePath :: "bytes \<Rightarrow> (bytes list \<times> bool) option" where
  "rulePath rule = (let (typ, exp) = splitRule rule in
     if typ = ascii ''regexp'' then None
     else case ParseName emptyName exp of Inl _ \<Rightarrow> None
       | Inr d \<Rightarrow> Some (rev (Labels (ToLower d)), typ \<noteq> ascii ''full''))"

text \<open>
  The documentation of the file format: \<^verbatim>\<open>domain:\<close> matches the name and its sub-domains, \<^verbatim>\<open>full:\<close> the name,
  \<^verbatim>\<open>regexp:\<close> what the expression matches.
\<close>

definition asksFor :: "(bytes \<Rightarrow> 're option) \<Rightarrow> ('re \<Rightarrow> bytes \<Rightarrow> bool) \<Rightarrow> Name \<Rightarrow> bytes \<Rightarrow> bool" where
  "asksFor compileRe reMatch n rule \<longleftrightarrow> (case rulePath rule of
     Some (p, inh) \<Rightarrow> if inh then take (length p) (rev (Labels n)) = p else rev (Labels n) = p
   | None \<Rightarrow> \<exists>r. ruleRe compileRe rule r \<and> reMatch r (appendReadableTo n []))"

text \<open>No rule for a domain is followed by a \<^verbatim>\<open>full\<close> rule for the same name.\<close>

fun unshadowed :: "bytes list \<Rightarrow> bool" where
  "unshadowed [] = True"
| "unshadowed (rule # rules) = ((case rulePath rule of Some (p, True) \<Rightarrow> \<forall>x \<in> set rules. rulePath x \<noteq> Some (p, False) | _ \<Rightarrow> True) \<and>
    unshadowed rules)"

lemma ruleMap_path: "ruleMap rule m = (case rulePath rule of None \<Rightarrow> m | Some (p, inh) \<Rightarrow> m(p \<mapsto> (inh, 0)))"
  by (simp add: ruleMap_def rulePath_def Let_def split: prod.split sum.split)

lemma ruleRe_path: "ruleRe c rule r \<Longrightarrow> rulePath rule = None"
  by (auto simp: ruleRe_def rulePath_def)

lemma ruleMaps_from: "fold ruleMap rules m p = Some (inh, d) \<Longrightarrow> m p = Some (inh, d) \<or> (\<exists>rule \<in> set rules. rulePath rule = Some (p, inh))"
  by (induction rules arbitrary: m) (fastforce simp: ruleMap_path split: option.splits if_splits)+

lemma ruleMaps_keep:
  "m p = Some (inh, d) \<Longrightarrow> \<forall>rule \<in> set rules. rulePath rule \<noteq> Some (p, False) \<Longrightarrow>
    \<exists>inh' d'. fold ruleMap rules m p = Some (inh', d') \<and> (inh \<longrightarrow> inh')"
proof (induction rules arbitrary: m inh d)
  case (Cons rule rules)
  show ?case
  proof (cases "rulePath rule = Some (p, True)")
    case True
    then have "ruleMap rule m p = Some (True, 0)" by (simp add: ruleMap_path)
    from Cons.IH [of "ruleMap rule m" True 0, OF this] Cons.prems(2) show ?thesis by auto
  next
    case False
    then have "ruleMap rule m p = Some (inh, d)" using Cons.prems by (auto simp: ruleMap_path split: option.split)
    from Cons.IH [of "ruleMap rule m" inh d, OF this] Cons.prems(2) show ?thesis by auto
  qed
qed auto

lemma ruleMaps_dom: "m p \<noteq> None \<Longrightarrow> fold ruleMap rules m p \<noteq> None"
  by (induction rules arbitrary: m) (auto simp: ruleMap_path split: option.split)

lemma ruleMaps_to:
  "unshadowed rules \<Longrightarrow> rule \<in> set rules \<Longrightarrow> rulePath rule = Some (p, inh) \<Longrightarrow>
    \<exists>inh' d. fold ruleMap rules m p = Some (inh', d) \<and> (inh \<longrightarrow> inh')"
proof (induction rules arbitrary: m)
  case (Cons r rules)
  show ?case
  proof (cases "rule \<in> set rules")
    case True
    then show ?thesis using Cons by simp
  next
    case False
    then have r: "rulePath r = Some (p, inh)" using Cons.prems by simp
    then have m: "ruleMap r m p = Some (inh, 0)" by (simp add: ruleMap_path)
    show ?thesis
    proof (cases inh)
      case True
      then show ?thesis using ruleMaps_keep [of "ruleMap r m" p, OF m] Cons.prems(1) r by simp
    next
      case False
      then show ?thesis using ruleMaps_dom [of "ruleMap r m" p rules] m by auto
    qed
  qed
qed simp

lemma fileMatches_asked:
  assumes "fileMatches c reMatch ls n"
  shows "\<exists>rule \<in> set (ruleLines ls). asksFor c reMatch n rule"
proof (cases "\<exists>rule \<in> set (ruleLines ls). \<exists>r. ruleRe c rule r \<and> reMatch r (appendReadableTo n [])")
  case True
  then obtain rule r where r: "rule \<in> set (ruleLines ls)" "ruleRe c rule r" "reMatch r (appendReadableTo n [])" by blast
  then have "asksFor c reMatch n rule" using ruleRe_path [OF r(2)] by (auto simp: asksFor_def)
  with r(1) show ?thesis by blast
next
  case False
  then obtain k d where "covers (fold ruleMap (ruleLines ls) (\<lambda>_. None)) (rev (Labels n)) k d"
    using assms unfolding fileMatches_def by blast
  then obtain inh where k: "k \<le> length (rev (Labels n))" "inh \<or> k = length (rev (Labels n))"
    "fold ruleMap (ruleLines ls) (\<lambda>_. None) (take k (rev (Labels n))) = Some (inh, d)" unfolding covers_def by blast
  from ruleMaps_from [OF k(3)] obtain rule where
    r: "rule \<in> set (ruleLines ls)" "rulePath rule = Some (take k (rev (Labels n)), inh)" by auto
  then have "asksFor c reMatch n rule" using k(1,2) by (auto simp: asksFor_def min_absorb2)
  with r(1) show ?thesis by blast
qed

lemma asked_fileMatches:
  assumes "unshadowed (ruleLines ls)" "rule \<in> set (ruleLines ls)" "asksFor c reMatch n rule"
  shows "fileMatches c reMatch ls n"
proof (cases "rulePath rule")
  case None
  then show ?thesis using assms(2,3) by (auto simp: asksFor_def fileMatches_def)
next
  case (Some r)
  obtain p inh where r: "rulePath rule = Some (p, inh)" using Some by (cases r) simp
  then have a: "if inh then take (length p) (rev (Labels n)) = p else rev (Labels n) = p" using assms(3) by (simp add: asksFor_def)
  obtain inh' d where m: "fold ruleMap (ruleLines ls) (\<lambda>_. None) p = Some (inh', d)" "inh \<longrightarrow> inh'"
    using ruleMaps_to [OF assms(1,2) r] by blast
  have l: "length p \<le> length (rev (Labels n))" using a by (metis length_take min.bounded_iff order_refl)
  then have "covers (fold ruleMap (ruleLines ls) (\<lambda>_. None)) (rev (Labels n)) (length p) d"
    unfolding covers_def using a m by (cases inh) auto
  then show ?thesis unfolding fileMatches_def by blast
qed

section \<open>Properties\<close>

text \<open>C8: A matcher compiled from a rule file matches a name exactly if the last rule for some
  tail of its labels is inherited by sub-domains or is for the whole name, or one of the regular
  expressions matches its text. So a name is matched only if some rule asks for it by its documented meaning; and
  every name that some rule asks for is matched, unless a \<^verbatim>\<open>full\<close> rule follows a rule for the same domain: then
  it takes the domain rule's place, and the sub-domains are no longer matched.\<close>

theorem loaded_rules_match:
  assumes "loadRulesFromReader compileRe ls scanErr NewLoader = (l, None)"
    and "int (labelBytes (root (ldTree l))) \<le> MaxInt32"
  shows "\<exists>m b. loaderCompile l = Inr m \<and> matcherMatch reMatch m n = Inr b \<and>
    b = ((\<exists>k d. covers (fold ruleMap (ruleLines ls) (\<lambda>_. None)) (rev (Labels n)) k d) \<or>
         (\<exists>rule \<in> set (ruleLines ls). \<exists>r. ruleRe compileRe rule r \<and> reMatch r (appendReadableTo n []))) \<and>
    (b \<longrightarrow> (\<exists>rule \<in> set (ruleLines ls). asksFor compileRe reMatch n rule)) \<and>
    (unshadowed (ruleLines ls) \<longrightarrow> b = (\<exists>rule \<in> set (ruleLines ls). asksFor compileRe reMatch n rule))"
proof -
  obtain m where "loaderCompile l = Inr m" "matcherMatch reMatch m n = Inr (fileMatches compileRe reMatch ls n)"
    using loaded_file [OF assms(1)] loaded_compiles [OF _ assms(2)] by blast
  moreover note fileMatches_asked [of compileRe reMatch ls n]
  moreover have "unshadowed (ruleLines ls) \<Longrightarrow> \<exists>rule \<in> set (ruleLines ls). asksFor compileRe reMatch n rule \<Longrightarrow>
      fileMatches compileRe reMatch ls n" using asked_fileMatches [of ls _ compileRe reMatch n] by blast
  ultimately show ?thesis using fileMatches_def [of compileRe reMatch ls n] by blast
qed

theorem loaded_rules_match_witness:
  "let ls = [[98, 32, 35, 97], ascii ''full:b'' @ [0xC2, 0xA0]] in
    \<exists>l m. loadRulesFromReader (\<lambda>_. None :: unit option) ls None NewLoader = (l, None) \<and> loaderCompile l = Inr m \<and>
      matcherMatch (\<lambda>_ _. False) m (name_of [[98]]) = Inr True \<and>
      matcherMatch (\<lambda>_ _. False) m (name_of [[97], [98]]) = Inr False \<and>
      asksFor (\<lambda>_. None :: unit option) (\<lambda>_ _. False) (name_of [[97], [98]]) (hd (ruleLines ls))"
proof -
  let ?ls = "[[98, 32, 35, 97], ascii ''full:b'' @ [0xC2, 0xA0]]"
  let ?t = "fst (treeAdd (fst (treeAdd newTree (name_of [[98]]) 0 True)) (name_of [[98]]) 0 False)"
  let ?l = "\<lparr>ldTree = ?t, ldRe = [], ldDup = {}\<rparr> :: unit Loader"
  have p: "ParseName emptyName [98] = Inr (name_of [[98]])"
    by (simp add: ParseName_def dirty_def emptyName_def appendLabelTo_def internalErr_def parseLabels_def
        name_of_def byte_of_def)
  have lw: "ToLower (name_of [[98]]) = name_of [[98]]" by (simp add: ToLower_name_of asciiToLower_def lowerByte_def)
  have rs: "ruleLines ?ls = [[98], ascii ''full:b'']" by code_simp
  have sp: "splitRule [98] = ([], [98])" "splitRule (ascii ''full:b'') = (ascii ''full'', [98])" by code_simp+
  have load: "loadRulesFromReader (\<lambda>_. None :: unit option) ?ls None NewLoader = (?l, None)"
  proof -
    have "stripComment [98, 32, 35, 97] = [98]" "stripComment (ascii ''full:b'' @ [0xC2, 0xA0]) = ascii ''full:b''"
      "ascii ''full:b'' \<noteq> []" by code_simp+
    then show ?thesis using p lw sp ascii_types
      by (simp add: loadRulesFromReader_def loaderAdd_def addDomain_def NewLoader_def treeAdd_def newTree_def)
  qed
  have path: "rulePath [98] = Some ([[98]], True)" "rulePath (ascii ''full:b'') = Some ([[98]], False)"
    using sp p lw ascii_types by (simp_all add: rulePath_def)
  have f: "fold ruleMap (ruleLines ?ls) (\<lambda>_. None) = [[[98]] \<mapsto> (False, 0)]" by (simp add: rs ruleMap_path path)
  have re: "\<not> ruleRe (\<lambda>_. None :: unit option) rule r" for rule r by (simp add: ruleRe_def)
  have small: "int (labelBytes (root (ldTree ?l))) \<le> MaxInt32" by (simp add: treeAdd_def newTree_def)
  have t: "\<exists>m. loaderCompile ?l = Inr m \<and> matcherMatch (\<lambda>_ _. False) m n =
      Inr (\<exists>k d. covers [[[98]] \<mapsto> (False, 0)] (rev (Labels n)) k d)" for n
    using loaded_rules_match [OF load small, where reMatch = "\<lambda>_ _. False" and n = n, unfolded f]
    by (elim exE conjE) (simp add: re)
  from t [of "name_of [[98]]"] obtain m where m: "loaderCompile ?l = Inr m"
    and yes: "matcherMatch (\<lambda>_ _. False) m (name_of [[98]]) = Inr (\<exists>k d. covers [[[98]] \<mapsto> (False, 0)] (rev (Labels (name_of [[98]]))) k d)"
    by (elim exE conjE) (rule that)
  have no: "matcherMatch (\<lambda>_ _. False) m (name_of [[97], [98]]) =
      Inr (\<exists>k d. covers [[[98]] \<mapsto> (False, 0)] (rev (Labels (name_of [[97], [98]]))) k d)"
    using t [of "name_of [[97], [98]]"] m by (elim exE conjE) simp
  have "covers [[[98]] \<mapsto> (False, 0)] (rev (Labels (name_of [[98]]))) 1 0" by (auto simp: covers_def)
  then have yes: "matcherMatch (\<lambda>_ _. False) m (name_of [[98]]) = Inr True" unfolding yes by blast
  have "\<not> (\<exists>k d. covers [[[98]] \<mapsto> (False, 0)] (rev (Labels (name_of [[97], [98]]))) k d)"
    by (auto simp: covers_def take_Cons' split: if_splits)
  then have no: "matcherMatch (\<lambda>_ _. False) m (name_of [[97], [98]]) = Inr False" unfolding no by blast
  have "asksFor (\<lambda>_. None :: unit option) (\<lambda>_ _. False) (name_of [[97], [98]]) (hd (ruleLines ?ls))"
    by (simp add: rs asksFor_def path)
  then show ?thesis unfolding Let_def using load m yes no by (intro exI conjI)
qed

end
