(* ===== verification/DomainSerialize.thy ===== *)
theory DomainSerialize
  imports DomainMatcher
begin

text \<open>
  The binary form of a matcher (\<^verbatim>\<open>internal/domain_matcher/serialize.go\<close>, the body inside the
  compressed stream): writing it, reading it with its validation, and what the validation is worth
  to matching.
\<close>

section \<open>Writing\<close>

definition writeUint31 :: "nat \<Rightarrow> bytes dmres" where
  "writeUint31 i = (if int i > MaxInt32 then Inl (Err ErrUInt31Overflowed) else Inr (put_u32 (word_of_nat i)))"

definition writeUint16 :: "nat \<Rightarrow> bytes dmres" where
  "writeUint16 i = (if i > 65535 then Inl (Err ErrUInt16Overflowed) else Inr (put_u16 (word_of_nat i)))"

definition putAddr :: "segAddr \<Rightarrow> bytes" where
  "putAddr sa = put_u32 (word_of_int (saOff sa)) @ put_u32 (word_of_int (saLen sa))"

definition putNode :: "compiledNode \<Rightarrow> bytes" where
  "putNode n = putAddr (childIdxSeg n) @ put_u64 (word_of_int (cnDataOff n)) @ [cnStat n]"

definition putIdx :: "idxNode \<Rightarrow> bytes" where
  "putIdx x = putAddr (labelSeg x) @ put_u32 (word_of_int (childIdx x))"

fun putRegexps :: "('re \<Rightarrow> bytes) \<Rightarrow> 're list \<Rightarrow> bytes dmres" where
  "putRegexps reString [] = Inr []"
| "putRegexps reString (r # rs) =
    thenE (writeUint16 (length (reString r))) (\<lambda>h.
    thenE (putRegexps reString rs) (\<lambda>t. Inr (h @ reString r @ t)))"

definition serializeBody :: "('re \<Rightarrow> bytes) \<Rightarrow> 're Matcher \<Rightarrow> bytes dmres" where
  "serializeBody reString m =
    thenE (writeUint31 (length (ctNodes (mCt m)))) (\<lambda>a.
    thenE (writeUint31 (length (ctIdx (mCt m)))) (\<lambda>b.
    thenE (writeUint31 (length (ctLabels (mCt m)))) (\<lambda>c.
    thenE (writeUint31 (length (mRe m))) (\<lambda>d.
    thenE (putRegexps reString (mRe m)) (\<lambda>re.
      Inr (a @ b @ c @ d @ concat (map putNode (ctNodes (mCt m))) @ concat (map putIdx (ctIdx (mCt m))) @
        ctLabels (mCt m) @ re))))))"

section \<open>Reading\<close>

text \<open>
  The reader is the rest of the stream together with the array \<^verbatim>\<open>buf\<close> of 17 bytes, which keeps
  what earlier reads left in it. A call of \<^verbatim>\<open>Read\<close> may return fewer bytes than it is asked for, and it may report
  the end of the stream along with the last bytes. How a reader behaves is a parameter: a function of the
  number of bytes that are left and the number asked for. \<open>readSome\<close> is one call of \<^verbatim>\<open>Read\<close>; \<open>readFull\<close> is
  \<^verbatim>\<open>io.ReadFull\<close>, which calls it until it has all bytes.
\<close>

type_synonym rstate = "bytes \<times> bytes"
type_synonym 'a rd = "rstate \<Rightarrow> ('a \<times> rstate) dmres"
type_synonym reader = "nat \<Rightarrow> nat \<Rightarrow> nat \<times> bool"

definition readSome :: "reader \<Rightarrow> nat \<Rightarrow> rstate \<Rightarrow> rstate dmres" where
  "readSome rd k st = (case st of (buf, s) \<Rightarrow>
     if s = [] then Inl (Err ErrEOF)
     else let (n, eof) = rd (length s) k; n = min n (min k (length s)) in
       if eof \<and> n = length s then Inl (Err ErrEOF) else Inr (take n s @ drop n buf, drop n s))"

text \<open>A reader that always fills the buffer as far as the stream goes; \<^verbatim>\<open>io.Reader\<close> does not promise it.\<close>

definition fullReads :: "reader \<Rightarrow> bool" where
  "fullReads rd \<longleftrightarrow> (\<forall>n k. min k n \<le> fst (rd n k) \<and> \<not> snd (rd n k))"

lemma readSome_full: "fullReads rd \<Longrightarrow> s \<noteq> [] \<Longrightarrow> readSome rd k (buf, s) = Inr (take k s @ drop (min k (length s)) buf, drop k s)"
proof -
  assume f: "fullReads rd" and s: "s \<noteq> []"
  obtain n where n: "rd (length s) k = (n, False)" "min k (length s) \<le> n"
    using f unfolding fullReads_def by (metis prod.collapse)
  then have "min n (min k (length s)) = min k (length s)" by simp
  then show ?thesis using s by (cases "k \<le> length s") (simp_all add: readSome_def n(1))
qed

definition readFull :: "nat \<Rightarrow> rstate \<Rightarrow> rstate dmres" where
  "readFull k st = (case st of (buf, s) \<Rightarrow>
     if k \<le> length s then Inr (take k s @ drop k buf, drop k s)
     else Inl (Err (if s = [] then ErrEOF else ErrUnexpectedEOF)))"

definition readUint31 :: "reader \<Rightarrow> nat rd" where
  "readUint31 rd st = thenE (readSome rd 4 st) (\<lambda>(buf, s).
     let i = sint (be32 buf) in if i < 0 then Inl (Err ErrUInt31Overflowed) else Inr (nat i, (buf, s)))"

definition readUint16 :: "reader \<Rightarrow> nat rd" where
  "readUint16 rd st = thenE (readSome rd 2 st) (\<lambda>(buf, s). Inr (unat (get_u16 (buf ! 0) (buf ! 1)), (buf, s)))"

definition getAddr :: "bytes \<Rightarrow> segAddr" where
  "getAddr b = \<lparr>saOff = sint (be32 b), saLen = sint (be32 (drop 4 b))\<rparr>"

definition readNode :: "compiledNode rd" where
  "readNode st = thenE (readFull 17 st) (\<lambda>(buf, s).
     Inr (\<lparr>childIdxSeg = getAddr buf, cnDataOff = sint (be64 (drop 8 buf)), cnStat = buf ! 16\<rparr>, (buf, s)))"

definition readIdx :: "idxNode rd" where
  "readIdx st = thenE (readFull 12 st) (\<lambda>(buf, s).
     Inr (\<lparr>labelSeg = getAddr buf, childIdx = sint (be32 (drop 8 buf))\<rparr>, (buf, s)))"

fun readN :: "'a rd \<Rightarrow> nat \<Rightarrow> 'a list rd" where
  "readN p 0 st = Inr ([], st)"
| "readN p (Suc n) st = thenE (p st) (\<lambda>(x, st). thenE (readN p n st) (\<lambda>(xs, st). Inr (x # xs, st)))"

definition readRegexp :: "reader \<Rightarrow> (bytes \<Rightarrow> 're option) \<Rightarrow> 're rd" where
  "readRegexp rd compileRe st = thenE (readUint16 rd st) (\<lambda>(l, (buf, s)).
     thenE (readFull l (replicate l 0, s)) (\<lambda>(buf2, s).
       case compileRe (take l buf2) of None \<Rightarrow> Inl (Err ErrInvalidRegexp) | Some r \<Rightarrow> Inr (r, (buf, s))))"

definition validSegAddr :: "segAddr \<Rightarrow> int \<Rightarrow> bool" where
  "validSegAddr sa targetLen \<longleftrightarrow>
    (let end = int32 (saOff sa + saLen sa) in
     \<not> (saOff sa < 0 \<or> saOff sa > targetLen \<or> saLen sa < 0 \<or> end < 0 \<or> end > targetLen))"

text \<open>The validation of one segment of index entries, and of all nodes.\<close>

fun checkEntries :: "bytes \<Rightarrow> int \<Rightarrow> int \<Rightarrow> nat \<Rightarrow> nat \<Rightarrow> idxNode option \<Rightarrow> idxNode list \<Rightarrow> unit dmres" where
  "checkEntries labels nodeLength labelLength i j prev [] = Inr ()"
| "checkEntries labels nodeLength labelLength i j prev (e # es) =
    (if childIdx e < 0 \<or> childIdx e \<ge> nodeLength then Inl (Err (ErrInvalidChildIdx i j))
     else if \<not> validSegAddr (labelSeg e) labelLength then Inl (Err (ErrInvalidLabelSeg i j))
     else case prev of
       None \<Rightarrow> checkEntries labels nodeLength labelLength i (j + 1) (Some e) es
     | Some p \<Rightarrow>
       thenE (seg labels (labelSeg p)) (\<lambda>prevLabel.
       thenE (seg labels (labelSeg e)) (\<lambda>curLabel.
         if \<not> prevLabel < curLabel then Inl (Err (ErrInvalidLabelOrder i j))
         else checkEntries labels nodeLength labelLength i (j + 1) (Some e) es)))"

fun checkNodes :: "compiledTree \<Rightarrow> int \<Rightarrow> int \<Rightarrow> int \<Rightarrow> nat \<Rightarrow> compiledNode list \<Rightarrow> unit dmres" where
  "checkNodes ct nodeLength idxLength labelLength i [] = Inr ()"
| "checkNodes ct nodeLength idxLength labelLength i (n # nodes) =
    (if \<not> validSegAddr (childIdxSeg n) idxLength then Inl (Err (ErrInvalidIdxSeg i))
     else thenE (seg (ctIdx ct) (childIdxSeg n)) (\<lambda>idxSeg.
       thenE (checkEntries (ctLabels ct) nodeLength labelLength i 0 None idxSeg) (\<lambda>_.
         checkNodes ct nodeLength idxLength labelLength (i + 1) nodes)))"

definition readLengths :: "reader \<Rightarrow> (nat \<times> nat \<times> nat \<times> nat) rd" where
  "readLengths rd st =
    thenE (readUint31 rd st) (\<lambda>(nodeLength, st).
    thenE (readUint31 rd st) (\<lambda>(idxLength, st).
    thenE (readUint31 rd st) (\<lambda>(labelLength, st).
    thenE (readUint31 rd st) (\<lambda>(regexpLength, st).
      Inr ((nodeLength, idxLength, labelLength, regexpLength), st)))))"

definition deserializeBody :: "reader \<Rightarrow> (bytes \<Rightarrow> 're option) \<Rightarrow> bytes \<Rightarrow> 're Matcher dmres" where
  "deserializeBody rd compileRe r =
    thenE (readLengths rd (replicate 17 0, r)) (\<lambda>((nodeLength, idxLength, labelLength, regexpLength), st).
    thenE (readN readNode nodeLength st) (\<lambda>(nodes, st).
    thenE (readN readIdx idxLength st) (\<lambda>(idxNodes, (buf, s)).
      let labels = take labelLength s; st = (buf, drop labelLength s);
          ct = \<lparr>ctNodes = nodes, ctIdx = idxNodes, ctLabels = labels\<rparr> in
      thenE (checkNodes ct (int nodeLength) (int idxLength) (int labelLength) 0 nodes) (\<lambda>_.
      thenE (readN (readRegexp rd compileRe) regexpLength st) (\<lambda>(res, st).
        Inr \<lparr>mCt = ct, mRe = res\<rparr>)))))"

section \<open>The file\<close>

text \<open>
  The body is compressed after a preface; compression and the reader of the uncompressed stream are
  parameters (\<^verbatim>\<open>klauspost/compress/zstd\<close>).
\<close>

definition preface :: bytes where
  "preface = ascii ''mosproxy_ct_v2''"

definition matcherSerialize :: "(bytes \<Rightarrow> bytes) \<Rightarrow> ('re \<Rightarrow> bytes) \<Rightarrow> 're Matcher \<Rightarrow> bytes dmres" where
  "matcherSerialize zstd reString m = thenE (serializeBody reString m) (\<lambda>b. Inr (preface @ zstd b))"

definition matcherDeserialize :: "reader \<Rightarrow> (bytes \<Rightarrow> bytes option) \<Rightarrow> (bytes \<Rightarrow> 're option) \<Rightarrow> bytes \<Rightarrow> 're Matcher dmres" where
  "matcherDeserialize rd unzstd compileRe r =
    thenE (readFull (length preface) (replicate (length preface) 0, r)) (\<lambda>(buf, s).
      if buf \<noteq> preface then Inl (Err ErrInvalidPreface)
      else case unzstd s of None \<Rightarrow> Inl (Err ErrZstd) | Some b \<Rightarrow> deserializeBody rd compileRe b)"

section \<open>Reading back\<close>

text \<open>\<open>parses p x a\<close>: after any reads, \<open>p\<close> takes \<open>x\<close> off the stream and yields \<open>a\<close>.\<close>

definition parses :: "'a rd \<Rightarrow> bytes \<Rightarrow> 'a \<Rightarrow> bool" where
  "parses p x a \<longleftrightarrow> (\<forall>buf z. length buf = 17 \<longrightarrow> (\<exists>buf'. length buf' = 17 \<and> p (buf, x @ z) = Inr (a, (buf', z))))"

lemma parsesD: "parses p x a \<Longrightarrow> length buf = 17 \<Longrightarrow> \<exists>buf'. length buf' = 17 \<and> p (buf, x @ z) = Inr (a, (buf', z))"
  unfolding parses_def by blast

lemma parses_readUint31:
  assumes "int i \<le> MaxInt32" "fullReads rd"
  shows "writeUint31 i = Inr (put_u32 (word_of_nat i)) \<and> parses (readUint31 rd) (put_u32 (word_of_nat i)) i"
proof -
  have "sint (word_of_nat i :: u32) = int i"
    using int32_id [of "int i"] assms by (simp add: int32_def)
  moreover have "put_u32 (word_of_nat i) \<noteq> []" by (simp add: put_u32_def)
  ultimately show ?thesis using assms
    by (auto simp: parses_def readUint31_def readSome_full writeUint31_def)
qed

lemma parses_readUint16:
  assumes "i \<le> 65535" "fullReads rd"
  shows "writeUint16 i = Inr (put_u16 (word_of_nat i)) \<and> parses (readUint16 rd) (put_u16 (word_of_nat i)) i"
  using assms by (auto simp: parses_def readUint16_def readSome_full writeUint16_def put_u16_def unat_of_nat)

definition addr_i32 :: "segAddr \<Rightarrow> bool" where
  "addr_i32 sa \<longleftrightarrow> int32 (saOff sa) = saOff sa \<and> int32 (saLen sa) = saLen sa"

lemma getAddr_put [simp]: "addr_i32 sa \<Longrightarrow> getAddr (putAddr sa @ z) = sa"
  by (simp add: getAddr_def putAddr_def addr_i32_def int32_def)

lemma length_putAddr [simp]: "length (putAddr sa) = 8"
  by (simp add: putAddr_def)

lemma parses_readNode:
  assumes "addr_i32 (childIdxSeg n)" "int64 (cnDataOff n) = cnDataOff n"
  shows "parses readNode (putNode n) n"
proof (unfold parses_def, intro allI impI)
  fix buf z assume b: "length (buf :: bytes) = 17"
  have "length (putNode n) = 17" by (simp add: putNode_def)
  then have "readFull 17 (buf, putNode n @ z) = Inr (putNode n, z)" using b by (simp add: readFull_def)
  moreover have "putNode n ! 16 = cnStat n" by (simp add: putNode_def nth_append)
  moreover have "getAddr (putNode n) = childIdxSeg n" using assms(1) by (simp add: putNode_def)
  moreover have "sint (be64 (drop 8 (putNode n))) = cnDataOff n" using assms(2) by (simp add: putNode_def int64_def)
  ultimately show "\<exists>buf'. length buf' = 17 \<and> readNode (buf, putNode n @ z) = Inr (n, buf', z)"
    using \<open>length (putNode n) = 17\<close> by (simp add: readNode_def)
qed

lemma parses_readIdx:
  assumes "addr_i32 (labelSeg x)" "int32 (childIdx x) = childIdx x"
  shows "parses readIdx (putIdx x) x"
proof (unfold parses_def, intro allI impI)
  fix buf z assume b: "length (buf :: bytes) = 17"
  have l: "length (putIdx x) = 12" by (simp add: putIdx_def)
  then have "readFull 12 (buf, putIdx x @ z) = Inr (putIdx x @ drop 12 buf, z)" by (simp add: readFull_def)
  moreover have "getAddr (putIdx x @ drop 12 buf) = labelSeg x" using assms(1) by (simp add: putIdx_def)
  moreover have "sint (be32 (drop 8 (putIdx x @ drop 12 buf))) = childIdx x"
    using assms(2) by (simp add: putIdx_def int32_def)
  ultimately show "\<exists>buf'. length buf' = 17 \<and> readIdx (buf, putIdx x @ z) = Inr (x, buf', z)"
    using l b by (simp add: readIdx_def)
qed

lemma parses_readN:
  assumes "\<forall>x \<in> set xs. parses p (f x) x"
  shows "parses (readN p (length xs)) (concat (map f xs)) xs"
  using assms
proof (induction xs)
  case Nil
  then show ?case by (simp add: parses_def)
next
  case (Cons x xs)
  show ?case
  proof (unfold parses_def, intro allI impI)
    fix buf z assume b: "length (buf :: bytes) = 17"
    from parsesD [OF _ b, of p "f x" x "concat (map f xs) @ z"] Cons.prems obtain b1 where
      1: "length b1 = 17" "p (buf, f x @ concat (map f xs) @ z) = Inr (x, b1, concat (map f xs) @ z)" by auto
    from parsesD [OF _ 1(1), of "readN p (length xs)" "concat (map f xs)" xs z] Cons obtain b2 where
      "length b2 = 17" "readN p (length xs) (b1, concat (map f xs) @ z) = Inr (xs, b2, z)" by auto
    with 1 show "\<exists>buf'. length buf' = 17 \<and>
        readN p (length (x # xs)) (buf, concat (map f (x # xs)) @ z) = Inr (x # xs, buf', z)" by simp
  qed
qed

lemma parses_regexps:
  assumes "fullReads rd" "\<forall>r \<in> set rs. length (reString r) \<le> 65535 \<and> compileRe (reString r) = Some r"
  shows "\<exists>x. putRegexps reString rs = Inr x \<and> parses (readN (readRegexp rd compileRe) (length rs)) x rs"
  using assms(2)
proof (induction rs)
  case Nil
  then show ?case by (simp add: parses_def)
next
  case (Cons r rs)
  let ?s = "reString r" and ?h = "put_u16 (word_of_nat (length (reString r)))"
  from Cons obtain t where t: "putRegexps reString rs = Inr t" "parses (readN (readRegexp rd compileRe) (length rs)) t rs" by auto
  have h: "writeUint16 (length ?s) = Inr ?h" "parses (readUint16 rd) ?h (length ?s)"
    using parses_readUint16 [of "length ?s" rd] assms(1) Cons.prems by auto
  have "parses (readN (readRegexp rd compileRe) (length (r # rs))) (?h @ ?s @ t) (r # rs)"
  proof (unfold parses_def, intro allI impI)
    fix buf z assume b: "length (buf :: bytes) = 17"
    from parsesD [OF h(2) b, of "?s @ t @ z"] obtain b1 where b1: "length b1 = 17"
      "readUint16 rd (buf, ?h @ ?s @ t @ z) = Inr (length ?s, b1, ?s @ t @ z)" by auto
    have r: "readRegexp rd compileRe (buf, ?h @ ?s @ t @ z) = Inr (r, b1, t @ z)"
      using b1(2) Cons.prems by (simp add: readRegexp_def readFull_def)
    from parsesD [OF t(2) b1(1), of z] obtain b2 where
      "length b2 = 17" "readN (readRegexp rd compileRe) (length rs) (b1, t @ z) = Inr (rs, b2, z)" by auto
    with r show "\<exists>buf'. length buf' = 17 \<and>
        readN (readRegexp rd compileRe) (length (r # rs)) (buf, (?h @ ?s @ t) @ z) = Inr (r # rs, buf', z)" by simp
  qed
  moreover have "putRegexps reString (r # rs) = Inr (?h @ ?s @ t)" using h(1) t(1) by simp
  ultimately show ?case by blast
qed

section \<open>Compiled trees pass the validation\<close>

definition entry_ok :: "int \<Rightarrow> nat \<Rightarrow> idxNode \<Rightarrow> bool" where
  "entry_ok nodes labels x \<longleftrightarrow> addr_ok (labelSeg x) labels \<and> 0 \<le> childIdx x \<and> childIdx x < nodes"

definition node_ok :: "compiledTree \<Rightarrow> compiledNode \<Rightarrow> bool" where
  "node_ok e n \<longleftrightarrow> addr_ok (childIdxSeg n) (length (ctIdx e)) \<and>
    (\<exists>xs. seg (ctIdx e) (childIdxSeg n) = Inr xs \<and> sorted (map (entryLabel (ctLabels e)) xs) \<and>
      distinct (map (entryLabel (ctLabels e)) xs) \<and>
      (\<forall>x \<in> set xs. entry_ok (int (length (ctNodes e))) (length (ctLabels e)) x))"

lemma addr_ok_valid: "addr_ok sa n \<Longrightarrow> validSegAddr sa (int n)"
  by (auto simp: addr_ok_def validSegAddr_def Let_def)

lemma addr_ok_i32: "addr_ok sa n \<Longrightarrow> addr_i32 sa"
  by (auto simp: addr_ok_def addr_i32_def)

lemma seg_entryLabel: "addr_ok (labelSeg x) (length L) \<Longrightarrow> seg L (labelSeg x) = Inr (entryLabel L x)"
  using seg_addr_ok by (fastforce simp: entryLabel_def)

lemma checkEntries_ok:
  assumes "\<forall>x \<in> set (case prev of Some p \<Rightarrow> p # xs | None \<Rightarrow> xs). entry_ok nl (length L) x"
    and "sorted (map (entryLabel L) (case prev of Some p \<Rightarrow> p # xs | None \<Rightarrow> xs))"
    and "distinct (map (entryLabel L) (case prev of Some p \<Rightarrow> p # xs | None \<Rightarrow> xs))"
  shows "checkEntries L nl (int (length L)) i j prev xs = Inr ()"
  using assms
proof (induction xs arbitrary: j prev)
  case (Cons e es)
  have e: "entry_ok nl (length L) e" using Cons.prems(1) by (auto split: option.splits)
  then have v: "validSegAddr (labelSeg e) (int (length L))" by (simp add: entry_ok_def addr_ok_valid)
  have r: "checkEntries L nl (int (length L)) i (j + 1) (Some e) es = Inr ()"
    using Cons.prems by (intro Cons.IH) (auto split: option.splits)
  show ?case
  proof (cases prev)
    case None
    then show ?thesis using r e v by (simp add: entry_ok_def)
  next
    case (Some p)
    then have "seg L (labelSeg p) = Inr (entryLabel L p)" "seg L (labelSeg e) = Inr (entryLabel L e)"
      using Cons.prems(1) by (simp_all add: entry_ok_def seg_entryLabel)
    moreover have "entryLabel L p < entryLabel L e" using Some Cons.prems(2,3) by (auto simp: less_le)
    ultimately show ?thesis using Some r e v by (simp add: entry_ok_def)
  qed
qed simp

lemma checkNodes_ok:
  "\<forall>n \<in> set nds. node_ok e n \<Longrightarrow>
    checkNodes e (int (length (ctNodes e))) (int (length (ctIdx e))) (int (length (ctLabels e))) i nds = Inr ()"
proof (induction nds arbitrary: i)
  case (Cons n nds)
  then have n: "node_ok e n" by simp
  then obtain xs where "seg (ctIdx e) (childIdxSeg n) = Inr xs" 
    "checkEntries (ctLabels e) (int (length (ctNodes e))) (int (length (ctLabels e))) i 0 None xs = Inr ()"
    using checkEntries_ok [where prev = None] by (fastforce simp: node_ok_def)
  moreover have "validSegAddr (childIdxSeg n) (int (length (ctIdx e)))" using n by (simp add: node_ok_def addr_ok_valid)
  ultimately show ?case using Cons by simp
qed simp

lemma rep_root: "rep e n \<Longrightarrow> nodeIdx n < length (ctNodes e)"
  by (cases n) simp

lemma rep_node_ok: "rep e n \<Longrightarrow> j \<in> set (ids n) \<Longrightarrow> node_ok e (ctNodes e ! j)"
proof (induction e n rule: rep.induct)
  case (1 e i h inh d cs)
  show ?case
  proof (cases "j = i")
    case True
    obtain xs where xs: "seg (ctIdx e) (childIdxSeg (ctNodes e ! i)) = Inr xs" "kids_rep (ctLabels e) cs xs"
      "addr_ok (childIdxSeg (ctNodes e ! i)) (length (ctIdx e))" using "1.prems"(1) by auto
    have "\<forall>x \<in> set xs. childIdx x \<in> int ` {..< length (ctNodes e)}"
    proof
      fix x assume "x \<in> set xs"
      then have "(entryLabel (ctLabels e) x, childIdx x) \<in> (\<lambda>(l, c). (l, int (nodeIdx c))) ` set cs"
        using xs(2) unfolding kids_rep_def by blast
      then obtain l c where c: "(l, c) \<in> set cs" "childIdx x = int (nodeIdx c)" by auto
      then have "rep e c" using "1.prems"(1) by auto
      then show "childIdx x \<in> int ` {..< length (ctNodes e)}" using rep_root c(2) by auto
    qed
    then show ?thesis using xs True by (auto simp: node_ok_def entry_ok_def kids_rep_def)
  next
    case False
    then obtain l c where "(l, c) \<in> set cs" "j \<in> set (ids c)" using "1.prems"(2) by (auto simp: kidIds_def)
    then show ?thesis using "1.IH" "1.prems"(1) by fastforce
  qed
qed

lemma emptyNode_ok: "node_ok e emptyNode"
  by (simp add: node_ok_def emptyNode_def addr_ok_def seg_def)

text \<open>Every entry of the index, reachable or not.\<close>

definition idx_ok :: "nat \<Rightarrow> compiledTree \<Rightarrow> bool" where
  "idx_ok N e \<longleftrightarrow> int (length (ctLabels e)) \<le> MaxInt32 \<and>
    (\<forall>x \<in> set (ctIdx e). entry_ok (int N + 1) (length (ctLabels e)) x)"

definition keepsIdx :: "nat \<Rightarrow> node \<Rightarrow> bool" where
  "keepsIdx N n \<longleftrightarrow> (\<forall>e e'. buildIdx Map.empty n e = Inr e' \<longrightarrow> set (ids n) \<subseteq> {..N} \<longrightarrow> idx_ok N e \<longrightarrow> idx_ok N e')"

lemma addKids_idx_ok:
  assumes "addKids Map.empty cs e = Inr e'" "idx_ok N e" "set (kidIds cs) \<subseteq> {..N}"
  shows "idx_ok N e'"
proof -
  from addKids_spec [OF assms(1)] assms(2) obtain ys xs where k: "ctLabels e' = ctLabels e @ ys" "ctIdx e' = ctIdx e @ xs"
    "int (length (ctLabels e')) \<le> MaxInt32" "\<forall>x \<in> set xs. addr_ok (labelSeg x) (length (ctLabels e'))"
    "map (\<lambda>x. (entryLabel (ctLabels e') x, childIdx x)) xs = map (\<lambda>(l, c). (l, int (nodeIdx c))) cs"
    by (auto simp: idx_ok_def)
  have "map childIdx xs = map (\<lambda>(l, c). int (nodeIdx c)) cs"
    using arg_cong [OF k(5), of "map snd"] by (simp add: comp_def case_prod_beta)
  then have "childIdx ` set xs = (\<lambda>(l, c). int (nodeIdx c)) ` set cs" by (metis list.set_map)
  moreover have "nodeIdx c \<le> N" if "(l, c) \<in> set cs" for l c using kidIds_mem [OF that] assms(3) nodeIdx_in_ids [of c] by (meson atMost_iff subsetD)
  ultimately have "childIdx ` set xs \<subseteq> {0..int N}" by auto
  then have "\<forall>x \<in> set xs. 0 \<le> childIdx x \<and> childIdx x < int N + 1" by auto
  then show ?thesis using assms(2) k(1-4) addr_ok_mono by (fastforce simp: idx_ok_def entry_ok_def)
qed

lemma foldE_idx_ok:
  assumes "\<forall>(l, c) \<in> set cs. keepsIdx N c" "foldE (\<lambda>(l, c) e. buildIdx Map.empty c e) cs e = Inr e'"
    and "set (kidIds cs) \<subseteq> {..N}" "idx_ok N e"
  shows "idx_ok N e'"
  using assms
proof (induction cs arbitrary: e)
  case (Cons k ks)
  obtain l c where k: "k = (l, c)" by (cases k)
  from Cons.prems(2) k obtain e1 where 1: "buildIdx Map.empty c e = Inr e1"
    "foldE (\<lambda>(l, c) e. buildIdx Map.empty c e) ks e1 = Inr e'" by (auto simp: res_simps)
  then have "idx_ok N e1" using Cons.prems k by (auto simp: keepsIdx_def)
  then show ?case using Cons 1 k by auto
qed simp

lemma buildIdx_keepsIdx: "keepsIdx N n"
proof (induction n rule: node.induct)
  case (Node i h inh d cs)
  have kids: "\<forall>(l, c) \<in> set cs. keepsIdx N c" using Node.IH by fastforce
  show ?case unfolding keepsIdx_def
  proof (intro allI impI)
    fix e e'
    assume a: "buildIdx Map.empty (Node i h inh d cs) e = Inr e'" "set (ids (Node i h inh d cs)) \<subseteq> {..N}" "idx_ok N e"
    obtain nds e2 where 2: "addKids Map.empty cs (e\<lparr>ctNodes := nds\<rparr>) = Inr e2"
      "foldE (\<lambda>(l, c) e. buildIdx Map.empty c e) cs (e2\<lparr>ctIdx := take (length (ctIdx e)) (ctIdx e2) @
         sort_key (entryLabel (ctLabels e2)) (drop (length (ctIdx e)) (ctIdx e2))\<rparr>) = Inr e'"
      using a(1) by (auto simp: res_simps Let_def split: if_splits)
    have "idx_ok N (e\<lparr>ctNodes := nds\<rparr>)" using a(3) by (simp add: idx_ok_def)
    then have "idx_ok N e2" using addKids_idx_ok [OF 2(1)] a(2) by simp
    then have "idx_ok N (e2\<lparr>ctIdx := take (length (ctIdx e)) (ctIdx e2) @
         sort_key (entryLabel (ctLabels e2)) (drop (length (ctIdx e)) (ctIdx e2))\<rparr>)"
      by (auto simp: idx_ok_def dest: in_set_takeD in_set_dropD)
    then show "idx_ok N e'" using foldE_idx_ok [OF kids 2(2)] a(2) by simp
  qed
qed

text \<open>What a compiled tree satisfies: all that the reader checks, and values that fit their fields.\<close>

definition ct_ok :: "compiledTree \<Rightarrow> bool" where
  "ct_ok e \<longleftrightarrow> (\<forall>n \<in> set (ctNodes e). node_ok e n) \<and> int (length (ctNodes e)) \<le> MaxInt32 \<and>
    idx_ok (length (ctNodes e) - 1) e"

lemma treeCompile_ct_ok:
  assumes "treeCompile t = Inr e" "wf_tree t"
  shows "ct_ok e"
proof -
  let ?nodes = "replicate (assignedIdx t + 1) emptyNode" and ?r = "root t"
  let ?e0 = "\<lparr>ctNodes = compileNodes ?r ?nodes, ctIdx = [], ctLabels = []\<rparr>"
  have w: "distinct (ids ?r)" "set (ids ?r) \<subseteq> {..assignedIdx t}" "keys_ok ?r" "assignedIdx t \<le> 2147483646"
    using assms(2) by (auto simp: wf_tree_def wf_node_def)
  have b: "buildIdx Map.empty ?r ?e0 = Inr e" using assms(1) by (simp add: treeCompile_def)
  have "blank ?nodes (ids ?r)"
    using w(2) by (auto simp: blank_def emptyNode_def less_Suc_eq_le simp del: replicate_Suc)
  then have c: "stats_ok (compileNodes ?r ?nodes) ?r"
    "\<And>j. j \<notin> set (ids ?r) \<Longrightarrow> compileNodes ?r ?nodes ! j = ?nodes ! j"
    using compileNodes_spec [of ?r] w(1) unfolding compiles_def by blast+
  have r: "rep e ?r" "grows ?e0 e (set (ids ?r))"
    using buildIdx_spec [of ?r] b w(1,3) c(1) unfolding builds_def by fastforce+
  have len: "length (ctNodes e) = assignedIdx t + 1" using r(2) by (simp add: grows_def same_stats_def)
  have "node_ok e (ctNodes e ! j)" if "j < length (ctNodes e)" for j
  proof (cases "j \<in> set (ids ?r)")
    case True
    then show ?thesis using rep_node_ok [OF r(1)] by simp
  next
    case False
    then have "ctNodes e ! j = emptyNode"
      using r(2) c(2) that len by (auto simp: grows_def simp del: replicate_Suc)
    then show ?thesis by (simp add: emptyNode_ok)
  qed
  then have "\<forall>n \<in> set (ctNodes e). node_ok e n" by (auto simp: in_set_conv_nth)
  moreover have "idx_ok (assignedIdx t) e"
    using buildIdx_keepsIdx [of "assignedIdx t" ?r] b w(2) unfolding keepsIdx_def by (auto simp: idx_ok_def)
  ultimately show ?thesis using len w(4) by (simp add: ct_ok_def)
qed

section \<open>The round trip\<close>

lemma readUint31_step:
  assumes "fullReads rd" "int i \<le> MaxInt32" "length (buf :: bytes) = 17"
  shows "\<exists>buf'. length buf' = 17 \<and> readUint31 rd (buf, put_u32 (word_of_nat i) @ z) = Inr (i, (buf', z))"
  using parsesD [OF conjunct2 [OF parses_readUint31 [OF assms(2,1)]] assms(3)] .

lemma deserialize_serialize:
  assumes "ct_ok (mCt m)" "length (ctIdx (mCt m)) \<le> 2147483647" "length (mRe m) \<le> 2147483647"
    and "\<forall>n \<in> set (ctNodes (mCt m)). int64 (cnDataOff n) = cnDataOff n"
    and "\<forall>r \<in> set (mRe m). length (reString r) \<le> 65535 \<and> compileRe (reString r) = Some r"
    and full: "fullReads rd"
  shows "\<exists>b. serializeBody reString m = Inr b \<and> deserializeBody rd compileRe (b @ z) = Inr m"
proof -
  let ?e = "mCt m" and ?u = "\<lambda>n. put_u32 (word_of_nat n)"
  let ?n = "concat (map putNode (ctNodes ?e))" and ?i = "concat (map putIdx (ctIdx ?e))"
  have len: "int (length (ctNodes ?e)) \<le> MaxInt32" "int (length (ctIdx ?e)) \<le> MaxInt32"
    "int (length (ctLabels ?e)) \<le> MaxInt32" "int (length (mRe m)) \<le> MaxInt32"
    using assms(1-3) by (auto simp: ct_ok_def idx_ok_def)
  obtain re where re: "putRegexps reString (mRe m) = Inr re"
    "parses (readN (readRegexp rd compileRe) (length (mRe m))) re (mRe m)"
    using parses_regexps [OF full assms(5)] by blast
  have pn: "parses (readN readNode (length (ctNodes ?e))) ?n (ctNodes ?e)"
    using assms(1,4) by (intro parses_readN ballI parses_readNode) (auto simp: ct_ok_def node_ok_def intro: addr_ok_i32)
  have x: "addr_i32 (labelSeg x) \<and> int32 (childIdx x) = childIdx x" if "x \<in> set (ctIdx ?e)" for x
  proof -
    have "entry_ok (int (length (ctNodes ?e) - 1) + 1) (length (ctLabels ?e)) x"
      using assms(1) that by (simp add: ct_ok_def idx_ok_def)
    then show ?thesis using len(1) by (auto simp: entry_ok_def intro: addr_ok_i32 intro!: int32_id)
  qed
  have pi: "parses (readN readIdx (length (ctIdx ?e))) ?i (ctIdx ?e)"
    using x by (intro parses_readN ballI parses_readIdx) auto
  let ?b = "?u (length (ctNodes ?e)) @ ?u (length (ctIdx ?e)) @ ?u (length (ctLabels ?e)) @ ?u (length (mRe m)) @
    ?n @ ?i @ ctLabels ?e @ re"
  have s: "serializeBody reString m = Inr ?b"
    using len re(1) by (simp add: serializeBody_def writeUint31_def)
  obtain b1 where b1: "length b1 = 17" "readUint31 rd (replicate 17 0, ?b @ z) = Inr (length (ctNodes ?e), (b1,
      ?u (length (ctIdx ?e)) @ ?u (length (ctLabels ?e)) @ ?u (length (mRe m)) @ ?n @ ?i @ ctLabels ?e @ re @ z))"
    using readUint31_step [OF full len(1), of "replicate 17 0" "?u (length (ctIdx ?e)) @ ?u (length (ctLabels ?e)) @
      ?u (length (mRe m)) @ ?n @ ?i @ ctLabels ?e @ re @ z"] by (auto simp del: replicate.simps)
  obtain b2 where b2: "length b2 = 17" "readUint31 rd (b1, ?u (length (ctIdx ?e)) @ ?u (length (ctLabels ?e)) @
      ?u (length (mRe m)) @ ?n @ ?i @ ctLabels ?e @ re @ z) = Inr (length (ctIdx ?e), (b2,
      ?u (length (ctLabels ?e)) @ ?u (length (mRe m)) @ ?n @ ?i @ ctLabels ?e @ re @ z))"
    using readUint31_step [OF full len(2) b1(1)] by blast
  obtain b3 where b3: "length b3 = 17" "readUint31 rd (b2, ?u (length (ctLabels ?e)) @
      ?u (length (mRe m)) @ ?n @ ?i @ ctLabels ?e @ re @ z) = Inr (length (ctLabels ?e), (b3,
      ?u (length (mRe m)) @ ?n @ ?i @ ctLabels ?e @ re @ z))"
    using readUint31_step [OF full len(3) b2(1)] by blast
  obtain b4 where b4: "length b4 = 17" "readUint31 rd (b3, ?u (length (mRe m)) @ ?n @ ?i @ ctLabels ?e @ re @ z) =
      Inr (length (mRe m), (b4, ?n @ ?i @ ctLabels ?e @ re @ z))"
    using readUint31_step [OF full len(4) b3(1)] by blast
  obtain b5 where b5: "length b5 = 17" "readN readNode (length (ctNodes ?e)) (b4, ?n @ ?i @ ctLabels ?e @ re @ z) =
      Inr (ctNodes ?e, (b5, ?i @ ctLabels ?e @ re @ z))"
    using parsesD [OF pn b4(1)] by blast
  obtain b6 where b6: "length b6 = 17" "readN readIdx (length (ctIdx ?e)) (b5, ?i @ ctLabels ?e @ re @ z) =
      Inr (ctIdx ?e, (b6, ctLabels ?e @ re @ z))"
    using parsesD [OF pi b5(1)] by blast
  obtain b7 where b7: "readN (readRegexp rd compileRe) (length (mRe m)) (b6, re @ z) = Inr (mRe m, (b7, z))"
    using parsesD [OF re(2) b6(1)] by blast
  have ck: "checkNodes ?e (int (length (ctNodes ?e))) (int (length (ctIdx ?e))) (int (length (ctLabels ?e))) 0
      (ctNodes ?e) = Inr ()"
    using checkNodes_ok [of "ctNodes ?e" ?e] assms(1) by (simp add: ct_ok_def)
  have eta: "\<lparr>ctNodes = ctNodes ?e, ctIdx = ctIdx ?e, ctLabels = ctLabels ?e\<rparr> = ?e" "\<lparr>mCt = ?e, mRe = mRe m\<rparr> = m"
    by simp_all
  have "deserializeBody rd compileRe (?b @ z) = Inr m"
    unfolding deserializeBody_def readLengths_def using b1(2) b2(2) b3(2) b4(2) b5(2) b6(2) b7 ck by (simp add: Let_def eta)
  with s show ?thesis by blast
qed


section \<open>What the validation is worth\<close>

lemma readN_all:
  assumes "\<And>st x st'. p st = Inr (x, st') \<Longrightarrow> Q x"
  shows "readN p n st = Inr (xs, st') \<Longrightarrow> length xs = n \<and> (\<forall>x \<in> set xs. Q x)"
proof (induction n arbitrary: st xs)
  case (Suc n)
  then obtain x st1 ys where "p st = Inr (x, st1)" "readN p n st1 = Inr (ys, st')" "xs = x # ys"
    by (auto simp: res_simps split: prod.splits)
  then show ?case using Suc.IH [of st1 ys] assms by auto
qed simp

lemma int32_sint [simp]: "int32 (sint (w :: u32)) = sint w"
  by (simp add: int32_def)

lemma addr_i32_getAddr [simp]: "addr_i32 (getAddr b)"
  by (simp add: addr_i32_def getAddr_def)

lemma validSegAddr_seg:
  assumes "validSegAddr sa (int (length s))" "addr_i32 sa"
  shows "\<exists>xs. seg s sa = Inr xs \<and> set xs \<subseteq> set s"
proof -
  have r: "0 \<le> saOff sa" "saOff sa \<le> MaxInt32" "0 \<le> saLen sa" "saLen sa \<le> MaxInt32"
    using assms sint_less [of "word_of_int (saOff sa) :: u32"] sint_less [of "word_of_int (saLen sa) :: u32"]
    by (auto simp: validSegAddr_def addr_i32_def int32_def Let_def)
  have "saOff sa + saLen sa \<le> MaxInt32"
  proof (rule ccontr)
    assume "\<not> saOff sa + saLen sa \<le> MaxInt32"
    then have "int32 (saOff sa + saLen sa - 4294967296) = saOff sa + saLen sa - 4294967296" using r by simp
    moreover have "(word_of_int (x - 4294967296) :: u32) = word_of_int x" for x
      by (simp add: word_of_int_eq_iff take_bit_eq_mod)
    then have "int32 (saOff sa + saLen sa - 4294967296) = int32 (saOff sa + saLen sa)"
      unfolding int32_def by metis
    ultimately have "int32 (saOff sa + saLen sa) < 0" using r by linarith
    then show False using assms(1) r by (simp add: validSegAddr_def Let_def)
  qed
  then show ?thesis using assms(1) r by (auto simp: validSegAddr_def seg_def Let_def dest: in_set_takeD in_set_dropD)
qed


lemma checkEntries_sound:
  "checkEntries L nl ll i j prev xs = Inr () \<Longrightarrow>
    \<forall>x \<in> set xs. 0 \<le> childIdx x \<and> childIdx x < nl \<and> validSegAddr (labelSeg x) ll"
proof (induction xs arbitrary: j prev)
  case (Cons e es)
  then have "\<exists>j'. checkEntries L nl ll i j' (Some e) es = Inr ()"
    by (auto simp: res_simps split: if_splits option.splits)
  with Cons show ?case by (auto split: if_splits)
qed simp

lemma checkNodes_sound:
  "checkNodes e nl il ll i nds = Inr () \<Longrightarrow> \<forall>n \<in> set nds. validSegAddr (childIdxSeg n) il \<and>
    (\<exists>xs. seg (ctIdx e) (childIdxSeg n) = Inr xs \<and>
      (\<forall>x \<in> set xs. 0 \<le> childIdx x \<and> childIdx x < nl \<and> validSegAddr (labelSeg x) ll))"
proof (induction nds arbitrary: i)
  case (Cons n nds)
  then obtain xs where "validSegAddr (childIdxSeg n) il" "seg (ctIdx e) (childIdxSeg n) = Inr xs"
    "checkEntries (ctLabels e) nl ll i 0 None xs = Inr ()" "checkNodes e nl il ll (i + 1) nds = Inr ()"
    by (auto simp: res_simps split: if_splits)
  then show ?case using checkEntries_sound Cons.IH by fastforce
qed simp

text \<open>What matching needs of the arrays.\<close>

definition ct_safe :: "compiledTree \<Rightarrow> bool" where
  "ct_safe e \<longleftrightarrow> (\<forall>n \<in> set (ctNodes e). \<exists>xs. seg (ctIdx e) (childIdxSeg n) = Inr xs \<and>
    (\<forall>x \<in> set xs. 0 \<le> childIdx x \<and> childIdx x < int (length (ctNodes e)) \<and> (\<exists>y. seg (ctLabels e) (labelSeg x) = Inr y)))"

lemma searchLoop_total:
  "\<forall>x \<in> set s. \<exists>y. seg L (labelSeg x) = Inr y \<Longrightarrow> j \<le> length s \<Longrightarrow> \<exists>k. searchLoop L s t i j = Inr k"
proof (induction L s t i j rule: searchLoop.induct)
  case (1 L s t i j)
  show ?case
  proof (cases "i < j")
    case True
    then have h: "(i + j) div 2 < length s" using "1.prems"(2) by linarith
    then obtain y where y: "seg L (labelSeg (s ! ((i + j) div 2))) = Inr y" using "1.prems"(1) nth_mem by blast
    show ?thesis using "1.IH" [OF True refl, of y] h y "1.prems" True by (subst searchLoop.simps) (auto simp: Let_def)
  next
    case False
    then show ?thesis by (subst searchLoop.simps) simp
  qed
qed

lemma binarySearchIdx_total:
  assumes "\<forall>x \<in> set s. \<exists>y. seg (ctLabels e) (labelSeg x) = Inr y"
  shows "\<exists>k. binarySearchIdx e s t = Inr k \<and> k < int (length s)"
proof -
  obtain i where i: "searchLoop (ctLabels e) s t 0 (length s) = Inr i" using searchLoop_total [OF assms] by blast
  show ?thesis
  proof (cases "i < length s")
    case True
    then obtain y where "seg (ctLabels e) (labelSeg (s ! i)) = Inr y" using assms nth_mem by blast
    then show ?thesis using i True by (simp add: binarySearchIdx_def)
  qed (use i in \<open>simp add: binarySearchIdx_def\<close>)
qed

lemma matchLoop_total:
  "ct_safe e \<Longrightarrow> cur \<in> set (ctNodes e) \<Longrightarrow> \<exists>r. matchLoop e ls i cur best fm = Inr r"
proof (induction ls arbitrary: i cur best fm)
  case (Cons l ls)
  then obtain xs where xs: "seg (ctIdx e) (childIdxSeg cur) = Inr xs"
    "\<forall>x \<in> set xs. 0 \<le> childIdx x \<and> childIdx x < int (length (ctNodes e)) \<and> (\<exists>y. seg (ctLabels e) (labelSeg x) = Inr y)"
    unfolding ct_safe_def by blast
  then obtain k where k: "binarySearchIdx e xs l = Inr k" "k < int (length xs)" using binarySearchIdx_total by blast
  show ?case
  proof (cases "k < 0")
    case False
    then have "xs ! nat k \<in> set xs" using k(2) by (intro nth_mem) linarith
    then have "0 \<le> childIdx (xs ! nat k)" "childIdx (xs ! nat k) < int (length (ctNodes e))" using xs(2) by blast+
    then show ?thesis using xs(1) k(1) False Cons by (auto simp: Let_def split: prod.splits)
  qed (use xs k in simp)
qed simp

lemma ctMatch_total: "ct_safe e \<Longrightarrow> \<exists>r. ctMatch e n = Inr r"
  using matchLoop_total by (auto simp: ctMatch_def Let_def split: prod.splits)

lemma readUint31_at:
  "readUint31 rd st = Inr (k, st') \<Longrightarrow> fullReads rd \<Longrightarrow> length (snd st) \<ge> 4 \<Longrightarrow>
    int k = sint (be32 (snd st)) \<and> snd st' = drop 4 (snd st)"
proof (cases st)
  case (Pair buf s)
  assume "readUint31 rd st = Inr (k, st')" "fullReads rd" "length (snd st) \<ge> 4"
  then show ?thesis using Pair readSome_full [of rd s 4 buf]
    by (cases "s = []") (auto simp: readUint31_def Let_def be32_def nth_append split: if_splits)
qed

lemma readLengths_at:
  assumes "readLengths rd (buf, r) = Inr ((nl, il, ll, rl), st)" "fullReads rd" "12 \<le> length r"
  shows "int ll = sint (be32 (drop 8 r))"
proof -
  obtain s1 s2 s3 s4 where 1: "readUint31 rd (buf, r) = Inr (nl, s1)" and 2: "readUint31 rd s1 = Inr (il, s2)"
    and 3: "readUint31 rd s2 = Inr (ll, s3)"
    using assms(1) by (auto simp: readLengths_def res_simps split: prod.splits)
  have "snd s1 = drop 4 r" using readUint31_at [OF 1 assms(2)] assms(3) by simp
  then have "snd s2 = drop 8 r" using readUint31_at [OF 2 assms(2)] assms(3) by simp
  then show ?thesis using readUint31_at [OF 3 assms(2)] assms(3) by simp
qed

lemma deserialize_checked:
  assumes "deserializeBody rd compileRe r = Inr m"
  shows "\<exists>nl il ll rl st. readLengths rd (replicate 17 0, r) = Inr ((nl, il, ll, rl), st) \<and>
    (\<forall>n \<in> set (ctNodes (mCt m)). addr_i32 (childIdxSeg n)) \<and>
    (\<forall>x \<in> set (ctIdx (mCt m)). addr_i32 (labelSeg x)) \<and>
    checkNodes (mCt m) (int (length (ctNodes (mCt m)))) (int (length (ctIdx (mCt m)))) (int ll) 0 (ctNodes (mCt m)) = Inr ()"
proof -
  obtain nl il ll rl s4 nds s5 ids buf s where
    1: "readLengths rd (replicate 17 0, r) = Inr ((nl, il, ll, rl), s4)"
    and 5: "readN readNode nl s4 = Inr (nds, s5)" and 6: "readN readIdx il s5 = Inr (ids, (buf, s))"
    and 7: "mCt m = \<lparr>ctNodes = nds, ctIdx = ids, ctLabels = take ll s\<rparr>"
    and 8: "checkNodes \<lparr>ctNodes = nds, ctIdx = ids, ctLabels = take ll s\<rparr> (int nl) (int il) (int ll) 0 nds = Inr ()"
    using assms unfolding deserializeBody_def
    by (auto simp: res_simps Let_def simp del: replicate.simps split: prod.splits)
  have "length nds = nl \<and> (\<forall>n \<in> set nds. addr_i32 (childIdxSeg n))"
    by (rule readN_all [OF _ 5]) (auto simp: readNode_def res_simps split: prod.splits)
  moreover have "length ids = il \<and> (\<forall>x \<in> set ids. addr_i32 (labelSeg x))"
    by (rule readN_all [OF _ 6]) (auto simp: readIdx_def res_simps split: prod.splits)
  ultimately show ?thesis using 1 7 8 by auto
qed

text \<open>A section cannot have more entries than the rest of the stream has bytes for.\<close>

lemma readIdx_takes: "readIdx (buf, s) = Inr (x, (buf', s')) \<Longrightarrow> length s' + 12 = length s"
  by (auto simp: readIdx_def readFull_def res_simps split: if_splits)

lemma readIdxs_fit: "readN readIdx n (buf, s) = Inr (xs, (buf', s')) \<Longrightarrow> 12 * n \<le> length s"
proof (induction n arbitrary: buf s xs)
  case (Suc n)
  then obtain x b1 s1 ys where "readIdx (buf, s) = Inr (x, (b1, s1))" "readN readIdx n (b1, s1) = Inr (ys, (buf', s'))"
    by (auto simp: res_simps)
  then show ?case using Suc.IH readIdx_takes by fastforce
qed simp

lemma checked_safe:
  assumes a: "\<forall>n \<in> set (ctNodes e). addr_i32 (childIdxSeg n)" "\<forall>x \<in> set (ctIdx e). addr_i32 (labelSeg x)"
    and c: "checkNodes e (int (length (ctNodes e))) (int (length (ctIdx e))) (int (length (ctLabels e))) 0 (ctNodes e) = Inr ()"
  shows "ct_safe e"
  unfolding ct_safe_def
proof
  fix k assume k: "k \<in> set (ctNodes e)"
  from checkNodes_sound [OF c] k obtain xs where xs: "validSegAddr (childIdxSeg k) (int (length (ctIdx e)))"
    "seg (ctIdx e) (childIdxSeg k) = Inr xs" "\<forall>x \<in> set xs. 0 \<le> childIdx x \<and> childIdx x < int (length (ctNodes e)) \<and>
      validSegAddr (labelSeg x) (int (length (ctLabels e)))" by blast
  then have "set xs \<subseteq> set (ctIdx e)" using validSegAddr_seg [OF xs(1)] a(1) k by auto
  then have "\<forall>x \<in> set xs. \<exists>y. seg (ctLabels e) (labelSeg x) = Inr y" using validSegAddr_seg a(2) xs(3) by blast
  then show "\<exists>xs. seg (ctIdx e) (childIdxSeg k) = Inr xs \<and> (\<forall>x \<in> set xs. 0 \<le> childIdx x \<and>
      childIdx x < int (length (ctNodes e)) \<and> (\<exists>y. seg (ctLabels e) (labelSeg x) = Inr y))" using xs by blast
qed

section \<open>Properties\<close>

text \<open>The matcher for one domain, with its arrays written out.\<close>

definition sampleMatcher :: "unit Matcher" where
  "sampleMatcher = \<lparr>mCt = \<lparr>
     ctNodes = [\<lparr>childIdxSeg = \<lparr>saOff = 0, saLen = 1\<rparr>, cnDataOff = 0, cnStat = 0\<rparr>,
                \<lparr>childIdxSeg = \<lparr>saOff = 1, saLen = 0\<rparr>, cnDataOff = 1, cnStat = 3\<rparr>],
     ctIdx = [\<lparr>labelSeg = \<lparr>saOff = 0, saLen = 1\<rparr>, childIdx = 1\<rparr>], ctLabels = [98]\<rparr>, mRe = [()]\<rparr>"

lemma sampleMatcher_compiled: "treeCompile (fst (treeAdd newTree (name_of [[98]]) 1 True)) = Inr (mCt sampleMatcher)"
  by (simp add: treeCompile_def treeAdd_def newTree_def emptyNode_def compiledStat_def statHasData_def statInherit_def
      append32bs_def sampleMatcher_def Let_def)



text \<open>
  Without that the round trip breaks: if the first call of \<^verbatim>\<open>Read\<close> returns three of four bytes, the
  number of nodes is read as 0 and the reader takes the rest of the file for something else.
\<close>

definition shortRead :: reader where
  "shortRead n k = (if n = 66 then 3 else k, False)"

lemma short_read_breaks:
  "matcherSerialize id (\<lambda>_. [46]) sampleMatcher = Inr f \<Longrightarrow>
    matcherDeserialize shortRead Some (\<lambda>_. Some ()) f \<noteq> Inr m"
proof
  let ?b = "[0, 0, 0, 2, 0, 0, 0, 1, 0, 0, 0, 1, 0, 0, 0, 1,
      0, 0, 0, 0, 0, 0, 0, 1, 0, 0, 0, 0, 0, 0, 0, 0, 0,
      0, 0, 0, 1, 0, 0, 0, 0, 0, 0, 0, 0, 0, 0, 0, 1, 3,
      0, 0, 0, 0, 0, 0, 0, 1, 0, 0, 0, 1, 98, 0, 1, 46] :: bytes"
  assume "matcherSerialize id (\<lambda>_. [46]) sampleMatcher = Inr f"
  moreover have "serializeBody (\<lambda>_. [46]) sampleMatcher = Inr ?b"
    by (simp add: serializeBody_def writeUint31_def writeUint16_def sampleMatcher_def putNode_def putAddr_def putIdx_def
        put_u32_def put_u64_def put_u16_def)
  ultimately have f: "f = preface @ ?b" by (simp add: matcherSerialize_def)
  assume "matcherDeserialize shortRead Some (\<lambda>_. Some ()) f = Inr m"
  then have d: "deserializeBody shortRead (\<lambda>_. Some ()) ?b = Inr m" by (simp add: f matcherDeserialize_def readFull_def)
  have l: "readLengths shortRead (replicate 17 0, ?b) =
      Inr ((0, 33554432, 16777216, 16777216), ([1, 0, 0, 0] @ replicate 13 0, drop 15 ?b))"
    by (simp add: readLengths_def readUint31_def readSome_def shortRead_def be32_def get_u32_def)
  obtain ids buf s where "readN readIdx 33554432 ([1, 0, 0, 0] @ replicate 13 0, drop 15 ?b) = Inr (ids, (buf, s))"
    using d unfolding deserializeBody_def l by (auto simp: res_simps simp del: replicate.simps)
  from readIdxs_fit [OF this] show False by simp
qed

text \<open>C10: Matching against a matcher read from any file returns a result, it never indexes out of
  range, if the label section of the file is as long as the length that was read for it; and this holds however
  the stream is cut into reads.\<close>

theorem deserialized_match_safe:
  assumes "deserializeBody rd compileRe r = Inr m"
    and "readLengths rd (replicate 17 0, r) = Inr ((nl, il, ll, rl), st)" "length (ctLabels (mCt m)) = ll"
  shows "\<exists>b. matcherMatch reMatch m n = Inr b"
proof -
  let ?e = "mCt m"
  from deserialize_checked [OF assms(1)] assms(2,3) have a:
    "\<forall>n \<in> set (ctNodes ?e). addr_i32 (childIdxSeg n)" "\<forall>x \<in> set (ctIdx ?e). addr_i32 (labelSeg x)"
    and c: "checkNodes ?e (int (length (ctNodes ?e))) (int (length (ctIdx ?e))) (int (length (ctLabels ?e))) 0 (ctNodes ?e) = Inr ()"
    by auto
  have "ct_safe ?e" by (rule checked_safe [OF a c])
  then obtain r where "ctMatch ?e n = Inr r" using ctMatch_total by blast
  then show ?thesis by (cases r) (auto simp: matcherMatch_def Let_def)
qed

theorem deserialized_match_safe_witness:
  "\<exists>r m b. deserializeBody (\<lambda>_ k. (k, False)) (\<lambda>_. Some ()) r = Inr m \<and> ctNodes (mCt m) \<noteq> [] \<and>
    matcherMatch (\<lambda>_ _. True) m (name_of [[98]]) = Inr b"
proof -
  let ?rd = "\<lambda>_ k :: nat. (k, False)"
  have full: "fullReads ?rd" by (simp add: fullReads_def)
  have "ct_ok (mCt sampleMatcher)"
    using treeCompile_ct_ok [OF sampleMatcher_compiled] by (simp add: treeAdd_wf newTree_wf)
  then obtain b where b: "serializeBody (\<lambda>_. [46]) sampleMatcher = Inr b"
    "deserializeBody ?rd (\<lambda>_. Some ()) (b @ []) = Inr sampleMatcher"
    using deserialize_serialize [of sampleMatcher "\<lambda>_. [46]" "\<lambda>_. Some ()" ?rd "[]"] full
    by (auto simp: sampleMatcher_def int64_def)
  from b(1) have l: "length b \<ge> 12 \<and> sint (be32 (drop 8 b)) = 1"
    by (auto simp: serializeBody_def writeUint31_def sampleMatcher_def res_simps)
  from b(2) have d: "deserializeBody ?rd (\<lambda>_. Some ()) b = Inr sampleMatcher" by simp
  from deserialize_checked [OF d] obtain nl il ll rl st where
    h: "readLengths ?rd (replicate 17 0, b) = Inr ((nl, il, ll, rl), st)" by (elim exE conjE) (rule that)
  have "int ll = 1" using readLengths_at [OF h full] l by simp
  then have "length (ctLabels (mCt sampleMatcher)) = ll" by (simp add: sampleMatcher_def)
  then have "\<exists>c. matcherMatch (\<lambda>_ _. True) sampleMatcher (name_of [[98]]) = Inr c"
    using deserialized_match_safe [OF d h] by simp
  then show ?thesis using b(2) by (fastforce simp: sampleMatcher_def)
qed

text \<open>With reads that fill the buffer, the length is the one in the header of the file.\<close>

lemma header_match_safe:
  assumes "deserializeBody rd compileRe r = Inr m" "fullReads rd" "12 \<le> length r"
    and "int (length (ctLabels (mCt m))) = sint (be32 (drop 8 r))"
  shows "\<exists>b. matcherMatch reMatch m n = Inr b"
proof -
  from deserialize_checked [OF assms(1)] obtain nl il ll rl st where
    h: "readLengths rd (replicate 17 0, r) = Inr ((nl, il, ll, rl), st)"
    and a: "\<forall>n \<in> set (ctNodes (mCt m)). addr_i32 (childIdxSeg n)" "\<forall>x \<in> set (ctIdx (mCt m)). addr_i32 (labelSeg x)"
    and c: "checkNodes (mCt m) (int (length (ctNodes (mCt m)))) (int (length (ctIdx (mCt m)))) (int ll) 0 (ctNodes (mCt m)) = Inr ()"
    by blast
  have "ll = length (ctLabels (mCt m))" using readLengths_at [OF h assms(2,3)] assms(4) by simp
  with c have "checkNodes (mCt m) (int (length (ctNodes (mCt m)))) (int (length (ctIdx (mCt m))))
      (int (length (ctLabels (mCt m)))) 0 (ctNodes (mCt m)) = Inr ()" by simp
  from ctMatch_total [OF checked_safe [OF a this], of n] show ?thesis by (auto simp: matcherMatch_def Let_def)
qed

end
