(* ===== verification/NetList.thy ===== *)
theory NetList
  imports Prelude "HOL-Library.Multiset"
begin

text \<open>
  Sorted lists of address ranges (\<^verbatim>\<open>internal/netlist\<close>): the order of addresses, building a list
  with its check for overlaps, and the look-up by binary search.
\<close>

section \<open>Addresses\<close>

datatype Ipv6 = Ipv6 (ipH: u64) (ipL: u64)

definition ipPut :: "Ipv6 \<Rightarrow> bytes" where
  "ipPut ip = put_u64 (ipH ip) @ put_u64 (ipL ip)"

definition ipCmp :: "Ipv6 \<Rightarrow> Ipv6 \<Rightarrow> int" where
  "ipCmp ip ip2 =
    (if ipH ip < ipH ip2 then - 1 else if ipH ip > ipH ip2 then 1
     else if ipL ip < ipL ip2 then - 1 else if ipL ip > ipL ip2 then 1 else 0)"

instantiation Ipv6 :: linorder
begin

definition less_eq_Ipv6 :: "Ipv6 \<Rightarrow> Ipv6 \<Rightarrow> bool" where
  "less_eq_Ipv6 a b \<longleftrightarrow> ipCmp a b \<le> 0"

definition less_Ipv6 :: "Ipv6 \<Rightarrow> Ipv6 \<Rightarrow> bool" where
  "less_Ipv6 a b \<longleftrightarrow> ipCmp a b < 0"

instance
proof
  fix x y z :: Ipv6
  show "(x < y) = (x \<le> y \<and> \<not> y \<le> x)" by (auto simp: less_Ipv6_def less_eq_Ipv6_def ipCmp_def split: if_splits)
  show "x \<le> x" by (simp add: less_eq_Ipv6_def ipCmp_def)
  show "x \<le> y \<Longrightarrow> y \<le> z \<Longrightarrow> x \<le> z" by (auto simp: less_eq_Ipv6_def ipCmp_def split: if_splits)
  show "x \<le> y \<Longrightarrow> y \<le> x \<Longrightarrow> x = y" by (cases x; cases y) (auto simp: less_eq_Ipv6_def ipCmp_def split: if_splits)
  show "x \<le> y \<or> y \<le> x" by (auto simp: less_eq_Ipv6_def ipCmp_def)
qed

end

lemma ipCmp_order [simp]: "ipCmp a b < 0 \<longleftrightarrow> a < b" "ipCmp a b \<le> 0 \<longleftrightarrow> a \<le> b" "ipCmp a b > 0 \<longleftrightarrow> b < a"
    "ipCmp a b \<ge> 0 \<longleftrightarrow> b \<le> a"
  by (auto simp: less_Ipv6_def less_eq_Ipv6_def ipCmp_def)

section \<open>The list\<close>

record 'v ipRange =
  irV :: 'v
  irStart :: Ipv6
  irEnd :: Ipv6

text \<open>\<^verbatim>\<open>sort.Search\<close> of the standard library: the least index in \<open>{i..<j}\<close> with \<open>f\<close>, or \<open>j\<close>.\<close>

function sortSearch :: "(nat \<Rightarrow> bool) \<Rightarrow> nat \<Rightarrow> nat \<Rightarrow> nat" where
  "sortSearch f i j = (if i < j then (let h = (i + j) div 2 in if \<not> f h then sortSearch f (h + 1) j else sortSearch f i h) else i)"
  by pat_completeness auto
termination by (relation "measure (\<lambda>(f, i, j). j - i)") auto

declare sortSearch.simps [simp del]

definition rangeContains :: "'v ipRange \<Rightarrow> Ipv6 \<Rightarrow> 'v option" where
  "rangeContains r ip = (if ipCmp (irStart r) ip \<le> 0 \<and> ipCmp ip (irEnd r) \<le> 0 then Some (irV r) else None)"

definition listLookup :: "'v ipRange list \<Rightarrow> Ipv6 \<Rightarrow> 'v option" where
  "listLookup e ip =
    (let i = sortSearch (\<lambda>i. ipCmp ip (irStart (e ! i)) < 0) 0 (length e) in
     if i = 0 then None else rangeContains (e ! (i - 1)) ip)"

text \<open>
  The builder. \<^verbatim>\<open>sort.Slice\<close> may reorder ranges with equal starts, which overlap in any order.
\<close>

definition builderAdd :: "'v ipRange list \<Rightarrow> Ipv6 \<Rightarrow> Ipv6 \<Rightarrow> 'v \<Rightarrow> 'v ipRange list option" where
  "builderAdd b start end v =
    (if ipCmp start end > 0 then None else Some (b @ [\<lparr>irV = v, irStart = start, irEnd = end\<rparr>]))"

fun overlap :: "'v ipRange list \<Rightarrow> ('v ipRange \<times> 'v ipRange) option" where
  "overlap (r # s # rs) = (if ipCmp (irEnd r) (irStart s) \<ge> 0 then Some (r, s) else overlap (s # rs))"
| "overlap _ = None"

definition builderBuild :: "'v ipRange list \<Rightarrow> ('v ipRange \<times> 'v ipRange) + 'v ipRange list" where
  "builderBuild b = (let rs = sort_key irStart b in case overlap rs of Some p \<Rightarrow> Inl p | None \<Rightarrow> Inr rs)"

section \<open>Correctness\<close>

lemma sortSearch_spec:
  assumes "\<And>k l. k \<le> l \<Longrightarrow> l < n \<Longrightarrow> f k \<Longrightarrow> f l"
  shows "j \<le> n \<Longrightarrow> i \<le> j \<Longrightarrow> \<forall>k < i. \<not> f k \<Longrightarrow> \<forall>k. j \<le> k \<and> k < n \<longrightarrow> f k \<Longrightarrow>
    sortSearch f i j \<le> n \<and> (\<forall>k < sortSearch f i j. \<not> f k) \<and> (\<forall>k. sortSearch f i j \<le> k \<and> k < n \<longrightarrow> f k)"
  using assms
proof (induction f i j rule: sortSearch.induct)
  case (1 f i j)
  show ?case
  proof (cases "i < j")
    case True
    let ?h = "(i + j) div 2"
    have h: "?h < j" "i \<le> ?h" "?h < n" using True "1.prems"(1) by auto
    show ?thesis
    proof (cases "f ?h")
      case f: True
      have a: "\<forall>k. ?h \<le> k \<and> k < n \<longrightarrow> f k" using f "1.prems"(5) by blast
      have e: "sortSearch f i j = sortSearch f i ?h" using True f by (subst sortSearch.simps) (simp add: Let_def)
      have "\<not> \<not> f ?h" "?h \<le> n" using f h(3) by simp_all
      from "1.IH"(2) [OF True refl this h(2) "1.prems"(3) a "1.prems"(5)] show ?thesis unfolding e .
    next
      case f: False
      have a: "\<forall>k < ?h + 1. \<not> f k" using f h(3) "1.prems"(5) by (metis Suc_eq_plus1 less_Suc_eq_le)
      have e: "sortSearch f i j = sortSearch f (?h + 1) j" using True f by (subst sortSearch.simps) (simp add: Let_def)
      have "?h + 1 \<le> j" using h(1) by simp
      from "1.IH"(1) [OF True refl f "1.prems"(1) this a "1.prems"(4,5)] show ?thesis unfolding e .
    qed
  next
    case False
    then have "sortSearch f i j = i" by (subst sortSearch.simps) simp
    then show ?thesis using False "1.prems"(1-4) by simp
  qed
qed

text \<open>A list as the look-up wants it: valid ranges, each before the next.\<close>

definition separated :: "'v ipRange list \<Rightarrow> bool" where
  "separated e \<longleftrightarrow> (\<forall>r \<in> set e. irStart r \<le> irEnd r) \<and> sorted_wrt (\<lambda>r s. irEnd r < irStart s) e"

definition inRange :: "'v ipRange \<Rightarrow> Ipv6 \<Rightarrow> bool" where
  "inRange r ip \<longleftrightarrow> irStart r \<le> ip \<and> ip \<le> irEnd r"

lemma separated_nth:
  "separated e \<Longrightarrow> k < l \<Longrightarrow> l < length e \<Longrightarrow> irStart (e ! k) \<le> irEnd (e ! k) \<and> irEnd (e ! k) < irStart (e ! l)"
  by (auto simp: separated_def sorted_wrt_iff_nth_less)

lemma lookup_separated:
  assumes "separated e"
  shows "listLookup e ip = Some v \<longleftrightarrow> (\<exists>r \<in> set e. inRange r ip \<and> irV r = v)"
proof -
  let ?f = "\<lambda>i. ipCmp ip (irStart (e ! i)) < 0" and ?n = "length e"
  let ?i = "sortSearch ?f 0 ?n"
  have st: "irStart (e ! k) < irStart (e ! l)" if "k < l" "l < ?n" for k l
    using separated_nth [OF assms that] by (auto intro: le_less_trans)
  have mono: "?f l" if "k \<le> l" "l < ?n" "?f k" for k l
    using that st [of k l] by (cases "k = l") (auto intro: less_trans)
  have s: "?i \<le> ?n \<and> (\<forall>k < ?i. \<not> ?f k) \<and> (\<forall>k. ?i \<le> k \<and> k < ?n \<longrightarrow> ?f k)"
    by (rule sortSearch_spec [of ?n ?f]) (use mono in auto)
  have only: "k = ?i - 1 \<and> 0 < ?i" if k: "k < ?n" "inRange (e ! k) ip" for k
  proof -
    have "\<not> ?f k" using k(2) by (auto simp: inRange_def)
    then have ki: "k < ?i" using s k(1) by (meson not_le)
    have "\<not> k < ?i - 1"
    proof
      assume a: "k < ?i - 1"
      have l: "?i - 1 < ?n" using s ki by linarith
      have "irEnd (e ! k) < irStart (e ! (?i - 1))" using separated_nth [OF assms a l] by simp
      moreover have "?i - 1 < ?i" using ki by linarith
      then have "\<not> ?f (?i - 1)" using s by blast
      ultimately show False using k(2) by (auto simp: inRange_def)
    qed
    then show ?thesis using ki by auto
  qed
  have at: "listLookup e ip = (if ?i = 0 then None else if inRange (e ! (?i - 1)) ip then Some (irV (e ! (?i - 1))) else None)"
    by (simp add: listLookup_def rangeContains_def inRange_def Let_def)
  show ?thesis
  proof
    assume "listLookup e ip = Some v"
    then have "0 < ?i" "inRange (e ! (?i - 1)) ip" "irV (e ! (?i - 1)) = v" using at by (auto split: if_splits)
    moreover have "e ! (?i - 1) \<in> set e" using s \<open>0 < ?i\<close> by (intro nth_mem) linarith
    ultimately show "\<exists>r \<in> set e. inRange r ip \<and> irV r = v" by blast
  next
    assume "\<exists>r \<in> set e. inRange r ip \<and> irV r = v"
    then obtain k where "k < ?n" "inRange (e ! k) ip" "irV (e ! k) = v" by (auto simp: in_set_conv_nth)
    then show "listLookup e ip = Some v" using only [of k] at by auto
  qed
qed

definition valid_ranges :: "'v ipRange list \<Rightarrow> bool" where
  "valid_ranges b \<longleftrightarrow> (\<forall>r \<in> set b. irStart r \<le> irEnd r)"

lemma builderAdd_valid: "builderAdd b s e v = Some b' \<Longrightarrow> valid_ranges b \<Longrightarrow> valid_ranges b'"
  by (auto simp: builderAdd_def valid_ranges_def split: if_splits)

lemma overlap_None:
  "valid_ranges rs \<Longrightarrow> overlap rs = None \<Longrightarrow> sorted_wrt (\<lambda>r s. irEnd r < irStart s) rs"
proof (induction rs rule: overlap.induct)
  case (1 r s rs)
  then have a: "irEnd r < irStart s" "sorted_wrt (\<lambda>r s. irEnd r < irStart s) (s # rs)" "irStart s \<le> irEnd s"
    by (auto simp: valid_ranges_def split: if_splits)
  then have "\<forall>t \<in> set rs. irEnd r < irStart t" by (auto dest: less_trans intro: order.strict_trans)
  then show ?case using a by simp
qed auto

lemma overlap_Some:
  "overlap rs = Some (r, s) \<Longrightarrow> \<exists>k. Suc k < length rs \<and> rs ! k = r \<and> rs ! Suc k = s \<and> irStart s \<le> irEnd r"
proof (induction rs rule: overlap.induct)
  case (1 a b rs)
  show ?case
  proof (cases "irStart b \<le> irEnd a")
    case True
    then show ?thesis using 1(2) by (intro exI [of _ 0]) auto
  next
    case False
    then obtain k where "Suc k < length (b # rs) \<and> (b # rs) ! k = r \<and> (b # rs) ! Suc k = s \<and> irStart s \<le> irEnd r"
      using 1 by auto
    then show ?thesis by (intro exI [of _ "Suc k"]) auto
  qed
qed auto

lemma build_separated:
  assumes "builderBuild b = Inr e" "valid_ranges b"
  shows "separated e \<and> set e = set b"
proof -
  have "e = sort_key irStart b" "overlap e = None" using assms(1) by (auto simp: builderBuild_def Let_def split: option.splits)
  moreover have "valid_ranges (sort_key irStart b)" using assms(2) by (simp add: valid_ranges_def)
  ultimately show ?thesis using overlap_None [of e] by (auto simp: separated_def valid_ranges_def)
qed

text \<open>Two ranges at different places of the list have an address in common.\<close>

definition some_overlap :: "'v ipRange list \<Rightarrow> bool" where
  "some_overlap b \<longleftrightarrow> \<not> sorted_wrt (\<lambda>r s. \<not> (\<exists>ip. inRange r ip \<and> inRange s ip)) b"

lemma sorted_wrt_perm:
  assumes "mset xs = mset ys" "\<And>x y. R x y \<Longrightarrow> R y x" "sorted_wrt R xs"
  shows "sorted_wrt R ys"
  using assms(1,3)
proof (induction xs arbitrary: ys)
  case (Cons x xs)
  have "x \<in> set ys" using Cons.prems(1) by (metis list.set_intros(1) mset_eq_setD)
  then obtain us vs where y: "ys = us @ x # vs" by (meson split_list)
  then have "mset xs = mset (us @ vs)" using Cons.prems(1) by simp
  then have "sorted_wrt R (us @ vs)" "set (us @ vs) = set xs"
    using Cons.IH [of "us @ vs"] Cons.prems(2) mset_eq_setD [of xs "us @ vs"] by simp_all
  then show ?case using y Cons.prems(2) assms(2) by (auto simp: sorted_wrt_append)
qed simp

lemma build_error:
  assumes "valid_ranges b"
  shows "(\<exists>p. builderBuild b = Inl p) \<longleftrightarrow> some_overlap b"
proof -
  let ?rs = "sort_key irStart b" and ?R = "\<lambda>r s. \<not> (\<exists>ip. inRange r ip \<and> inRange s ip)"
  have v: "valid_ranges ?rs" using assms by (simp add: valid_ranges_def)
  have p: "sorted_wrt ?R b \<longleftrightarrow> sorted_wrt ?R ?rs"
    using sorted_wrt_perm [of b ?rs ?R] sorted_wrt_perm [of ?rs b ?R] by (auto simp: conj_commute)
  show ?thesis
  proof (cases "overlap ?rs")
    case None
    then have "sorted_wrt (\<lambda>r s. irEnd r < irStart s) ?rs" using overlap_None v by blast
    then have "sorted_wrt ?R ?rs" by (rule sorted_wrt_mono_rel [rotated]) (auto simp: inRange_def)
    then show ?thesis using None p by (simp add: some_overlap_def builderBuild_def Let_def)
  next
    case (Some q)
    obtain r s where q: "q = (r, s)" by (cases q)
    then obtain k where k: "Suc k < length ?rs" "?rs ! k = r" "?rs ! Suc k = s" "irStart s \<le> irEnd r"
      using overlap_Some Some by blast
    have "sorted (map irStart ?rs)" by simp
    then have "irStart r \<le> irStart s" using k sorted_nth_mono [of "map irStart ?rs" k "Suc k"] by simp
    moreover have "irStart s \<le> irEnd s" using v k(1,3) nth_mem unfolding valid_ranges_def by blast
    ultimately have "inRange r (irStart s) \<and> inRange s (irStart s)" using k(4) by (simp add: inRange_def)
    then have "\<not> sorted_wrt ?R ?rs" using k by (auto simp: sorted_wrt_iff_nth_less)
    then show ?thesis using Some p by (simp add: some_overlap_def builderBuild_def Let_def)
  qed
qed

end
