(* ===== verification/IpAddr.thy ===== *)
theory IpAddr
  imports NetList
begin

text \<open>
  The values of \<^verbatim>\<open>net/netip\<close> the program uses (addresses and prefixes of the standard library),
  their conversion to the addresses of \<^verbatim>\<open>internal/netlist\<close>, and the last address of a prefix
  (\<^verbatim>\<open>app/router/ip_set.go\<close>). An address is numbered by the value of its 16 bytes; the addresses of a
  prefix are those that agree with it on the leading bits.
\<close>

section \<open>The package net/netip\<close>

datatype Addr = NoAddr | Addr4 bytes | Addr6 bytes string

record Prefix =
  pAddr :: Addr
  pBits :: int

definition v4mapped :: bytes where
  "v4mapped = [0, 0, 0, 0, 0, 0, 0, 0, 0, 0, 0xFF, 0xFF]"

definition addrIsValid :: "Addr \<Rightarrow> bool" where
  "addrIsValid a \<longleftrightarrow> a \<noteq> NoAddr"

fun addrIs4 :: "Addr \<Rightarrow> bool" where
  "addrIs4 (Addr4 b) = True"
| "addrIs4 _ = False"

fun addrIs4In6 :: "Addr \<Rightarrow> bool" where
  "addrIs4In6 (Addr6 b z) = (take 12 b = v4mapped)"
| "addrIs4In6 _ = False"

fun unmap :: "Addr \<Rightarrow> Addr" where
  "unmap (Addr6 b z) = (if take 12 b = v4mapped then Addr4 (drop 12 b) else Addr6 b z)"
| "unmap a = a"

fun as16 :: "Addr \<Rightarrow> bytes" where
  "as16 NoAddr = replicate 16 0"
| "as16 (Addr4 b) = v4mapped @ b"
| "as16 (Addr6 b z) = b"

fun withoutZone :: "Addr \<Rightarrow> Addr" where
  "withoutZone (Addr6 b z) = Addr6 b []"
| "withoutZone a = a"

fun bitLen :: "Addr \<Rightarrow> int" where
  "bitLen NoAddr = 0"
| "bitLen (Addr4 b) = 32"
| "bitLen (Addr6 b z) = 128"

definition noPrefix :: Prefix where
  "noPrefix = \<lparr>pAddr = NoAddr, pBits = - 1\<rparr>"

definition prefixFrom :: "Addr \<Rightarrow> int \<Rightarrow> Prefix" where
  "prefixFrom a n = \<lparr>pAddr = withoutZone a, pBits = (if a \<noteq> NoAddr \<and> 0 \<le> n \<and> n \<le> bitLen a then n else - 1)\<rparr>"

definition prefixIsValid :: "Prefix \<Rightarrow> bool" where
  "prefixIsValid p \<longleftrightarrow> pBits p \<ge> 0"

text \<open>Keeping the leading bits, byte by byte.\<close>

definition maskByte :: "nat \<Rightarrow> u8 \<Rightarrow> u8" where
  "maskByte n b = b AND NOT (mask (8 - n))"

definition maskBytes :: "nat \<Rightarrow> bytes \<Rightarrow> bytes" where
  "maskBytes n bs = map (\<lambda>i. maskByte (n - 8 * i) (bs ! i)) [0..<length bs]"

fun addrPrefix :: "Addr \<Rightarrow> int \<Rightarrow> Prefix option" where
  "addrPrefix NoAddr n = (if n < 0 then None else Some noPrefix)"
| "addrPrefix (Addr4 b) n = (if n < 0 \<or> n > 32 then None else Some (prefixFrom (Addr4 (maskBytes (nat n) b)) n))"
| "addrPrefix (Addr6 b z) n = (if n < 0 \<or> n > 128 then None else Some (prefixFrom (Addr6 (maskBytes (nat n) b) []) n))"

definition masked :: "Prefix \<Rightarrow> Prefix" where
  "masked p = (case addrPrefix (pAddr p) (pBits p) of None \<Rightarrow> noPrefix | Some q \<Rightarrow> q)"

text \<open>The addresses and prefixes that occur: 4 or 16 bytes, a length in range.\<close>

fun wf_addr :: "Addr \<Rightarrow> bool" where
  "wf_addr NoAddr = True"
| "wf_addr (Addr4 b) = (length b = 4)"
| "wf_addr (Addr6 b z) = (length b = 16)"

definition wf_prefix :: "Prefix \<Rightarrow> bool" where
  "wf_prefix p \<longleftrightarrow> wf_addr (pAddr p) \<and> withoutZone (pAddr p) = pAddr p \<and>
    (pBits p = - 1 \<or> 0 \<le> pBits p \<and> pBits p \<le> bitLen (pAddr p) \<and> pAddr p \<noteq> NoAddr)"

section \<open>Conversions of the program\<close>

definition addr2Ipv6 :: "Addr \<Rightarrow> Ipv6" where
  "addr2Ipv6 a = (let b = as16 a in Ipv6 (be64 b) (be64 (drop 8 b)))"

definition ipToAddr :: "Ipv6 \<Rightarrow> Addr" where
  "ipToAddr ip = Addr6 (put_u64 (ipH ip) @ put_u64 (ipL ip)) []"

text \<open>The loop of \<^verbatim>\<open>lastIP\<close> over the host bits.\<close>

function setBits :: "nat \<Rightarrow> nat \<Rightarrow> nat \<Rightarrow> bytes \<Rightarrow> bytes" where
  "setBits off b n a =
    (if b < n then setBits off (b + 1) n (a[off + b div 8 := a ! (off + b div 8) OR push_bit (7 - b mod 8) 1]) else a)"
  by pat_completeness auto
termination by (relation "measure (\<lambda>(off, b, n, a). n - b)") auto

declare setBits.simps [simp del]

definition lastIP :: "Prefix \<Rightarrow> Addr" where
  "lastIP p =
    (if \<not> prefixIsValid p then NoAddr
     else let a16 = as16 (pAddr p) in
       if addrIs4 (pAddr p) then unmap (Addr6 (setBits 12 (nat (pBits p)) 32 a16) [])
       else Addr6 (setBits 0 (nat (pBits p)) 128 a16) [])"

section \<open>Bits and values\<close>

definition val :: "bytes \<Rightarrow> nat" where
  "val bs = foldl (\<lambda>v b. v * 256 + unat b) 0 bs"

lemma val_simps [simp]: "val [] = 0" "val (bs @ [b]) = val bs * 256 + unat b"
  by (simp_all add: val_def)

lemma bit_shift8: "bit (v * 256 + unat (b :: u8)) j = (if j < 8 then bit b j else bit v (j - 8))"
proof -
  have l: "\<not> bit b n" if "\<not> n < 8" for n using bit_imp_le_length [of b n] that by auto
  have d: "push_bit 8 v AND unat b = 0"
    by (rule bit_eqI) (use l in \<open>auto simp: bit_and_iff bit_push_bit_iff_nat bit_unsigned_iff\<close>)
  have "v * 256 + unat b = push_bit 8 v OR unat b"
    using disjunctive_add_eq_or [OF d] by (simp add: push_bit_eq_mult)
  then show ?thesis using l [of j] by (simp add: bit_or_iff bit_push_bit_iff_nat bit_unsigned_iff)
qed

lemma bit_val: "bit (val bs) j \<longleftrightarrow> j < 8 * length bs \<and> bit (rev bs ! (j div 8)) (j mod 8)"
proof (induction bs arbitrary: j rule: rev_induct)
  case (snoc b bs)
  show ?case
  proof (cases "j < 8")
    case False
    then obtain k where "j = k + 8" by (metis le_add_diff_inverse2 not_less)
    moreover have "(k + 8) div 8 = Suc (k div 8)" by simp
    ultimately show ?thesis by (simp add: bit_shift8 snoc)
  qed (simp add: bit_shift8)
qed simp

text \<open>Bit \<open>j\<close> of a byte string, counted from the front.\<close>

definition bitAt :: "bytes \<Rightarrow> nat \<Rightarrow> bool" where
  "bitAt bs j \<longleftrightarrow> bit (bs ! (j div 8)) (7 - j mod 8)"

lemma bit_val_bitAt: "j < 8 * length bs \<Longrightarrow> bit (val bs) j = bitAt bs (8 * length bs - 1 - j)"
proof -
  assume j: "j < 8 * length bs"
  let ?q = "j div 8" and ?m = "j mod 8" and ?L = "length bs"
  have q: "?q < ?L" using j by linarith
  obtain d where d: "?L = Suc (?q + d)" using q less_imp_Suc_add by blast
  have "8 * Suc (k + d) - 1 - (8 * k + m) = 8 * d + (7 - m)" if "m \<le> 7" for k m
    using that by (simp add: add_mult_distrib2)
  from this [of ?m ?q] have "8 * ?L - 1 - j = 8 * (?L - 1 - ?q) + (7 - ?m)" unfolding d by simp
  moreover have "(8 * x + y) div 8 = x \<and> (8 * x + y) mod 8 = y" if "y < 8" for x y :: nat using that by auto
  from this [of "7 - ?m" "?L - 1 - ?q"] have "(8 * (?L - 1 - ?q) + (7 - ?m)) div 8 = ?L - 1 - ?q"
    "(8 * (?L - 1 - ?q) + (7 - ?m)) mod 8 = 7 - ?m" by auto
  moreover have "?m \<le> 7" by auto
  then have "7 - (7 - ?m) = ?m" by (rule diff_diff_cancel)
  ultimately show ?thesis using j q by (simp add: bit_val bitAt_def rev_nth)
qed

lemma length_maskBytes [simp]: "length (maskBytes n bs) = length bs"
  by (simp add: maskBytes_def)

lemma bitAt_maskBytes: "j < 8 * length bs \<Longrightarrow> bitAt (maskBytes n bs) j \<longleftrightarrow> j < n \<and> bitAt bs j"
proof -
  assume j: "j < 8 * length bs"
  have "(7 - j mod 8 < 8 - (n - 8 * (j div 8))) = (\<not> j < n)" by presburger
  then show ?thesis using j by (auto simp: bitAt_def maskBytes_def maskByte_def bit_simps)
qed

lemma setBits_spec:
  "n \<le> 8 * (length a - off) \<Longrightarrow> off \<le> length a \<Longrightarrow> length (setBits off b n a) = length a \<and>
    (\<forall>j < 8 * length a. bitAt (setBits off b n a) j \<longleftrightarrow> 8 * off + b \<le> j \<and> j < 8 * off + n \<or> bitAt a j)"
proof (induction off b n a rule: setBits.induct)
  case (1 off b n a)
  show ?case
  proof (cases "b < n")
    case True
    let ?k = "off + b div 8" and ?a = "a[off + b div 8 := a ! (off + b div 8) OR push_bit (7 - b mod 8) 1]"
    have k: "?k < length a" using True "1.prems" by linarith
    have s: "setBits off b n a = setBits off (b + 1) n ?a" using True by (subst setBits.simps) simp
    have a: "bitAt ?a j = (j = 8 * off + b \<or> bitAt a j)" if "j < 8 * length a" for j
    proof (cases "j div 8 = ?k")
      case True
      moreover have "j = 8 * (j div 8) + j mod 8" "b = 8 * (b div 8) + b mod 8" "j mod 8 \<le> 7" "b mod 8 \<le> 7" by auto
      ultimately have "(7 - j mod 8 = 7 - b mod 8) = (j = 8 * off + b)" by linarith
      then show ?thesis using True k by (auto simp: bitAt_def bit_simps bit_push_bit_iff bit_1_iff)
    next
      case False
      then have "j \<noteq> 8 * off + b" by auto
      then show ?thesis using False by (auto simp: bitAt_def)
    qed
    have r: "\<forall>j < 8 * length a. bitAt (setBits off (b + 1) n ?a) j \<longleftrightarrow> 8 * off + (b + 1) \<le> j \<and> j < 8 * off + n \<or> bitAt ?a j"
      and l: "length (setBits off (b + 1) n ?a) = length a"
      using "1.IH" [OF True] "1.prems" by auto
    have "bitAt (setBits off (b + 1) n ?a) j \<longleftrightarrow> 8 * off + b \<le> j \<and> j < 8 * off + n \<or> bitAt a j"
      if "j < 8 * length a" for j
      using r [rule_format, OF that] a [OF that] True by (cases "j = 8 * off + b") auto
    then show ?thesis using l s by simp
  next
    case False
    then have "setBits off b n a = a" by (subst setBits.simps) simp
    then show ?thesis using False by auto
  qed
qed

section \<open>The number of an address\<close>

definition ipNum :: "Ipv6 \<Rightarrow> nat" where
  "ipNum ip = unat (ipH ip) * 2 ^ 64 + unat (ipL ip)"

lemma ipNum_le: "ipNum a \<le> ipNum b \<longleftrightarrow> a \<le> b"
proof -
  have l: "unat (w :: u64) < 2 ^ 64" for w using unsigned_less [of w] by simp
  have "a \<le> b \<longleftrightarrow> unat (ipH a) < unat (ipH b) \<or> unat (ipH a) = unat (ipH b) \<and> unat (ipL a) \<le> unat (ipL b)"
    by (auto simp: less_eq_Ipv6_def ipCmp_def word_less_nat_alt word_le_nat_alt)
  then show ?thesis using l [of "ipL a"] l [of "ipL b"] unfolding ipNum_def by (simp; linarith)
qed

lemma unat_get_u32: "unat (get_u32 a b c d) = ((unat a * 256 + unat b) * 256 + unat c) * 256 + unat d"
proof (rule bit_eqI)
  fix n :: nat
  have o: "\<not> bit x m" if "\<not> m < 8" for x :: u8 and m using bit_imp_le_length [of x m] that by auto
  consider "n < 8" | "8 \<le> n" "n < 16" | "16 \<le> n" "n < 24" | "24 \<le> n" "n < 32" | "32 \<le> n" by linarith
  then show "bit (unat (get_u32 a b c d)) n = bit (((unat a * 256 + unat b) * 256 + unat c) * 256 + unat d) n"
    unfolding bit_shift8 by cases (auto simp: get_u32_def bit_unsigned_iff bit_or_iff bit_push_bit_iff bit_ucast_iff o)
qed

lemma val_foldl: "foldl (\<lambda>v b. v * 256 + unat (b :: u8)) v bs = v * 256 ^ length bs + val bs"
proof (induction bs rule: rev_induct)
  case (snoc b bs)
  then show ?case by (simp add: algebra_simps)
qed simp

lemma val_append: "val (xs @ ys) = val xs * 256 ^ length ys + val ys"
  using val_foldl [of "val xs" ys] by (simp add: val_def)

lemma val_Cons: "val (b # bs) = unat b * 256 ^ length bs + val bs"
  using val_append [of "[b]" bs] by (simp add: val_def)

lemma list4: "length bs = 4 \<Longrightarrow> bs = [bs ! 0, bs ! 1, bs ! 2, bs ! 3]"
  by (rule nth_equalityI) (auto simp: less_Suc_eq numeral_nat)

lemma unat_be32: "length bs \<ge> 4 \<Longrightarrow> unat (be32 bs) = val (take 4 bs)"
proof -
  assume a: "length bs \<ge> 4"
  have "take 4 bs = [bs ! 0, bs ! 1, bs ! 2, bs ! 3]" using list4 [of "take 4 bs"] a by simp
  then show ?thesis by (simp add: be32_def unat_get_u32 val_def)
qed

lemma unat_be64: "length bs \<ge> 8 \<Longrightarrow> unat (be64 bs) = val (take 8 bs)"
proof -
  assume a: "length bs \<ge> 8"
  have h: "\<not> bit w n" if "\<not> n < 32" for w :: u32 and n using bit_imp_le_length [of w n] that by auto
  have "push_bit 32 (unat (be32 bs)) AND unat (be32 (drop 4 bs)) = 0"
    by (rule bit_eqI) (use h in \<open>auto simp: bit_and_iff bit_push_bit_iff_nat bit_unsigned_iff\<close>)
  then have "unat (be32 bs) * 2 ^ 32 + unat (be32 (drop 4 bs)) = push_bit 32 (unat (be32 bs)) OR unat (be32 (drop 4 bs))"
    using disjunctive_add_eq_or [of "push_bit 32 (unat (be32 bs))" "unat (be32 (drop 4 bs))"]
    by (simp add: push_bit_eq_mult)
  also have "\<dots> = unat (be64 bs)"
    by (rule bit_eqI) (auto simp: be64_def bit_or_iff bit_push_bit_iff_nat bit_push_bit_iff bit_unsigned_iff
        dest: bit_imp_le_length [where 'a = 32])
  finally have "unat (be64 bs) = unat (be32 bs) * 2 ^ 32 + unat (be32 (drop 4 bs))" by simp
  moreover have "take 8 bs = take 4 bs @ take 4 (drop 4 bs)" using take_add [of 4 4 bs] by simp
  ultimately show ?thesis using a by (simp add: unat_be32 val_append)
qed

lemma length_as16: "wf_addr a \<Longrightarrow> length (as16 a) = 16"
  by (cases a) (simp_all add: v4mapped_def)

lemma ipNum_addr2Ipv6: "wf_addr a \<Longrightarrow> ipNum (addr2Ipv6 a) = val (as16 a)"
proof -
  assume "wf_addr a"
  then have l: "length (as16 a) = 16" by (rule length_as16)
  then have "as16 a = take 8 (as16 a) @ take 8 (drop 8 (as16 a))" using take_add [of 8 8 "as16 a"] by simp
  then have "val (as16 a) = val (take 8 (as16 a)) * 256 ^ 8 + val (take 8 (drop 8 (as16 a)))"
    using val_append [of "take 8 (as16 a)" "take 8 (drop 8 (as16 a))"] l by simp
  then show ?thesis using l by (simp add: ipNum_def addr2Ipv6_def Let_def unat_be64)
qed

section \<open>The range of a prefix\<close>

text \<open>The number of host bits, and the addresses that agree with the prefix on the others.\<close>

definition hostBits :: "Prefix \<Rightarrow> nat" where
  "hostBits p = nat (bitLen (pAddr p) - pBits p)"

definition inPrefix :: "Prefix \<Rightarrow> Addr \<Rightarrow> bool" where
  "inPrefix p a \<longleftrightarrow> drop_bit (hostBits p) (val (as16 a)) = drop_bit (hostBits p) (val (as16 (pAddr p)))"

lemma between_block: "(v :: nat) div m * m \<le> x \<and> x < v div m * m + m \<longleftrightarrow> x div m = v div m" if "m > 0"
proof
  assume "v div m * m \<le> x \<and> x < v div m * m + m"
  then show "x div m = v div m" by (intro div_nat_eqI) (auto simp: algebra_simps)
next
  assume x: "x div m = v div m"
  then show "v div m * m \<le> x \<and> x < v div m * m + m"
    using that dividend_less_div_times [of m x] div_times_less_eq_dividend [of x m] by (metis add.commute)
qed

lemma bitAt_append: "bitAt (xs @ ys) j = (if j < 8 * length xs then bitAt xs j else bitAt ys (j - 8 * length xs))"
proof (cases "j < 8 * length xs")
  case False
  then obtain k where "j = 8 * length xs + k" using le_Suc_ex not_less by blast
  then show ?thesis by (simp add: bitAt_def nth_append)
next
  case True
  then have "j div 8 < length xs" by linarith
  then show ?thesis using True by (simp add: bitAt_def nth_append)
qed

lemma div_mod_8: "y < 8 \<Longrightarrow> (8 * x + y) div 8 = x \<and> (8 * x + y) mod 8 = y" for x y :: nat
  by auto

lemma bytes_eqI:
  assumes "length xs = length ys" "\<And>j. j < 8 * length xs \<Longrightarrow> bitAt xs j = bitAt ys j"
  shows "xs = ys"
proof (rule nth_equalityI [OF assms(1)], rule bit_word_eqI)
  fix i n assume i: "i < length xs" and n: "n < LENGTH(8)"
  then have "(8 * i + (7 - n)) div 8 = i" "(8 * i + (7 - n)) mod 8 = 7 - n" "7 - (7 - n) = n" "8 * i + (7 - n) < 8 * length xs"
    using div_mod_8 [of "7 - n" i] by simp_all
  then show "bit (xs ! i) n = bit (ys ! i) n" using assms(2) [of "8 * i + (7 - n)"] by (simp add: bitAt_def)
qed

lemma bit_val_rev: "bit (val bs) j \<longleftrightarrow> j < 8 * length bs \<and> bitAt bs (8 * length bs - 1 - j)"
  using bit_val_bitAt [of j bs] bit_val [of bs j] by blast

lemma val_masked:
  assumes "length ms = length bs" "k \<le> 8 * length bs"
    and "\<And>j. j < 8 * length bs \<Longrightarrow> bitAt ms j \<longleftrightarrow> j < 8 * length bs - k \<and> bitAt bs j"
  shows "val ms = val bs div 2 ^ k * 2 ^ k"
proof -
  have "val ms = push_bit k (drop_bit k (val bs))"
  proof (rule bit_eqI)
    fix n
    show "bit (val ms) n = bit (push_bit k (drop_bit k (val bs))) n"
    proof (cases "n < 8 * length bs")
      case True
      then have "bitAt ms (8 * length bs - 1 - n) \<longleftrightarrow> k \<le> n \<and> bitAt bs (8 * length bs - 1 - n)"
        using assms(2) assms(3) [of "8 * length bs - 1 - n"] by auto
      then show ?thesis using True assms(1)
        by (auto simp: bit_val_rev [of ms] bit_val_rev [of bs] bit_push_bit_iff_nat bit_drop_bit_eq)
    qed (use assms(1) in \<open>auto simp: bit_val_rev bit_push_bit_iff_nat bit_drop_bit_eq\<close>)
  qed
  then show ?thesis by (simp add: push_bit_eq_mult drop_bit_eq_div)
qed

lemma val_filled:
  assumes "length ms = length bs" "k \<le> 8 * length bs"
    and "\<And>j. j < 8 * length bs \<Longrightarrow> bitAt ms j \<longleftrightarrow> 8 * length bs - k \<le> j \<or> bitAt bs j"
  shows "val ms = val bs div 2 ^ k * 2 ^ k + (2 ^ k - 1)"
proof -
  have "val ms = push_bit k (drop_bit k (val bs)) OR mask k"
  proof (rule bit_eqI)
    fix n
    show "bit (val ms) n = bit (push_bit k (drop_bit k (val bs)) OR mask k) n"
    proof (cases "n < 8 * length bs")
      case True
      then have "bitAt ms (8 * length bs - 1 - n) \<longleftrightarrow> n < k \<or> bitAt bs (8 * length bs - 1 - n)"
        using assms(2) assms(3) [of "8 * length bs - 1 - n"] by auto
      then show ?thesis using True assms(1)
        by (auto simp: bit_val_rev [of ms] bit_val_rev [of bs] bit_push_bit_iff_nat bit_drop_bit_eq bit_or_iff bit_mask_iff)
    qed (use assms(1,2) in \<open>auto simp: bit_val_rev bit_push_bit_iff_nat bit_drop_bit_eq bit_or_iff bit_mask_iff\<close>)
  qed
  also have "\<dots> = push_bit k (drop_bit k (val bs)) + mask k"
    by (rule disjunctive_add_eq_or [symmetric], rule bit_eqI) (auto simp: bit_and_iff bit_push_bit_iff_nat bit_mask_iff)
  finally show ?thesis by (simp add: push_bit_eq_mult drop_bit_eq_div mask_eq_exp_minus_1)
qed

text \<open>The first and the last address of a prefix.\<close>

lemma masked_start:
  assumes "wf_prefix p" "prefixIsValid p"
  shows "wf_addr (pAddr (masked p)) \<and> addrIsValid (pAddr (masked p)) \<and>
    val (as16 (pAddr (masked p))) = val (as16 (pAddr p)) div 2 ^ hostBits p * 2 ^ hostBits p"
proof (cases "pAddr p")
  case NoAddr
  then show ?thesis using assms by (auto simp: wf_prefix_def prefixIsValid_def)
next
  case (Addr4 b)
  let ?n = "nat (pBits p)"
  have w: "length b = 4" "0 \<le> pBits p" "pBits p \<le> 32" using assms Addr4 by (auto simp: wf_prefix_def prefixIsValid_def)
  have lv: "length v4mapped = 12" by (simp add: v4mapped_def)
  have m: "pAddr (masked p) = Addr4 (maskBytes ?n b)" using w Addr4 by (simp add: masked_def prefixFrom_def)
  have "val (v4mapped @ maskBytes ?n b) = val (v4mapped @ b) div 2 ^ hostBits p * 2 ^ hostBits p"
    by (rule val_masked) (use w lv Addr4 in \<open>auto simp: bitAt_append bitAt_maskBytes hostBits_def\<close>)
  then show ?thesis using w m Addr4 by (simp add: addrIsValid_def)
next
  case (Addr6 b z)
  let ?n = "nat (pBits p)"
  have w: "length b = 16" "0 \<le> pBits p" "pBits p \<le> 128" using assms Addr6 by (auto simp: wf_prefix_def prefixIsValid_def)
  have m: "pAddr (masked p) = Addr6 (maskBytes ?n b) []" using w Addr6 by (simp add: masked_def prefixFrom_def)
  have "val (maskBytes ?n b) = val b div 2 ^ hostBits p * 2 ^ hostBits p"
    by (rule val_masked) (use w Addr6 in \<open>auto simp: bitAt_maskBytes hostBits_def\<close>)
  then show ?thesis using w m Addr6 by (simp add: addrIsValid_def)
qed

lemma lastIP_end:
  assumes "wf_prefix p" "prefixIsValid p"
  shows "wf_addr (lastIP p) \<and> addrIsValid (lastIP p) \<and>
    val (as16 (lastIP p)) = val (as16 (pAddr p)) div 2 ^ hostBits p * 2 ^ hostBits p + (2 ^ hostBits p - 1)"
proof (cases "pAddr p")
  case NoAddr
  then show ?thesis using assms by (auto simp: wf_prefix_def prefixIsValid_def)
next
  case (Addr4 b)
  let ?n = "nat (pBits p)" and ?v = "v4mapped @ b"
  let ?r = "setBits 12 ?n 32 ?v"
  have w: "length b = 4" "0 \<le> pBits p" "pBits p \<le> 32" using assms Addr4 by (auto simp: wf_prefix_def prefixIsValid_def)
  have lv: "length ?v = 16" "length v4mapped = 12" using w by (simp_all add: v4mapped_def)
  have r: "length ?r = 16" "\<And>j. j < 128 \<Longrightarrow> bitAt ?r j \<longleftrightarrow> 96 + ?n \<le> j \<or> bitAt ?v j"
    using setBits_spec [of 32 ?v 12 ?n] lv by auto
  have t: "take 12 ?r = v4mapped"
  proof (rule bytes_eqI)
    fix j assume j: "j < 8 * length (take 12 ?r)"
    then have "bitAt (take 12 ?r @ drop 12 ?r) j = bitAt (take 12 ?r) j" "bitAt ?v j = bitAt v4mapped j" "j < 96"
      using r(1) lv unfolding bitAt_append by simp_all
    then show "bitAt (take 12 ?r) j = bitAt v4mapped j" using r(2) [of j] by simp
  qed (use r lv in simp)
  have l: "lastIP p = Addr4 (drop 12 ?r)" using t Addr4 assms(2) by (simp add: lastIP_def Let_def)
  have a: "as16 (lastIP p) = ?r" using l t append_take_drop_id [of 12 ?r] by simp
  have "val ?r = val ?v div 2 ^ hostBits p * 2 ^ hostBits p + (2 ^ hostBits p - 1)"
    by (rule val_filled) (use w Addr4 r lv in \<open>auto simp: hostBits_def\<close>)
  then show ?thesis using a l r(1) Addr4 by (simp add: addrIsValid_def)
next
  case (Addr6 b z)
  let ?n = "nat (pBits p)" let ?r = "setBits 0 ?n 128 b"
  have w: "length b = 16" "0 \<le> pBits p" "pBits p \<le> 128" using assms Addr6 by (auto simp: wf_prefix_def prefixIsValid_def)
  have r: "length ?r = 16" "\<And>j. j < 128 \<Longrightarrow> bitAt ?r j \<longleftrightarrow> ?n \<le> j \<or> bitAt b j"
    using setBits_spec [of 128 b 0 ?n] w by auto
  have l: "lastIP p = Addr6 ?r []" using Addr6 assms(2) by (simp add: lastIP_def Let_def)
  have "val ?r = val b div 2 ^ hostBits p * 2 ^ hostBits p + (2 ^ hostBits p - 1)"
    by (rule val_filled) (use w Addr6 r in \<open>auto simp: hostBits_def\<close>)
  then show ?thesis using l r(1) Addr6 by (simp add: addrIsValid_def)
qed

lemma prefix_range:
  assumes "wf_prefix p" "prefixIsValid p" "wf_addr a"
  shows "addr2Ipv6 (pAddr (masked p)) \<le> addr2Ipv6 a \<and> addr2Ipv6 a \<le> addr2Ipv6 (lastIP p) \<longleftrightarrow> inPrefix p a"
proof -
  let ?k = "hostBits p" and ?v = "val (as16 (pAddr p))" and ?x = "val (as16 a)"
  have "addr2Ipv6 (pAddr (masked p)) \<le> addr2Ipv6 a \<and> addr2Ipv6 a \<le> addr2Ipv6 (lastIP p) \<longleftrightarrow>
      ?v div 2 ^ ?k * 2 ^ ?k \<le> ?x \<and> ?x \<le> ?v div 2 ^ ?k * 2 ^ ?k + (2 ^ ?k - 1)"
    using masked_start [OF assms(1,2)] lastIP_end [OF assms(1,2)] assms(3)
    by (simp add: ipNum_addr2Ipv6 flip: ipNum_le)
  also have "\<dots> \<longleftrightarrow> ?v div 2 ^ ?k * 2 ^ ?k \<le> ?x \<and> ?x < ?v div 2 ^ ?k * 2 ^ ?k + 2 ^ ?k"
    using gr0_conv_Suc [of "2 ^ ?k :: nat"] by auto
  also have "\<dots> \<longleftrightarrow> ?x div 2 ^ ?k = ?v div 2 ^ ?k" by (rule between_block) simp
  finally show ?thesis by (simp add: inPrefix_def drop_bit_eq_div)
qed

lemma prefix_range_valid:
  assumes "wf_prefix p" "prefixIsValid p"
  shows "addr2Ipv6 (pAddr (masked p)) \<le> addr2Ipv6 (lastIP p)"
  unfolding ipNum_le [symmetric] using masked_start [OF assms] lastIP_end [OF assms]
  by (metis ipNum_addr2Ipv6 le_add1)

end
