(* ===== verification/IpSet.thy ===== *)
theory IpSet
  imports IpAddr DomainMatcher DnsMsg
begin

text \<open>
  The files of address ranges: IP sets (\<^verbatim>\<open>app/router/ip_set.go\<close>), the zones of client subnets
  (\<^verbatim>\<open>internal/ipmarker\<close>, \<^verbatim>\<open>app/router/ecs_zone.go\<close>), and the look-ups over the files of a group.
  Parsing an address or a prefix is left to two functions of \<^verbatim>\<open>net/netip\<close>, which are parameters.
\<close>

section \<open>Look-ups by address\<close>

definition lookupAddr :: "'v ipRange list \<Rightarrow> Addr \<Rightarrow> 'v option" where
  "lookupAddr l a = (if \<not> addrIsValid a then None else listLookup l (addr2Ipv6 a))"

definition listAdd :: "'v ipRange list \<Rightarrow> Addr \<Rightarrow> Addr \<Rightarrow> 'v \<Rightarrow> 'v ipRange list option" where
  "listAdd b start end v =
    (if \<not> addrIsValid start \<or> \<not> addrIsValid end then None else builderAdd b (addr2Ipv6 start) (addr2Ipv6 end) v)"

datatype ipErr =
    ErrInvalidCIDR nat | ErrInvalidRange nat | ErrOverlapped | ErrScanner
  | ErrFirstComma | ErrSecondComma | ErrStartAddr | ErrEndAddr | ErrRange
  | ErrMissingComma | ErrInvalidEcs | ErrDupMark bytes | ErrAtLine nat ipErr

section \<open>Files of prefixes\<close>

fun parseCIDRLines :: "(bytes \<Rightarrow> Prefix option) \<Rightarrow> nat \<Rightarrow> bytes list \<Rightarrow> unit ipRange list \<Rightarrow>
    (ipErr, unit ipRange list) res" where
  "parseCIDRLines parsePrefix line [] lb = Inr lb"
| "parseCIDRLines parsePrefix line (b # bs) lb =
    (let s = stripComment b in
     if s = [] then parseCIDRLines parsePrefix (line + 1) bs lb
     else case parsePrefix s of
       None \<Rightarrow> Inl (Err (ErrInvalidCIDR (line + 1)))
     | Some p \<Rightarrow> (case listAdd lb (pAddr (masked p)) (lastIP p) () of
         None \<Rightarrow> Inl (Err (ErrInvalidRange (line + 1)))
       | Some lb \<Rightarrow> parseCIDRLines parsePrefix (line + 1) bs lb))"

definition buildList :: "'v ipRange list \<Rightarrow> (ipErr, 'v ipRange list) res" where
  "buildList lb = (case builderBuild lb of Inl _ \<Rightarrow> Inl (Err ErrOverlapped) | Inr l \<Rightarrow> Inr l)"

definition parseCIDRFile :: "(bytes \<Rightarrow> Prefix option) \<Rightarrow> bytes list \<Rightarrow> bool \<Rightarrow> (ipErr, unit ipRange list) res" where
  "parseCIDRFile parsePrefix ls scanErr =
    thenE (parseCIDRLines parsePrefix 0 ls []) (\<lambda>lb. if scanErr then Inl (Err ErrScanner) else buildList lb)"

text \<open>The files of a group are asked in turn; the first that knows the answer gives it.\<close>

fun firstMatch :: "('l \<Rightarrow> 'q \<Rightarrow> 'a option) \<Rightarrow> 'l list \<Rightarrow> 'q \<Rightarrow> 'a option" where
  "firstMatch get [] q = None"
| "firstMatch get (l # ls) q = (case get l q of Some a \<Rightarrow> Some a | None \<Rightarrow> firstMatch get ls q)"

definition matchAddr :: "unit ipRange list list \<Rightarrow> Addr \<Rightarrow> bool" where
  "matchAddr g a \<longleftrightarrow> firstMatch lookupAddr g a \<noteq> None"

fun matchRR :: "unit ipRange list list \<Rightarrow> Resource \<Rightarrow> bool" where
  "matchRR g (A_rr h a) = matchAddr g (Addr4 a)"
| "matchRR g (AAAA_rr h a) = matchAddr g (unmap (Addr6 a []))"
| "matchRR g _ = False"

definition matchMsg :: "unit ipRange list list \<Rightarrow> Msg option \<Rightarrow> bool" where
  "matchMsg g resp = (case resp of None \<Rightarrow> False | Some m \<Rightarrow> list_ex (matchRR g) (Answers m))"

section \<open>Files of marked ranges\<close>

record IpMarker =
  imL :: "nat ipRange list"
  imMarks :: "bytes list"

definition ipMark :: "IpMarker \<Rightarrow> Addr \<Rightarrow> (ipErr, bytes option) res" where
  "ipMark m a =
    (if \<not> addrIsValid a then Inr None
     else case lookupAddr (imL m) a of
       None \<Rightarrow> Inr None
     | Some idx \<Rightarrow> if idx < length (imMarks m) then Inr (Some (imMarks m ! idx)) else Inl Panic)"

definition cut :: "bytes \<Rightarrow> u8 \<Rightarrow> bytes \<times> bytes \<times> bool" where
  "cut s c = (case indexByte c s of Some i \<Rightarrow> (take i s, drop (i + 1) s, True) | None \<Rightarrow> (s, [], False))"

record markState =
  msList :: "nat ipRange list"
  msIdx :: "bytes \<rightharpoonup> nat"
  msLabels :: "bytes list"

definition parseMarkLine :: "(bytes \<Rightarrow> Addr option) \<Rightarrow> bytes \<Rightarrow> markState \<Rightarrow> (ipErr, markState) res" where
  "parseMarkLine parseAddr b st =
    (let (t, b, ok) = cut b 44 in
     if \<not> ok then Inl (Err ErrFirstComma)
     else case parseAddr t of None \<Rightarrow> Inl (Err ErrStartAddr) | Some start \<Rightarrow>
     let (t, b, ok) = cut b 44 in
     if \<not> ok then Inl (Err ErrSecondComma)
     else case parseAddr t of None \<Rightarrow> Inl (Err ErrEndAddr) | Some end \<Rightarrow>
     let (idx, st) = (case msIdx st b of
         Some idx \<Rightarrow> (idx, st)
       | None \<Rightarrow> let labels = msLabels st @ [b]; idx = length labels - 1 in
           (idx, st\<lparr>msLabels := labels, msIdx := (msIdx st)(b \<mapsto> idx)\<rparr>)) in
     case listAdd (msList st) start end idx of
       None \<Rightarrow> Inl (Err ErrRange) | Some l \<Rightarrow> Inr (st\<lparr>msList := l\<rparr>))"

text \<open>Both loaders of \<^verbatim>\<open>ipmarker\<close> go over the lines in the same way.\<close>

fun foldLines :: "(bytes \<Rightarrow> 's \<Rightarrow> (ipErr, 's) res) \<Rightarrow> nat \<Rightarrow> bytes list \<Rightarrow> 's \<Rightarrow> (ipErr, 's) res" where
  "foldLines f line [] st = Inr st"
| "foldLines f line (b # bs) st =
    (let s = trimSpace (fst (cut b 35)) in
     if s = [] then foldLines f (line + 1) bs st
     else thenE (wrapE (ErrAtLine (line + 1)) (f s st)) (foldLines f (line + 1) bs))"

definition loadIpMarker :: "(bytes \<Rightarrow> Addr option) \<Rightarrow> bytes list \<Rightarrow> bool \<Rightarrow> (ipErr, IpMarker) res" where
  "loadIpMarker parseAddr ls scanErr =
    thenE (foldLines (parseMarkLine parseAddr) 0 ls \<lparr>msList = [], msIdx = Map.empty, msLabels = []\<rparr>) (\<lambda>st.
      if scanErr then Inl (Err ErrScanner)
      else thenE (buildList (msList st)) (\<lambda>l. Inr \<lparr>imL = l, imMarks = msLabels st\<rparr>))"

section \<open>Files of marked prefixes\<close>

definition parsePrefixLine :: "(bytes \<Rightarrow> Prefix option) \<Rightarrow> bytes \<Rightarrow> (bytes \<rightharpoonup> Prefix) \<Rightarrow> (ipErr, bytes \<rightharpoonup> Prefix) res" where
  "parsePrefixLine parsePrefix b m =
    (let (mk, addrS, ok) = cut b 44 in
     if \<not> ok then Inl (Err ErrMissingComma)
     else case (if addrS = [45] then Some noPrefix else parsePrefix addrS) of
       None \<Rightarrow> Inl (Err ErrInvalidEcs)
     | Some p \<Rightarrow> if mk \<in> dom m then Inl (Err (ErrDupMark mk)) else Inr (m(mk \<mapsto> p)))"

definition loadMark2Prefix :: "(bytes \<Rightarrow> Prefix option) \<Rightarrow> bytes list \<Rightarrow> bool \<Rightarrow> (ipErr, bytes \<rightharpoonup> Prefix) res" where
  "loadMark2Prefix parsePrefix ls scanErr =
    thenE (foldLines (parsePrefixLine parsePrefix) 0 ls Map.empty) (\<lambda>m.
      if scanErr then Inl (Err ErrScanner) else Inr m)"

text \<open>The zone of an address, and the subnet a zone is overwritten with.\<close>

fun zoneMark :: "IpMarker list \<Rightarrow> Addr \<Rightarrow> (ipErr, bytes option) res" where
  "zoneMark [] a = Inr None"
| "zoneMark (m # ms) a = thenE (ipMark m a) (\<lambda>r. case r of Some s \<Rightarrow> Inr (Some s) | None \<Rightarrow> zoneMark ms a)"

definition overwriteGet :: "(bytes \<rightharpoonup> Prefix) option list \<Rightarrow> bytes \<Rightarrow> Prefix option" where
  "overwriteGet g z = firstMatch (\<lambda>m z. case m of None \<Rightarrow> None | Some m \<Rightarrow> m z) g z"

section \<open>Files of ranges are look-ups\<close>

text \<open>The first element of a list of one kind that no element of another kind comes before.\<close>

lemma split_first: "(\<exists>us k vs. l # ls = us @ k # vs \<and> P k \<and> (\<forall>u \<in> set us. \<not> Q u)) \<longleftrightarrow>
    P l \<or> \<not> Q l \<and> (\<exists>us k vs. ls = us @ k # vs \<and> P k \<and> (\<forall>u \<in> set us. \<not> Q u))" (is "?l \<longleftrightarrow> ?r")
proof
  assume ?l
  then obtain us k vs where u: "l # ls = us @ k # vs" "P k" "\<forall>u \<in> set us. \<not> Q u" by blast
  then show ?r by (cases us) auto
next
  assume ?r
  then show ?l
  proof (elim disjE conjE exE)
    assume "P l"
    then show ?l by (intro exI [of _ "[]"] exI [of _ l] exI [of _ ls]) simp
  next
    fix us k vs assume "\<not> Q l" "ls = us @ k # vs" "P k" "\<forall>u \<in> set us. \<not> Q u"
    then show ?l by (intro exI [of _ "l # us"] exI [of _ k] exI [of _ vs]) simp
  qed
qed

text \<open>A loaded file as the groups use it: a look-up that agrees with a relation while the file is good.\<close>

locale keyed_file =
  fixes get :: "'l \<Rightarrow> 'q \<Rightarrow> 'a option"
    and good :: "'l \<Rightarrow> bool"
    and rel :: "'l \<Rightarrow> 'q \<Rightarrow> 'a \<Rightarrow> bool"
  assumes get_rel: "good l \<Longrightarrow> get l q = Some a \<longleftrightarrow> rel l q a"
begin

lemma get_None: "good l \<Longrightarrow> get l q = None \<longleftrightarrow> (\<forall>a. \<not> rel l q a)"
  using get_rel by (metis not_None_eq)

lemma firstMatch_Some:
  "\<forall>l \<in> set ls. good l \<Longrightarrow> firstMatch get ls q = Some a \<longleftrightarrow>
    (\<exists>us l vs. ls = us @ l # vs \<and> rel l q a \<and> (\<forall>u \<in> set us. \<not> (\<exists>b. rel u q b)))"
proof (induction ls)
  case (Cons l ls)
  have l: "get l q = Some b \<longleftrightarrow> rel l q b" for b using get_rel Cons.prems by simp
  show ?case unfolding split_first
    using l [of a] get_None [of l q] Cons by (cases "get l q") (auto simp flip: l)
qed simp

lemma firstMatch_any: "\<forall>l \<in> set ls. good l \<Longrightarrow> firstMatch get ls q \<noteq> None \<longleftrightarrow> (\<exists>l \<in> set ls. \<exists>a. rel l q a)"
proof (induction ls)
  case (Cons l ls)
  then show ?case using get_rel [of l q] by (cases "get l q") auto
qed simp

end

definition rangeAt :: "'v ipRange list \<Rightarrow> Addr \<Rightarrow> 'v \<Rightarrow> bool" where
  "rangeAt l a v \<longleftrightarrow> addrIsValid a \<and> (\<exists>r \<in> set l. inRange r (addr2Ipv6 a) \<and> irV r = v)"

interpretation ranges: keyed_file lookupAddr separated rangeAt
  by unfold_locales (simp add: lookupAddr_def rangeAt_def lookup_separated)

interpretation overwrites: keyed_file "\<lambda>m z. case m of None \<Rightarrow> None | Some m \<Rightarrow> m z" "\<lambda>_. True"
    "\<lambda>m z p. \<exists>f. m = Some f \<and> f z = Some p"
  by unfold_locales (auto split: option.splits)

lemma listAdd_Some:
  "listAdd b s e v = Some b' \<longleftrightarrow> addrIsValid s \<and> addrIsValid e \<and> addr2Ipv6 s \<le> addr2Ipv6 e \<and>
    b' = b @ [\<lparr>irV = v, irStart = addr2Ipv6 s, irEnd = addr2Ipv6 e\<rparr>]"
  by (auto simp: listAdd_def builderAdd_def)

lemma buildList_good: "buildList b = Inr l \<Longrightarrow> valid_ranges b \<Longrightarrow> separated l \<and> set l = set b"
  using build_separated by (auto simp: buildList_def split: sum.splits)

section \<open>What the files say\<close>

text \<open>What the parsers of the library return: addresses and prefixes with their bytes.\<close>

definition addr_parser :: "(bytes \<Rightarrow> Addr option) \<Rightarrow> bool" where
  "addr_parser f \<longleftrightarrow> (\<forall>s a. f s = Some a \<longrightarrow> wf_addr a \<and> addrIsValid a)"

definition prefix_parser :: "(bytes \<Rightarrow> Prefix option) \<Rightarrow> bool" where
  "prefix_parser f \<longleftrightarrow> (\<forall>s p. f s = Some p \<longrightarrow> wf_prefix p \<and> prefixIsValid p)"

lemma parseCIDRLines_spec:
  assumes "prefix_parser pp"
  shows "parseCIDRLines pp line ls lb = Inr lb' \<Longrightarrow> valid_ranges lb \<Longrightarrow> wf_addr a \<Longrightarrow>
    valid_ranges lb' \<and> ((\<exists>r \<in> set lb'. inRange r (addr2Ipv6 a)) \<longleftrightarrow>
      (\<exists>r \<in> set lb. inRange r (addr2Ipv6 a)) \<or> (\<exists>s \<in> set (ruleLines ls). \<exists>p. pp s = Some p \<and> inPrefix p a))"
proof (induction ls arbitrary: line lb)
  case (Cons b bs)
  show ?case
  proof (cases "stripComment b = []")
    case True
    then show ?thesis using Cons.IH [of "line + 1" lb] Cons.prems by (simp add: ruleLines_def)
  next
    case False
    obtain p where p: "pp (stripComment b) = Some p" using Cons.prems(1) False by (auto simp: Let_def split: option.splits)
    then have w: "wf_prefix p" "prefixIsValid p" using assms by (auto simp: prefix_parser_def)
    let ?r = "\<lparr>irV = (), irStart = addr2Ipv6 (pAddr (masked p)), irEnd = addr2Ipv6 (lastIP p)\<rparr>"
    have r: "parseCIDRLines pp (line + 1) bs (lb @ [?r]) = Inr lb'"
      using Cons.prems(1) False p by (auto simp: Let_def listAdd_Some split: option.splits)
    have i: "inRange ?r (addr2Ipv6 a) \<longleftrightarrow> inPrefix p a"
      using prefix_range [OF w Cons.prems(3)] by (simp add: inRange_def)
    have "valid_ranges (lb @ [?r])" using Cons.prems(2) prefix_range_valid [OF w] by (auto simp: valid_ranges_def)
    from Cons.IH [OF r this Cons.prems(3)] show ?thesis using i p False by (auto simp: ruleLines_def)
  qed
qed (simp add: ruleLines_def)

lemma parseCIDRFile_spec:
  assumes "prefix_parser pp" "parseCIDRFile pp ls se = Inr l" "wf_addr a"
  shows "separated l \<and> (rangeAt l a () \<longleftrightarrow> addrIsValid a \<and> (\<exists>s \<in> set (ruleLines ls). \<exists>p. pp s = Some p \<and> inPrefix p a))"
proof -
  obtain lb where lb: "parseCIDRLines pp 0 ls [] = Inr lb" "buildList lb = Inr l"
    using assms(2) by (auto simp: parseCIDRFile_def res_simps split: if_splits)
  from parseCIDRLines_spec [OF assms(1) lb(1) _ assms(3)] buildList_good [OF lb(2)]
  show ?thesis by (auto simp: valid_ranges_def rangeAt_def)
qed

text \<open>A line of a file of marked ranges, and what the builder holds of the lines read.\<close>

definition markOf :: "(bytes \<Rightarrow> Addr option) \<Rightarrow> bytes \<Rightarrow> Ipv6 \<times> Ipv6 \<times> bytes" where
  "markOf parseAddr s =
    (let (t, b, _) = cut s 44; (u, mk, _) = cut b 44 in
     (addr2Ipv6 (the (parseAddr t)), addr2Ipv6 (the (parseAddr u)), mk))"

definition mark_inv :: "markState \<Rightarrow> bool" where
  "mark_inv st \<longleftrightarrow> valid_ranges (msList st) \<and> (\<forall>r \<in> set (msList st). irV r < length (msLabels st)) \<and>
    (\<forall>b i. msIdx st b = Some i \<longrightarrow> i < length (msLabels st) \<and> msLabels st ! i = b)"

definition rangeMark :: "bytes list \<Rightarrow> nat ipRange \<Rightarrow> Ipv6 \<times> Ipv6 \<times> bytes" where
  "rangeMark labels r = (irStart r, irEnd r, labels ! irV r)"

lemma parseMarkLine_spec:
  assumes "parseMarkLine pa s st = Inr st'" "mark_inv st"
  shows "mark_inv st' \<and> map (rangeMark (msLabels st')) (msList st') = map (rangeMark (msLabels st)) (msList st) @ [markOf pa s]"
proof -
  obtain t b u mk where c: "cut s 44 = (t, b, True)" "cut b 44 = (u, mk, True)"
    using assms(1) by (auto simp: parseMarkLine_def Let_def split: prod.splits if_splits option.splits)
  obtain x y where a: "pa t = Some x" "pa u = Some y"
    using assms(1) c by (auto simp: parseMarkLine_def Let_def split: if_splits option.splits)
  show ?thesis
  proof (cases "msIdx st mk")
    case None
    then have st': "addr2Ipv6 x \<le> addr2Ipv6 y"
      "st' = st\<lparr>msLabels := msLabels st @ [mk], msIdx := (msIdx st)(mk \<mapsto> length (msLabels st)),
        msList := msList st @ [\<lparr>irV = length (msLabels st), irStart = addr2Ipv6 x, irEnd = addr2Ipv6 y\<rparr>]\<rparr>"
      using assms(1) c a by (auto simp: parseMarkLine_def Let_def listAdd_Some split: option.splits)
    have "\<forall>r \<in> set (msList st). rangeMark (msLabels st @ [mk]) r = rangeMark (msLabels st) r"
      using assms(2) by (auto simp: mark_inv_def rangeMark_def nth_append)
    then show ?thesis using st' assms(2) c a
      by (auto simp: mark_inv_def valid_ranges_def markOf_def rangeMark_def nth_append less_Suc_eq)
  next
    case (Some i)
    then have "addr2Ipv6 x \<le> addr2Ipv6 y"
      "st' = st\<lparr>msList := msList st @ [\<lparr>irV = i, irStart = addr2Ipv6 x, irEnd = addr2Ipv6 y\<rparr>]\<rparr>"
      using assms(1) c a by (auto simp: parseMarkLine_def Let_def listAdd_Some split: option.splits)
    then show ?thesis using Some assms(2) c a by (auto simp: mark_inv_def valid_ranges_def markOf_def rangeMark_def)
  qed
qed

lemma cut_hash: "trimSpace (fst (cut b 35)) = stripComment b"
  by (simp add: cut_def stripComment_def split: option.splits)

lemma foldLines_foldE: "foldLines f line ls st = Inr st' \<Longrightarrow> foldE f (ruleLines ls) st = Inr st'"
proof (induction ls arbitrary: line st)
  case (Cons b bs)
  then show ?case by (cases "stripComment b = []") (auto simp: ruleLines_def cut_hash Let_def res_simps)
qed (simp add: ruleLines_def)

lemma foldMarkLines_spec:
  "foldE (parseMarkLine pa) ss st = Inr st' \<Longrightarrow> mark_inv st \<Longrightarrow>
    mark_inv st' \<and> map (rangeMark (msLabels st')) (msList st') = map (rangeMark (msLabels st)) (msList st) @ map (markOf pa) ss"
proof (induction ss arbitrary: st)
  case (Cons s ss)
  then obtain st1 where "parseMarkLine pa s st = Inr st1" "foldE (parseMarkLine pa) ss st1 = Inr st'" by (auto simp: res_simps)
  with parseMarkLine_spec [of pa s st st1] Cons show ?case by fastforce
qed simp

lemma loadIpMarker_spec:
  assumes "loadIpMarker pa ls se = Inr m"
  shows "separated (imL m) \<and> (\<forall>r \<in> set (imL m). irV r < length (imMarks m)) \<and>
    rangeMark (imMarks m) ` set (imL m) = markOf pa ` set (ruleLines ls)"
proof -
  let ?s0 = "\<lparr>msList = [], msIdx = Map.empty, msLabels = []\<rparr> :: markState"
  obtain st where st: "foldE (parseMarkLine pa) (ruleLines ls) ?s0 = Inr st" "buildList (msList st) = Inr (imL m)"
    "imMarks m = msLabels st"
    using assms foldLines_foldE by (fastforce simp: loadIpMarker_def res_simps split: if_splits)
  have "mark_inv ?s0" by (simp add: mark_inv_def valid_ranges_def)
  from foldMarkLines_spec [OF st(1) this] have i: "mark_inv st"
    "map (rangeMark (msLabels st)) (msList st) = map (markOf pa) (ruleLines ls)" by simp_all
  from i(2) have "rangeMark (msLabels st) ` set (msList st) = markOf pa ` set (ruleLines ls)" by (metis list.set_map)
  then show ?thesis using i(1) buildList_good [OF st(2)] st(3) by (simp add: mark_inv_def)
qed

text \<open>What a line of a file of marked prefixes says.\<close>

definition says :: "(bytes \<Rightarrow> Prefix option) \<Rightarrow> bytes \<Rightarrow> bytes \<Rightarrow> Prefix \<Rightarrow> bool" where
  "says pp s mk p \<longleftrightarrow> (\<exists>r. cut s 44 = (mk, r, True) \<and> (if r = [45] then p = noPrefix else pp r = Some p))"

lemma foldPrefixLines_spec:
  "foldE (parsePrefixLine pp) ss m = Inr m' \<Longrightarrow> m' z = Some p \<longleftrightarrow> m z = Some p \<or> (\<exists>s \<in> set ss. says pp s z p)"
proof (induction ss arbitrary: m)
  case (Cons s ss)
  then obtain m1 where m1: "parsePrefixLine pp s m = Inr m1" "foldE (parsePrefixLine pp) ss m1 = Inr m'" by (auto simp: res_simps)
  obtain mk r q where c: "cut s 44 = (mk, r, True)" "(if r = [45] then Some noPrefix else pp r) = Some q" "mk \<notin> dom m"
    "m1 = m(mk \<mapsto> q)"
    using m1(1) by (auto simp: parsePrefixLine_def Let_def split: prod.splits if_splits option.splits)
  then have "m1 z = Some p \<longleftrightarrow> m z = Some p \<or> says pp s z p"
    by (auto simp: says_def split: if_splits)
  then show ?case using Cons.IH [OF m1(2)] by auto
qed simp

lemma loadMark2Prefix_spec:
  assumes "loadMark2Prefix pp ls False = Inr m"
  shows "m z = Some p \<longleftrightarrow> (\<exists>s \<in> set (ruleLines ls). says pp s z p)"
proof -
  have "foldE (parsePrefixLine pp) (ruleLines ls) Map.empty = Inr m"
    using assms foldLines_foldE by (fastforce simp: loadMark2Prefix_def res_simps)
  from foldPrefixLines_spec [OF this] show ?thesis by simp
qed

section \<open>Properties\<close>

text \<open>Building a list of ranges succeeds exactly if no two ranges share an address, and then the binary
  search finds the value of the range an address is in, and nothing for an address in no range.\<close>

theorem build_lookup:
  assumes "valid_ranges b"
  shows "case builderBuild b of
      Inl _ \<Rightarrow> some_overlap b
    | Inr l \<Rightarrow> \<not> some_overlap b \<and> (\<forall>ip v. listLookup l ip = Some v \<longleftrightarrow> (\<exists>r \<in> set b. inRange r ip \<and> irV r = v))"
  using build_error [OF assms] build_separated [OF _ assms] lookup_separated by (fastforce split: sum.splits)

theorem build_lookup_witness:
  "listLookup [\<lparr>irV = 1 :: nat, irStart = Ipv6 0 3, irEnd = Ipv6 0 5\<rparr>, \<lparr>irV = 2, irStart = Ipv6 0 7, irEnd = Ipv6 1 0\<rparr>] (Ipv6 0 9) =
    Some 2"
proof -
  let ?a = "\<lparr>irV = 1 :: nat, irStart = Ipv6 0 3, irEnd = Ipv6 0 5\<rparr>"
  let ?b = "\<lparr>irV = 2, irStart = Ipv6 0 7, irEnd = Ipv6 1 0\<rparr>"
  have v: "valid_ranges [?b, ?a]" by (simp add: valid_ranges_def less_eq_Ipv6_def ipCmp_def)
  have "sort_key irStart [?b, ?a] = [?a, ?b]" by (simp add: less_eq_Ipv6_def ipCmp_def)
  then have "builderBuild [?b, ?a] = Inr [?a, ?b]" by (simp add: builderBuild_def Let_def less_eq_Ipv6_def ipCmp_def)
  then show ?thesis using build_lookup [OF v] by (auto simp: inRange_def less_eq_Ipv6_def ipCmp_def)
qed

text \<open>C11: A response matches an IP set exactly if the address of one of its A or AAAA records, an IPv4 address in its mapped
  form included, agrees on the leading bits with one of the prefixes in the files of the set.\<close>

theorem ip_set_matches:
  assumes "prefix_parser pp" "list_all2 (\<lambda>ls l. parseCIDRFile pp ls False = Inr l) files g"
    and "\<forall>rr \<in> set (Answers m). case rr of A_rr _ a \<Rightarrow> length a = 4 | AAAA_rr _ a \<Rightarrow> length a = 16 | _ \<Rightarrow> True"
  shows "matchMsg g (Some m) \<longleftrightarrow> (\<exists>rr \<in> set (Answers m). \<exists>ls \<in> set files. \<exists>s \<in> set (ruleLines ls). \<exists>p. pp s = Some p \<and>
    (case rr of A_rr _ a \<Rightarrow> inPrefix p (Addr4 a) | AAAA_rr _ a \<Rightarrow> inPrefix p (unmap (Addr6 a [])) | _ \<Rightarrow> False))"
proof -
  have g1: "\<forall>l \<in> set g. \<exists>ls \<in> set files. parseCIDRFile pp ls False = Inr l"
    and g2: "\<forall>ls \<in> set files. \<exists>l \<in> set g. parseCIDRFile pp ls False = Inr l"
    using assms(2) by (induction rule: list_all2_induct) auto
  have good: "\<forall>l \<in> set g. separated l"
  proof
    fix l assume "l \<in> set g"
    then obtain ls where "parseCIDRFile pp ls False = Inr l" using g1 by blast
    then show "separated l" using parseCIDRFile_spec [OF assms(1), of ls False l NoAddr] by simp
  qed
  have m: "matchAddr g a \<longleftrightarrow> (\<exists>ls \<in> set files. \<exists>s \<in> set (ruleLines ls). \<exists>p. pp s = Some p \<and> inPrefix p a)"
    if "wf_addr a" "addrIsValid a" for a
  proof -
    have "rangeAt l a u \<longleftrightarrow> (\<exists>s \<in> set (ruleLines ls). \<exists>p. pp s = Some p \<and> inPrefix p a)"
      if "parseCIDRFile pp ls False = Inr l" for ls l u
      using parseCIDRFile_spec [OF assms(1) that \<open>wf_addr a\<close>] \<open>addrIsValid a\<close> by simp
    then show ?thesis unfolding matchAddr_def ranges.firstMatch_any [OF good] using g1 g2 by blast
  qed
  have "matchRR g rr \<longleftrightarrow> (\<exists>ls \<in> set files. \<exists>s \<in> set (ruleLines ls). \<exists>p. pp s = Some p \<and>
      (case rr of A_rr _ a \<Rightarrow> inPrefix p (Addr4 a) | AAAA_rr _ a \<Rightarrow> inPrefix p (unmap (Addr6 a [])) | _ \<Rightarrow> False))"
    if "rr \<in> set (Answers m)" for rr
    using assms(3) that m by (cases rr) (fastforce simp: addrIsValid_def)+
  then show ?thesis by (auto simp: matchMsg_def list_ex_iff)
qed

definition netParser :: "bytes \<Rightarrow> Prefix option" where
  "netParser s = (if s = [49] then Some \<lparr>pAddr = Addr4 [10, 0, 0, 0], pBits = 8\<rparr> else None)"

lemma netParser_ok: "prefix_parser netParser"
  by (simp add: prefix_parser_def netParser_def wf_prefix_def prefixIsValid_def)

theorem ip_set_matches_witness:
  "\<exists>g hdr h. parseCIDRFile netParser [[49]] False = Inr g \<and>
    matchMsg [g] (Some \<lparr>mHeader = hdr, Questions = [], Answers = [A_rr h [10, 1, 2, 3]], Authorities = [], Additionals = []\<rparr>)"
proof -
  fix hdr :: Header and h :: ResourceHdr
  let ?m = "\<lparr>mHeader = hdr, Questions = [], Answers = [A_rr h [10, 1, 2, 3]], Authorities = [], Additionals = []\<rparr>"
  have "\<not> isl (parseCIDRFile netParser [[49]] False)" by code_simp
  then obtain g where g: "parseCIDRFile netParser [[49]] False = Inr g" by (cases "parseCIDRFile netParser [[49]] False") auto
  have "ruleLines [[49]] = [[49]]" by code_simp
  moreover have "inPrefix \<lparr>pAddr = Addr4 [10, 0, 0, 0], pBits = 8\<rparr> (Addr4 [10, 1, 2, 3])"
    by (simp add: inPrefix_def hostBits_def v4mapped_def val_def drop_bit_eq_div)
  ultimately have "matchMsg [g] (Some ?m)"
    using ip_set_matches [OF netParser_ok, of "[[[49]]]" "[g]" ?m] g by (simp add: netParser_def)
  then show ?thesis using g by blast
qed

text \<open>A file of marked ranges, once loaded, marks an address with the text of a line whose range it is in,
  and only so; looking a mark up never runs out of the table of marks.\<close>

theorem marker_marks:
  assumes "loadIpMarker pa ls se = Inr m"
  shows "\<exists>r. ipMark m a = Inr r \<and> (\<forall>mk. r = Some mk \<longleftrightarrow> addrIsValid a \<and>
    (\<exists>s \<in> set (ruleLines ls). \<exists>x y. markOf pa s = (x, y, mk) \<and> x \<le> addr2Ipv6 a \<and> addr2Ipv6 a \<le> y))"
proof -
  let ?ip = "addr2Ipv6 a"
  from loadIpMarker_spec [OF assms] have l: "separated (imL m)" "\<forall>r \<in> set (imL m). irV r < length (imMarks m)"
    and e: "rangeMark (imMarks m) ` set (imL m) = markOf pa ` set (ruleLines ls)" by auto
  have lines: "(\<exists>s \<in> set (ruleLines ls). \<exists>x y. markOf pa s = (x, y, mk) \<and> x \<le> ?ip \<and> ?ip \<le> y) \<longleftrightarrow>
      (\<exists>r \<in> set (imL m). inRange r ?ip \<and> imMarks m ! irV r = mk)" (is "?l \<longleftrightarrow> ?r") for mk
  proof -
    have "?l \<longleftrightarrow> (\<exists>x y. (x, y, mk) \<in> markOf pa ` set (ruleLines ls) \<and> x \<le> ?ip \<and> ?ip \<le> y)"
      by (force simp: image_iff)
    also have "\<dots> \<longleftrightarrow> (\<exists>x y. (x, y, mk) \<in> rangeMark (imMarks m) ` set (imL m) \<and> x \<le> ?ip \<and> ?ip \<le> y)"
      unfolding e ..
    also have "\<dots> \<longleftrightarrow> ?r" by (auto simp: rangeMark_def inRange_def image_iff)
    finally show ?thesis .
  qed
  show ?thesis
  proof (cases "lookupAddr (imL m) a")
    case None
    then have "\<not> rangeAt (imL m) a v" for v using ranges.get_None [OF l(1)] by blast
    then show ?thesis using None lines by (auto simp: ipMark_def rangeAt_def)
  next
    case (Some v)
    then have at: "rangeAt (imL m) a w \<longleftrightarrow> v = w" for w using ranges.get_rel [OF l(1), of a w] by auto
    then obtain r where r: "r \<in> set (imL m)" "inRange r ?ip" "irV r = v" "addrIsValid a" unfolding rangeAt_def by blast
    have "\<forall>r \<in> set (imL m). inRange r ?ip \<longrightarrow> irV r = v" using at r(4) unfolding rangeAt_def by metis
    then show ?thesis using Some r l(2) lines by (auto simp: ipMark_def)
  qed
qed

theorem marker_marks_witness:
  "\<exists>m. loadIpMarker (\<lambda>_. Some (Addr4 [1, 2, 3, 4])) [[49, 44, 50, 44, 97]] False = Inr m \<and>
    ipMark m (Addr4 [1, 2, 3, 4]) = Inr (Some [97])"
proof -
  let ?pa = "\<lambda>_ :: bytes. Some (Addr4 [1, 2, 3, 4])" and ?ls = "[[49, 44, 50, 44, 97]] :: bytes list"
  let ?a = "Addr4 [1, 2, 3, 4]"
  let ?ip = "addr2Ipv6 ?a"
  have c: "cut [49, 44, 50, 44, 97] 44 = ([49], [50, 44, 97], True)" "cut [50, 44, 97] 44 = ([50], [97], True)"
    by (simp_all add: cut_def)
  have "\<exists>st. parseMarkLine ?pa [49, 44, 50, 44, 97] \<lparr>msList = [], msIdx = Map.empty, msLabels = []\<rparr> = Inr st \<and>
      msList st = [\<lparr>irV = 0, irStart = ?ip, irEnd = ?ip\<rparr>]"
    unfolding parseMarkLine_def c Let_def prod.case by (simp add: listAdd_def builderAdd_def addrIsValid_def ipCmp_def)
  then obtain st where st: "parseMarkLine ?pa [49, 44, 50, 44, 97] \<lparr>msList = [], msIdx = Map.empty, msLabels = []\<rparr> = Inr st"
    "msList st = [\<lparr>irV = 0, irStart = ?ip, irEnd = ?ip\<rparr>]" by blast
  have "stripComment [49, 44, 50, 44, 97] = [49, 44, 50, 44, 97]" by (simp add: stripComment_def trimSpace_def isSpace_def)
  then have "loadIpMarker ?pa ?ls False = Inr \<lparr>imL = msList st, imMarks = msLabels st\<rparr>"
    using st by (simp add: loadIpMarker_def cut_hash buildList_def builderBuild_def Let_def)
  then obtain m where m: "loadIpMarker ?pa ?ls False = Inr m" by blast
  have "ruleLines ?ls = ?ls" "markOf ?pa [49, 44, 50, 44, 97] = (addr2Ipv6 (Addr4 [1, 2, 3, 4]), addr2Ipv6 (Addr4 [1, 2, 3, 4]), [97])"
    by (simp_all add: ruleLines_def stripComment_def trimSpace_def isSpace_def markOf_def cut_def)
  then have line: "\<exists>s \<in> set (ruleLines ?ls). \<exists>x y. markOf ?pa s = (x, y, [97]) \<and> x \<le> ?ip \<and> ?ip \<le> y" by simp
  have v: "addrIsValid (Addr4 [1, 2, 3, 4])" by (simp add: addrIsValid_def)
  have "\<exists>r. ipMark m ?a = Inr r \<and> r = Some [97]"
    using marker_marks [OF m, of ?a] v line by (elim exE conjE) (intro exI conjI, assumption, drule spec [of _ "[97]"], erule iffD2, intro conjI)
  then show ?thesis using m by auto
qed

text \<open>The subnet a zone is overwritten with is the one on the line for the zone, in the first file of
  the group that has such a line, where a dash stands for no subnet.\<close>

theorem overwrite_lines:
  assumes "list_all2 (\<lambda>ls m. loadMark2Prefix pp ls False = Inr m) files ms"
  shows "overwriteGet (map Some ms) z = Some p \<longleftrightarrow>
    (\<exists>us ls vs. files = us @ ls # vs \<and> (\<exists>s \<in> set (ruleLines ls). says pp s z p) \<and>
      (\<forall>u \<in> set us. \<not> (\<exists>s \<in> set (ruleLines u). \<exists>q. says pp s z q)))"
  using assms
proof (induction rule: list_all2_induct)
  case Nil
  then show ?case by (simp add: overwriteGet_def)
next
  case (Cons ls files m ms)
  have m: "(\<exists>s \<in> set (ruleLines ls). says pp s z q) \<longleftrightarrow> m z = Some q" for q
    using loadMark2Prefix_spec [OF Cons(1)] by simp
  have "(\<exists>s \<in> set (ruleLines ls). \<exists>q. says pp s z q) \<longleftrightarrow> m z \<noteq> None" using m by blast
  moreover have "overwriteGet (map Some (m # ms)) z = (case m z of Some q \<Rightarrow> Some q | None \<Rightarrow> overwriteGet (map Some ms) z)"
    by (simp add: overwriteGet_def split: option.split)
  ultimately show ?case unfolding split_first m using Cons(3) by (auto split: option.splits)
qed

theorem overwrite_lines_witness:
  "\<exists>m. loadMark2Prefix netParser [[97, 44, 45]] False = Inr m \<and> overwriteGet [Some m] [97] = Some noPrefix"
proof -
  have "loadMark2Prefix netParser [[97, 44, 45]] False = Inr [[97] \<mapsto> noPrefix]"
    by (simp add: loadMark2Prefix_def parsePrefixLine_def cut_def trimSpace_def isSpace_def)
  moreover have "ruleLines [[97, 44, 45]] = [[97, 44, 45]]" "says netParser [97, 44, 45] [97] noPrefix"
    by (simp_all add: ruleLines_def stripComment_def trimSpace_def isSpace_def says_def cut_def)
  ultimately show ?thesis
    using overwrite_lines [of netParser "[[[97, 44, 45]]]" "[[[97] \<mapsto> noPrefix]]" "[97]" noPrefix] by fastforce
qed

end
