(* ===== verification/Ecs.thy ===== *)
theory Ecs
  imports IpAddr DnsMsg
begin

text \<open>
  Client subnets (\<^verbatim>\<open>app/router/ecs.go\<close>): finding the option in a message, decoding it, and encoding
  the one that is sent upstream.
\<close>

definition unpackECS :: "bytes \<Rightarrow> Prefix" where
  "unpackECS b =
    (if length b < 4 then noPrefix
     else let family = get_u16 (b ! 0) (b ! 1); msk = b ! 2 in
       if family = 1 then prefixFrom (Addr4 (take 4 (drop 4 b @ replicate 4 0))) (int (unat msk))
       else if family = 2 then prefixFrom (Addr6 (take 16 (drop 4 b @ replicate 16 0)) []) (int (unat msk))
       else noPrefix)"

text \<open>The options of one record; \<open>None\<close> stands for going on with the next record.\<close>

function findOption :: "bytes \<Rightarrow> Prefix option" where
  "findOption b =
    (if length b < 4 then None
     else let opCode = get_u16 (b ! 0) (b ! 1); l = unat (get_u16 (b ! 2) (b ! 3)); b' = drop 4 b in
       if length b' < l then Some noPrefix
       else if opCode = 8 then Some (unpackECS (take l b'))
       else findOption (drop l b'))"
  by pat_completeness auto
termination by (relation "measure length") auto

declare findOption.simps [simp del]

fun findInRRs :: "Resource list \<Rightarrow> Prefix" where
  "findInRRs [] = noPrefix"
| "findInRRs (r # rs) = (case r of
     Raw_rr h d \<Rightarrow> if hType h = TypeOPT then (case findOption d of Some p \<Rightarrow> p | None \<Rightarrow> findInRRs rs) else findInRRs rs
   | _ \<Rightarrow> findInRRs rs)"

definition findECS :: "Msg \<Rightarrow> Prefix" where
  "findECS m = findInRRs (Additionals m)"

text \<open>The subnet as it is sent: an IPv4 address if it is a mapped one, and only the leading bits.\<close>

definition canonical :: "Prefix \<Rightarrow> Prefix" where
  "canonical p = masked
    (if addrIs4In6 (pAddr p) then
       (case addrPrefix (unmap (pAddr p)) (pBits p - 96) of None \<Rightarrow> noPrefix | Some q \<Rightarrow> q)
     else p)"

definition makeEdns0ClientSubnetReqOpt :: "Prefix \<Rightarrow> bytes option" where
  "makeEdns0ClientSubnetReqOpt p =
    (if \<not> prefixIsValid p then None
     else let p = canonical p;
       msk = word_of_int (pBits p) :: u8;
       addrL = (msk + 7) div 8;
       optLen = 4 + ucast addrL :: u16;
       opt = (\<lambda>family ip. put_u16 8 @ put_u16 optLen @ put_u16 family @ [msk, 0] @ take (unat addrL) ip) in
     case pAddr p of
       Addr4 ip \<Rightarrow> Some (opt 1 ip)
     | Addr6 ip z \<Rightarrow> Some (opt 2 ip)
     | NoAddr \<Rightarrow> None)"

section \<open>The subnet read back\<close>

lemma maskBytes_twice [simp]: "maskBytes n (maskBytes n b) = maskBytes n b"
  by (rule bytes_eqI) (auto simp: bitAt_maskBytes)

lemma take_masked:
  assumes "n \<le> 8 * length b"
  shows "take (length b) (take ((n + 7) div 8) (maskBytes n b) @ replicate (length b) 0) = maskBytes n b"
proof (rule bytes_eqI)
  let ?k = "(n + 7) div 8"
  have k: "?k \<le> length b" using assms by linarith
  show "length (take (length b) (take ?k (maskBytes n b) @ replicate (length b) 0)) = length (maskBytes n b)" by simp
  fix j assume "j < 8 * length (take (length b) (take ?k (maskBytes n b) @ replicate (length b) 0))"
  then have j: "j < 8 * length b" by simp
  then have q: "j div 8 < length b" by linarith
  show "bitAt (take (length b) (take ?k (maskBytes n b) @ replicate (length b) 0)) j = bitAt (maskBytes n b) j"
  proof (cases "j div 8 < ?k")
    case True
    then show ?thesis using k q by (simp add: bitAt_def nth_append)
  next
    case False
    then have "\<not> j < n" by linarith
    then show ?thesis using False k q j by (simp add: bitAt_maskBytes) (simp add: bitAt_def nth_append)
  qed
qed

lemma canonical_cases:
  assumes "wf_prefix p" "prefixIsValid p" "addrIs4In6 (pAddr p) \<longrightarrow> 96 \<le> pBits p"
  shows "(\<exists>b n. canonical p = \<lparr>pAddr = Addr4 (maskBytes n b), pBits = int n\<rparr> \<and> length b = 4 \<and> n \<le> 32) \<or>
    (\<exists>b n. canonical p = \<lparr>pAddr = Addr6 (maskBytes n b) [], pBits = int n\<rparr> \<and> length b = 16 \<and> n \<le> 128)"
proof (cases "pAddr p")
  case NoAddr
  then show ?thesis using assms by (auto simp: wf_prefix_def prefixIsValid_def)
next
  case (Addr4 b)
  then have "canonical p = \<lparr>pAddr = Addr4 (maskBytes (nat (pBits p)) b), pBits = int (nat (pBits p))\<rparr>"
    "length b = 4" "nat (pBits p) \<le> 32"
    using assms by (auto simp: canonical_def masked_def prefixFrom_def wf_prefix_def prefixIsValid_def)
  then show ?thesis by blast
next
  case (Addr6 b z)
  then have w: "length b = 16" "pBits p \<le> 128" "0 \<le> pBits p" using assms by (auto simp: wf_prefix_def prefixIsValid_def)
  show ?thesis
  proof (cases "take 12 b = v4mapped")
    case True
    then have "canonical p = \<lparr>pAddr = Addr4 (maskBytes (nat (pBits p - 96)) (drop 12 b)), pBits = int (nat (pBits p - 96))\<rparr>"
      "length (drop 12 b) = 4" "nat (pBits p - 96) \<le> 32"
      using assms(3) Addr6 w by (simp_all add: canonical_def masked_def prefixFrom_def)
    then show ?thesis by blast
  next
    case False
    then have "canonical p = \<lparr>pAddr = Addr6 (maskBytes (nat (pBits p)) b) [], pBits = int (nat (pBits p))\<rparr>"
      "nat (pBits p) \<le> 128" using Addr6 w by (simp_all add: canonical_def masked_def prefixFrom_def)
    then show ?thesis using w by blast
  qed
qed

text \<open>An encoded option: its code, its length, and the prefix it holds.\<close>

lemma get_u16_at: "get_u16 ((put_u16 v @ z) ! 0) ((put_u16 v @ z) ! 1) = v"
    "get_u16 ((put_u16 w @ put_u16 v @ z) ! 2) ((put_u16 w @ put_u16 v @ z) ! 3) = v"
  by (simp_all add: nth_append put_u16_def numeral_2_eq_2 numeral_3_eq_3)

lemma findOption_enc:
  assumes "length x = unat l"
  shows "findOption (put_u16 8 @ put_u16 l @ x @ z) = Some (unpackECS x)"
proof -
  let ?d = "put_u16 8 @ put_u16 l @ x @ z"
  have "get_u16 (?d ! 0) (?d ! 1) = 8" "get_u16 (?d ! 2) (?d ! 3) = l" by (rule get_u16_at)+
  moreover have "\<not> length ?d < 4" "drop 4 ?d = x @ z" by simp_all
  ultimately show ?thesis using assms by (subst findOption.simps) (simp only: Let_def if_False if_True, simp)
qed

lemma unpackECS_enc:
  "unpackECS (put_u16 f @ [msk, s] @ x) =
    (if f = 1 then prefixFrom (Addr4 (take 4 (x @ replicate 4 0))) (int (unat msk))
     else if f = 2 then prefixFrom (Addr6 (take 16 (x @ replicate 16 0)) []) (int (unat msk)) else noPrefix)"
proof -
  let ?d = "put_u16 f @ [msk, s] @ x"
  have "get_u16 (?d ! 0) (?d ! 1) = f" by (rule get_u16_at)
  moreover have "\<not> length ?d < 4" "drop 4 ?d = x" "?d ! 2 = msk" by (simp_all add: nth_append)
  ultimately show ?thesis unfolding unpackECS_def by (simp only: Let_def if_False)
qed

lemma ecs_option_roundtrip_lemma:
  assumes "wf_prefix p" "prefixIsValid p" "addrIs4In6 (pAddr p) \<longrightarrow> 96 \<le> pBits p"
  shows "\<exists>b. makeEdns0ClientSubnetReqOpt p = Some b \<and>
    (hType h = TypeOPT \<longrightarrow> findECS (m\<lparr>Additionals := Raw_rr h (b @ z) # rs\<rparr>) = canonical p)"
proof -
  have u8: "unat ((word_of_nat n + 7 :: u8) div 8) = (n + 7) div 8" "unat (word_of_nat n :: u8) = n" if "n \<le> 128" for n
  proof -
    have "unat (word_of_nat n :: u8) = n" using that by (simp add: unat_of_nat)
    moreover from this have "unat (word_of_nat n + 7 :: u8) = n + 7" using that by (simp add: unat_word_ariths)
    ultimately show "unat ((word_of_nat n + 7 :: u8) div 8) = (n + 7) div 8" "unat (word_of_nat n :: u8) = n"
      by (simp_all add: unat_div)
  qed
  have opt: "\<exists>b. makeEdns0ClientSubnetReqOpt p = Some b \<and> findOption (b @ z) = Some (canonical p)"
    if c: "pAddr (canonical p) = a" "pBits (canonical p) = int n" "n \<le> 8 * length ip" "length ip \<le> 16"
      and f: "f = 1 \<and> a = Addr4 ip \<or> f = 2 \<and> a = Addr6 ip []"
      and r: "\<And>x. x = take ((n + 7) div 8) ip \<Longrightarrow> unpackECS (put_u16 f @ [word_of_nat n, 0] @ x) = canonical p" for a n ip f
  proof -
    let ?x = "put_u16 f @ [word_of_nat n, 0] @ take ((n + 7) div 8) ip"
    let ?L = "(word_of_nat n + 7 :: u8) div 8"
    have n: "n \<le> 128" "(n + 7) div 8 \<le> length ip" using c(3,4) by linarith+
    have "(word_of_int (int n) :: u8) = word_of_nat n" by simp
    then have m: "makeEdns0ClientSubnetReqOpt p = Some (put_u16 8 @ put_u16 (4 + ucast ?L) @ ?x)"
      using f assms(2) c(1,2) u8 [OF n(1)] by (auto simp: makeEdns0ClientSubnetReqOpt_def Let_def)
    have "unat (ucast ?L :: u16) = (n + 7) div 8" using u8 [OF n(1)] n(1)
      by (simp add: unsigned_ucast_eq take_bit_nat_eq_self)
    then have "unat (4 + ucast ?L :: u16) = 4 + (n + 7) div 8" using n c(4) by (simp add: unat_word_ariths)
    then have "length ?x = unat (4 + ucast ?L :: u16)" using n by simp
    from findOption_enc [OF this, of z] m r show ?thesis by simp
  qed
  have "\<exists>b. makeEdns0ClientSubnetReqOpt p = Some b \<and> findOption (b @ z) = Some (canonical p)"
    using canonical_cases [OF assms]
  proof (elim disjE exE conjE)
    fix b n assume c: "canonical p = \<lparr>pAddr = Addr4 (maskBytes n b), pBits = int n\<rparr>" "length b = 4" "n \<le> 32"
    have t: "take 4 (take ((n + 7) div 8) (maskBytes n b) @ replicate 4 0) = maskBytes n b" using take_masked [of n b] c by simp
    show ?thesis by (rule opt [of "Addr4 (maskBytes n b)" n "maskBytes n b" 1])
      (use c u8(2) [of n] t in \<open>auto simp: unpackECS_enc [simplified] prefixFrom_def\<close>)
  next
    fix b n assume c: "canonical p = \<lparr>pAddr = Addr6 (maskBytes n b) [], pBits = int n\<rparr>" "length b = 16" "n \<le> 128"
    have t: "take 16 (take ((n + 7) div 8) (maskBytes n b) @ replicate 16 0) = maskBytes n b" using take_masked [of n b] c by simp
    show ?thesis by (rule opt [of "Addr6 (maskBytes n b) []" n "maskBytes n b" 2])
      (use c u8(2) [of n] t in \<open>auto simp: unpackECS_enc [simplified] prefixFrom_def\<close>)
  qed
  then show ?thesis by (auto simp: findECS_def)
qed

text \<open>The client subnet option sent upstream, read back out of the message by the code that reads the option of a
  client, is the subnet with its host bits cleared and an IPv4 address that was mapped into IPv6
  turned back; there is an option for every valid subnet, a mapped one of fewer than 96 bits aside,
  whatever other options and records come after it.\<close>

theorem ecs_option_roundtrip:
  assumes "wf_prefix p" "prefixIsValid p" "addrIs4In6 (pAddr p) \<longrightarrow> 96 \<le> pBits p"
  shows "\<exists>b. makeEdns0ClientSubnetReqOpt p = Some b \<and>
    (hType h = TypeOPT \<longrightarrow> findECS (m\<lparr>Additionals := Raw_rr h (b @ z) # rs\<rparr>) = canonical p)"
  using assms by (rule ecs_option_roundtrip_lemma)

theorem ecs_option_roundtrip_witness:
  "\<exists>h m b. makeEdns0ClientSubnetReqOpt \<lparr>pAddr = Addr4 [10, 1, 2, 3], pBits = 20\<rparr> = Some b \<and>
    findECS (m\<lparr>Additionals := [Raw_rr h b]\<rparr>) = \<lparr>pAddr = Addr4 [10, 1, 0, 0], pBits = 20\<rparr>"
proof -
  fix m :: Msg and n :: Name
  let ?h = "\<lparr>hName = n, hType = TypeOPT, hClass = 0, hTTL = 0, hLength = 0\<rparr>"
  let ?p = "\<lparr>pAddr = Addr4 [10, 1, 2, 3], pBits = 20\<rparr>"
  have "canonical ?p = \<lparr>pAddr = Addr4 [10, 1, 0, 0], pBits = 20\<rparr>" by code_simp
  moreover have "wf_prefix ?p" "prefixIsValid ?p" "addrIs4In6 (pAddr ?p) \<longrightarrow> 96 \<le> pBits ?p"
    by (simp_all add: wf_prefix_def prefixIsValid_def)
  ultimately have "\<exists>b. makeEdns0ClientSubnetReqOpt ?p = Some b \<and>
      findECS (m\<lparr>Additionals := [Raw_rr ?h (b @ [])]\<rparr>) = \<lparr>pAddr = Addr4 [10, 1, 0, 0], pBits = 20\<rparr>"
    using ecs_option_roundtrip [where p = ?p and h = ?h and m = m and z = "[]" and rs = "[]"] by simp
  then obtain b where "makeEdns0ClientSubnetReqOpt ?p = Some b"
    "findECS (m\<lparr>Additionals := [Raw_rr ?h b]\<rparr>) = \<lparr>pAddr = Addr4 [10, 1, 0, 0], pBits = 20\<rparr>" by auto
  then show ?thesis by (intro exI conjI)
qed

end
