(* ===== verification/Reload.thy ===== *)
theory Reload
  imports DomainMatcher
begin

text \<open>
  The data files of the router and their hot reload: the loader of one file and the groups of
  loaders (\<^verbatim>\<open>app/router/data_loader.go\<close>), the reload of all groups (\<^verbatim>\<open>app/router/api_reload.go\<close>),
  and domain sets as groups of matchers (\<^verbatim>\<open>app/router/domain_set.go\<close>). The file system and the
  checksum are parameters.
\<close>

section \<open>The loader of one file\<close>

type_synonym files = "string \<rightharpoonup> bytes"

text \<open>\<^verbatim>\<open>parseFn\<close> returns a value, which may be nil, and whether there was an error.\<close>

record 'v FileLoader =
  flPath :: string
  flParse :: "bytes \<Rightarrow> 'v option \<times> bool"
  flHash :: bytes
  flV :: "'v option"
  flStagedHash :: bytes
  flStaged :: "'v option"

definition noHash :: bytes where
  "noHash = replicate 32 0"

definition NewFileLoader :: "string \<Rightarrow> (bytes \<Rightarrow> 'v option \<times> bool) \<Rightarrow> 'v FileLoader" where
  "NewFileLoader fp parse = \<lparr>flPath = fp, flParse = parse, flHash = noHash, flV = None, flStagedHash = noHash, flStaged = None\<rparr>"

definition loaderInit :: "(bytes \<Rightarrow> bytes) \<Rightarrow> files \<Rightarrow> 'v FileLoader \<Rightarrow> 'v FileLoader \<times> bool" where
  "loaderInit sha fs l = (case fs (flPath l) of
     None \<Rightarrow> (l, False)
   | Some b \<Rightarrow> (case flParse l b of (v, err) \<Rightarrow>
       if err then (l, False) else (l\<lparr>flV := v, flHash := sha b\<rparr>, True)))"

definition loadAndStage :: "(bytes \<Rightarrow> bytes) \<Rightarrow> files \<Rightarrow> 'v FileLoader \<Rightarrow> 'v FileLoader \<times> bool" where
  "loadAndStage sha fs l = (case fs (flPath l) of
     None \<Rightarrow> (l, False)
   | Some b \<Rightarrow>
     if sha b = flHash l then (l, True)
     else (case flParse l b of (v, err) \<Rightarrow>
       (if v \<noteq> None then l\<lparr>flStaged := v, flStagedHash := sha b\<rparr> else l, \<not> err)))"

definition loaderCommit :: "'v FileLoader \<Rightarrow> 'v FileLoader" where
  "loaderCommit l =
    (if flStaged l \<noteq> None then l\<lparr>flV := flStaged l, flHash := flStagedHash l, flStaged := None, flStagedHash := noHash\<rparr> else l)"

definition loaderDiscard :: "'v FileLoader \<Rightarrow> 'v FileLoader" where
  "loaderDiscard l = l\<lparr>flStaged := None, flStagedHash := noHash\<rparr>"

section \<open>Groups, and the reload of everything\<close>

text \<open>\<^verbatim>\<open>FileLoaderGroup.LoadAndStage\<close> stops at the first loader that fails.\<close>

fun stageAll :: "('l \<Rightarrow> 'l \<times> bool) \<Rightarrow> 'l list \<Rightarrow> 'l list \<times> bool" where
  "stageAll stage [] = ([], True)"
| "stageAll stage (l # ls) =
    (let (l, ok) = stage l in
     if \<not> ok then (l # ls, False) else let (ls, ok) = stageAll stage ls in (l # ls, ok))"

text \<open>The loop of \<^verbatim>\<open>Reload\<close>; \<open>ready\<close> are the loaders staged so far.\<close>

fun reloadLoop :: "('l \<Rightarrow> 'l \<times> bool) \<Rightarrow> ('l \<Rightarrow> 'l) \<Rightarrow> ('l \<Rightarrow> 'l) \<Rightarrow> 'l list \<Rightarrow> 'l list \<Rightarrow> 'l list \<times> bool" where
  "reloadLoop stage commit discard ready [] = (map commit ready, True)"
| "reloadLoop stage commit discard ready (l # ls) =
    (let (l, ok) = stage l in
     if \<not> ok then (map discard ready @ l # ls, False) else reloadLoop stage commit discard (ready @ [l]) ls)"

datatype reloadErr = ErrConcurrentReload | ErrFailedReload

record 'v reloadState =
  rReloading :: bool
  rGroups :: "'v FileLoader list list"

definition reload :: "(bytes \<Rightarrow> bytes) \<Rightarrow> files \<Rightarrow> 'v reloadState \<Rightarrow> 'v reloadState \<times> reloadErr option" where
  "reload sha fs r =
    (if rReloading r then (r, Some ErrConcurrentReload)
     else let (gs, ok) = reloadLoop (stageAll (loadAndStage sha fs)) (map loaderCommit) (map loaderDiscard) [] (rGroups r) in
       (r\<lparr>rGroups := gs\<rparr>, if ok then None else Some ErrFailedReload))"

section \<open>The interface Dataloader\<close>

text \<open>
  What \<^verbatim>\<open>Reload\<close> relies on: staging leaves what is served alone; after a commit the staged value is
  served, after a discard the old one; and nothing stays staged.
\<close>

locale dataloader =
  fixes stage :: "'f \<Rightarrow> 'l \<Rightarrow> 'l \<times> bool"
    and commit :: "'l \<Rightarrow> 'l" and discard :: "'l \<Rightarrow> 'l"
    and served :: "'l \<Rightarrow> 'v" and staged :: "'l \<Rightarrow> 'v" and clean :: "'l \<Rightarrow> bool"
    and fresh :: "'f \<Rightarrow> 'l \<Rightarrow> 'v"
  assumes stage_served: "served (fst (stage f l)) = served l"
    and commit_served: "served (commit l) = staged l" and commit_clean: "clean (commit l)"
    and discard_served: "served (discard l) = served l" and discard_clean: "clean (discard l)"
    and stage_fresh: "clean l \<Longrightarrow> snd (stage f l) \<Longrightarrow> staged (fst (stage f l)) = fresh f l"
begin

lemma stage_eq: "stage f l = (l', ok) \<Longrightarrow> served l' = served l"
  using stage_served [of f l] by simp

lemma stageAll_served: "map served (fst (stageAll (stage f) ls)) = map served ls"
  by (induction ls) (auto simp: Let_def stage_eq split: prod.splits)

lemma stageAll_fresh:
  "\<forall>l \<in> set ls. clean l \<Longrightarrow> snd (stageAll (stage f) ls) \<Longrightarrow> map staged (fst (stageAll (stage f) ls)) = map (fresh f) ls"
proof (induction ls)
  case (Cons l ls)
  obtain l' ok where l: "stage f l = (l', ok)" by (cases "stage f l")
  then have "ok" "snd (stageAll (stage f) ls)" using Cons.prems by (auto simp: Let_def split: prod.splits if_splits)
  then show ?case using Cons l stage_fresh [of l f] by (auto simp: Let_def split: prod.splits)
qed simp

lemma reloadLoop_fails:
  "reloadLoop (stage f) commit discard ready ls = (ls', False) \<Longrightarrow> map served ls' = map served (ready @ ls)"
proof (induction ls arbitrary: ready)
  case (Cons l ls)
  obtain l' ok where l: "stage f l = (l', ok)" by (cases "stage f l")
  show ?case
  proof (cases ok)
    case True
    then show ?thesis using Cons.IH [of "ready @ [l']"] Cons.prems l stage_eq [OF l] by simp
  next
    case False
    then have "ls' = map discard ready @ l' # ls" using Cons.prems l by simp
    then show ?thesis using stage_eq [OF l] by (simp add: discard_served)
  qed
qed simp

lemma reloadLoop_stages:
  "reloadLoop (stage f) commit discard ready ls = (ls', True) \<Longrightarrow> \<forall>l \<in> set ls. snd (stage f l)"
  by (induction ls arbitrary: ready) (auto simp: Let_def split: prod.splits if_splits)

lemma stageAll_stages: "snd (stageAll (stage f) ls) \<Longrightarrow> \<forall>l \<in> set ls. snd (stage f l)"
  by (induction ls) (auto simp: Let_def split: prod.splits if_splits)

lemma reloadLoop_ok:
  "reloadLoop (stage f) commit discard ready ls = (ls', True) \<Longrightarrow> \<forall>l \<in> set ls. clean l \<Longrightarrow>
    map served ls' = map staged ready @ map (fresh f) ls \<and> (\<forall>l \<in> set ls'. clean l)"
proof (induction ls arbitrary: ready)
  case Nil
  then show ?case by (auto simp: commit_served commit_clean)
next
  case (Cons l ls)
  obtain l' ok where l: "stage f l = (l', ok)" by (cases "stage f l")
  then have ok using Cons.prems(1) by (auto split: if_splits)
  then have "staged l' = fresh f l" using stage_fresh [of l f] l Cons.prems(2) by simp
  then show ?case using Cons.IH [of "ready @ [l']"] Cons.prems l \<open>ok\<close> by simp
qed

text \<open>A group of loaders keeps the promises of its loaders.\<close>

lemma group_dataloader:
  "dataloader (\<lambda>f. stageAll (stage f)) (map commit) (map discard) (map served) (map staged)
    (\<lambda>ls. \<forall>l \<in> set ls. clean l) (\<lambda>f. map (fresh f))"
  by unfold_locales
    (auto simp: stageAll_served commit_served commit_clean discard_served discard_clean stageAll_fresh)

end

text \<open>The loader of a file: what a commit would serve, and what the file now says.\<close>

definition flPending :: "'v FileLoader \<Rightarrow> 'v option" where
  "flPending l = (if flStaged l \<noteq> None then flStaged l else flV l)"

definition flClean :: "'v FileLoader \<Rightarrow> bool" where
  "flClean l \<longleftrightarrow> flStaged l = None"

definition flFresh :: "(bytes \<Rightarrow> bytes) \<Rightarrow> files \<Rightarrow> 'v FileLoader \<Rightarrow> 'v option" where
  "flFresh sha fs l = (case fs (flPath l) of
     None \<Rightarrow> flV l | Some b \<Rightarrow> if sha b = flHash l then flV l else if fst (flParse l b) = None then flV l else fst (flParse l b))"

interpretation fileLd: dataloader "\<lambda>(sha, fs). loadAndStage sha fs" loaderCommit loaderDiscard flV flPending flClean
    "\<lambda>(sha, fs). flFresh sha fs"
  by unfold_locales
    (auto simp: loadAndStage_def loaderCommit_def loaderDiscard_def flPending_def flClean_def flFresh_def
      split: option.splits prod.splits if_splits)

interpretation groupLd: dataloader "\<lambda>f. stageAll (case f of (sha, fs) \<Rightarrow> loadAndStage sha fs)" "map loaderCommit"
    "map loaderDiscard" "map flV" "map flPending" "\<lambda>ls. \<forall>l \<in> set ls. flClean l"
    "\<lambda>f. map (case f of (sha, fs) \<Rightarrow> flFresh sha fs)"
  by (rule fileLd.group_dataloader)

section \<open>What the checksum is good for\<close>

text \<open>A loader that was initialised serves what it parsed from a file with its checksum.\<close>

definition loaded :: "(bytes \<Rightarrow> bytes) \<Rightarrow> bytes \<Rightarrow> 'v FileLoader \<Rightarrow> bool" where
  "loaded sha b l \<longleftrightarrow> flHash l = sha b \<and> flParse l b = (flV l, False)"

text \<open>The contents of a file differ from what was loaded only if its checksum does, and a parser that
  reports no error returns a value.\<close>

definition trusted :: "(bytes \<Rightarrow> bytes) \<Rightarrow> files \<Rightarrow> 'v FileLoader \<Rightarrow> bool" where
  "trusted sha fs l \<longleftrightarrow> (\<forall>b. flParse l b \<noteq> (None, False)) \<and>
    (\<exists>b0. loaded sha b0 l \<and> (\<forall>b. fs (flPath l) = Some b \<longrightarrow> sha b = sha b0 \<longrightarrow> b = b0))"

lemma loaderInit_loaded:
  assumes "loaderInit sha fs (NewFileLoader fp parse) = (l, True)"
  shows "flClean l \<and> (\<exists>b. fs fp = Some b \<and> loaded sha b l)"
  using assms by (auto simp: loaderInit_def NewFileLoader_def flClean_def loaded_def split: option.splits prod.splits if_splits)

lemma staged_current:
  assumes "snd (loadAndStage sha fs l)" "trusted sha fs l"
  shows "\<exists>b. fs (flPath l) = Some b \<and> flParse l b = (flFresh sha fs l, False)"
proof -
  obtain b where b: "fs (flPath l) = Some b" using assms(1) by (auto simp: loadAndStage_def split: option.splits)
  obtain b0 where b0: "loaded sha b0 l" "sha b = sha b0 \<longrightarrow> b = b0" "\<forall>b. flParse l b \<noteq> (None, False)"
    using assms(2) b by (auto simp: trusted_def)
  show ?thesis
  proof (cases "sha b = flHash l")
    case True
    then show ?thesis using b b0 by (auto simp: loaded_def flFresh_def)
  next
    case False
    then show ?thesis using b b0(3) assms(1) by (cases "flParse l b") (auto simp: loadAndStage_def flFresh_def)
  qed
qed

lemma reload_cases:
  "reload sha fs r = (if rReloading r then (r, Some ErrConcurrentReload)
    else let (gs, ok) = reloadLoop ((\<lambda>f. stageAll (case f of (sha, fs) \<Rightarrow> loadAndStage sha fs)) (sha, fs))
        (map loaderCommit) (map loaderDiscard) [] (rGroups r) in
      (r\<lparr>rGroups := gs\<rparr>, if ok then None else Some ErrFailedReload))"
  by (simp add: reload_def)

section \<open>Domain sets\<close>

text \<open>
  The parser of a domain set; \<open>scan\<close> splits a file into lines as \<^verbatim>\<open>bufio.Scanner\<close> does, with the
  error it ends with.
\<close>

definition parseDomainSet :: "(bytes \<Rightarrow> 're option) \<Rightarrow> (bytes \<Rightarrow> bytes list \<times> dmErr fail option) \<Rightarrow> bytes \<Rightarrow> 're Matcher dmres" where
  "parseDomainSet compileRe scan b =
    (case scan b of (ls, se) \<Rightarrow>
     case loadRulesFromReader compileRe ls se NewLoader of
       (l, Some e) \<Rightarrow> Inl e | (l, None) \<Rightarrow> loaderCompile l)"

fun domainSetMatch :: "('re \<Rightarrow> bytes \<Rightarrow> bool) \<Rightarrow> 're Matcher list \<Rightarrow> Name \<Rightarrow> bool dmres" where
  "domainSetMatch reMatch [] name = Inr False"
| "domainSetMatch reMatch (m # ms) name =
    thenE (matcherMatch reMatch m name) (\<lambda>ok. if ok then Inr True else domainSetMatch reMatch ms name)"

lemma domainSetMatch_any:
  "\<forall>m \<in> set ms. matcherMatch reMatch m n = Inr (f m) \<Longrightarrow> domainSetMatch reMatch ms n = Inr (\<exists>m \<in> set ms. f m)"
  by (induction ms) auto

section \<open>Properties\<close>

text \<open>C12: A reload is all or nothing: when it reports an error every file is served as before, and when it
  reports none every loader serves what its file now parses to and has nothing left staged,
  if nothing was staged before and checksums tell the contents apart.\<close>

theorem reload_all_or_nothing:
  assumes "reload sha fs r = (r', e)"
  shows "if e = None
    then (\<forall>g \<in> set (rGroups r). \<forall>l \<in> set g. flClean l \<and> trusted sha fs l) \<longrightarrow>
      map (map flV) (rGroups r') = map (map (\<lambda>l. fst (flParse l (the (fs (flPath l)))))) (rGroups r) \<and>
      (\<forall>g \<in> set (rGroups r'). \<forall>l \<in> set g. flClean l)
    else map (map flV) (rGroups r') = map (map flV) (rGroups r)"
proof (cases "rReloading r")
  case True
  then show ?thesis using assms by (auto simp: reload_def)
next
  case False
  obtain gs ok where gs: "reloadLoop ((\<lambda>f. stageAll (case f of (sha, fs) \<Rightarrow> loadAndStage sha fs)) (sha, fs))
      (map loaderCommit) (map loaderDiscard) [] (rGroups r) = (gs, ok)"
    and r': "r' = r\<lparr>rGroups := gs\<rparr>" "e = (if ok then None else Some ErrFailedReload)"
    using assms False unfolding reload_cases by (auto simp: Let_def split: prod.splits)
  show ?thesis
  proof (cases ok)
    case False
    then have "map (map flV) gs = map (map flV) (rGroups r)" using groupLd.reloadLoop_fails gs by fastforce
    then show ?thesis using False r' by simp
  next
    case True
    note gT = gs [unfolded eqTrueI [OF True]]
    have "map (map flV) gs = map (map (\<lambda>l. fst (flParse l (the (fs (flPath l)))))) (rGroups r) \<and>
      (\<forall>g \<in> set gs. \<forall>l \<in> set g. flClean l)" if c: "\<forall>g \<in> set (rGroups r). \<forall>l \<in> set g. flClean l \<and> trusted sha fs l"
    proof -
      have st: "\<forall>g \<in> set (rGroups r). \<forall>l \<in> set g. snd (loadAndStage sha fs l)"
      proof (intro ballI)
        fix g l assume "g \<in> set (rGroups r)" "l \<in> set g"
        then show "snd (loadAndStage sha fs l)"
          using groupLd.reloadLoop_stages [OF gT] fileLd.stageAll_stages [of "(sha, fs)" g] by auto
      qed
      have "flFresh sha fs l = fst (flParse l (the (fs (flPath l))))" if "g \<in> set (rGroups r)" "l \<in> set g" for g l
        using staged_current [of sha fs l] st c that by fastforce
      moreover have "map (map flV) gs = map (map (flFresh sha fs)) (rGroups r)" "\<forall>g \<in> set gs. \<forall>l \<in> set g. flClean l"
        using groupLd.reloadLoop_ok [OF gT] c by auto
      ultimately show ?thesis by simp
    qed
    then show ?thesis using True r' by simp
  qed
qed

theorem reload_all_or_nothing_witness:
  "\<exists>r'. reload id [''a'' \<mapsto> [2]] \<lparr>rReloading = False, rGroups = [[\<lparr>flPath = ''a'', flParse = (\<lambda>b. (Some b, False)),
      flHash = [1], flV = Some [1], flStagedHash = noHash, flStaged = None\<rparr>]]\<rparr> = (r', None) \<and>
    map (map flV) (rGroups r') = [[Some [2]]]"
proof -
  let ?l = "\<lparr>flPath = ''a'', flParse = (\<lambda>b. (Some b, False)), flHash = [1], flV = Some [1], flStagedHash = noHash,
    flStaged = None\<rparr> :: bytes FileLoader"
  let ?fs = "[''a'' \<mapsto> [2 :: u8]]" and ?r = "\<lparr>rReloading = False, rGroups = [[?l]]\<rparr>"
  have "\<exists>r'. reload id ?fs ?r = (r', None)" by (simp add: reload_def loadAndStage_def)
  then obtain r' where r: "reload id ?fs ?r = (r', None)" by blast
  have "loaded id [1] ?l" "\<forall>b. flParse ?l b \<noteq> (None, False)" "flClean ?l" by (simp_all add: loaded_def flClean_def)
  moreover have "trusted id ?fs ?l" unfolding trusted_def
  proof (intro conjI exI [of _ "[1] :: bytes"] allI impI)
    show "flParse ?l b \<noteq> (None, False)" for b by simp
    show "loaded id [1] ?l" by (simp add: loaded_def)
    show "b = [1]" if "id b = id [1]" for b :: bytes using that unfolding id_apply .
  qed
  ultimately have c: "\<forall>g \<in> set (rGroups ?r). \<forall>l \<in> set g. flClean l \<and> trusted id ?fs l" by simp
  have "map (map flV) (rGroups r') = map (map (\<lambda>l. fst (flParse l (the (?fs (flPath l)))))) (rGroups ?r)"
    by (rule conjunct1 [OF mp [OF reload_all_or_nothing [OF r, unfolded if_P [OF refl]] c]])
  then have "map (map flV) (rGroups r') = [[Some [2]]]" by simp
  with r show ?thesis by (intro exI conjI)
qed

text \<open>A reload that fails inside a group leaves the loaders before the failing one staged, so that a later
  reload that reports success can serve what the failed one read: with the file back at its old contents
  the checksum says there is nothing to load, and the commit then publishes the abandoned version.\<close>

theorem failed_reload_leaks:
  assumes "flClean la" "loaded sha a0 la" "flClean lb" "loaded sha b0 lb"
    and "fs1 (flPath la) = Some a1" "sha a1 \<noteq> sha a0" "flParse la a1 = (Some v1, False)" "fs1 (flPath lb) = None"
    and "fs2 (flPath la) = Some a0" "fs2 (flPath lb) = Some b0"
  shows "\<exists>r1 r2. reload sha fs1 \<lparr>rReloading = False, rGroups = [[la, lb]]\<rparr> = (r1, Some ErrFailedReload) \<and>
    reload sha fs2 r1 = (r2, None) \<and> map (map flV) (rGroups r2) = [[Some v1, flV lb]]"
  using assms by (simp add: reload_def loadAndStage_def loaded_def flClean_def loaderCommit_def)

theorem failed_reload_leaks_witness:
  "\<exists>r1 r2. reload id [''a'' \<mapsto> [2]] \<lparr>rReloading = False, rGroups =
      [[\<lparr>flPath = ''a'', flParse = (\<lambda>b. (Some b, False)), flHash = [1], flV = Some [1], flStagedHash = noHash, flStaged = None\<rparr>,
        \<lparr>flPath = ''b'', flParse = (\<lambda>b. (Some b, False)), flHash = [5], flV = Some [5], flStagedHash = noHash, flStaged = None\<rparr>]]\<rparr> =
      (r1, Some ErrFailedReload) \<and>
    reload id [''a'' \<mapsto> [1], ''b'' \<mapsto> [5]] r1 = (r2, None) \<and> map (map flV) (rGroups r2) = [[Some [2], Some [5]]]"
  using failed_reload_leaks [of "\<lparr>flPath = ''a'', flParse = (\<lambda>b. (Some b, False)), flHash = [1], flV = Some [1],
      flStagedHash = noHash, flStaged = None\<rparr>" id "[1]" "\<lparr>flPath = ''b'', flParse = (\<lambda>b. (Some b, False)), flHash = [5],
      flV = Some [5], flStagedHash = noHash, flStaged = None\<rparr>" "[5]" "[''a'' \<mapsto> [2]]" "[2]" "[2]" "[''a'' \<mapsto> [1], ''b'' \<mapsto> [5]]"]
  by (simp add: flClean_def loaded_def)

lemma domain_sets_match:
  assumes "list_all2 (\<lambda>b m. parseDomainSet compileRe scan b = Inr m) files ms"
  shows "domainSetMatch reMatch ms n = Inr (\<exists>b \<in> set files. fileMatches compileRe reMatch (fst (scan b)) n)"
  using assms
proof (induction rule: list_all2_induct)
  case (Cons b files m ms)
  obtain l where "loadRulesFromReader compileRe (fst (scan b)) (snd (scan b)) NewLoader = (l, None)" "loaderCompile l = Inr m"
    using Cons(1) by (auto simp: parseDomainSet_def split: prod.splits option.splits)
  then have "matcherMatch reMatch m n = Inr (fileMatches compileRe reMatch (fst (scan b)) n)" using loaded_file by blast
  then show ?case using Cons(3) by auto
qed simp

text \<open>A domain set matches a name exactly if one of its files covers it.\<close>

theorem domain_set_matches:
  assumes "list_all2 (\<lambda>b m. parseDomainSet compileRe scan b = Inr m) files ms"
  shows "domainSetMatch reMatch ms n = Inr (\<exists>b \<in> set files. fileMatches compileRe reMatch (fst (scan b)) n)"
  using assms by (rule domain_sets_match)

theorem domain_set_matches_witness:
  "\<exists>m. parseDomainSet (\<lambda>_. None :: unit option) (\<lambda>b. ([b], None)) [] = Inr m \<and>
    domainSetMatch (\<lambda>_ _. False) [m, m] (name_of [[98]]) = Inr False"
proof -
  let ?scan = "\<lambda>b :: bytes. ([b], None)"
  have "loadRulesFromReader (\<lambda>_. None :: unit option) [[]] None NewLoader = (NewLoader, None)"
    by (simp add: loadRulesFromReader_def stripComment_def trimSpace_def)
  moreover have "wf_loader (NewLoader :: unit Loader)" by (simp add: wf_loader_def NewLoader_def newTree_wf)
  then have "\<exists>m. loaderCompile (NewLoader :: unit Loader) = Inr m"
    by (rule loaded_compiles) (simp add: NewLoader_def newTree_def)
  then obtain m where "loaderCompile (NewLoader :: unit Loader) = Inr m" by blast
  ultimately have m: "parseDomainSet (\<lambda>_. None :: unit option) ?scan [] = Inr m" by (simp add: parseDomainSet_def)
  have "\<not> fileMatches (\<lambda>_. None :: unit option) (\<lambda>_ _. False) [[]] (name_of [[98]])"
    by (simp add: fileMatches_def ruleLines_def stripComment_def trimSpace_def covers_def)
  then show ?thesis
    using domain_set_matches [of "\<lambda>_. None" ?scan "[[], []]" "[m, m]" "\<lambda>_ _. False" "name_of [[98]]"] m by auto
qed

end
