(* ===== verification/Cache.thy ===== *)
theory Cache
  imports DnsMsgCodec
begin

text \<open>
  The response cache: times to live (\<^verbatim>\<open>internal/dnsutils/msg_ttl.go\<close>), the two levels of storage
  (\<^verbatim>\<open>internal/cache\<close>) and their control (\<^verbatim>\<open>app/router/cache.go\<close>). The stores themselves (an
  in-memory map with expiry and a Redis server) and the compression of values are parameters, as is
  the clock. An instant is a number of nanoseconds; each operation reads the clock once. The times kept with a
  response are whole seconds (\<^verbatim>\<open>Unix\<close>), and so is what is computed from them.
\<close>

section \<open>Times to live\<close>

fun minTtlLoop :: "Resource list \<Rightarrow> u32 \<Rightarrow> bool \<Rightarrow> u32 \<times> bool" where
  "minTtlLoop [] minTTL hasRecord = (minTTL, hasRecord)"
| "minTtlLoop (r # rs) minTTL hasRecord =
    (if isOPT r then minTtlLoop rs minTTL hasRecord
     else minTtlLoop rs (if hTTL (Hdr r) < minTTL then hTTL (Hdr r) else minTTL) True)"

definition records :: "Msg \<Rightarrow> Resource list" where
  "records m = Answers m @ Authorities m @ Additionals m"

definition getMinimalTTL :: "Msg \<Rightarrow> u32 \<times> bool" where
  "getMinimalTTL m = (let (minTTL, hasRecord) = minTtlLoop (records m) (NOT 0) False in
     if \<not> hasRecord then (0, False) else (minTTL, True))"

definition subtractRR :: "u32 \<Rightarrow> Resource \<Rightarrow> Resource" where
  "subtractRR delta r =
    (if isOPT r then r
     else setHdr ((Hdr r)\<lparr>hTTL := (if hTTL (Hdr r) > delta then hTTL (Hdr r) - delta else 1)\<rparr>) r)"

definition subtractTTL :: "Msg \<Rightarrow> u32 \<Rightarrow> Msg" where
  "subtractTTL m delta = m\<lparr>Answers := map (subtractRR delta) (Answers m),
     Authorities := map (subtractRR delta) (Authorities m), Additionals := map (subtractRR delta) (Additionals m)\<rparr>"

section \<open>The stores\<close>

text \<open>\<^verbatim>\<open>time.Second\<close>, and the seconds of an instant.\<close>

definition secs :: "int \<Rightarrow> int" where
  "secs n = n * 1000000000"

definition unixOf :: "int \<Rightarrow> int" where
  "unixOf now = now div 1000000000"

record Times =
  StoredAtUnix :: int
  ExpireAtUnix :: int
  CacheExpireAtUnix :: int

text \<open>
  A store of values: reading a key at an instant, and setting a key to a value until an instant, in any
  case or only if the key is absent. The store in memory is given a time to live, counted from the instant of
  the call; Redis is given the second at which the value expires.
\<close>

record ('s, 'e) Backend =
  bGet :: "'s \<Rightarrow> int \<Rightarrow> bytes \<Rightarrow> 'e option"
  bSet :: "'s \<Rightarrow> int \<Rightarrow> bytes \<Rightarrow> 'e \<Rightarrow> int \<Rightarrow> 's"
  bSetNX :: "'s \<Rightarrow> int \<Rightarrow> bytes \<Rightarrow> 'e \<Rightarrow> int \<Rightarrow> 's"

type_synonym cacheEntry = "Times \<times> bytes"

definition memStore :: "('m, cacheEntry) Backend \<Rightarrow> 'm \<Rightarrow> int \<Rightarrow> bytes \<Rightarrow> bytes \<Rightarrow> Times \<Rightarrow> bool \<Rightarrow> 'm" where
  "memStore M s now k v t setNX =
    (let ttl = int64 (secs (CacheExpireAtUnix t - unixOf now)) in
     if ttl \<le> 0 then s else (if setNX then bSetNX M else bSet M) s now k (t, v) (now + ttl))"

definition memGet :: "('m, cacheEntry) Backend \<Rightarrow> 'm \<Rightarrow> int \<Rightarrow> bytes \<Rightarrow> (bytes \<times> Times) option" where
  "memGet M s now k = map_option prod.swap (bGet M s now k)"

record 'r RedisCache =
  backendOnline :: bool
  rdClient :: 'r

definition buildValue :: "bytes \<Rightarrow> Times \<Rightarrow> bytes" where
  "buildValue v t = put_u64 (word_of_int (StoredAtUnix t)) @ put_u64 (word_of_int (ExpireAtUnix t)) @
     put_u64 (word_of_int (CacheExpireAtUnix t)) @ v"

definition redisGet :: "('r, bytes) Backend \<Rightarrow> 'r RedisCache \<Rightarrow> int \<Rightarrow> bytes \<Rightarrow> (bytes \<times> Times) option" where
  "redisGet R c now k =
    (if \<not> backendOnline c then None
     else case bGet R (rdClient c) now k of
       None \<Rightarrow> None
     | Some b \<Rightarrow> if length b < 24 then None
         else Some (drop 24 b, \<lparr>StoredAtUnix = sint (be64 b), ExpireAtUnix = sint (be64 (drop 8 b)),
                                CacheExpireAtUnix = sint (be64 (drop 16 b))\<rparr>))"

definition redisStore :: "('r, bytes) Backend \<Rightarrow> 'r RedisCache \<Rightarrow> int \<Rightarrow> bytes \<Rightarrow> bytes \<Rightarrow> Times \<Rightarrow> bool \<Rightarrow> 'r RedisCache" where
  "redisStore R c now k v t setNX =
    (if \<not> backendOnline c then c
     else if unixOf now \<ge> CacheExpireAtUnix t then c
     else c\<lparr>rdClient := (if setNX then bSetNX R else bSet R) (rdClient c) now k (buildValue v t)
       (secs (CacheExpireAtUnix t))\<rparr>)"

definition redisPing :: "'r RedisCache \<Rightarrow> bool \<Rightarrow> 'r RedisCache" where
  "redisPing c ok = c\<lparr>backendOnline := ok\<rparr>"

section \<open>The control\<close>

record ('m, 'r) CacheCtl =
  maximumTtl :: int
  optimisticTtl :: int
  memory :: "'m option"
  redis :: "'r RedisCache option"

definition initCache :: "int \<Rightarrow> int \<Rightarrow> 'm option \<Rightarrow> 'r option \<Rightarrow> ('m, 'r) CacheCtl" where
  "initCache maxTtl optTtl mem rd = \<lparr>maximumTtl = (if maxTtl \<le> 0 then 24 * 3600 else maxTtl), optimisticTtl = optTtl,
     memory = mem, redis = map_option (\<lambda>r. \<lparr>backendOnline = False, rdClient = r\<rparr>) rd\<rparr>"

text \<open>How long a response may be served, and whether it may be kept longer.\<close>

definition msgTtl :: "int \<Rightarrow> Msg \<Rightarrow> int \<times> bool" where
  "msgTtl maxTtl resp =
    (let (u, hasRr) = getMinimalTTL resp;
         mn = int (unat u);
         byDefault = (\<lambda>d. if hasRr then min d mn else d);
         (ttl, optimistic) =
           (if RCode (mHeader resp) = 3 then (byDefault 300, False)
            else if RCode (mHeader resp) = 2 then (byDefault 3, False)
            else if RCode (mHeader resp) = 0 then (if hasRr then (mn, True) else (300, False))
            else (byDefault 5, False));
         ttl = (if ttl < 1 then 1 else ttl);
         ttl = (if ttl > maxTtl then maxTtl else ttl) in
     (ttl, optimistic))"

definition storeTimes :: "int \<Rightarrow> int \<Rightarrow> int \<Rightarrow> Msg \<Rightarrow> Times" where
  "storeTimes maxTtl optTtl now resp =
    (let (ttl, optimistic) = msgTtl maxTtl resp; expire = now + ttl in
     \<lparr>StoredAtUnix = now, ExpireAtUnix = expire,
      CacheExpireAtUnix = (if optTtl > 0 \<and> optimistic then expire + optTtl else expire)\<rparr>)"

text \<open>
  Packing a response for the store: the buffer has the length \<^verbatim>\<open>MaxPackLen\<close> says, holds anything
  (\<open>junk\<close>), and is encoded whole; what is packed lands in it if it fits and elsewhere if not.
\<close>

datatype cacheErr = ErrPackLen | ErrPack | ErrEncode | ErrDecode | ErrUnpack

definition packCacheMsg :: "(nat \<Rightarrow> bytes) \<Rightarrow> (bytes \<Rightarrow> bytes option) \<Rightarrow> Msg \<Rightarrow> (cacheErr, bytes) res" where
  "packCacheMsg junk enc m =
    (case maxPackLen m of Inl Panic \<Rightarrow> Inl Panic | Inl (Err _) \<Rightarrow> Inl (Err ErrPackLen) | Inr l \<Rightarrow>
     case msgPack m [] False 0 of Inl Panic \<Rightarrow> Inl Panic | Inl (Err _) \<Rightarrow> Inl (Err ErrPack) | Inr x \<Rightarrow>
     let b = (if length x \<le> l then x @ drop (length x) (take l (junk l)) else take l (junk l)) in
     case enc b of None \<Rightarrow> Inl (Err ErrEncode) | Some v \<Rightarrow> Inr v)"

definition unpackCacheMsg :: "(bytes \<Rightarrow> bytes option) \<Rightarrow> bytes \<Rightarrow> (cacheErr, Msg) res" where
  "unpackCacheMsg dec v =
    (case dec v of None \<Rightarrow> Inl (Err ErrDecode) | Some b \<Rightarrow>
     case msgUnpack b of Inl Panic \<Rightarrow> Inl Panic | Inl (Err _) \<Rightarrow> Inl (Err ErrUnpack) | Inr m \<Rightarrow> Inr m)"

definition hasEDNS0 :: "Msg \<Rightarrow> bool" where
  "hasEDNS0 m \<longleftrightarrow> list_ex isOPT (Additionals m)"

definition cacheStore :: "('m, cacheEntry) Backend \<Rightarrow> ('r, bytes) Backend \<Rightarrow> (nat \<Rightarrow> bytes) \<Rightarrow> (bytes \<Rightarrow> bytes option) \<Rightarrow>
    ('m, 'r) CacheCtl \<Rightarrow> int \<Rightarrow> bytes \<Rightarrow> Msg option \<Rightarrow> ('m, 'r) CacheCtl" where
  "cacheStore M R junk enc c now key resp =
    (if memory c = None \<and> redis c = None then c
     else case resp of None \<Rightarrow> c | Some m \<Rightarrow>
     if key = [] then c
     else if hasEDNS0 m then c
     else case packCacheMsg junk enc m of Inl _ \<Rightarrow> c | Inr v \<Rightarrow>
       let t = storeTimes (maximumTtl c) (optimisticTtl c) (unixOf now) m;
           negative = (RCode (mHeader m) \<noteq> 0) in
       c\<lparr>memory := map_option (\<lambda>s. memStore M s now key v t negative) (memory c),
         redis := map_option (\<lambda>s. redisStore R s now key v t negative) (redis c)\<rparr>)"

definition age :: "int \<Rightarrow> Times \<Rightarrow> u32" where
  "age now t = word_of_int (unixOf now - StoredAtUnix t)"

definition getMemoryCache :: "('m, cacheEntry) Backend \<Rightarrow> (bytes \<Rightarrow> bytes option) \<Rightarrow> ('m, 'r) CacheCtl \<Rightarrow> int \<Rightarrow> bytes \<Rightarrow>
    (Msg \<times> Times) option" where
  "getMemoryCache M dec c now key =
    (case memory c of None \<Rightarrow> None | Some s \<Rightarrow>
     case memGet M s now key of None \<Rightarrow> None | Some (v, t) \<Rightarrow>
     case unpackCacheMsg dec v of Inl _ \<Rightarrow> None | Inr m \<Rightarrow> Some (subtractTTL m (age now t), t))"

definition getRedisCache :: "('m, cacheEntry) Backend \<Rightarrow> ('r, bytes) Backend \<Rightarrow> (bytes \<Rightarrow> bytes option) \<Rightarrow> ('m, 'r) CacheCtl \<Rightarrow>
    int \<Rightarrow> bytes \<Rightarrow> (Msg \<times> Times) option \<times> ('m, 'r) CacheCtl" where
  "getRedisCache M R dec c now key =
    (case redis c of None \<Rightarrow> (None, c) | Some r \<Rightarrow>
     case redisGet R r now key of None \<Rightarrow> (None, c) | Some (v, t) \<Rightarrow>
     if v = [] then (None, c)
     else case unpackCacheMsg dec v of Inl _ \<Rightarrow> (None, c) | Inr m \<Rightarrow>
       (Some (subtractTTL m (age now t), t),
        c\<lparr>memory := map_option (\<lambda>s. memStore M s now key v t True) (memory c)\<rparr>))"

definition cacheGet :: "('m, cacheEntry) Backend \<Rightarrow> ('r, bytes) Backend \<Rightarrow> (bytes \<Rightarrow> bytes option) \<Rightarrow> ('m, 'r) CacheCtl \<Rightarrow>
    int \<Rightarrow> bytes \<Rightarrow> (Msg \<times> Times) option \<times> ('m, 'r) CacheCtl" where
  "cacheGet M R dec c now key =
    (case getMemoryCache M dec c now key of
       Some r \<Rightarrow> (Some r, c)
     | None \<Rightarrow> getRedisCache M R dec c now key)"

text \<open>
  \<^verbatim>\<open>needPrefetch\<close>: the threshold is a ratio of the initial time to live, computed in floating point;
  \<open>part\<close> is that computation.
\<close>

definition needPrefetch :: "(int \<Rightarrow> int) \<Rightarrow> int \<Rightarrow> Times \<Rightarrow> bool" where
  "needPrefetch part now t =
    (let initTtl = ExpireAtUnix t - StoredAtUnix t; remainTtl = ExpireAtUnix t - unixOf now in remainTtl < part initTtl)"

text \<open>Keys that are being prefetched.\<close>

definition prefetchReserve :: "bytes set \<Rightarrow> bytes \<Rightarrow> bytes set \<times> bytes option" where
  "prefetchReserve q key = (if key \<in> q then (q, None) else (insert key q, Some key))"

definition prefetchDone :: "bytes set \<Rightarrow> bytes \<Rightarrow> bytes set" where
  "prefetchDone q key = q - {key}"

section \<open>Facts about times to live\<close>

lemma minTtlLoop_spec:
  "minTtlLoop rs mn has = (mn', has') \<Longrightarrow>
    (has' \<longleftrightarrow> has \<or> (\<exists>r \<in> set rs. \<not> isOPT r)) \<and> mn' \<le> mn \<and> (\<forall>r \<in> set rs. \<not> isOPT r \<longrightarrow> mn' \<le> hTTL (Hdr r)) \<and>
    (mn' = mn \<or> (\<exists>r \<in> set rs. \<not> isOPT r \<and> hTTL (Hdr r) = mn'))"
proof (induction rs mn has rule: minTtlLoop.induct)
  case (2 r rs mn has)
  show ?case
  proof (cases "isOPT r")
    case True
    then show ?thesis using 2 by simp
  next
    case False
    let ?mn = "if hTTL (Hdr r) < mn then hTTL (Hdr r) else mn"
    have "minTtlLoop rs ?mn True = (mn', has')" using False "2.prems" by simp
    from "2.IH"(2) [OF False this] False show ?thesis by (auto split: if_splits)
  qed
qed simp

lemma isOPT_subtract [simp]: "isOPT (subtractRR d r) = isOPT r"
  by (cases r) (auto simp: subtractRR_def isOPT_def)

lemma ttl_subtract: "unat (hTTL (Hdr (subtractRR d r))) =
    (if isOPT r then unat (hTTL (Hdr r)) else max 1 (unat (hTTL (Hdr r)) - unat d))"
proof (cases "hTTL (Hdr r) > d")
  case True
  then have "unat (hTTL (Hdr r) - d) = unat (hTTL (Hdr r)) - unat d" "unat d < unat (hTTL (Hdr r))"
    using unat_sub [of d "hTTL (Hdr r)"] by (simp_all add: word_less_nat_alt word_le_nat_alt less_imp_le)
  then show ?thesis using True by (cases r) (auto simp: subtractRR_def)
next
  case False
  then have "unat (hTTL (Hdr r)) \<le> unat d" by (simp add: word_le_nat_alt not_less)
  then show ?thesis using False by (cases r) (auto simp: subtractRR_def)
qed

lemma msgTtl_bounds:
  assumes "maxTtl \<ge> 1"
  shows "1 \<le> fst (msgTtl maxTtl m) \<and> fst (msgTtl maxTtl m) \<le> maxTtl \<and>
    (\<forall>r \<in> set (records m). \<not> isOPT r \<longrightarrow> fst (msgTtl maxTtl m) \<le> max 1 (int (unat (hTTL (Hdr r))))) \<and>
    (RCode (mHeader m) \<noteq> 0 \<longrightarrow> fst (msgTtl maxTtl m) \<le> 300 \<and> \<not> snd (msgTtl maxTtl m)) \<and>
    ((\<forall>r \<in> set (records m). isOPT r) \<longrightarrow> fst (msgTtl maxTtl m) \<le> 300 \<and> \<not> snd (msgTtl maxTtl m))"
proof -
  obtain mn has where l: "minTtlLoop (records m) (NOT 0) False = (mn, has)" by (cases "minTtlLoop (records m) (NOT 0) False")
  note spec = minTtlLoop_spec [OF l]
  have g: "getMinimalTTL m = (if has then (mn, True) else (0, False))" using l by (simp add: getMinimalTTL_def)
  have "fst (msgTtl maxTtl m) \<le> max 1 (int (unat (hTTL (Hdr r))))" if r: "r \<in> set (records m)" "\<not> isOPT r" for r
  proof -
    have "has" "mn \<le> hTTL (Hdr r)" using spec r by blast+
    then have "uint mn \<le> uint (hTTL (Hdr r))" by (simp add: word_le_def)
    then show ?thesis using g \<open>has\<close> by (auto simp: msgTtl_def Let_def min_def max_def)
  qed
  moreover have "(\<forall>r \<in> set (records m). isOPT r) \<Longrightarrow> \<not> has" using spec by blast
  ultimately show ?thesis using assms g by (auto simp: msgTtl_def Let_def)
qed

section \<open>What the stores promise\<close>

text \<open>
  A store returns only values that were set and have not expired; it may forget any of them at any
  time. Setting a key that is present, only if absent, does nothing.
\<close>

definition backend_ok :: "('s, 'e) Backend \<Rightarrow> bool" where
  "backend_ok B \<longleftrightarrow>
    (\<forall>s n k e x t k' e'. bGet B (bSet B s n k e x) t k' = Some e' \<longrightarrow> k' = k \<and> e' = e \<and> t < x \<or> bGet B s t k' = Some e') \<and>
    (\<forall>s n k e x t k' e'. bGet B (bSetNX B s n k e x) t k' = Some e' \<longrightarrow>
      k' = k \<and> e' = e \<and> t < x \<and> bGet B s n k = None \<or> bGet B s t k' = Some e')"

lemma set_either:
  assumes "backend_ok B" "bGet B ((if nx then bSetNX B else bSet B) s n k e x) t k' = Some e'"
  shows "k' = k \<and> e' = e \<and> t < x \<or> bGet B s t k' = Some e'"
  using assms unfolding backend_ok_def by (cases nx) fastforce+

text \<open>Every value that can be read satisfies a predicate on its key and value, and has not expired.\<close>

definition holds :: "('s, 'e) Backend \<Rightarrow> (int \<Rightarrow> bytes \<Rightarrow> 'e \<Rightarrow> bool) \<Rightarrow> 's \<Rightarrow> bool" where
  "holds B P s \<longleftrightarrow> (\<forall>t k e. bGet B s t k = Some e \<longrightarrow> P t k e)"

lemma holds_set:
  assumes "backend_ok B" "holds B P s" "\<And>t. t < x \<Longrightarrow> P t k e"
  shows "holds B P ((if nx then bSetNX B else bSet B) s n k e x)"
  using set_either [OF assms(1)] assms(2,3) unfolding holds_def by blast

lemma unixOf_less: "now < secs (unixOf now + 1)"
  by (simp add: secs_def unixOf_def)

lemma secs_unixOf: "secs (unixOf now) \<le> now"
  by (simp add: secs_def unixOf_def)

lemma int64_le: "0 \<le> x \<Longrightarrow> int64 x \<le> x"
proof (cases "x < 2 ^ 63")
  case False
  have "int64 x < 2 ^ 63" using sint_less [of "word_of_int x :: u64"] by (simp add: int64_def)
  then show ?thesis using False by simp
qed (simp add: int64_id)

text \<open>The time to live is counted from an instant within a second: up to a second is added.\<close>

lemma holds_memStore:
  assumes "backend_ok M" "holds M P s" "unixOf now < CacheExpireAtUnix t"
    and "\<And>u. u < secs (CacheExpireAtUnix t + 1) \<Longrightarrow> P u k (t, v)"
  shows "holds M P (memStore M s now k v t nx)"
proof -
  let ?ttl = "int64 (secs (CacheExpireAtUnix t - unixOf now))"
  have "?ttl \<le> secs (CacheExpireAtUnix t - unixOf now)" using assms(3) by (intro int64_le) (simp add: secs_def)
  then have "now + ?ttl < secs (CacheExpireAtUnix t + 1)" using unixOf_less [of now] by (simp add: secs_def)
  then have "P u k (t, v)" if "u < now + ?ttl" for u using assms(4) that by simp
  from holds_set [OF assms(1,2), of "now + ?ttl" k "(t, v)" nx now] this assms(2) show ?thesis by (simp add: memStore_def Let_def)
qed

lemma holds_redisStore:
  assumes "backend_ok R" "holds R P (rdClient c)" "\<And>u. u < secs (CacheExpireAtUnix t) \<Longrightarrow> P u k (buildValue v t)"
  shows "holds R P (rdClient (redisStore R c now k v t nx))"
  using holds_set [OF assms(1,2), of "secs (CacheExpireAtUnix t)" k "buildValue v t" nx now] assms by (auto simp: redisStore_def)

lemma holds_mono: "holds B P s \<Longrightarrow> (\<And>t k e. P t k e \<Longrightarrow> Q t k e) \<Longrightarrow> holds B Q s"
  by (auto simp: holds_def)

section \<open>Histories\<close>

text \<open>
  The responses stored so far, with the time and the key, and the states they lead to. The times must
  fit the 64 bits of a Unix time.
\<close>

definition times_ok :: "Times \<Rightarrow> bool" where
  "times_ok t \<longleftrightarrow> (\<forall>x \<in> {StoredAtUnix t, ExpireAtUnix t, CacheExpireAtUnix t}. sint (word_of_int x :: u64) = x)"

type_synonym history = "(int \<times> bytes \<times> Msg) set"

inductive cache_reach :: "('m, cacheEntry) Backend \<Rightarrow> ('r, bytes) Backend \<Rightarrow> (nat \<Rightarrow> bytes) \<Rightarrow> (bytes \<Rightarrow> bytes option) \<Rightarrow>
    (bytes \<Rightarrow> bytes option) \<Rightarrow> ('m, 'r) CacheCtl \<Rightarrow> history \<Rightarrow> ('m, 'r) CacheCtl \<Rightarrow> bool"
  for M R junk enc dec c0 where
  start: "cache_reach M R junk enc dec c0 {} c0"
| store: "cache_reach M R junk enc dec c0 H c \<Longrightarrow> msg_ok m \<Longrightarrow> hdr_ok (mHeader m) \<Longrightarrow>
    times_ok (storeTimes (maximumTtl c) (optimisticTtl c) (unixOf now) m) \<Longrightarrow>
    cache_reach M R junk enc dec c0 (insert (now, key, m) H) (cacheStore M R junk enc c now key (Some m))"
| get: "cache_reach M R junk enc dec c0 H c \<Longrightarrow> cache_reach M R junk enc dec c0 H (snd (cacheGet M R dec c now key))"
| ping: "cache_reach M R junk enc dec c0 H c \<Longrightarrow> cache_reach M R junk enc dec c0 H (c\<lparr>redis := map_option (\<lambda>r. redisPing r ok) (redis c)\<rparr>)"

text \<open>An entry comes from a stored response.\<close>

definition packed :: "Msg \<Rightarrow> bytes \<Rightarrow> bool" where
  "packed m x \<longleftrightarrow> msg_ok m \<and> hdr_ok (mHeader m) \<and> msgPack m [] False 0 = Inr x"

definition entry_good :: "(bytes \<Rightarrow> bytes option) \<Rightarrow> int \<Rightarrow> int \<Rightarrow> history \<Rightarrow> bytes \<Rightarrow> cacheEntry \<Rightarrow> bool" where
  "entry_good enc maxTtl optTtl H k e \<longleftrightarrow> times_ok (fst e) \<and>
    (\<exists>n m x. (n, k, m) \<in> H \<and> packed m x \<and> enc x = Some (snd e) \<and> fst e = storeTimes maxTtl optTtl (unixOf n) m)"

definition mem_good :: "(bytes \<Rightarrow> bytes option) \<Rightarrow> int \<Rightarrow> int \<Rightarrow> history \<Rightarrow> int \<Rightarrow> bytes \<Rightarrow> cacheEntry \<Rightarrow> bool" where
  "mem_good enc mx op H now k e \<longleftrightarrow> now < secs (CacheExpireAtUnix (fst e) + 1) \<and> entry_good enc mx op H k e"

definition redis_good :: "(bytes \<Rightarrow> bytes option) \<Rightarrow> int \<Rightarrow> int \<Rightarrow> history \<Rightarrow> int \<Rightarrow> bytes \<Rightarrow> bytes \<Rightarrow> bool" where
  "redis_good enc mx op H now k b \<longleftrightarrow>
    (\<exists>v t. b = buildValue v t \<and> now < secs (CacheExpireAtUnix t) \<and> entry_good enc mx op H k (t, v))"

definition cache_good :: "('m, cacheEntry) Backend \<Rightarrow> ('r, bytes) Backend \<Rightarrow> (bytes \<Rightarrow> bytes option) \<Rightarrow> history \<Rightarrow>
    ('m, 'r) CacheCtl \<Rightarrow> bool" where
  "cache_good M R enc H c \<longleftrightarrow> maximumTtl c \<ge> 1 \<and>
    (\<forall>s. memory c = Some s \<longrightarrow> holds M (mem_good enc (maximumTtl c) (optimisticTtl c) H) s) \<and>
    (\<forall>r. redis c = Some r \<longrightarrow> holds R (redis_good enc (maximumTtl c) (optimisticTtl c) H) (rdClient r))"

lemma packCacheMsg_packed:
  assumes "packCacheMsg junk enc m = Inr v" "msg_ok m" "hdr_ok (mHeader m)"
  shows "\<exists>x. packed m x \<and> enc x = Some v"
proof -
  obtain l x where x: "maxPackLen m = Inr l" "msgPack m [] False 0 = Inr x"
    using assms(1) by (auto simp: packCacheMsg_def split: sum.splits fail.splits)
  then have "l = length x" using max_len_exact [OF assms(2) x(2)] by simp
  then have "enc x = Some v" using assms(1) x by (auto simp: packCacheMsg_def Let_def split: option.splits)
  then show ?thesis using x assms by (auto simp: packed_def)
qed

lemma unpack_packed:
  assumes "packed m x" "dec v = Some x"
  shows "\<exists>m0. unpackCacheMsg dec v = Inr m0 \<and> same_msg m m0"
  using pack_unpack_unlimited [of m 0 False "[]"] assms by (auto simp: packed_def unpackCacheMsg_def)

lemma entry_good_mono: "entry_good enc a b H k e \<Longrightarrow> H \<subseteq> H' \<Longrightarrow> entry_good enc a b H' k e"
  unfolding entry_good_def by blast

lemma goods_mono:
  "mem_good enc a b H now k e \<Longrightarrow> H \<subseteq> H' \<Longrightarrow> mem_good enc a b H' now k e"
  "redis_good enc a b H now k d \<Longrightarrow> H \<subseteq> H' \<Longrightarrow> redis_good enc a b H' now k d"
  unfolding mem_good_def redis_good_def using entry_good_mono by blast+

lemma storeTimes_later: "maxTtl \<ge> 1 \<Longrightarrow> now < CacheExpireAtUnix (storeTimes maxTtl optTtl now m)"
  using msgTtl_bounds [of maxTtl m] by (cases "msgTtl maxTtl m") (simp add: storeTimes_def Let_def)

lemma parse_buildValue:
  assumes "times_ok t"
  shows "let b = buildValue v t in drop 24 b = v \<and> \<not> length b < 24 \<and>
    \<lparr>StoredAtUnix = sint (be64 b), ExpireAtUnix = sint (be64 (drop 8 b)), CacheExpireAtUnix = sint (be64 (drop 16 b))\<rparr> = t"
  using assms by (simp add: buildValue_def times_ok_def Let_def)

lemma cacheStore_good:
  assumes "cache_good M R enc H c" "backend_ok M" "backend_ok R" "msg_ok m" "hdr_ok (mHeader m)"
    and t: "times_ok (storeTimes (maximumTtl c) (optimisticTtl c) (unixOf now) m)"
  shows "cache_good M R enc (insert (now, key, m) H) (cacheStore M R junk enc c now key (Some m))"
proof -
  let ?a = "maximumTtl c" and ?b = "optimisticTtl c" and ?H = "insert (now, key, m) H"
  have old: "cache_good M R enc ?H c"
    using assms(1) unfolding cache_good_def by (blast intro: holds_mono goods_mono)
  show ?thesis
  proof (cases "cacheStore M R junk enc c now key (Some m) = c")
    case True
    then show ?thesis using old by simp
  next
    case False
    then obtain v where v: "packCacheMsg junk enc m = Inr v"
      "cacheStore M R junk enc c now key (Some m) = c\<lparr>
        memory := map_option (\<lambda>s. memStore M s now key v (storeTimes ?a ?b (unixOf now) m) (RCode (mHeader m) \<noteq> 0)) (memory c),
        redis := map_option (\<lambda>s. redisStore R s now key v (storeTimes ?a ?b (unixOf now) m) (RCode (mHeader m) \<noteq> 0)) (redis c)\<rparr>"
      by (auto simp: cacheStore_def Let_def split: if_splits sum.splits)
    let ?t = "storeTimes ?a ?b (unixOf now) m" and ?n = "RCode (mHeader m) \<noteq> 0"
    have e: "entry_good enc ?a ?b ?H key (?t, v)"
      using packCacheMsg_packed [OF v(1) assms(4,5)] t unfolding entry_good_def by auto
    have l: "unixOf now < CacheExpireAtUnix ?t" using assms(1) by (intro storeTimes_later) (simp add: cache_good_def)
    have "holds M (mem_good enc ?a ?b ?H) (memStore M s now key v ?t ?n)" if "memory c = Some s" for s
      using old that e by (intro holds_memStore [OF assms(2) _ l]) (auto simp: cache_good_def mem_good_def)
    moreover have "holds R (redis_good enc ?a ?b ?H) (rdClient (redisStore R r now key v ?t ?n))" if "redis c = Some r" for r
      using old that e by (intro holds_redisStore [OF assms(3)]) (auto simp: cache_good_def redis_good_def)
    ultimately show ?thesis using old unfolding v(2) cache_good_def by auto
  qed
qed

lemma redisGet_good:
  assumes "holds R (redis_good enc mx op H) (rdClient r)" and "redisGet R r now key = Some (v, t)"
  shows "now < secs (CacheExpireAtUnix t) \<and> entry_good enc mx op H key (t, v)"
proof -
  obtain d where d: "bGet R (rdClient r) now key = Some d" using assms(2) by (auto simp: redisGet_def split: if_splits option.splits)
  then obtain v' t' where e: "d = buildValue v' t'" "now < secs (CacheExpireAtUnix t')" "entry_good enc mx op H key (t', v')"
    using assms(1) unfolding holds_def redis_good_def by blast
  then have "times_ok t'" by (simp add: entry_good_def)
  from parse_buildValue [OF this, of v'] show ?thesis
    using assms(2) d e by (auto simp: redisGet_def Let_def split: if_splits)
qed

lemma cacheGet_good:
  assumes "cache_good M R enc H c" "backend_ok M"
  shows "cache_good M R enc H (snd (cacheGet M R dec c now key))"
proof (cases "snd (cacheGet M R dec c now key) = c")
  case True
  then show ?thesis using assms by simp
next
  case False
  let ?a = "maximumTtl c" and ?b = "optimisticTtl c"
  obtain r v t where r: "redis c = Some r" "redisGet R r now key = Some (v, t)"
    "snd (cacheGet M R dec c now key) = c\<lparr>memory := map_option (\<lambda>s. memStore M s now key v t True) (memory c)\<rparr>"
    using False by (auto simp: cacheGet_def getRedisCache_def split: option.splits if_splits sum.splits)
  have e: "now < secs (CacheExpireAtUnix t)" "entry_good enc ?a ?b H key (t, v)"
    using redisGet_good [OF _ r(2), of enc ?a ?b H] assms(1) r(1) by (simp_all add: cache_good_def)
  have l: "unixOf now < CacheExpireAtUnix t" using e(1) secs_unixOf [of now] unfolding secs_def by linarith
  have "holds M (mem_good enc ?a ?b H) (memStore M s now key v t True)" if "memory c = Some s" for s
    using assms(1) that e(2) by (intro holds_memStore [OF assms(2) _ l]) (auto simp: cache_good_def mem_good_def)
  then show ?thesis using assms(1) r unfolding r(3) cache_good_def by auto
qed

lemma reach_good:
  assumes "cache_reach M R junk enc dec c0 H c" "backend_ok M" "backend_ok R" "cache_good M R enc {} c0"
  shows "cache_good M R enc H c"
  using assms
proof (induction rule: cache_reach.induct)
  case (ping H c ok)
  then show ?case by (auto simp: cache_good_def redisPing_def)
qed (auto intro: cacheStore_good cacheGet_good)

lemma cacheGet_settings: "maximumTtl (snd (cacheGet M R dec c now key)) = maximumTtl c"
    "optimisticTtl (snd (cacheGet M R dec c now key)) = optimisticTtl c"
  by (simp_all add: cacheGet_def getRedisCache_def split: option.split sum.split)

lemma reach_settings:
  "cache_reach M R junk enc dec c0 H c \<Longrightarrow> maximumTtl c = maximumTtl c0 \<and> optimisticTtl c = optimisticTtl c0"
proof (induction rule: cache_reach.induct)
  case (store H c m now key)
  then show ?case by (simp add: cacheStore_def Let_def split: sum.split)
qed (simp_all add: cacheGet_settings)

lemma cacheGet_origin:
  assumes "cache_good M R enc H c" "\<forall>x v. enc x = Some v \<longrightarrow> dec v = Some x"
    and "fst (cacheGet M R dec c now key) = Some (m', t)"
  shows "\<exists>n m m0. (n, key, m) \<in> H \<and> t = storeTimes (maximumTtl c) (optimisticTtl c) (unixOf n) m \<and>
    now < secs (CacheExpireAtUnix t + 1) \<and> (getMemoryCache M dec c now key = None \<longrightarrow> now < secs (CacheExpireAtUnix t)) \<and>
    same_msg m m0 \<and> m' = subtractTTL m0 (word_of_int (unixOf now - unixOf n))"
proof -
  let ?a = "maximumTtl c" and ?b = "optimisticTtl c"
  have "\<exists>v mm. entry_good enc ?a ?b H key (t, v) \<and> unpackCacheMsg dec v = Inr mm \<and> m' = subtractTTL mm (age now t) \<and>
    now < secs (CacheExpireAtUnix t + 1) \<and> (getMemoryCache M dec c now key = None \<longrightarrow> now < secs (CacheExpireAtUnix t))"
  proof (cases "getMemoryCache M dec c now key")
    case None
    then obtain r v mm where r: "redis c = Some r" "redisGet R r now key = Some (v, t)" "unpackCacheMsg dec v = Inr mm"
      "m' = subtractTTL mm (age now t)"
      using assms(3) by (auto simp: cacheGet_def getRedisCache_def split: option.splits if_splits sum.splits)
    then have "now < secs (CacheExpireAtUnix t)" "entry_good enc ?a ?b H key (t, v)"
      using redisGet_good [OF _ r(2), of enc ?a ?b H] assms(1) by (simp_all add: cache_good_def)
    then show ?thesis using r by (intro exI [of _ v] exI [of _ mm]) (simp add: secs_def)
  next
    case (Some x)
    then obtain s v mm where r: "memory c = Some s" "bGet M s now key = Some (t, v)" "unpackCacheMsg dec v = Inr mm"
      "m' = subtractTTL mm (age now t)"
      using assms(3) by (auto simp: cacheGet_def getMemoryCache_def memGet_def split: option.splits sum.splits)
    then have "mem_good enc ?a ?b H now key (t, v)" using assms(1) by (auto simp: cache_good_def holds_def)
    then show ?thesis using r Some by (intro exI [of _ v] exI [of _ mm]) (simp add: mem_good_def)
  qed
  then obtain v mm where v: "entry_good enc ?a ?b H key (t, v)" "unpackCacheMsg dec v = Inr mm" "m' = subtractTTL mm (age now t)"
    "now < secs (CacheExpireAtUnix t + 1)" "getMemoryCache M dec c now key = None \<longrightarrow> now < secs (CacheExpireAtUnix t)" by (elim exE conjE) (rule that)
  then obtain n m x where m: "(n, key, m) \<in> H" "packed m x" "enc x = Some v" "t = storeTimes ?a ?b (unixOf n) m"
    by (auto simp: entry_good_def)
  then have "dec v = Some x" using assms(2) by blast
  then obtain m0 where "mm = m0" "same_msg m m0" using unpack_packed [OF m(2), of dec v] v(2) by auto
  moreover have "StoredAtUnix t = unixOf n" using m(4) by (simp add: storeTimes_def Let_def split: prod.split)
  ultimately show ?thesis using m(1,4) v(3-5) unfolding age_def by (intro exI [of _ n] exI [of _ m] exI [of _ m0]) simp
qed

section \<open>Properties\<close>


text \<open>A store in memory: a map whose values carry the time they expire.\<close>

definition mapBackend :: "(bytes \<rightharpoonup> 'e \<times> int, 'e) Backend" where
  "mapBackend = \<lparr>
    bGet = (\<lambda>s t k. case s k of Some (e, x) \<Rightarrow> if t < x then Some e else None | None \<Rightarrow> None),
    bSet = (\<lambda>s n k e x. s(k \<mapsto> (e, x))),
    bSetNX = (\<lambda>s n k e x. case s k of Some (e', x') \<Rightarrow> if n < x' then s else s(k \<mapsto> (e, x)) | None \<Rightarrow> s(k \<mapsto> (e, x)))\<rparr>"

lemma mapBackend_ok: "backend_ok mapBackend"
  unfolding backend_ok_def mapBackend_def by (auto split: option.splits if_splits)

definition plainMsg :: Msg where
  "plainMsg = sampleMsg\<lparr>Additionals := []\<rparr>"

text \<open>A cache that has stored one response under the key [1], 100.9 seconds after the start of the clock.\<close>

lemma plain_stored:
  fixes ini :: "(bytes \<rightharpoonup> cacheEntry \<times> int, bytes \<rightharpoonup> bytes \<times> int) CacheCtl"
  defines "ini \<equiv> initCache 0 0 (Some Map.empty) None"
  defines "c \<equiv> cacheStore mapBackend mapBackend (\<lambda>_. []) Some ini 100900000000 [1] (Some plainMsg)"
  shows "cache_reach mapBackend mapBackend (\<lambda>_. []) Some Some ini {(100900000000, [1], plainMsg)} c \<and>
    (100900000000 \<le> now \<and> now < 160900000000 \<longrightarrow>
      (\<exists>m'. fst (cacheGet mapBackend mapBackend Some c now [1]) = Some (m', storeTimes 86400 0 100 plainMsg)))"
proof -
  let ?M = "mapBackend :: (bytes \<rightharpoonup> cacheEntry \<times> int, cacheEntry) Backend"
  let ?R = "mapBackend :: (bytes \<rightharpoonup> bytes \<times> int, bytes) Backend"
  let ?t = "storeTimes 86400 0 100 plainMsg"
  have ok: "msg_ok plainMsg" "hdr_ok (mHeader plainMsg)" using sampleMsg_ok by (simp_all add: plainMsg_def msg_ok_def counts_ok_def)
  have t: "?t = \<lparr>StoredAtUnix = 100, ExpireAtUnix = 160, CacheExpireAtUnix = 160\<rparr>"
    by (simp add: storeTimes_def msgTtl_def getMinimalTTL_def records_def plainMsg_def sampleMsg_def isOPT_def)
  obtain x where x: "msgPack plainMsg [] False 0 = Inr x"
    using pack_unpack_unlimited [OF ok, of 0 False "[]"] by auto
  then have "packCacheMsg (\<lambda>_. []) Some plainMsg = Inr x"
    using max_len_exact [OF ok(1) x] by (simp add: packCacheMsg_def)
  moreover have "\<not> hasEDNS0 plainMsg" "RCode (mHeader plainMsg) = 0" by (simp_all add: hasEDNS0_def plainMsg_def sampleMsg_def)
  ultimately have c: "c = ini\<lparr>memory := Some ([[1] \<mapsto> ((?t, x), 160900000000)])\<rparr>"
    using t by (simp add: c_def ini_def cacheStore_def initCache_def memStore_def mapBackend_def unixOf_def secs_def int64_def)
  have p: "packed plainMsg x" using ok x by (simp add: packed_def)
  obtain m0 where "unpackCacheMsg Some x = Inr m0" using unpack_packed [OF p, of Some x] by auto
  then have "\<exists>m'. fst (cacheGet ?M ?R Some c now [1]) = Some (m', ?t)" if "now < 160900000000"
    unfolding c using that by (simp add: cacheGet_def getMemoryCache_def memGet_def mapBackend_def)
  moreover have "times_ok ?t" unfolding t by (simp add: times_ok_def)
  then have "cache_reach ?M ?R (\<lambda>_. []) Some Some ini {(100900000000, [1], plainMsg)} c"
    unfolding c_def by - (rule cache_reach.store [OF cache_reach.start ok], simp add: ini_def initCache_def unixOf_def)
  ultimately show ?thesis by blast
qed


text \<open>
  The time to live is computed from whole seconds and counted from the precise instant, so that an entry
  in memory outlives the second at which it expires: this one, to be kept until 160, is served at 160.5.
\<close>

lemma served_past_expiry:
  "\<exists>m' t. fst (cacheGet mapBackend mapBackend Some (cacheStore mapBackend mapBackend (\<lambda>_. []) Some
      (initCache 0 0 (Some Map.empty) (None :: (bytes \<rightharpoonup> bytes \<times> int) option)) 100900000000 [1] (Some plainMsg)) 160500000000 [1]) =
    Some (m', t) \<and> CacheExpireAtUnix t = 160"
proof -
  have "CacheExpireAtUnix (storeTimes 86400 0 100 plainMsg) = 160"
    by (simp add: storeTimes_def msgTtl_def getMinimalTTL_def records_def plainMsg_def sampleMsg_def isOPT_def)
  then show ?thesis using plain_stored [of 160500000000] by auto
qed

text \<open>A response is fresh for at least one second, at most the configured maximum, and no longer
  than any of its records lives, a record of zero seconds aside; a negative or empty one for at most
  300 seconds; and only a fresh answer with records may be kept longer, by the optimistic time.\<close>

theorem cache_times:
  assumes "maxTtl \<ge> 1" "t = storeTimes maxTtl optTtl now m"
  shows "now < ExpireAtUnix t \<and> ExpireAtUnix t \<le> now + maxTtl \<and>
    (\<forall>r \<in> set (records m). \<not> isOPT r \<longrightarrow> ExpireAtUnix t \<le> now + max 1 (int (unat (hTTL (Hdr r))))) \<and>
    (RCode (mHeader m) \<noteq> 0 \<or> (\<forall>r \<in> set (records m). isOPT r) \<longrightarrow>
      CacheExpireAtUnix t = ExpireAtUnix t \<and> ExpireAtUnix t \<le> now + 300) \<and>
    ExpireAtUnix t \<le> CacheExpireAtUnix t \<and> CacheExpireAtUnix t \<le> ExpireAtUnix t + max 0 optTtl"
  using msgTtl_bounds [OF assms(1), of m] unfolding assms(2) storeTimes_def
  by (cases "msgTtl maxTtl m") (auto simp: Let_def)

theorem cache_times_witness: "ExpireAtUnix (storeTimes 86400 30 100 plainMsg) \<le> 100 + 86400"
  using cache_times [of 86400 "storeTimes 86400 30 100 plainMsg" 30 100 plainMsg] by simp

text \<open>Reducing the times to live of a message reduces its minimal one, down to one second.\<close>

theorem minimal_ttl_subtract:
  "getMinimalTTL (subtractTTL m d) =
    (case getMinimalTTL m of (mn, ok) \<Rightarrow> (if \<not> ok then 0 else if mn > d then mn - d else 1, ok))"
proof -
  let ?f = "\<lambda>x :: u32. if x > d then x - d else 1"
  have rec: "records (subtractTTL m d) = map (subtractRR d) (records m)" by (simp add: records_def subtractTTL_def)
  have ttl: "hTTL (Hdr (subtractRR d r)) = ?f (hTTL (Hdr r))" if "\<not> isOPT r" for r
    using that by (cases r) (auto simp: subtractRR_def)
  have mono: "?f x \<le> ?f y" if "x \<le> y" for x y :: u32
  proof -
    have "unat (?f x) = max 1 (unat x - unat d)" for x :: u32
      using unat_sub [of d x] by (auto simp: word_less_nat_alt word_le_nat_alt max_def)
    then show ?thesis using that diff_le_mono [of "unat x" "unat y" "unat d"] by (auto simp: word_le_nat_alt max_def)
  qed
  obtain mn has where l: "minTtlLoop (records m) (NOT 0) False = (mn, has)" by (cases "minTtlLoop (records m) (NOT 0) False")
  obtain mn' has' where l': "minTtlLoop (records (subtractTTL m d)) (NOT 0) False = (mn', has')"
    by (cases "minTtlLoop (records (subtractTTL m d)) (NOT 0) False")
  note s = minTtlLoop_spec [OF l] and s' = minTtlLoop_spec [OF l']
  have at: "\<exists>r \<in> set rs. \<not> isOPT r \<and> hTTL (Hdr r) = x"
    if a: "minTtlLoop rs (NOT 0) False = (x, True)" for rs x
  proof -
    obtain r where r: "r \<in> set rs" "\<not> isOPT r" "x \<le> hTTL (Hdr r)" using minTtlLoop_spec [OF a] by auto
    show ?thesis
    proof (cases "x = NOT 0")
      case True
      then have "hTTL (Hdr r) = x" using r(3) by (simp add: word_order.extremum_unique)
      then show ?thesis using r by blast
    qed (use minTtlLoop_spec [OF a] in blast)
  qed
  have "has' = has" using s s' unfolding rec by auto
  moreover have "mn' = ?f mn" if has
  proof -
    obtain r where r: "r \<in> set (records m)" "\<not> isOPT r" "hTTL (Hdr r) = mn" using at [of "records m" mn] l \<open>has\<close> by auto
    have "minTtlLoop (records (subtractTTL m d)) (NOT 0) False = (mn', True)" using l' \<open>has' = has\<close> \<open>has\<close> by simp
    from at [OF this] obtain r' where r': "r' \<in> set (records m)" "\<not> isOPT r'" "?f (hTTL (Hdr r')) = mn'"
      unfolding rec using ttl by auto
    have "mn' \<le> ?f mn" using s' r ttl unfolding rec by force
    moreover have "?f mn \<le> mn'" using mono [of mn "hTTL (Hdr r')"] s r' by simp
    ultimately show ?thesis by simp
  qed
  ultimately show ?thesis using l l' by (cases has) (simp_all add: getMinimalTTL_def)
qed

end
