(* ===== verification/RouterCtx.thy ===== *)
theory RouterCtx
  imports IpAddr DnsText Cache
begin

text \<open>
  The context of a query (\<^verbatim>\<open>app/router/context.go\<close>) and the helpers that work on it: the empty
  response and the cache key of \<^verbatim>\<open>router_utils.go\<close>, and the EDNS0 helpers of \<^verbatim>\<open>utils.go\<close>.
  Contexts, questions and messages are taken from pools: what a pool hands out is an argument.
  The text of a prefix, which \<^verbatim>\<open>netip.Prefix.AppendTo\<close> writes, is a parameter.
\<close>

section \<open>Questions and contexts\<close>

definition questionReset :: "Question \<Rightarrow> Question" where
  "questionReset q = q\<lparr>qName := nameReset (qName q), qClass := 0, qType := 0\<rparr>"

definition questionCopyFrom :: "Question \<Rightarrow> Question \<Rightarrow> Question" where
  "questionCopyFrom q q2 = q\<lparr>qName := nameCopyFrom (qName q) (qName q2), qClass := qClass q2, qType := qType q2\<rparr>"

definition zeroQuestion :: Question where
  "zeroQuestion = \<lparr>qName = emptyName, qType = 0, qClass = 0\<rparr>"

datatype Proto = ProtoUnKnown | ProtoUDP | ProtoTCP | ProtoTLS | ProtoHTTP | ProtoHTTPS | ProtoQUIC

record AddrPort =
  apAddr :: Addr
  apPort :: u16

definition noAddrPort :: AddrPort where
  "noAddrPort = \<lparr>apAddr = NoAddr, apPort = 0\<rparr>"

record QueryCtx =
  Qid :: u32
  Start :: int
  Prefetch :: bool
  cQuestion :: Question
  ClientECS :: Prefix
  ServerTag :: bytes
  Protocol :: Proto
  RemoteAddr :: AddrPort
  ServerName :: bytes
  Host :: bytes
  Path :: bytes
  ECS2Upstream :: Prefix
  ECSZone :: bytes
  cResp :: "Msg option"
  respFrom :: string

text \<open>The zero value of the struct; the zero time is the number 0.\<close>

definition zeroCtx :: QueryCtx where
  "zeroCtx = \<lparr>Qid = 0, Start = 0, Prefetch = False, cQuestion = zeroQuestion, ClientECS = noPrefix,
     ServerTag = [], Protocol = ProtoUnKnown, RemoteAddr = noAddrPort, ServerName = [], Host = [], Path = [],
     ECS2Upstream = noPrefix, ECSZone = [], cResp = None, respFrom = []\<rparr>"

definition NewQueryCtx :: "QueryCtx option \<Rightarrow> u32 \<Rightarrow> int \<Rightarrow> QueryCtx" where
  "NewQueryCtx pooled rand now =
    (let q = (case pooled of Some q \<Rightarrow> q | None \<Rightarrow> zeroCtx) in q\<lparr>Qid := rand, Start := now\<rparr>)"

definition SetRespFrom :: "QueryCtx \<Rightarrow> Msg option \<Rightarrow> string \<Rightarrow> QueryCtx" where
  "SetRespFrom q r from = q\<lparr>cResp := r, respFrom := from\<rparr>"

definition SetResp :: "QueryCtx \<Rightarrow> Msg option \<Rightarrow> QueryCtx" where
  "SetResp q r = SetRespFrom q r []"

definition ctxReset :: "QueryCtx \<Rightarrow> QueryCtx" where
  "ctxReset q = q\<lparr>Qid := 0, Start := 0, Prefetch := False, cQuestion := questionReset (cQuestion q),
     ClientECS := noPrefix, ServerTag := [], Protocol := ProtoUnKnown, RemoteAddr := noAddrPort,
     ServerName := [], Host := [], Path := [], ECS2Upstream := noPrefix, ECSZone := [], cResp := None, respFrom := []\<rparr>"

text \<open>\<^verbatim>\<open>Copy\<close> appends to the slices of the context the pool gives and leaves its other fields to be set.\<close>

definition ctxCopy :: "QueryCtx option \<Rightarrow> u32 \<Rightarrow> int \<Rightarrow> QueryCtx \<Rightarrow> QueryCtx" where
  "ctxCopy pooled rand now q =
    (let n = NewQueryCtx pooled rand now;
         n = n\<lparr>Qid := Qid q, Start := Start q, Prefetch := Prefetch q,
               cQuestion := questionCopyFrom (cQuestion n) (cQuestion q), ClientECS := ClientECS q,
               ServerTag := ServerTag q, Protocol := Protocol q, RemoteAddr := RemoteAddr q,
               ServerName := ServerName n @ ServerName q, Host := Host n @ Host q, Path := Path n @ Path q,
               ECS2Upstream := ECS2Upstream q, ECSZone := ECSZone q\<rparr>;
         n = (case cResp q of Some r \<Rightarrow> n\<lparr>cResp := Some r\<rparr> | None \<Rightarrow> n) in
     n\<lparr>respFrom := respFrom q\<rparr>)"

definition zeroHeader :: Header where
  "zeroHeader = \<lparr>ID = 0, Response = False, OpCode = 0, Authoritative = False, Truncated = False,
     RecursionDesired = False, RecursionAvailable = False, AuthenticData = False, CheckingDisabled = False, RCode = 0\<rparr>"

definition NewMsg :: Msg where
  "NewMsg = \<lparr>mHeader = zeroHeader, Questions = [], Answers = [], Authorities = [], Additionals = []\<rparr>"

definition questionCopy :: "Question \<Rightarrow> Question" where
  "questionCopy q = questionCopyFrom zeroQuestion q"

definition SetEmptyRespMQ :: "QueryCtx \<Rightarrow> u16 \<Rightarrow> QueryCtx" where
  "SetEmptyRespMQ q rcode =
    SetResp q (Some (NewMsg\<lparr>mHeader := zeroHeader\<lparr>RCode := rcode\<rparr>, Questions := [questionCopy (cQuestion q)]\<rparr>))"

section \<open>EDNS0 helpers\<close>

definition newEDNS0 :: "u16 \<Rightarrow> Resource" where
  "newEDNS0 udpSize = Raw_rr \<lparr>hName = name_of [], hType = TypeOPT, hClass = (if udpSize < 512 then 512 else udpSize),
     hTTL = 0, hLength = 0\<rparr> []"

definition addOrReplaceOpt :: "Msg \<Rightarrow> u16 \<Rightarrow> Msg" where
  "addOrReplaceOpt m udpSize =
    (let m = removeEDNS0 m in m\<lparr>Additionals := Additionals m @ [newEDNS0 udpSize]\<rparr>)"

text \<open>The data of the first raw OPT record is dropped.\<close>

fun stripECS :: "Resource list \<Rightarrow> Resource list" where
  "stripECS [] = []"
| "stripECS (r # rs) = (case r of
     Raw_rr h d \<Rightarrow> if hType h = TypeOPT then Raw_rr h [] # rs else r # stripECS rs
   | _ \<Rightarrow> r # stripECS rs)"

definition stripECSFromMsg :: "Msg \<Rightarrow> Msg" where
  "stripECSFromMsg m = m\<lparr>Additionals := stripECS (Additionals m)\<rparr>"

definition defaultIfELZero :: "int \<Rightarrow> int \<Rightarrow> int" where
  "defaultIfELZero x v = (if x \<le> 0 then v else x)"

section \<open>The cache key\<close>

definition appendCacheKey :: "(Prefix \<Rightarrow> bytes) \<Rightarrow> bytes \<Rightarrow> QueryCtx \<Rightarrow> bytes \<Rightarrow> bytes" where
  "appendCacheKey appendTo b q forwardTag =
    (let qName = Data (qName (cQuestion q));
         b = b @ [byte_of (length qName)];
         b = b @ qName;
         b = b @ put_u16 (qClass (cQuestion q));
         b = b @ put_u16 (qType (cQuestion q));
         p = length b;
         b = b @ [0];
         b = (if length (ECSZone q) > 0 then b @ [1] @ ECSZone q
              else if prefixIsValid (ECS2Upstream q) then b @ [2] @ appendTo (masked (ECS2Upstream q))
              else b);
         b = b[p := byte_of (length b - p)] in
     if length forwardTag > 0 then b @ put_u16 (word_of_nat (length forwardTag)) @ forwardTag else b)"

section \<open>Contexts from the pool\<close>

text \<open>A pool holds nothing but contexts that were reset, which are all the zero value.\<close>

lemma question_simps [simp]: "nameReset n = emptyName" "questionReset q = zeroQuestion"
    "questionCopyFrom q q' = q'" "questionCopy q = q"
  by (simp_all add: nameReset_def emptyName_def questionReset_def zeroQuestion_def questionCopyFrom_def questionCopy_def
      nameCopyFrom_def)

lemma ctxReset_zero [simp]: "ctxReset q = zeroCtx"
  by (simp add: ctxReset_def zeroCtx_def)

text \<open>The contexts a pool holds after any number of releases, new contexts and copies.\<close>

inductive ctxPool :: "QueryCtx list \<Rightarrow> bool" where
  empty: "ctxPool []"
| release: "ctxPool p \<Longrightarrow> ctxPool (ctxReset q # p)"
| take_out: "ctxPool (us @ q # vs) \<Longrightarrow> ctxPool (us @ vs)"

lemma ctxPool_zero: "ctxPool p \<Longrightarrow> q \<in> set p \<Longrightarrow> q = zeroCtx"
  by (induction rule: ctxPool.induct) auto

text \<open>C14: A context or a copy that reuses a released one carries nothing over from the query it was
  used for: a new context is the zero value with its number and start time, and a copy equals the
  original in every field, whatever the pool held.\<close>

theorem pooled_ctx_is_fresh:
  assumes "ctxPool p" and "\<forall>q. pooled = Some q \<longrightarrow> q \<in> set p"
  shows "NewQueryCtx pooled rand now = zeroCtx\<lparr>Qid := rand, Start := now\<rparr> \<and> ctxCopy pooled rand now q = q"
proof -
  have new: "NewQueryCtx pooled rand now = zeroCtx\<lparr>Qid := rand, Start := now\<rparr>"
    using ctxPool_zero [OF assms(1)] assms(2) by (cases pooled) (auto simp: NewQueryCtx_def)
  then show ?thesis by (cases q) (simp add: ctxCopy_def Let_def zeroCtx_def split: option.splits)
qed

theorem pooled_ctx_is_fresh_witness:
  "let q = zeroCtx\<lparr>Path := [47, 97], cResp := Some NewMsg\<rparr> in
    NewQueryCtx (Some (ctxReset q)) 7 100 = zeroCtx\<lparr>Qid := 7, Start := 100\<rparr> \<and> ctxCopy (Some (ctxReset q)) 7 100 q = q"
proof -
  have "ctxPool [ctxReset (zeroCtx\<lparr>Path := [47, 97], cResp := Some NewMsg\<rparr>)]" by (intro ctxPool.intros)
  from pooled_ctx_is_fresh [OF this] show ?thesis unfolding Let_def by simp
qed

section \<open>Keys of different queries\<close>

text \<open>What the key holds of the client: the zone of its address, or else its masked subnet.\<close>

datatype ecsKey = Zone bytes | Net Prefix | NoEcs

definition ecsOf :: "QueryCtx \<Rightarrow> ecsKey" where
  "ecsOf q = (if ECSZone q \<noteq> [] then Zone (ECSZone q)
     else if prefixIsValid (ECS2Upstream q) then Net (masked (ECS2Upstream q)) else NoEcs)"

fun ecsBytes :: "(Prefix \<Rightarrow> bytes) \<Rightarrow> ecsKey \<Rightarrow> bytes" where
  "ecsBytes ap (Zone z) = 1 # z"
| "ecsBytes ap (Net p) = 2 # ap p"
| "ecsBytes ap NoEcs = []"

definition tagBytes :: "bytes \<Rightarrow> bytes" where
  "tagBytes t = (if t = [] then [] else put_u16 (word_of_nat (length t)) @ t)"

text \<open>The text of a prefix as the library writes it: at most 43 bytes, different for different prefixes.\<close>

definition prefix_text :: "(Prefix \<Rightarrow> bytes) \<Rightarrow> bool" where
  "prefix_text ap \<longleftrightarrow>
    (\<forall>p. wf_prefix p \<and> prefixIsValid p \<longrightarrow> length (ap (masked p)) \<le> 43) \<and>
    (\<forall>p p'. wf_prefix p \<and> prefixIsValid p \<and> wf_prefix p' \<and> prefixIsValid p' \<and> ap (masked p) = ap (masked p') \<longrightarrow>
      masked p = masked p')"

text \<open>Any encoding of the bytes and the length of a prefix will do.\<close>

definition someText :: "Prefix \<Rightarrow> bytes" where
  "someText p = byte_of (nat (pBits p)) # (case pAddr p of NoAddr \<Rightarrow> [] | Addr4 b \<Rightarrow> b | Addr6 b z \<Rightarrow> b)"

lemma masked_shape: "wf_prefix p \<Longrightarrow> prefixIsValid p \<Longrightarrow> (\<exists>b. length b = 4 \<and> masked p = \<lparr>pAddr = Addr4 b, pBits = pBits p\<rparr>) \<or>
    (\<exists>b. length b = 16 \<and> masked p = \<lparr>pAddr = Addr6 b [], pBits = pBits p\<rparr>)"
  by (cases "pAddr p") (auto simp: wf_prefix_def prefixIsValid_def masked_def prefixFrom_def)

lemma someText_ok: "prefix_text someText"
proof -
  have b: "nat (pBits p) < 256 \<and> pBits p \<ge> 0" if "wf_prefix p" "prefixIsValid p" for p
    using that by (cases "pAddr p") (auto simp: wf_prefix_def prefixIsValid_def)
  have "masked p = masked p'" if p: "wf_prefix p" "prefixIsValid p" "wf_prefix p'" "prefixIsValid p'"
    and e: "someText (masked p) = someText (masked p')" for p p'
    using masked_shape [OF p(1,2)] masked_shape [OF p(3,4)] b [OF p(1,2)] b [OF p(3,4)] e
    by (auto simp: someText_def byte_of_inj)
  moreover have "length (someText (masked p)) \<le> 43" if "wf_prefix p" "prefixIsValid p" for p
    using masked_shape [OF that] by (auto simp: someText_def)
  ultimately show ?thesis unfolding prefix_text_def by blast
qed

lemma appendCacheKey_eq: "appendCacheKey ap b q tag =
    b @ byte_of (length (nb (qName (cQuestion q)))) # nb (qName (cQuestion q)) @
      put_u16 (qClass (cQuestion q)) @ put_u16 (qType (cQuestion q)) @
      byte_of (length (ecsBytes ap (ecsOf q)) + 1) # ecsBytes ap (ecsOf q) @ tagBytes tag"
  by (auto simp: appendCacheKey_def Let_def Data_def ecsOf_def tagBytes_def list_update_append)

lemma length_prefixed_inj:
  assumes "byte_of (length x) # x @ r = byte_of (length y) # y @ s" "length x < 256" "length y < 256"
  shows "x = y \<and> r = s"
proof -
  have "length x = length y" using assms by (simp add: byte_of_inj)
  then show ?thesis using assms(1) by simp
qed

lemma put_u16_inj: "put_u16 v @ r = put_u16 w @ s \<longleftrightarrow> v = w \<and> r = s"
  by (metis append_eq_append_conv length_put_u16 put_u16_nth get_u16_put)

lemma tagBytes_inj: "tagBytes t = tagBytes u \<Longrightarrow> t = u"
  by (auto simp: tagBytes_def put_u16_def split: if_splits)

text \<open>The key leaves out the address of the client and, once the zone is known, also the subnet.\<close>

lemma zone_key_ignores_client:
  "ECSZone q \<noteq> [] \<Longrightarrow> appendCacheKey ap b (q\<lparr>RemoteAddr := r, ECS2Upstream := p\<rparr>) t = appendCacheKey ap b q t"
  by (simp add: appendCacheKey_eq ecsOf_def)

text \<open>C15: Two queries get the same cache key exactly if they agree on the name (byte by byte, so with its
  case), the class, the type, the tag of the upstream and the client part: the zone, or without a zone
  the masked client subnet. With a zone the subnet itself is not in the key. Names have
  at most 255 bytes; zones are at most 253 bytes long, so that the length byte of the subnet part does
  not wrap around; the text of a prefix is short and tells prefixes apart.\<close>

theorem cache_key_injective:
  assumes "length (nb (qName (cQuestion q1))) \<le> 255" "length (nb (qName (cQuestion q2))) \<le> 255"
    and "length (ECSZone q1) \<le> 253" "length (ECSZone q2) \<le> 253"
    and "wf_prefix (ECS2Upstream q1)" "wf_prefix (ECS2Upstream q2)" "prefix_text ap"
  shows "appendCacheKey ap [] q1 t1 = appendCacheKey ap [] q2 t2 \<longleftrightarrow>
    nb (qName (cQuestion q1)) = nb (qName (cQuestion q2)) \<and> qClass (cQuestion q1) = qClass (cQuestion q2) \<and>
    qType (cQuestion q1) = qType (cQuestion q2) \<and> ecsOf q1 = ecsOf q2 \<and> t1 = t2"
proof (rule iffI, goal_cases)
  case 1
  let ?n = "\<lambda>q. nb (qName (cQuestion q))" and ?e = "\<lambda>q. ecsBytes ap (ecsOf q)"
  let ?k = "\<lambda>q t. put_u16 (qClass (cQuestion q)) @ put_u16 (qType (cQuestion q)) @ byte_of (length (?e q) + 1) # ?e q @ tagBytes t"
  have "byte_of (length (?n q1)) # ?n q1 @ ?k q1 t1 = byte_of (length (?n q2)) # ?n q2 @ ?k q2 t2"
    using 1 by (simp add: appendCacheKey_eq)
  from length_prefixed_inj [OF this] assms(1,2) have n: "?n q1 = ?n q2" "?k q1 t1 = ?k q2 t2" by simp_all
  then have t: "qClass (cQuestion q1) = qClass (cQuestion q2)" "qType (cQuestion q1) = qType (cQuestion q2)"
    and e: "byte_of (length (?e q1) + 1) # ?e q1 @ tagBytes t1 = byte_of (length (?e q2) + 1) # ?e q2 @ tagBytes t2"
    by (simp_all add: put_u16_inj)
  have l: "length (?e q) + 1 < 256" if "q = q1 \<or> q = q2" for q using assms(3-7) that by (auto simp: ecsOf_def prefix_text_def intro: le_less_trans)
  from e have "length (?e q1) = length (?e q2)" using l [of q1] l [of q2] byte_of_inj [OF l [of q1] l [of q2]] by simp
  with e have eb: "?e q1 = ?e q2" "tagBytes t1 = tagBytes t2" by simp_all
  from eb(1) assms(5-7) have "ecsOf q1 = ecsOf q2" by (auto simp: ecsOf_def prefix_text_def split: if_splits)
  with n t eb(2) show ?case using tagBytes_inj by blast
qed (simp add: appendCacheKey_eq)

theorem cache_key_injective_witness:
  "let q = zeroCtx\<lparr>cQuestion := \<lparr>qName = name_of [[97]], qType = 1, qClass = 1\<rparr>, ECSZone := [122]\<rparr>;
       q' = zeroCtx\<lparr>cQuestion := \<lparr>qName = name_of [[97]], qType = 1, qClass = 1\<rparr>\<rparr> in
    appendCacheKey someText [] q [117] \<noteq> appendCacheKey someText [] q' [117] \<and>
    appendCacheKey someText [] q [117] = appendCacheKey someText [] (q\<lparr>ECS2Upstream := prefixFrom (Addr4 [192, 0, 2, 0]) 24\<rparr>) [117]"
proof -
  let ?q = "zeroCtx\<lparr>cQuestion := \<lparr>qName = name_of [[97]], qType = 1, qClass = 1\<rparr>, ECSZone := [122]\<rparr>"
  let ?p = "zeroCtx\<lparr>cQuestion := \<lparr>qName = name_of [[97]], qType = 1, qClass = 1\<rparr>\<rparr>"
  let ?r = "?q\<lparr>ECS2Upstream := prefixFrom (Addr4 [192, 0, 2, 0]) 24\<rparr>"
  have n: "ecsOf ?q \<noteq> ecsOf ?p" "ecsOf ?q = ecsOf ?r" by (simp_all add: ecsOf_def zeroCtx_def noPrefix_def prefixIsValid_def)
  have h: "length (nb (qName (cQuestion ?q))) \<le> 255" "length (nb (qName (cQuestion ?p))) \<le> 255" "length (nb (qName (cQuestion ?r))) \<le> 255"
    "length (ECSZone ?q) \<le> 253" "length (ECSZone ?p) \<le> 253" "length (ECSZone ?r) \<le> 253"
    "wf_prefix (ECS2Upstream ?q)" "wf_prefix (ECS2Upstream ?p)" "wf_prefix (ECS2Upstream ?r)"
    by (simp_all add: zeroCtx_def noPrefix_def wf_prefix_def prefixFrom_def)
  have "appendCacheKey someText [] ?q [117] \<noteq> appendCacheKey someText [] ?p [117]"
    using cache_key_injective [OF h(1,2,4,5,7,8) someText_ok, of "[117]" "[117]"] n(1) by simp
  moreover have "appendCacheKey someText [] ?q [117] = appendCacheKey someText [] ?r [117]"
    using cache_key_injective [OF h(1,3,4,6,7,9) someText_ok, of "[117]" "[117]"] n(2) by simp
  ultimately show ?thesis unfolding Let_def by simp
qed

end
