(* ===== verification/LoadBalancer.thy ===== *)
theory LoadBalancer
  imports RouterCtx Machine NetList
begin

text \<open>
  Load balancing (\<^verbatim>\<open>app/router/upstream_lb.go\<close>): the backends of the configuration, the index of the
  ones that are online, the weighted choice, and the rebuilding of the index while upstreams change.
  Random numbers, the hash and the rate limiters are parameters. An upstream is named by its tag.
  The running sums of weights are Go integers of 64 bits, which wrap around.
\<close>

section \<open>The sampler\<close>

record lbBackend =
  bTag :: string
  bWeight :: int
  bLimiter :: "nat option"

record lbSampler =
  wa :: "int list"
  bs :: "lbBackend list"

text \<open>The operator \<^verbatim>\<open>%\<close> of Go has the sign of its left operand.\<close>

definition goRem :: "int \<Rightarrow> int \<Rightarrow> int" where
  "goRem a b = (if a < 0 then - ((- a) mod \<bar>b\<bar>) else a mod \<bar>b\<bar>)"

text \<open>\<^verbatim>\<open>slices.BinarySearch\<close>: the position of a value in a sorted list, and whether it is there.\<close>

definition binarySearch :: "int list \<Rightarrow> int \<Rightarrow> nat \<times> bool" where
  "binarySearch xs t = (let i = sortSearch (\<lambda>k. xs ! k \<ge> t) 0 (length xs) in (i, i < length xs \<and> xs ! i = t))"

definition fastPath :: "lbSampler \<Rightarrow> lbBackend option \<times> bool" where
  "fastPath s =
    (if length (bs s) = 0 then (None, True)
     else if length (bs s) = 1 then (Some (bs s ! 0), False)
     else (None, False))"

definition simple :: "lbSampler \<Rightarrow> int \<Rightarrow> (unit, lbBackend option) res" where
  "simple s n =
    (let l = length (wa s) in
     if l = 0 then Inr None
     else if l = 1 then Inr (Some (bs s ! 0))
     else let r = wa s ! (l - 1) in
     if r = 0 then Inl Panic
     else let n = goRem n r;
       n = (if n < 0 then - n else n);
       (i, ok) = binarySearch (wa s) n;
       i = (if ok then i + 1 else i);
       i = min i (l - 1) in
     Inr (Some (bs s ! i)))"

text \<open>The loop of \<^verbatim>\<open>buildIdx\<close>; \<open>off\<close> says which upstreams are offline.\<close>

fun buildIdxLoop :: "(string \<Rightarrow> bool) \<Rightarrow> lbBackend list \<Rightarrow> int \<Rightarrow> lbSampler \<Rightarrow> lbSampler" where
  "buildIdxLoop off [] ws s = s"
| "buildIdxLoop off (b # e) ws s =
    (if off (bTag b) then buildIdxLoop off e ws s
     else let ws = int64 (ws + bWeight b) in buildIdxLoop off e ws (s\<lparr>bs := bs s @ [b], wa := wa s @ [ws]\<rparr>))"

definition buildSampler :: "(string \<Rightarrow> bool) \<Rightarrow> lbBackend list \<Rightarrow> lbSampler" where
  "buildSampler off e = buildIdxLoop off e 0 \<lparr>wa = [], bs = []\<rparr>"

section \<open>The configuration\<close>

datatype lbMethod = MRandom | MFallThrough | MQnameHash | MClientIpHash

record LoadBalancer =
  lbTag :: string
  lbE :: "lbBackend list"
  lbMethodOf :: lbMethod
  lbSamplerOf :: lbSampler

record BackendConfig =
  bcTag :: string
  bcWeight :: int
  bcQPS :: int

record LoadBalancerConfig =
  lcTag :: string
  lcMethod :: string
  lcBackends :: "BackendConfig list"

datatype lbErr = ErrEmptyTag | ErrUnknownMethod string | ErrUnknownUpstream string | ErrBackend nat lbErr | ErrZeroBackend

definition parseMethod :: "string \<Rightarrow> lbMethod option" where
  "parseMethod s =
    (if s = [] \<or> s = ''random'' then Some MRandom
     else if s = ''fall_through'' then Some MFallThrough
     else if s = ''qname_hash'' then Some MQnameHash
     else if s = ''client_ip_hash'' then Some MClientIpHash
     else None)"

text \<open>The rate limiter of a backend is known by the number of the backend in the configuration.\<close>

definition initLbBackend :: "string set \<Rightarrow> nat \<Rightarrow> BackendConfig \<Rightarrow> lbBackend list \<Rightarrow> (lbErr, lbBackend list) res" where
  "initLbBackend ups i cfg e =
    (if bcTag cfg \<notin> ups then Inl (Err (ErrUnknownUpstream (bcTag cfg)))
     else if bcWeight cfg < 0 then Inr e
     else Inr (e @ [\<lparr>bTag = bcTag cfg, bWeight = defaultIfELZero (bcWeight cfg) 1,
                     bLimiter = (if bcQPS cfg > 0 then Some i else None)\<rparr>]))"

fun initBackends :: "string set \<Rightarrow> nat \<Rightarrow> BackendConfig list \<Rightarrow> lbBackend list \<Rightarrow> (lbErr, lbBackend list) res" where
  "initBackends ups i [] e = Inr e"
| "initBackends ups i (cfg # cfgs) e =
    thenE (wrapE (ErrBackend i) (initLbBackend ups i cfg e)) (initBackends ups (i + 1) cfgs)"

definition initLoadBalancer :: "string set \<Rightarrow> (string \<Rightarrow> bool) \<Rightarrow> LoadBalancerConfig \<Rightarrow> (lbErr, LoadBalancer) res" where
  "initLoadBalancer ups off cfg =
    (if length (lcTag cfg) = 0 then Inl (Err ErrEmptyTag)
     else case parseMethod (lcMethod cfg) of None \<Rightarrow> Inl (Err (ErrUnknownMethod (lcMethod cfg)))
     | Some m \<Rightarrow> thenE (initBackends ups 0 (lcBackends cfg) []) (\<lambda>e.
         if length e = 0 then Inl (Err ErrZeroBackend)
         else Inr \<lparr>lbTag = lcTag cfg, lbE = e, lbMethodOf = m, lbSamplerOf = buildSampler off e\<rparr>))"

section \<open>The choice of a backend\<close>

record 'w lbEnv =
  leRand :: "'w \<Rightarrow> int \<times> 'w"
  leSum64 :: "bytes \<Rightarrow> u64"
  leAllow :: "string \<Rightarrow> nat \<Rightarrow> 'w \<Rightarrow> bool \<times> 'w"

fun fallThrough :: "'w lbEnv \<Rightarrow> string \<Rightarrow> lbBackend list \<Rightarrow> 'w \<Rightarrow> lbBackend option \<times> 'w" where
  "fallThrough env tag [] w = (None, w)"
| "fallThrough env tag (b # e) w = (case bLimiter b of
     None \<Rightarrow> (Some b, w)
   | Some i \<Rightarrow> let (ok, w) = leAllow env tag i w in if ok then (Some b, w) else fallThrough env tag e w)"

definition simpleFn :: "'w lbEnv \<Rightarrow> LoadBalancer \<Rightarrow> QueryCtx \<Rightarrow> 'w \<Rightarrow> (unit, lbBackend option) res \<times> 'w" where
  "simpleFn env lb q w =
    (let s = lbSamplerOf lb; random = (let (n, w) = leRand env w in (simple s n, w)) in
     case lbMethodOf lb of
       MRandom \<Rightarrow> random
     | MFallThrough \<Rightarrow> let (b, w) = fallThrough env (lbTag lb) (bs s) w in (Inr b, w)
     | MQnameHash \<Rightarrow> (simple s (sint (leSum64 env (Data (qName (cQuestion q))))), w)
     | MClientIpHash \<Rightarrow>
         if addrIsValid (apAddr (RemoteAddr q)) then (simple s (sint (leSum64 env (as16 (apAddr (RemoteAddr q))))), w)
         else random)"

datatype pick = Picked lbBackend | AllOffline | NoBackend | PickPanic

definition lbPick :: "'w lbEnv \<Rightarrow> LoadBalancer \<Rightarrow> QueryCtx \<Rightarrow> 'w \<Rightarrow> pick \<times> 'w" where
  "lbPick env lb q w = (case fastPath (lbSamplerOf lb) of
     (b, zero) \<Rightarrow> if zero then (AllOffline, w)
       else case b of Some b \<Rightarrow> (Picked b, w)
       | None \<Rightarrow> (case simpleFn env lb q w of
           (Inl _, w) \<Rightarrow> (PickPanic, w) | (Inr None, w) \<Rightarrow> (NoBackend, w) | (Inr (Some b), w) \<Rightarrow> (Picked b, w)))"

section \<open>The index is the list of online backends with their running sums\<close>

fun sums :: "int \<Rightarrow> lbBackend list \<Rightarrow> int list" where
  "sums w [] = []"
| "sums w (b # e) = int64 (w + bWeight b) # sums (int64 (w + bWeight b)) e"

lemma buildIdxLoop_eq:
  "buildIdxLoop off e w s = \<lparr>wa = wa s @ sums w (filter (\<lambda>b. \<not> off (bTag b)) e), bs = bs s @ filter (\<lambda>b. \<not> off (bTag b)) e\<rparr>"
  by (induction off e w s rule: buildIdxLoop.induct) (simp_all add: Let_def)

lemma buildSampler_eq: "buildSampler off e = (let on = filter (\<lambda>b. \<not> off (bTag b)) e in \<lparr>wa = sums 0 on, bs = on\<rparr>)"
  by (simp add: buildSampler_def buildIdxLoop_eq Let_def)

lemma length_sums [simp]: "length (sums w e) = length e"
  by (induction e arbitrary: w) auto

lemma sums_nth: "k < length e \<Longrightarrow> sums w e ! k = int64 (w + sum_list (map bWeight (take (Suc k) e)))"
  by (induction e arbitrary: w k) (auto simp: nth_Cons' take_Cons' int64_add add.assoc split: nat.splits)

text \<open>What the numbers \<open>0..<total\<close> are assigned to: an interval per backend, as wide as its weight.\<close>

definition before :: "lbBackend list \<Rightarrow> nat \<Rightarrow> int" where
  "before e i = sum_list (map bWeight (take i e))"

lemma before_Suc: "i < length e \<Longrightarrow> before e (Suc i) = before e i + bWeight (e ! i)"
  by (simp add: before_def take_Suc_conv_app_nth)

lemma before_mono: "\<forall>b \<in> set e. bWeight b > 0 \<Longrightarrow> i < j \<Longrightarrow> j \<le> length e \<Longrightarrow> before e i < before e j"
proof (induction j)
  case (Suc j)
  have "before e j < before e (Suc j)" using Suc.prems before_Suc [of j e] by simp
  then show ?case using Suc by (cases "i = j") auto
qed simp

text \<open>Weights as they are loaded, whose sum does not leave the range of an integer.\<close>

definition weights_ok :: "lbBackend list \<Rightarrow> bool" where
  "weights_ok e \<longleftrightarrow> (\<forall>b \<in> set e. bWeight b > 0) \<and> sum_list (map bWeight e) < 2 ^ 63"

lemma weights_ok_pos: "weights_ok e \<Longrightarrow> \<forall>b \<in> set e. bWeight b > 0"
  by (simp add: weights_ok_def)

lemma sum_filter_le: "\<forall>b \<in> set e. bWeight b > 0 \<Longrightarrow> sum_list (map bWeight (filter P e)) \<le> sum_list (map bWeight e)"
  by (induction e) auto

lemma weights_ok_filter: "weights_ok e \<Longrightarrow> weights_ok (filter P e)"
  using sum_filter_le [of e P] by (auto simp: weights_ok_def)

lemma before_bounds:
  assumes "weights_ok e" "i \<le> length e"
  shows "0 \<le> before e i \<and> before e i < 2 ^ 63"
proof -
  note mono = before_mono [OF weights_ok_pos [OF assms(1)]]
  have "before e (length e) < 2 ^ 63" using assms(1) by (simp add: weights_ok_def before_def)
  then have "before e i < 2 ^ 63" using mono [of i "length e"] assms(2) by (cases "i = length e") auto
  moreover have "before e 0 \<le> before e i" using mono [of 0 i] assms(2) by (cases "i = 0") auto
  ultimately show ?thesis by (simp add: before_def)
qed

lemma sums_before: "weights_ok e \<Longrightarrow> k < length e \<Longrightarrow> sums 0 e ! k = before e (Suc k)"
  using before_bounds [of e "Suc k"] by (simp add: sums_nth before_def int64_id)

lemma simple_interval:
  assumes ok: "weights_ok e" and l: "length e > 1" and i: "i < length e"
    and n: "before e i \<le> n" "n < before e (Suc i)" "0 \<le> n"
  shows "simple \<lparr>wa = sums 0 e, bs = e\<rparr> n = Inr (Some (e ! i))"
proof -
  let ?xs = "sums 0 e" and ?f = "\<lambda>k. sums 0 e ! k \<ge> n"
  note w = weights_ok_pos [OF ok]
  have x: "?xs ! k = before e (Suc k)" if "k < length e" for k using sums_before [OF ok that] .
  have mono: "?f b" if "a \<le> b" "b < length e" "?f a" for a b
    using that x before_mono [OF w, of "Suc a" "Suc b"] by (cases "a = b") auto
  let ?j = "sortSearch ?f 0 (length e)"
  have s: "?j \<le> length e \<and> (\<forall>k < ?j. \<not> ?f k) \<and> (\<forall>k. ?j \<le> k \<and> k < length e \<longrightarrow> ?f k)"
    by (rule sortSearch_spec [of "length e" ?f]) (use mono in auto)
  have fi: "?f i" using x [OF i] n(2) by simp
  have ji: "?j \<le> i" using s fi i by (metis not_le)
  have tot: "n < before e (length e)" using n(2) before_mono [OF w, of "Suc i" "length e"] i by (cases "Suc i = length e") auto
  have sl: "Suc (length e - Suc 0) = length e" using l by linarith
  have r: "?xs ! (length e - 1) = before e (length e)" "before e (length e) > 0" "goRem n (before e (length e)) = n"
    using x [of "length e - 1"] l n(3) tot by (auto simp: goRem_def sl)
  have "(if ?xs ! ?j = n then ?j + 1 else ?j) = i"
  proof (cases "?j = i")
    case True
    then show ?thesis using x [OF i] n(2) by simp
  next
    case False
    then have lt: "?j < i" using ji by simp
    have jl: "?j < length e" using lt i by (rule less_trans)
    have "?f ?j" using s jl by (meson order_refl)
    then have "n \<le> before e (Suc ?j)" unfolding x [OF jl] .
    moreover have "before e (Suc ?j) \<le> before e i"
      using before_mono [OF w, of "Suc ?j" i] lt i by (cases "Suc ?j = i") (simp_all add: less_imp_le)
    ultimately have "before e (Suc ?j) = n" "before e (Suc ?j) = before e i" using n(1) by auto
    moreover have "\<not> Suc ?j < i" using before_mono [OF w, of "Suc ?j" i] i calculation(2) by auto
    ultimately show ?thesis using x [OF jl] lt by simp
  qed
  moreover have "?j < length e" using ji i by simp
  ultimately show ?thesis using r l n(3) i by (auto simp: simple_def Let_def binarySearch_def)
qed

lemma simple_abs: "wa s ! (length (wa s) - 1) > 0 \<Longrightarrow> simple s n = simple s \<bar>goRem n (wa s ! (length (wa s) - 1))\<bar>"
proof -
  let ?r = "wa s ! (length (wa s) - 1)"
  assume r: "?r > 0"
  then have m: "goRem \<bar>goRem n ?r\<bar> ?r = \<bar>goRem n ?r\<bar>" by (simp add: goRem_def)
  show ?thesis unfolding simple_def Let_def m using r by (simp add: abs_if)
qed

lemma before_interval: "0 \<le> m \<Longrightarrow> m < before e (length e) \<Longrightarrow> \<exists>i < length e. before e i \<le> m \<and> m < before e (Suc i)"
proof -
  assume m: "0 \<le> m" "m < before e (length e)"
  have "\<exists>i < k. before e i \<le> m \<and> m < before e (Suc i)" if "m < before e k" for k
    using that
  proof (induction k)
    case (Suc k)
    then show ?case by (cases "m < before e k") (auto simp: less_Suc_eq)
  qed (use m in \<open>simp add: before_def\<close>)
  with m show ?thesis by blast
qed

lemma initBackends_weights:
  "initBackends ups i cfgs e = Inr e' \<Longrightarrow> \<forall>b \<in> set e. bWeight b > 0 \<Longrightarrow> \<forall>b \<in> set e'. bWeight b > 0"
proof (induction ups i cfgs e rule: initBackends.induct)
  case (2 ups i cfg cfgs e)
  obtain e1 where e1: "initLbBackend ups i cfg e = Inr e1" "initBackends ups (i + 1) cfgs e1 = Inr e'"
    using "2.prems"(1) by (auto simp: res_simps)
  have "\<forall>b \<in> set e1. bWeight b > 0"
    using e1(1) "2.prems"(2) by (auto simp: initLbBackend_def defaultIfELZero_def split: if_splits)
  then show ?case using "2.IH" [of e1] e1 by simp
qed simp

text \<open>The number a balancer that chooses by numbers uses for a query: a random one or a hash.\<close>

definition selNumber :: "'w lbEnv \<Rightarrow> LoadBalancer \<Rightarrow> QueryCtx \<Rightarrow> 'w \<Rightarrow> int option" where
  "selNumber env lb q w = (case lbMethodOf lb of
     MRandom \<Rightarrow> Some (fst (leRand env w))
   | MFallThrough \<Rightarrow> None
   | MQnameHash \<Rightarrow> Some (sint (leSum64 env (Data (qName (cQuestion q)))))
   | MClientIpHash \<Rightarrow> Some (if addrIsValid (apAddr (RemoteAddr q)) then sint (leSum64 env (as16 (apAddr (RemoteAddr q))))
       else fst (leRand env w)))"

lemma lbPick_number:
  assumes "selNumber env lb q w = Some n" "simple (lbSamplerOf lb) n = Inr (Some b)" "length (bs (lbSamplerOf lb)) > 1"
  shows "fst (lbPick env lb q w) = Picked b"
  using assms by (auto simp: lbPick_def fastPath_def selNumber_def simpleFn_def Let_def split: lbMethod.splits if_splits prod.splits)

lemma index_interval:
  assumes "weights_ok on" "i < length on" "before on i \<le> \<bar>goRem n (before on (length on))\<bar>"
    "\<bar>goRem n (before on (length on))\<bar> < before on (Suc i)"
  shows "simple \<lparr>wa = sums 0 on, bs = on\<rparr> n = Inr (Some (on ! i))"
proof (cases "length on > 1")
  case True
  have last: "sums 0 on ! (length on - 1) = before on (length on)" using sums_before [OF assms(1), of "length on - 1"] True by (simp add: Suc_diff_1 [OF less_trans [OF zero_less_one True]] del: One_nat_def)
  moreover have "before on (length on) > 0"
    using before_mono [OF weights_ok_pos [OF assms(1)], of 0 "length on"] assms(2) by (cases "on = []") (simp_all add: before_def)
  ultimately have "simple \<lparr>wa = sums 0 on, bs = on\<rparr> n = simple \<lparr>wa = sums 0 on, bs = on\<rparr> \<bar>goRem n (before on (length on))\<bar>"
    using simple_abs [of "\<lparr>wa = sums 0 on, bs = on\<rparr>" n] by simp
  then show ?thesis using simple_interval [OF assms(1) True assms(2)] assms(3,4) by simp
next
  case False
  then have "length on = 1" "i = 0" using assms(2) by linarith+
  then show ?thesis by (simp add: simple_def)
qed

text \<open>C17: A load balancer that was loaded, whose weights add up to less than \<open>2 ^ 63\<close>, and whose method is
  \<^verbatim>\<open>random\<close>, \<^verbatim>\<open>qname_hash\<close> or \<^verbatim>\<open>client_ip_hash\<close>: with no backend online there is no choice; otherwise the number \<open>n\<close>
  that the method draws or hashes selects the online backend in whose interval \<open>n\<close> modulo the total weight lies.
  The intervals divide \<open>0..<total\<close> and are as wide as the weights, so that out of each \<open>total\<close> consecutive numbers
  a backend gets as many as its weight says, and none if it is offline.\<close>

theorem weighted_choice:
  fixes off :: "string \<Rightarrow> bool"
  assumes "initLoadBalancer ups off0 cfg = Inr lb" and "sum_list (map bWeight (lbE lb)) < 2 ^ 63"
    and "selNumber env lb q w = Some n"
  defines "on \<equiv> filter (\<lambda>b. \<not> off (bTag b)) (lbE lb)"
  defines "tw \<equiv> before on (length on)"
  shows "(on = [] \<longrightarrow> fst (lbPick env (lb\<lparr>lbSamplerOf := buildSampler off (lbE lb)\<rparr>) q w) = AllOffline) \<and>
    (on \<noteq> [] \<longrightarrow> \<bar>goRem n tw\<bar> < tw) \<and>
    (\<forall>i < length on. before on i \<le> \<bar>goRem n tw\<bar> \<and> \<bar>goRem n tw\<bar> < before on (Suc i) \<longrightarrow>
      fst (lbPick env (lb\<lparr>lbSamplerOf := buildSampler off (lbE lb)\<rparr>) q w) = Picked (on ! i)) \<and>
    (\<forall>m. 0 \<le> m \<and> m < tw \<longrightarrow> (\<exists>!i. i < length on \<and> before on i \<le> m \<and> m < before on (Suc i))) \<and>
    (\<forall>i < length on. card {m. before on i \<le> m \<and> m < before on (Suc i)} = nat (bWeight (on ! i)) \<and> bWeight (on ! i) > 0)"
proof -
  have "\<forall>b \<in> set (lbE lb). bWeight b > 0"
    using assms(1) initBackends_weights [of ups 0 "lcBackends cfg" "[]"]
    by (auto simp: initLoadBalancer_def res_simps split: if_splits option.splits)
  then have ok: "weights_ok on" unfolding on_def using assms(2) by (intro weights_ok_filter) (simp add: weights_ok_def)
  note w = weights_ok_pos [OF ok]
  let ?lb = "lb\<lparr>lbSamplerOf := buildSampler off (lbE lb)\<rparr>"
  have s: "lbSamplerOf ?lb = \<lparr>wa = sums 0 on, bs = on\<rparr>" by (simp add: buildSampler_eq on_def Let_def)
  have sel: "selNumber env ?lb q w = Some n" using assms(3) by (simp add: selNumber_def cong: lbMethod.case_cong)
  have uniq: "i = j" if "before on i \<le> m" "m < before on (Suc i)" "before on j \<le> m" "m < before on (Suc j)"
      "i < length on" "j < length on" for i j m
    using that before_mono [OF w, of "Suc i" j] before_mono [OF w, of "Suc j" i]
    by (metis Suc_leI less_le_trans linorder_neqE_nat not_less order_le_less)
  have ex1: "\<exists>!i. i < length on \<and> before on i \<le> m \<and> m < before on (Suc i)" if "0 \<le> m" "m < tw" for m
    using before_interval [OF that(1), of on] that(2) uniq unfolding tw_def by blast
  have tot: "tw > 0" if "on \<noteq> []"
    using before_mono [OF w, of 0 "length on"] that by (simp add: tw_def before_def)
  have "fst (lbPick env ?lb q w) = Picked (on ! i)"
    if i: "i < length on" "before on i \<le> \<bar>goRem n tw\<bar>" "\<bar>goRem n tw\<bar> < before on (Suc i)" for i
  proof (cases "length on > 1")
    case True
    have "simple (lbSamplerOf ?lb) n = Inr (Some (on ! i))"
      unfolding s using index_interval [OF ok i(1)] i(2,3) by (simp add: tw_def)
    from lbPick_number [OF sel this] show ?thesis using True s by simp
  next
    case False
    then have "length on = 1" "i = 0" using i(1) by linarith+
    then show ?thesis unfolding lbPick_def s by (simp add: fastPath_def)
  qed
  moreover have "\<bar>goRem n tw\<bar> < tw" if "on \<noteq> []"
    using tot [OF that] by (cases "n < 0") (simp_all add: goRem_def)
  moreover have "fst (lbPick env ?lb q w) = AllOffline" if "on = []" unfolding lbPick_def s by (simp add: fastPath_def that)
  moreover have "card {m. before on i \<le> m \<and> m < before on (Suc i)} = nat (bWeight (on ! i))" if "i < length on" for i
  proof -
    have "{m. before on i \<le> m \<and> m < before on (Suc i)} = {before on i..<before on (Suc i)}" by auto
    then show ?thesis using before_Suc [OF that] by simp
  qed
  ultimately show ?thesis using ex1 w by (auto simp: nth_mem)
qed

theorem weighted_choice_witness:
  "let env = \<lparr>leRand = (\<lambda>u. (- 5, u)), leSum64 = (\<lambda>_. 0), leAllow = (\<lambda>_ _ u. (True, u))\<rparr> in
    \<exists>lb. initLoadBalancer {''a'', ''b''} (\<lambda>_. False) \<lparr>lcTag = ''l'', lcMethod = [], lcBackends =
      [\<lparr>bcTag = ''a'', bcWeight = 2, bcQPS = 0\<rparr>, \<lparr>bcTag = ''b'', bcWeight = 0, bcQPS = 0\<rparr>]\<rparr> = Inr lb \<and>
    fst (lbPick env (lb\<lparr>lbSamplerOf := buildSampler (\<lambda>_. False) (lbE lb)\<rparr>) zeroCtx ()) =
      Picked \<lparr>bTag = ''b'', bWeight = 1, bLimiter = None\<rparr>"
proof -
  let ?env = "\<lparr>leRand = (\<lambda>u. (- 5, u)), leSum64 = (\<lambda>_. 0), leAllow = (\<lambda>_ _ u. (True, u))\<rparr>"
  let ?cfg = "\<lparr>lcTag = ''l'', lcMethod = [], lcBackends =
      [\<lparr>bcTag = ''a'', bcWeight = 2, bcQPS = 0\<rparr>, \<lparr>bcTag = ''b'', bcWeight = 0, bcQPS = 0\<rparr>]\<rparr>"
  let ?a = "\<lparr>bTag = ''a'', bWeight = 2, bLimiter = None\<rparr>" and ?b = "\<lparr>bTag = ''b'', bWeight = 1, bLimiter = None\<rparr>"
  let ?lb = "\<lparr>lbTag = ''l'', lbE = [?a, ?b], lbMethodOf = MRandom, lbSamplerOf = \<lparr>wa = [2, 3], bs = [?a, ?b]\<rparr>\<rparr>"
  have i: "initLoadBalancer {''a'', ''b''} (\<lambda>_. False) ?cfg = Inr ?lb"
    by (simp add: initLoadBalancer_def parseMethod_def initLbBackend_def defaultIfELZero_def buildSampler_def int64_def)
  have h: "sum_list (map bWeight (lbE ?lb)) < 2 ^ 63" "selNumber ?env ?lb zeroCtx () = Some (- 5)"
    by (simp_all add: selNumber_def)
  note c = weighted_choice [OF i h, where off = "\<lambda>_. False", THEN conjunct2, THEN conjunct2, THEN conjunct1, THEN spec, of 1]
  have "fst (lbPick ?env (?lb\<lparr>lbSamplerOf := buildSampler (\<lambda>_. False) (lbE ?lb)\<rparr>) zeroCtx ()) = Picked (lbE ?lb ! 1)"
    using c by (simp add: before_def goRem_def numeral_2_eq_2)
  with i show ?thesis unfolding Let_def by (intro exI [of _ ?lb] conjI) simp_all
qed

text \<open>Nothing checks the sum when the configuration is loaded: two weights of \<open>2 ^ 62\<close> and \<open>2 ^ 62\<close> give a
  negative last sum, and four of them the sum 0, by which the choice divides.\<close>

lemma weights_wrap:
  "let b = \<lparr>bTag = ''a'', bWeight = 2 ^ 62, bLimiter = None\<rparr> in
    wa (buildSampler (\<lambda>_. False) [b, b]) = [2 ^ 62, - (2 ^ 63)] \<and>
    simple (buildSampler (\<lambda>_. False) [b, b, b, b]) 7 = Inl Panic"
  by (simp add: buildSampler_def simple_def int64_def)

section \<open>Rebuilding the index\<close>

text \<open>
  The index of one load balancer while its upstreams go offline and come back. A change of an upstream
  is followed by a call of \<^verbatim>\<open>buildIdx\<close> in the goroutine that made it; the calls wait for each other at
  the lock and each reads the states of the upstreams one after the other, while they may change again.
  \<open>ixWaiting\<close> counts the calls that have not got the lock, \<open>ixBusy\<close> is the one that has: the backends to
  look at, the sum and the sampler so far.
\<close>

record idxState =
  ixOff :: "string \<Rightarrow> bool"
  ixWaiting :: nat
  ixBusy :: "(lbBackend list \<times> int \<times> lbSampler) option"
  ixSampler :: lbSampler

datatype idxEvent = Change string | Lock | Look | Store

fun idxStep :: "lbBackend list \<Rightarrow> idxEvent \<Rightarrow> idxState \<Rightarrow> idxState option" where
  "idxStep e (Change u) s = Some (s\<lparr>ixOff := (ixOff s)(u := \<not> ixOff s u), ixWaiting := ixWaiting s + 1\<rparr>)"
| "idxStep e Lock s =
    (if ixWaiting s > 0 \<and> ixBusy s = None
     then Some (s\<lparr>ixWaiting := ixWaiting s - 1, ixBusy := Some (e, 0, \<lparr>wa = [], bs = []\<rparr>)\<rparr>) else None)"
| "idxStep e Look s = (case ixBusy s of
     Some (b # rest, ws, t) \<Rightarrow>
       if ixOff s (bTag b) then Some (s\<lparr>ixBusy := Some (rest, ws, t)\<rparr>)
       else let ws = int64 (ws + bWeight b) in
         Some (s\<lparr>ixBusy := Some (rest, ws, t\<lparr>bs := bs t @ [b], wa := wa t @ [ws]\<rparr>)\<rparr>)
   | _ \<Rightarrow> None)"
| "idxStep e Store s = (case ixBusy s of
     Some ([], ws, t) \<Rightarrow> Some (s\<lparr>ixSampler := t, ixBusy := None\<rparr>) | _ \<Rightarrow> None)"

definition idxStart :: "lbBackend list \<Rightarrow> idxState \<Rightarrow> bool" where
  "idxStart e s \<longleftrightarrow> ixWaiting s = 0 \<and> ixBusy s = None \<and> ixSampler s = buildSampler (ixOff s) e"

text \<open>If no call is waiting, the call that has the lock will end with the index of the present states.\<close>

definition idxInv :: "lbBackend list \<Rightarrow> idxState \<Rightarrow> bool" where
  "idxInv e s \<longleftrightarrow> ixWaiting s = 0 \<longrightarrow>
    (case ixBusy s of None \<Rightarrow> ixSampler s | Some (rest, ws, t) \<Rightarrow> buildIdxLoop (ixOff s) rest ws t) = buildSampler (ixOff s) e"

interpretation idx: machine "idxStart e" "idxStep e" "idxInv e" for e
proof
  show "idxInv e s" if "idxStart e s" for s using that by (simp add: idxStart_def idxInv_def)
  show "idxInv e s'" if "idxInv e s" "idxStep e ev s = Some s'" for s ev s'
    using that by (cases ev) (auto simp: idxInv_def buildSampler_def Let_def split: option.splits if_splits list.splits)
qed

text \<open>In whatever order upstreams change and the calls that rebuild the index run and read, once all
  calls that were made are done the index is the one of the present states: it has exactly the backends
  that are online, in the order of the configuration, with the running sums of their weights.\<close>

theorem index_catches_up:
  assumes "run (idxStep e) es s = Some s'" and "idxStart e s" and "ixWaiting s' = 0" and "ixBusy s' = None"
  shows "bs (ixSampler s') = filter (\<lambda>b. \<not> ixOff s' (bTag b)) e \<and>
    (\<forall>i < length (bs (ixSampler s')). wa (ixSampler s') ! i = int64 (sum_list (map bWeight (take (Suc i) (bs (ixSampler s'))))))"
  using idx.run_inv [OF assms(1,2)] assms(3,4) by (simp add: idxInv_def buildSampler_eq Let_def sums_nth)

theorem index_catches_up_witness:
  "let a = \<lparr>bTag = ''a'', bWeight = 2, bLimiter = None\<rparr>; b = \<lparr>bTag = ''b'', bWeight = 1, bLimiter = None\<rparr>;
       s = \<lparr>ixOff = (\<lambda>_. False), ixWaiting = 0, ixBusy = None, ixSampler = buildSampler (\<lambda>_. False) [a, b]\<rparr> in
    \<exists>s'. run (idxStep [a, b]) [Change ''a'', Lock, Look, Change ''a'', Change ''b'', Look, Store, Lock, Look, Look, Store,
        Lock, Look, Look, Store] s = Some s' \<and> bs (ixSampler s') = [a]"
proof -
  let ?a = "\<lparr>bTag = ''a'', bWeight = 2, bLimiter = None\<rparr>" and ?b = "\<lparr>bTag = ''b'', bWeight = 1, bLimiter = None\<rparr>"
  let ?s = "\<lparr>ixOff = (\<lambda>_. False), ixWaiting = 0, ixBusy = None, ixSampler = buildSampler (\<lambda>_. False) [?a, ?b]\<rparr>"
  let ?es = "[Change ''a'', Lock, Look, Change ''a'', Change ''b'', Look, Store, Lock, Look, Look, Store, Lock, Look, Look, Store]"
  have "\<exists>s'. run (idxStep [?a, ?b]) ?es ?s = Some s' \<and> ixWaiting s' = 0 \<and> ixBusy s' = None \<and>
      ixOff s' ''a'' = False \<and> ixOff s' ''b'' = True"
    by (simp add: int64_def)
  then obtain s' where r: "run (idxStep [?a, ?b]) ?es ?s = Some s'" and i: "ixWaiting s' = 0" "ixBusy s' = None"
    and o: "ixOff s' ''a'' = False" "ixOff s' ''b'' = True" by blast
  have "bs (ixSampler s') = [?a]" using index_catches_up [OF r _ i] o by (simp add: idxStart_def)
  with r show ?thesis unfolding Let_def by (intro exI conjI)
qed

end
