(* ===== verification/Health.thy ===== *)
theory Health
  imports Machine
begin

text \<open>
  The health check of an upstream (\<^verbatim>\<open>app/router/upstream.go\<close>): the count of failures that takes it
  offline, and the goroutines that ping it until it is back. Times are seconds.
\<close>

section \<open>The state of the check\<close>

record Hc =
  maxFails :: int
  hcPingInterval :: int
  continuousErr :: int
  offline :: bool
  offlineTime :: int
  cancelPingLoop :: "nat option"

definition HcEnabled :: "Hc \<Rightarrow> bool" where
  "HcEnabled h \<longleftrightarrow> maxFails h > 0"

definition HcOffline :: "Hc \<Rightarrow> bool" where
  "HcOffline h = (if \<not> HcEnabled h then False else offline h)"

text \<open>The settings of \<^verbatim>\<open>wrapUpstream\<close>; the zero time is the number 0.\<close>

definition newHc :: "int \<Rightarrow> int \<Rightarrow> Hc" where
  "newHc fails interval = \<lparr>maxFails = fails, hcPingInterval = (if interval \<le> 0 then 120 else interval), continuousErr = 0,
     offline = False, offlineTime = 0, cancelPingLoop = None\<rparr>"

text \<open>
  Success gives the loop to cancel and whether the indexes are to be rebuilt; failure says whether it
  starts a loop, whose number is \<open>k\<close>, and the rebuilding.
\<close>

definition hcSucceed :: "Hc \<Rightarrow> Hc \<times> nat option \<times> bool" where
  "hcSucceed h = (h\<lparr>continuousErr := 0, offline := False, offlineTime := 0, cancelPingLoop := None\<rparr>, cancelPingLoop h, offline h)"

definition hcFailed :: "int \<Rightarrow> nat \<Rightarrow> Hc \<Rightarrow> Hc \<times> bool" where
  "hcFailed now k h =
    (let h = h\<lparr>continuousErr := continuousErr h + 1\<rparr> in
     if \<not> offline h \<and> continuousErr h \<ge> maxFails h
     then (h\<lparr>offline := True, offlineTime := now, cancelPingLoop := Some k\<rparr>, True) else (h, False))"

section \<open>The ping loop\<close>

record PingLoop =
  plI :: nat
  plLatestSd :: "int option"
  plTimer :: int
  plPinging :: bool

definition newLoop :: "int \<Rightarrow> PingLoop" where
  "newLoop now = \<lparr>plI = 0, plLatestSd = None, plTimer = now + 1, plPinging = False\<rparr>"

datatype wakeup = Standalone | Timer

text \<open>The select of the loop: whether a ping starts. A request less than five seconds after the last is ignored.\<close>

definition pingSelect :: "wakeup \<Rightarrow> int \<Rightarrow> PingLoop \<Rightarrow> PingLoop" where
  "pingSelect v now l = (case v of
     Standalone \<Rightarrow> if (case plLatestSd l of None \<Rightarrow> False | Some t \<Rightarrow> now - t < 5) then l
       else l\<lparr>plLatestSd := Some now, plPinging := True\<rparr>
   | Timer \<Rightarrow> if plTimer l \<le> now then l\<lparr>plPinging := True\<rparr> else l)"

definition pingInterval :: "int \<Rightarrow> nat \<Rightarrow> int" where
  "pingInterval interval i =
    (if i < 8 then (let fastRecover = push_bit i 1 in if fastRecover < interval then fastRecover else interval) else interval)"

definition pingFailed :: "int \<Rightarrow> int \<Rightarrow> PingLoop \<Rightarrow> PingLoop" where
  "pingFailed interval now l = l\<lparr>plTimer := now + pingInterval interval (plI l), plI := plI l + 1, plPinging := False\<rparr>"

section \<open>The machine\<close>

text \<open>
  Queries end with success or failure while loops run; \<open>hsLoops\<close> are the running loops, \<open>hsCanceled\<close> the
  loops whose context was canceled. A loop that is canceled may still ping before it sees that.
\<close>

record hcState =
  hsHc :: Hc
  hsLoops :: "nat \<rightharpoonup> PingLoop"
  hsCanceled :: "nat set"
  hsNext :: nat

datatype hcEvent = QueryOk | QueryFail int | Wake nat wakeup int | PingOk nat | PingFail nat int | SeeCancel nat

definition succeed :: "hcState \<Rightarrow> hcState" where
  "succeed s = (case hcSucceed (hsHc s) of (h, c, _) \<Rightarrow>
     s\<lparr>hsHc := h, hsCanceled := (case c of Some k \<Rightarrow> insert k (hsCanceled s) | None \<Rightarrow> hsCanceled s)\<rparr>)"

fun hcStep :: "hcEvent \<Rightarrow> hcState \<Rightarrow> hcState option" where
  "hcStep QueryOk s = Some (succeed s)"
| "hcStep (QueryFail now) s = (case hcFailed now (hsNext s) (hsHc s) of
     (h, started) \<Rightarrow> Some (if started
       then s\<lparr>hsHc := h, hsLoops := (hsLoops s)(hsNext s \<mapsto> newLoop now), hsNext := hsNext s + 1\<rparr>
       else s\<lparr>hsHc := h\<rparr>))"
| "hcStep (Wake k v now) s = (case hsLoops s k of
     Some l \<Rightarrow> if plPinging l then None else Some (s\<lparr>hsLoops := (hsLoops s)(k \<mapsto> pingSelect v now l)\<rparr>) | None \<Rightarrow> None)"
| "hcStep (PingOk k) s = (case hsLoops s k of
     Some l \<Rightarrow> if plPinging l then (let s = succeed s in Some (s\<lparr>hsLoops := (hsLoops s)(k := None)\<rparr>)) else None | None \<Rightarrow> None)"
| "hcStep (PingFail k now) s = (case hsLoops s k of
     Some l \<Rightarrow> if plPinging l then Some (s\<lparr>hsLoops := (hsLoops s)(k \<mapsto> pingFailed (hcPingInterval (hsHc s)) now l)\<rparr>) else None
   | None \<Rightarrow> None)"
| "hcStep (SeeCancel k) s = (case hsLoops s k of
     Some l \<Rightarrow> if k \<in> hsCanceled s \<and> \<not> plPinging l then Some (s\<lparr>hsLoops := (hsLoops s)(k := None)\<rparr>) else None
   | None \<Rightarrow> None)"

definition hcStart :: "hcState \<Rightarrow> bool" where
  "hcStart s \<longleftrightarrow> (\<exists>fails interval. fails > 0 \<and> hsHc s = newHc fails interval) \<and> hsLoops s = Map.empty \<and> hsCanceled s = {}"

definition activeLoops :: "hcState \<Rightarrow> nat set" where
  "activeLoops s = dom (hsLoops s) - hsCanceled s"

definition hcInv :: "hcState \<Rightarrow> bool" where
  "hcInv s \<longleftrightarrow> (let h = hsHc s in
     (offline h \<longleftrightarrow> continuousErr h \<ge> maxFails h) \<and> continuousErr h \<ge> 0 \<and> maxFails h > 0 \<and>
     (\<forall>k. hsLoops s k \<noteq> None \<and> k \<notin> hsCanceled s \<longleftrightarrow> cancelPingLoop h = Some k) \<and>
     (cancelPingLoop h = None \<longleftrightarrow> \<not> offline h) \<and>
     (\<forall>k. hsLoops s k \<noteq> None \<or> k \<in> hsCanceled s \<longrightarrow> k < hsNext s))"

lemma activeLoops_inv: "hcInv s \<Longrightarrow> activeLoops s = set_option (cancelPingLoop (hsHc s))"
  by (auto simp: hcInv_def activeLoops_def Let_def)

lemma hcInv_succeed:
  assumes "hcInv s"
  shows "hcInv (succeed s) \<and> cancelPingLoop (hsHc (succeed s)) = None"
proof (cases "cancelPingLoop (hsHc s)")
  case None
  then show ?thesis using assms by (simp add: hcInv_def succeed_def hcSucceed_def Let_def)
next
  case (Some c)
  then have a: "\<And>k. hsLoops s k \<noteq> None \<and> k \<notin> hsCanceled s \<longleftrightarrow> k = c" "c < hsNext s"
    using assms by (auto simp: hcInv_def Let_def)
  show ?thesis using assms a Some by (auto simp: hcInv_def succeed_def hcSucceed_def Let_def)
qed

lemma hcInv_failed:
  assumes "hcInv s" "hcStep (QueryFail now) s = Some s'"
  shows "hcInv s'"
proof (cases "offline (hsHc s)")
  case True
  then have "s' = s\<lparr>hsHc := (hsHc s)\<lparr>continuousErr := continuousErr (hsHc s) + 1\<rparr>\<rparr>"
    using assms(2) by (simp add: hcFailed_def Let_def)
  then show ?thesis using assms(1) True unfolding hcInv_def Let_def by simp
next
  case False
  then have n: "\<And>k. hsLoops s k \<noteq> None \<Longrightarrow> k \<in> hsCanceled s" "hsNext s \<notin> hsCanceled s" "hsLoops s (hsNext s) = None"
    "\<And>k. k \<in> hsCanceled s \<Longrightarrow> k < hsNext s"
    using assms(1) unfolding hcInv_def Let_def by auto
  then have "\<And>k. k \<in> hsCanceled s \<Longrightarrow> k < Suc (hsNext s)" using less_SucI by blast
  then show ?thesis using False n(1-3) assms(2)  assms(1)
    by (auto simp: hcInv_def hcFailed_def Let_def split: if_splits)
qed

text \<open>A change of the loops that keeps the ones that are active.\<close>

lemma hcInv_loops:
  assumes "hcInv s" "\<And>k. k \<notin> hsCanceled s \<Longrightarrow> ls k \<noteq> None \<longleftrightarrow> hsLoops s k \<noteq> None" "\<And>k. ls k \<noteq> None \<Longrightarrow> hsLoops s k \<noteq> None"
  shows "hcInv (s\<lparr>hsLoops := ls\<rparr>)"
  using assms unfolding hcInv_def Let_def by simp blast

interpretation health: machine hcStart hcStep hcInv
proof
  show "hcInv s" if "hcStart s" for s
    using that by (auto simp: hcStart_def hcInv_def newHc_def Let_def)
  show "hcInv s'" if i: "hcInv s" and e: "hcStep e s = Some s'" for s e s'
  proof (cases e)
    case QueryOk
    then show ?thesis using e hcInv_succeed [OF i] by auto
  next
    case (QueryFail now)
    then show ?thesis using hcInv_failed [OF i] e by blast
  next
    case (PingOk k)
    have c: "k \<notin> hsCanceled (succeed s) \<Longrightarrow> hsLoops (succeed s) k = None" for k
      using hcInv_succeed [OF i] by (auto simp: hcInv_def Let_def)
    have s': "s' = (succeed s)\<lparr>hsLoops := (hsLoops (succeed s))(k := None)\<rparr>"
      using PingOk e by (auto simp: Let_def split: option.splits if_splits)
    show ?thesis unfolding s'
      by (rule hcInv_loops [OF conjunct1 [OF hcInv_succeed [OF i]]]) (use c in \<open>auto split: if_splits\<close>)
  next
    case (SeeCancel k)
    then have s': "s' = s\<lparr>hsLoops := (hsLoops s)(k := None)\<rparr>" and c: "k \<in> hsCanceled s"
      using e by (auto split: option.splits if_splits)
    show ?thesis unfolding s' by (rule hcInv_loops [OF i]) (use c in \<open>auto split: if_splits\<close>)
  next
    case (Wake k v now)
    then obtain l where l: "hsLoops s k = Some l" and s': "s' = s\<lparr>hsLoops := (hsLoops s)(k \<mapsto> pingSelect v now l)\<rparr>"
      using e by (auto split: option.splits if_splits)
    show ?thesis unfolding s' by (rule hcInv_loops [OF i]) (use l in \<open>auto split: if_splits\<close>)
  next
    case (PingFail k now)
    then obtain l where l: "hsLoops s k = Some l"
      and s': "s' = s\<lparr>hsLoops := (hsLoops s)(k \<mapsto> pingFailed (hcPingInterval (hsHc s)) now l)\<rparr>"
      using e by (auto split: option.splits if_splits)
    show ?thesis unfolding s' by (rule hcInv_loops [OF i]) (use l in \<open>auto split: if_splits\<close>)
  qed
qed

text \<open>The failures since the last success, of a query or a ping.\<close>

fun failures :: "hcEvent list \<Rightarrow> int \<Rightarrow> int" where
  "failures [] n = n"
| "failures (QueryOk # es) n = failures es 0"
| "failures (PingOk k # es) n = failures es 0"
| "failures (QueryFail t # es) n = failures es (n + 1)"
| "failures (_ # es) n = failures es n"

lemma run_failures: "run hcStep es s = Some s' \<Longrightarrow>
    continuousErr (hsHc s') = failures es (continuousErr (hsHc s)) \<and> maxFails (hsHc s') = maxFails (hsHc s)"
proof (induction es arbitrary: s)
  case (Cons e es)
  then obtain t where t: "hcStep e s = Some t" "run hcStep es t = Some s'" by (auto split: option.splits)
  then show ?case using Cons.IH [OF t(2)]
    by (cases e) (auto simp: succeed_def hcSucceed_def hcFailed_def Let_def split: option.splits if_splits prod.splits)
qed simp

text \<open>C18: With the check enabled, an upstream is offline exactly while at least \<^verbatim>\<open>max_fails\<close> of its queries have
  failed since its last success; and in every such state there is exactly one ping loop that is not canceled to
  bring it back, and none while it is online, however queries, pings and cancellations interleave.\<close>

theorem health_check:
  assumes "run hcStep es s = Some s'" and "hcStart s"
  shows "(offline (hsHc s') \<longleftrightarrow> failures es 0 \<ge> maxFails (hsHc s)) \<and>
    (if offline (hsHc s') then \<exists>k. activeLoops s' = {k} else activeLoops s' = {})"
proof -
  have "continuousErr (hsHc s) = 0" using assms(2) by (auto simp: hcStart_def newHc_def)
  then show ?thesis
    using health.run_inv [OF assms] activeLoops_inv [OF health.run_inv [OF assms]] run_failures [OF assms(1)]
    by (cases "cancelPingLoop (hsHc s')") (auto simp: hcInv_def Let_def)
qed

theorem health_check_witness:
  "let s = \<lparr>hsHc = newHc 2 0, hsLoops = Map.empty, hsCanceled = {}, hsNext = 0\<rparr> in
    \<exists>s'. run hcStep [QueryFail 10, QueryOk, QueryFail 20, QueryFail 21, QueryFail 22, Wake 0 Timer 22] s = Some s' \<and>
      offline (hsHc s') \<and> (\<exists>k. activeLoops s' = {k})"
proof -
  let ?s = "\<lparr>hsHc = newHc 2 0, hsLoops = Map.empty, hsCanceled = {}, hsNext = 0\<rparr>"
  let ?es = "[QueryFail 10, QueryOk, QueryFail 20, QueryFail 21, QueryFail 22, Wake 0 Timer 22]"
  have "\<exists>s'. run hcStep ?es ?s = Some s'"
    by (simp add: hcFailed_def newHc_def Let_def succeed_def hcSucceed_def newLoop_def)
  then obtain s' where r: "run hcStep ?es ?s = Some s'" by blast
  have st: "hcStart ?s" unfolding hcStart_def by (intro conjI exI [of _ "2::int"] exI [of _ "0::int"]) simp_all
  have "failures ?es 0 \<ge> maxFails (hsHc ?s)" by (simp add: newHc_def)
  with health_check [OF r st] have "offline (hsHc s')" "\<exists>k. activeLoops s' = {k}" by (simp_all split: if_splits)
  then show ?thesis unfolding Let_def using r by (intro exI [of _ s'] conjI)
qed

text \<open>The time between two pings never exceeds the interval of the configuration.\<close>

lemma pingInterval_le: "pingInterval interval i \<le> interval"
  by (simp add: pingInterval_def Let_def)

end
