(* ===== verification/Forward.thy ===== *)
theory Forward
  imports LoadBalancer Health Ecs
begin

text \<open>
  Forwarding: the query that is sent upstream and the exchange with an upstream or a load balancer
  (\<^verbatim>\<open>makeQueryMsg\<close> and \<^verbatim>\<open>forward\<close> in \<^verbatim>\<open>app/router/router_handle.go\<close>, \<^verbatim>\<open>Exchange\<close> in \<^verbatim>\<open>upstream.go\<close> and
  \<^verbatim>\<open>upstream_lb.go\<close>). The transports, the clock and the deadline of the query are parameters that work on
  a world.
\<close>

section \<open>The state\<close>

record 'w Env = "'w lbEnv" +
  eExchange :: "string \<Rightarrow> Msg \<Rightarrow> 'w \<Rightarrow> Msg option \<times> 'w"
  eNow :: "'w \<Rightarrow> int"
  eDone :: "'w \<Rightarrow> bool"

record UpstreamWrapper =
  uwNoECS :: bool
  uwHc :: Hc
  uwLoops :: nat

datatype target = ToUpstream string | ToBalancer string

record 'w fwd =
  fUps :: "string \<rightharpoonup> UpstreamWrapper"
  fLbs :: "string \<rightharpoonup> LoadBalancer"
  fWorld :: 'w

datatype exchErr = ErrUpstreamOffline | ErrExchange | ErrAllOffline | ErrNoBackend | ErrNoUpstream | ErrDivide

definition isOffline :: "(string \<rightharpoonup> UpstreamWrapper) \<Rightarrow> string \<Rightarrow> bool" where
  "isOffline ups t = (case ups t of Some u \<Rightarrow> HcOffline (uwHc u) | None \<Rightarrow> False)"

text \<open>\<^verbatim>\<open>hcRebuildLbsIdx\<close>: the load balancers that have the upstream as a backend.\<close>

definition rebuildLbs :: "string \<Rightarrow> 'w fwd \<Rightarrow> 'w fwd" where
  "rebuildLbs t s = s\<lparr>fLbs := (\<lambda>l. map_option (\<lambda>lb.
     if t \<in> set (map bTag (lbE lb)) then lb\<lparr>lbSamplerOf := buildSampler (isOffline (fUps s)) (lbE lb)\<rparr> else lb) (fLbs s l))\<rparr>"

section \<open>Exchanging messages\<close>

text \<open>
  \<^verbatim>\<open>UpstreamWrapper.Exchange\<close>. The ping that an offline upstream is asked for is the matter of its ping
  loop. The rebuilding after a failure, which the code does in another goroutine, is done at once.
\<close>

definition exchangeUpstream :: "('w, 'z) Env_scheme \<Rightarrow> string \<Rightarrow> Msg \<Rightarrow> QueryCtx \<Rightarrow> 'w fwd \<Rightarrow> (exchErr + QueryCtx) \<times> 'w fwd" where
  "exchangeUpstream env t m q s = (case fUps s t of None \<Rightarrow> (Inl ErrNoUpstream, s) | Some u \<Rightarrow>
     if HcEnabled (uwHc u) \<and> HcOffline (uwHc u) then (Inl ErrUpstreamOffline, s)
     else let (r, w) = eExchange env t m (fWorld s);
       s = s\<lparr>fWorld := w\<rparr>;
       s = (if \<not> HcEnabled (uwHc u) then s
            else case r of
              None \<Rightarrow> (let (h, down) = hcFailed (eNow env w) (uwLoops u) (uwHc u);
                s = s\<lparr>fUps := (fUps s)(t \<mapsto> u\<lparr>uwHc := h, uwLoops := (if down then uwLoops u + 1 else uwLoops u)\<rparr>)\<rparr> in
                if down then rebuildLbs t s else s)
            | Some _ \<Rightarrow> (let (h, _, up) = hcSucceed (uwHc u); s = s\<lparr>fUps := (fUps s)(t \<mapsto> u\<lparr>uwHc := h\<rparr>)\<rparr> in
                if up then rebuildLbs t s else s)) in
     (case r of None \<Rightarrow> Inl ErrExchange | Some resp \<Rightarrow> Inr (SetRespFrom q (Some resp) t), s))"

definition exchangeBalancer :: "('w, 'z) Env_scheme \<Rightarrow> string \<Rightarrow> Msg \<Rightarrow> QueryCtx \<Rightarrow> 'w fwd \<Rightarrow> (exchErr + QueryCtx) \<times> 'w fwd" where
  "exchangeBalancer env l m q s = (case fLbs s l of None \<Rightarrow> (Inl ErrNoUpstream, s) | Some lb \<Rightarrow>
     (case lbPick (lbEnv.truncate env) lb q (fWorld s) of (p, w) \<Rightarrow>
       let s = s\<lparr>fWorld := w\<rparr> in
       (case p of
          AllOffline \<Rightarrow> (Inl ErrAllOffline, s)
        | NoBackend \<Rightarrow> (Inl ErrNoBackend, s)
        | PickPanic \<Rightarrow> (Inl ErrDivide, s)
        | Picked b \<Rightarrow>
            let noECS = (case fUps s (bTag b) of Some u \<Rightarrow> uwNoECS u | None \<Rightarrow> False);
                m = (if noECS then stripECSFromMsg m else m) in
            exchangeUpstream env (bTag b) m q s)))"

definition exchange :: "('w, 'z) Env_scheme \<Rightarrow> target \<Rightarrow> Msg \<Rightarrow> QueryCtx \<Rightarrow> 'w fwd \<Rightarrow> (exchErr + QueryCtx) \<times> 'w fwd" where
  "exchange env u m q s = (case u of ToUpstream t \<Rightarrow> exchangeUpstream env t m q s | ToBalancer l \<Rightarrow> exchangeBalancer env l m q s)"

section \<open>The query\<close>

text \<open>\<^verbatim>\<open>IsPrivate\<close> and \<^verbatim>\<open>IsGlobalUnicast\<close> of \<^verbatim>\<open>netip.Addr\<close>.\<close>

definition isPrivate4 :: "bytes \<Rightarrow> bool" where
  "isPrivate4 b \<longleftrightarrow> b ! 0 = 10 \<or> b ! 0 = 172 \<and> b ! 1 AND 0xF0 = 16 \<or> b ! 0 = 192 \<and> b ! 1 = 168"

fun isPrivate :: "Addr \<Rightarrow> bool" where
  "isPrivate NoAddr = False"
| "isPrivate (Addr4 b) = isPrivate4 b"
| "isPrivate (Addr6 b z) = (if take 12 b = v4mapped then isPrivate4 (drop 12 b) else b ! 0 AND 0xFE = 0xFC)"

definition isGlobalUnicast4 :: "bytes \<Rightarrow> bool" where
  "isGlobalUnicast4 b \<longleftrightarrow> b \<noteq> [0, 0, 0, 0] \<and> b \<noteq> [255, 255, 255, 255] \<and>
     b ! 0 \<noteq> 127 \<and> b ! 0 AND 0xF0 \<noteq> 0xE0 \<and> \<not> (b ! 0 = 169 \<and> b ! 1 = 254)"

fun isGlobalUnicast :: "Addr \<Rightarrow> bool" where
  "isGlobalUnicast NoAddr = False"
| "isGlobalUnicast (Addr4 b) = isGlobalUnicast4 b"
| "isGlobalUnicast (Addr6 b z) =
    (if take 12 b = v4mapped then isGlobalUnicast4 (drop 12 b)
     else \<not> (b = replicate 16 0 \<and> z = []) \<and> b \<noteq> replicate 15 0 @ [1] \<and> b ! 0 \<noteq> 0xFF \<and> \<not> (b ! 0 = 0xFE \<and> b ! 1 AND 0xC0 = 0x80))"

fun setData :: "bytes \<Rightarrow> Resource \<Rightarrow> Resource" where
  "setData d (Raw_rr h _) = Raw_rr h d"
| "setData d r = r"

abbreviation udpSize :: u16 where "udpSize \<equiv> 1200"

definition makeQueryMsg :: "QueryCtx \<Rightarrow> bool \<Rightarrow> Msg" where
  "makeQueryMsg q noECS =
    (let opt = newEDNS0 udpSize; ecs = ECS2Upstream q;
       opt = (if \<not> noECS \<and> prefixIsValid ecs \<and> \<not> isPrivate (pAddr ecs) \<and> isGlobalUnicast (pAddr ecs)
              then setData (case makeEdns0ClientSubnetReqOpt ecs of Some d \<Rightarrow> d | None \<Rightarrow> []) opt else opt) in
     NewMsg\<lparr>mHeader := zeroHeader\<lparr>RecursionDesired := True\<rparr>, Questions := [questionCopy (cQuestion q)], Additionals := [opt]\<rparr>)"

definition forward :: "('w, 'z) Env_scheme \<Rightarrow> target \<Rightarrow> QueryCtx \<Rightarrow> 'w fwd \<Rightarrow> (exchErr + QueryCtx) \<times> 'w fwd" where
  "forward env u q s =
    (let noECS = (case u of ToUpstream t \<Rightarrow> (case fUps s t of Some w \<Rightarrow> uwNoECS w | None \<Rightarrow> False) | ToBalancer _ \<Rightarrow> False);
         (r, s) = exchange env u (makeQueryMsg q noECS) q s in
     (case r of Inl e \<Rightarrow> Inl e | Inr q \<Rightarrow> Inr (q\<lparr>cResp := map_option removeEDNS0 (cResp q)\<rparr>), s))"

section \<open>What upstreams are sent\<close>

definition noECSOf :: "'w fwd \<Rightarrow> string \<Rightarrow> bool" where
  "noECSOf s t \<longleftrightarrow> (case fUps s t of Some u \<Rightarrow> uwNoECS u | None \<Rightarrow> False)"

text \<open>The subnet an upstream may see: none if it has \<^verbatim>\<open>no_ecs\<close> or the address is not a public one.\<close>

definition sentECS :: "bool \<Rightarrow> Prefix \<Rightarrow> Prefix" where
  "sentECS noECS p = (if noECS \<or> \<not> prefixIsValid p \<or> isPrivate (pAddr p) \<or> \<not> isGlobalUnicast (pAddr p) then noPrefix else canonical p)"

definition query_ok :: "bool \<Rightarrow> QueryCtx \<Rightarrow> Msg \<Rightarrow> bool" where
  "query_ok noECS q m \<longleftrightarrow> mHeader m = zeroHeader\<lparr>RecursionDesired := True\<rparr> \<and> Questions m = [cQuestion q] \<and>
     Answers m = [] \<and> Authorities m = [] \<and> (\<exists>h d. Additionals m = [Raw_rr h d] \<and> hType h = TypeOPT \<and> hClass h = udpSize) \<and>
     findECS m = sentECS noECS (ECS2Upstream q)"

definition ecs_ok :: "Prefix \<Rightarrow> bool" where
  "ecs_ok p \<longleftrightarrow> wf_prefix p \<and> (prefixIsValid p \<longrightarrow> addrIs4In6 (pAddr p) \<longrightarrow> 96 \<le> pBits p)"

lemma findECS_no_data: "hType h = TypeOPT \<Longrightarrow> findECS (m\<lparr>Additionals := [Raw_rr h []]\<rparr>) = noPrefix"
  by (simp add: findECS_def findOption.simps)

lemma makeQueryMsg_ok:
  assumes "ecs_ok (ECS2Upstream q)"
  shows "query_ok b q (makeQueryMsg q b) \<and> query_ok True q (stripECSFromMsg (makeQueryMsg q b))"
proof -
  let ?h = "\<lparr>hName = name_of [], hType = TypeOPT, hClass = udpSize, hTTL = 0, hLength = 0\<rparr>"
  let ?m = "NewMsg\<lparr>mHeader := zeroHeader\<lparr>RecursionDesired := True\<rparr>, Questions := [cQuestion q]\<rparr>"
  let ?p = "ECS2Upstream q"
  have e: "newEDNS0 udpSize = Raw_rr ?h []" by (simp add: newEDNS0_def)
  define d where "d = (if \<not> b \<and> prefixIsValid ?p \<and> \<not> isPrivate (pAddr ?p) \<and> isGlobalUnicast (pAddr ?p)
    then (case makeEdns0ClientSubnetReqOpt ?p of Some d \<Rightarrow> d | None \<Rightarrow> []) else [])"
  have m: "makeQueryMsg q b = ?m\<lparr>Additionals := [Raw_rr ?h d]\<rparr>"
    by (simp add: makeQueryMsg_def e d_def Let_def)
  have f: "findECS (?m\<lparr>Additionals := [Raw_rr ?h d]\<rparr>) = sentECS b ?p"
  proof (cases "\<not> b \<and> prefixIsValid ?p \<and> \<not> isPrivate (pAddr ?p) \<and> isGlobalUnicast (pAddr ?p)")
    case True
    then obtain x where "makeEdns0ClientSubnetReqOpt ?p = Some x" "findECS (?m\<lparr>Additionals := [Raw_rr ?h (x @ [])]\<rparr>) = canonical ?p"
      using ecs_option_roundtrip_lemma [where p = ?p and h = ?h and m = ?m and z = "[]" and rs = "[]"] assms by (auto simp: ecs_ok_def)
    then show ?thesis using True by (simp add: d_def sentECS_def)
  next
    case False
    then show ?thesis using findECS_no_data [of ?h ?m] by (auto simp: d_def sentECS_def)
  qed
  have "stripECSFromMsg (makeQueryMsg q b) = ?m\<lparr>Additionals := [Raw_rr ?h []]\<rparr>"
    unfolding m by (simp add: stripECSFromMsg_def)
  then show ?thesis unfolding query_ok_def m using f findECS_no_data [of ?h ?m] by (simp add: NewMsg_def sentECS_def)
qed

text \<open>The cache key of a query with a zone does not tell subnets apart that are sent upstream (\<^verbatim>\<open>RouterCtx\<close>).\<close>

lemma zone_shares_queries:
  "let q = zeroCtx\<lparr>ECSZone := [122], ECS2Upstream := prefixFrom (Addr4 [8, 8, 8, 0]) 24\<rparr>;
       q' = q\<lparr>ECS2Upstream := prefixFrom (Addr4 [9, 9, 9, 0]) 24\<rparr> in
    appendCacheKey ap [] q t = appendCacheKey ap [] q' t \<and> makeQueryMsg q False \<noteq> makeQueryMsg q' False"
proof -
  let ?q = "zeroCtx\<lparr>ECSZone := [122], ECS2Upstream := prefixFrom (Addr4 [8, 8, 8, 0]) 24\<rparr>"
  let ?r = "?q\<lparr>ECS2Upstream := prefixFrom (Addr4 [9, 9, 9, 0]) 24\<rparr>"
  have "ecs_ok (ECS2Upstream ?q)" "ecs_ok (ECS2Upstream ?r)" by (simp_all add: ecs_ok_def wf_prefix_def prefixFrom_def)
  then have "findECS (makeQueryMsg ?q False) = sentECS False (ECS2Upstream ?q)"
    "findECS (makeQueryMsg ?r False) = sentECS False (ECS2Upstream ?r)"
    using makeQueryMsg_ok [of _ False] unfolding query_ok_def by blast+
  moreover have "sentECS False (ECS2Upstream ?q) \<noteq> sentECS False (ECS2Upstream ?r)" by code_simp
  ultimately have "makeQueryMsg ?q False \<noteq> makeQueryMsg ?r False" by metis
  then show ?thesis by (simp add: Let_def appendCacheKey_eq ecsOf_def)
qed

text \<open>
  The answer \<open>m\<close> of the upstream \<open>t\<close>, less its EDNS0 record, to a query message as it has to be for \<open>q\<close>
  (which supposes that the subnet of \<open>q\<close> is a proper one). The upstream
  is the one that was asked for, or the one the load balancer picked.
\<close>

definition returned :: "('w, 'z) Env_scheme \<Rightarrow> target \<Rightarrow> QueryCtx \<Rightarrow> 'w fwd \<Rightarrow> Msg \<Rightarrow> string \<Rightarrow> bool" where
  "returned env u q s m t \<longleftrightarrow>
    (\<exists>msg w m0. (ecs_ok (ECS2Upstream q) \<longrightarrow> query_ok (noECSOf s t) q msg) \<and> fst (eExchange env t msg w) = Some m0 \<and> m = removeEDNS0 m0) \<and>
    (case u of ToUpstream x \<Rightarrow> t = x
     | ToBalancer l \<Rightarrow> \<exists>lb b w. fLbs s l = Some lb \<and> lbPick (lbEnv.truncate env) lb q (fWorld s) = (Picked b, w) \<and> bTag b = t)"

lemma exchangeUpstream_from:
  "exchangeUpstream env t m q s = (Inr q', s') \<Longrightarrow>
    \<exists>m0. fst (eExchange env t m (fWorld s)) = Some m0 \<and> q' = SetRespFrom q (Some m0) t"
  by (cases "eExchange env t m (fWorld s)") (auto simp: exchangeUpstream_def Let_def split: option.splits if_splits)

lemma forward_from:
  assumes "forward env u q s = (Inr q', s')"
  shows "\<exists>m t. q' = SetRespFrom q (Some m) t \<and> returned env u q s m t"
proof (cases u)
  case (ToUpstream t)
  let ?b = "noECSOf s t"
  obtain q1 where q1: "exchangeUpstream env t (makeQueryMsg q ?b) q s = (Inr q1, s')" "q' = q1\<lparr>cResp := map_option removeEDNS0 (cResp q1)\<rparr>"
    using assms by (auto simp: forward_def exchange_def ToUpstream noECSOf_def Let_def split: prod.splits sum.splits)
  from exchangeUpstream_from [OF q1(1)] obtain m0 where
    "fst (eExchange env t (makeQueryMsg q ?b) (fWorld s)) = Some m0" "q1 = SetRespFrom q (Some m0) t" by blast
  then have "returned env u q s (removeEDNS0 m0) t \<and> q' = SetRespFrom q (Some (removeEDNS0 m0)) t"
    using makeQueryMsg_ok [of q ?b] q1(2) by (auto simp: returned_def ToUpstream SetRespFrom_def)
  then show ?thesis by blast
next
  case (ToBalancer l)
  obtain q1 where q1: "exchangeBalancer env l (makeQueryMsg q False) q s = (Inr q1, s')" "q' = q1\<lparr>cResp := map_option removeEDNS0 (cResp q1)\<rparr>"
    using assms by (auto simp: forward_def exchange_def ToBalancer Let_def split: prod.splits sum.splits)
  obtain lb p w where p: "fLbs s l = Some lb" "lbPick (lbEnv.truncate env) lb q (fWorld s) = (p, w)"
    using q1(1) by (auto simp: exchangeBalancer_def split: option.splits prod.splits)
  then obtain b where b: "p = Picked b" using q1(1) by (cases p) (auto simp: exchangeBalancer_def)
  define m where "m = (if noECSOf s (bTag b) then stripECSFromMsg (makeQueryMsg q False) else makeQueryMsg q False)"
  have "exchangeUpstream env (bTag b) m q (s\<lparr>fWorld := w\<rparr>) = (Inr q1, s')"
    using q1(1) p b by (simp add: exchangeBalancer_def noECSOf_def m_def Let_def)
  from exchangeUpstream_from [OF this] obtain m0 where
    m0: "fst (eExchange env (bTag b) m w) = Some m0" "q1 = SetRespFrom q (Some m0) (bTag b)" by auto
  have "ecs_ok (ECS2Upstream q) \<longrightarrow> query_ok (noECSOf s (bTag b)) q m" using makeQueryMsg_ok [of q False] by (simp add: m_def)
  then have "returned env u q s (removeEDNS0 m0) (bTag b) \<and> q' = SetRespFrom q (Some (removeEDNS0 m0)) (bTag b)"
    using p b m0 q1(2) by (auto simp: returned_def ToBalancer SetRespFrom_def)
  then show ?thesis by blast
qed

text \<open>An environment that behaves differently only on messages an upstream should not get.\<close>

definition guarded :: "(string \<Rightarrow> Msg \<Rightarrow> bool) \<Rightarrow> (string \<Rightarrow> Msg \<Rightarrow> 'w \<Rightarrow> Msg option \<times> 'w) \<Rightarrow> 'w Env \<Rightarrow> 'w Env" where
  "guarded ok other env = env\<lparr>eExchange := (\<lambda>t m w. if ok t m then eExchange env t m w else other t m w)\<rparr>"

lemma exchangeUpstream_guarded: "ok t m \<Longrightarrow> exchangeUpstream (guarded ok other env) t m q s = exchangeUpstream env t m q s"
proof -
  assume ok: "ok t m"
  obtain r w where x: "eExchange env t m (fWorld s) = (r, w)" by fastforce
  show ?thesis
    by (cases "fUps s t"; cases r) (simp_all add: exchangeUpstream_def guarded_def Let_def ok x)
qed

text \<open>C19: Whatever upstream a query ends up at, directly or by a load balancer, the message it is sent has the
  question, the recursion bit and one EDNS0 record; it has the client subnet, with its host bits cleared, only
  if the upstream has no \<^verbatim>\<open>no_ecs\<close> and the address is a public one. That is, how the transports would treat
  any other message makes no difference.\<close>

theorem upstream_sees_only:
  assumes "ecs_ok (ECS2Upstream q)"
  shows "forward (guarded (\<lambda>t m. query_ok (noECSOf s t) q m) other env) u q s = forward env u q s"
proof -
  let ?ok = "\<lambda>t m. query_ok (noECSOf s t) q m" and ?env = "guarded (\<lambda>t m. query_ok (noECSOf s t) q m) other env"
  note mk = makeQueryMsg_ok [OF assms]
  have "exchange ?env u (makeQueryMsg q b) q s = exchange env u (makeQueryMsg q b) q s"
    if b: "b = (case u of ToUpstream t \<Rightarrow> (case fUps s t of Some w \<Rightarrow> uwNoECS w | None \<Rightarrow> False) | ToBalancer _ \<Rightarrow> False)" for b
  proof (cases u)
    case (ToUpstream t)
    then have "?ok t (makeQueryMsg q b)" using mk b by (simp add: noECSOf_def)
    from exchangeUpstream_guarded [where ok = ?ok, OF this] show ?thesis by (simp add: exchange_def ToUpstream)
  next
    case (ToBalancer l)
    then have b: "b = False" using b by simp
    have ok: "?ok t (if noECSOf s t then stripECSFromMsg (makeQueryMsg q b) else makeQueryMsg q b)" for t
      using mk [of True] mk [of False] b by simp
    have e: "exchangeUpstream ?env t (if noECSOf s t then stripECSFromMsg (makeQueryMsg q b) else makeQueryMsg q b) q (s\<lparr>fWorld := w\<rparr>) =
        exchangeUpstream env t (if noECSOf s t then stripECSFromMsg (makeQueryMsg q b) else makeQueryMsg q b) q (s\<lparr>fWorld := w\<rparr>)" for t w
      by (rule exchangeUpstream_guarded [where ok = ?ok, OF ok])
    have t: "lbEnv.truncate ?env = lbEnv.truncate env" by (simp add: guarded_def lbEnv.truncate_def)
    have "exchangeBalancer ?env l (makeQueryMsg q b) q s = exchangeBalancer env l (makeQueryMsg q b) q s"
    proof (cases "fLbs s l")
      case (Some lb)
      obtain p w where p: "lbPick (lbEnv.truncate env) lb q (fWorld s) = (p, w)" by fastforce
      have n: "(case fUps s x of Some u \<Rightarrow> uwNoECS u | None \<Rightarrow> False) = noECSOf s x" for x by (simp add: noECSOf_def)
      have p': "lbPick (lbEnv.truncate ?env) lb q (fWorld s) = (p, w)" unfolding t by (rule p)
      show ?thesis
      proof (cases p)
        case (Picked x)
        then show ?thesis using e [of "bTag x" w] by (simp add: exchangeBalancer_def Some p p' Let_def n)
      qed (simp_all add: exchangeBalancer_def Some p p')
    qed (simp add: exchangeBalancer_def)
    then show ?thesis by (simp add: ToBalancer exchange_def)
  qed
  then show ?thesis unfolding forward_def Let_def by simp
qed

theorem upstream_sees_only_witness:
  "let q = zeroCtx\<lparr>ECS2Upstream := \<lparr>pAddr = Addr4 [8, 8, 8, 8], pBits = 24\<rparr>\<rparr>;
       s = \<lparr>fUps = [''u'' \<mapsto> \<lparr>uwNoECS = True, uwHc = newHc 0 0, uwLoops = 0\<rparr>], fLbs = Map.empty, fWorld = ()\<rparr>;
       env = \<lparr>leRand = Pair 0, leSum64 = (\<lambda>_. 0), leAllow = (\<lambda>_ _. Pair True), eExchange = (\<lambda>_ m. Pair (Some m)),
         eNow = (\<lambda>_. 0), eDone = (\<lambda>_. False)\<rparr> in
    forward (guarded (\<lambda>t m. query_ok (noECSOf s t) q m) (\<lambda>_ _ w. (None, w)) env) (ToUpstream ''u'') q s =
      forward env (ToUpstream ''u'') q s"
proof -
  have "ecs_ok (ECS2Upstream (zeroCtx\<lparr>ECS2Upstream := \<lparr>pAddr = Addr4 [8, 8, 8, 8], pBits = 24\<rparr>\<rparr>))"
    by (simp add: ecs_ok_def wf_prefix_def)
  from upstream_sees_only [OF this] show ?thesis unfolding Let_def .
qed

end
