(* ===== verification/Hosts.thy ===== *)
theory Hosts
  imports RouterCtx Reload
begin

text \<open>
  Static hosts (\<^verbatim>\<open>app/router/hosts.go\<close>): the text format, the tables of the configuration and of
  the files, and the responses made from them. The scanner of lines and the parser of an address are
  parameters.
\<close>

section \<open>Records\<close>

record hostRecord =
  IPv4 :: "Addr list"
  IPv6 :: "Addr list"

type_synonym hostsRecords = "bytes \<rightharpoonup> hostRecord"

definition noHost :: hostRecord where
  "noHost = \<lparr>IPv4 = [], IPv6 = []\<rparr>"

definition appendUniqueAddr :: "Addr list \<Rightarrow> Addr \<Rightarrow> Addr list" where
  "appendUniqueAddr dst a = (if a \<in> set dst then dst else dst @ [a])"

definition mergeHostRecord :: "hostRecord \<Rightarrow> hostRecord \<Rightarrow> hostRecord" where
  "mergeHostRecord dst src = \<lparr>IPv4 = foldl appendUniqueAddr (IPv4 dst) (IPv4 src),
     IPv6 = foldl appendUniqueAddr (IPv6 dst) (IPv6 src)\<rparr>"

section \<open>The text format\<close>

datatype hostsErr = ErrMissingIP | ErrInvalidDomain err | ErrInvalidIP bytes | ErrHostsLine nat hostsErr | ErrHostsScan
  | ErrMissingTag | ErrDupTag | ErrInlineEntries hostsErr | ErrHostsFile string

text \<open>\<^verbatim>\<open>strings.Fields\<close> on ASCII text; \<open>cur\<close> is the field being read.\<close>

fun fieldsFrom :: "bytes \<Rightarrow> bytes \<Rightarrow> bytes list" where
  "fieldsFrom cur [] = (if cur = [] then [] else [cur])"
| "fieldsFrom cur (c # cs) =
    (if isSpace c then (if cur = [] then [] else [cur]) @ fieldsFrom [] cs else fieldsFrom (cur @ [c]) cs)"

fun addHostIPs :: "(bytes \<Rightarrow> Addr option) \<Rightarrow> bytes list \<Rightarrow> hostRecord \<Rightarrow> (hostsErr, hostRecord) res" where
  "addHostIPs parseAddr [] rec = Inr rec"
| "addHostIPs parseAddr (s # ss) rec = (case parseAddr s of
     None \<Rightarrow> Inl (Err (ErrInvalidIP s))
   | Some ip \<Rightarrow> addHostIPs parseAddr ss
       (if addrIs4 ip then rec\<lparr>IPv4 := appendUniqueAddr (IPv4 rec) ip\<rparr>
        else rec\<lparr>IPv6 := appendUniqueAddr (IPv6 rec) ip\<rparr>))"

definition parseHostsLine :: "(bytes \<Rightarrow> Addr option) \<Rightarrow> hostsRecords \<Rightarrow> bytes \<Rightarrow> (hostsErr, hostsRecords) res" where
  "parseHostsLine parseAddr recs s =
    (let fields = fieldsFrom [] s in
     if length fields < 2 then Inl (Err ErrMissingIP)
     else case ParseName emptyName (fields ! 0) of
       Inl Panic \<Rightarrow> Inl Panic | Inl (Err e) \<Rightarrow> Inl (Err (ErrInvalidDomain e))
     | Inr name \<Rightarrow>
       let key = Data (ToLower name); rec = (case recs key of Some r \<Rightarrow> r | None \<Rightarrow> noHost) in
       thenE (addHostIPs parseAddr (drop 1 fields) rec) (\<lambda>rec. Inr (recs(key \<mapsto> rec))))"

fun parseHostsLines :: "(bytes \<Rightarrow> Addr option) \<Rightarrow> nat \<Rightarrow> bytes list \<Rightarrow> hostsRecords \<Rightarrow> (hostsErr, hostsRecords) res" where
  "parseHostsLines parseAddr line [] recs = Inr recs"
| "parseHostsLines parseAddr line (b # bs) recs =
    (let s = stripComment b in
     if s = [] then parseHostsLines parseAddr (line + 1) bs recs
     else thenE (wrapE (ErrHostsLine (line + 1)) (parseHostsLine parseAddr recs s))
       (parseHostsLines parseAddr (line + 1) bs))"

type_synonym scanner = "bytes \<Rightarrow> bytes list \<times> bool"

definition parseHostsText :: "(bytes \<Rightarrow> Addr option) \<Rightarrow> scanner \<Rightarrow> bytes \<Rightarrow> (hostsErr, hostsRecords) res" where
  "parseHostsText parseAddr scan b =
    thenE (parseHostsLines parseAddr 0 (fst (scan b)) Map.empty) (\<lambda>recs.
      if snd (scan b) then Inl (Err ErrHostsScan) else Inr recs)"

fun joinLines :: "bytes list \<Rightarrow> bytes" where
  "joinLines [] = []"
| "joinLines [e] = e"
| "joinLines (e # es) = e @ 10 # joinLines es"

definition parseHostsEntries :: "(bytes \<Rightarrow> Addr option) \<Rightarrow> scanner \<Rightarrow> bytes list \<Rightarrow> (hostsErr, hostsRecords) res" where
  "parseHostsEntries parseAddr scan entries = parseHostsText parseAddr scan (joinLines entries)"

definition parseHostsFile :: "(bytes \<Rightarrow> Addr option) \<Rightarrow> scanner \<Rightarrow> bytes \<Rightarrow> hostsRecords option \<times> bool" where
  "parseHostsFile parseAddr scan b = (case parseHostsText parseAddr scan b of Inr m \<Rightarrow> (Some m, False) | Inl _ \<Rightarrow> (None, True))"

section \<open>Loading\<close>

record HostsConfig =
  hcTag :: string
  hcEntries :: "bytes list"
  hcFiles :: "string list"
  hcTTL :: int

record Hosts =
  hEntries :: hostsRecords
  hTtl :: u32
  hLoaders :: "hostsRecords FileLoader list"

fun initLoaders :: "(bytes \<Rightarrow> bytes) \<Rightarrow> files \<Rightarrow> (bytes \<Rightarrow> 'v option \<times> bool) \<Rightarrow> string list \<Rightarrow> (string, 'v FileLoader list) res" where
  "initLoaders sha fs parse [] = Inr []"
| "initLoaders sha fs parse (fp # fps) = (case loaderInit sha fs (NewFileLoader fp parse) of
     (l, ok) \<Rightarrow> if \<not> ok then Inl (Err fp) else thenE (initLoaders sha fs parse fps) (\<lambda>ls. Inr (l # ls)))"

definition loadHosts :: "(bytes \<Rightarrow> Addr option) \<Rightarrow> scanner \<Rightarrow> (bytes \<Rightarrow> bytes) \<Rightarrow> files \<Rightarrow> HostsConfig \<Rightarrow>
    (string \<rightharpoonup> Hosts) \<Rightarrow> (hostsErr, string \<rightharpoonup> Hosts) res" where
  "loadHosts parseAddr scan sha fs cfg hosts =
    (if length (hcTag cfg) = 0 then Inl (Err ErrMissingTag)
     else if hcTag cfg \<in> dom hosts then Inl (Err ErrDupTag)
     else thenE (wrapE ErrInlineEntries (parseHostsEntries parseAddr scan (hcEntries cfg))) (\<lambda>inline.
       let ttl = (if hcTTL cfg \<le> 0 then 300 else hcTTL cfg) in
       case initLoaders sha fs (parseHostsFile parseAddr scan) (hcFiles cfg) of
         Inl (Err fp) \<Rightarrow> Inl (Err (ErrHostsFile fp)) | Inl Panic \<Rightarrow> Inl Panic
       | Inr s \<Rightarrow> Inr (hosts(hcTag cfg \<mapsto> \<lparr>hEntries = inline, hTtl = word_of_int ttl, hLoaders = s\<rparr>))))"

section \<open>Responses\<close>

text \<open>The key of a name as it comes from the wire; the loop is on the bytes from its index on.\<close>

function lowerNameKey :: "bytes \<Rightarrow> bytes" where
  "lowerNameKey [] = []"
| "lowerNameKey (l # b) =
    (if l = 0 then l # b else l # asciiToLower (take (unat l) b) @ lowerNameKey (drop (unat l) b))"
  by pat_completeness auto
termination by (relation "measure length") auto

definition hostsMerge :: "bytes \<Rightarrow> hostRecord \<times> bool \<Rightarrow> hostsRecords \<Rightarrow> hostRecord \<times> bool" where
  "hostsMerge key out recs = (case recs key of
     Some rec \<Rightarrow> (mergeHostRecord (fst out) rec, True) | None \<Rightarrow> out)"

definition hostsLookup :: "Hosts \<Rightarrow> Name \<Rightarrow> hostRecord \<times> bool" where
  "hostsLookup h name =
    (let key = lowerNameKey (Data name) in
     foldl (\<lambda>out l. case flV l of Some recs \<Rightarrow> hostsMerge key out recs | None \<Rightarrow> out)
       (hostsMerge key (noHost, False) (hEntries h)) (hLoaders h))"

definition constName :: "string \<Rightarrow> Name" where
  "constName s = (case ParseName emptyName (ascii s) of Inr n \<Rightarrow> n | Inl _ \<Rightarrow> emptyName)"

definition makeHostsSOA :: "Name \<Rightarrow> u32 \<Rightarrow> Resource" where
  "makeHostsSOA name ttl = SOA_rr \<lparr>hName = name, hType = TypeSOA, hClass = ClassINET, hTTL = ttl, hLength = 0\<rparr>
     (constName ''fake-ns.mosproxy.fake.root.'') (constName ''fake-mbox.mosproxy.fake.root.'')
     2021110400 1800 900 604800 ttl"

definition hostAnswer :: "Question \<Rightarrow> u32 \<Rightarrow> Addr \<Rightarrow> Resource" where
  "hostAnswer q ttl ip =
    (let h = \<lparr>hName = qName q, hType = qType q, hClass = ClassINET, hTTL = ttl, hLength = 0\<rparr> in
     if qType q = TypeA then A_rr h (drop 12 (as16 ip)) else AAAA_rr h (as16 ip))"

definition hostsResponse :: "Hosts \<Rightarrow> QueryCtx \<Rightarrow> Msg option" where
  "hostsResponse h q =
    (let question = cQuestion q in
     if qClass question \<noteq> ClassINET \<or> qType question \<noteq> TypeA \<and> qType question \<noteq> TypeAAAA then None
     else let (rec, matched) = hostsLookup h (qName question) in
     if \<not> matched then None
     else let answers = map (hostAnswer question (hTtl h)) (if qType question = TypeA then IPv4 rec else IPv6 rec);
       resp = NewMsg\<lparr>Questions := [questionCopy question], Answers := answers\<rparr> in
     Some (if answers = [] then resp\<lparr>Authorities := [makeHostsSOA (qName question) (hTtl h)]\<rparr> else resp))"

section \<open>What the text says\<close>

text \<open>A list without its repetitions, in the order of the first occurrences.\<close>

definition firsts :: "'a list \<Rightarrow> 'a list" where
  "firsts xs = rev (remdups (rev xs))"

lemma set_firsts [simp]: "set (firsts xs) = set xs" and distinct_firsts [simp]: "distinct (firsts xs)"
  and firsts_Nil [simp]: "firsts [] = []"
  by (simp_all add: firsts_def)

lemma firsts_snoc: "firsts (xs @ [x]) = (if x \<in> set xs then firsts xs else firsts xs @ [x])"
  by (simp add: firsts_def)

lemma appendUnique_firsts: "foldl appendUniqueAddr (firsts xs) ys = firsts (xs @ ys)"
proof (induction ys arbitrary: xs)
  case (Cons y ys)
  have "appendUniqueAddr (firsts xs) y = firsts (xs @ [y])" by (simp add: appendUniqueAddr_def firsts_snoc)
  then show ?case using Cons [of "xs @ [y]"] by simp
qed simp

lemma firsts_append_firsts: "firsts (xs @ firsts ys) = firsts (xs @ ys)"
proof (induction ys rule: rev_induct)
  case (snoc y ys)
  then show ?case using firsts_snoc [of "xs @ firsts ys" y] firsts_snoc [of "xs @ ys" y] by (simp add: firsts_snoc)
qed simp

text \<open>The record of a list of addresses.\<close>

definition recordOf :: "Addr list \<Rightarrow> hostRecord" where
  "recordOf ips = \<lparr>IPv4 = firsts (filter addrIs4 ips), IPv6 = firsts (filter (\<lambda>a. \<not> addrIs4 a) ips)\<rparr>"

lemma noHost_recordOf: "noHost = recordOf []"
  by (simp add: noHost_def recordOf_def)

lemma mergeHostRecord_recordOf: "mergeHostRecord (recordOf xs) (recordOf ys) = recordOf (xs @ ys)"
  by (simp add: mergeHostRecord_def recordOf_def appendUnique_firsts firsts_append_firsts)

lemma addHostIPs_recordOf:
  "addHostIPs pa ss (recordOf xs) = Inr r \<Longrightarrow> r = recordOf (xs @ map (\<lambda>s. the (pa s)) ss)"
proof (induction ss arbitrary: xs)
  case (Cons s ss)
  then obtain ip where ip: "pa s = Some ip" by (auto split: option.splits)
  have "(if addrIs4 ip then (recordOf xs)\<lparr>IPv4 := appendUniqueAddr (IPv4 (recordOf xs)) ip\<rparr>
      else (recordOf xs)\<lparr>IPv6 := appendUniqueAddr (IPv6 (recordOf xs)) ip\<rparr>) = recordOf (xs @ [ip])"
    using appendUnique_firsts [of _ "[ip]"] by (simp add: recordOf_def)
  then show ?case using Cons.IH [of "xs @ [ip]"] Cons.prems ip by simp
qed simp

text \<open>A line: its name in lower case, and its addresses; and the lines of a text.\<close>

definition hostLine :: "(bytes \<Rightarrow> Addr option) \<Rightarrow> bytes \<Rightarrow> bytes \<times> Addr list" where
  "hostLine parseAddr s =
    (case ParseName emptyName (fieldsFrom [] s ! 0) of Inr n \<Rightarrow> nb (ToLower n) | Inl _ \<Rightarrow> [],
     map (\<lambda>s. the (parseAddr s)) (drop 1 (fieldsFrom [] s)))"

definition hostLines :: "(bytes \<Rightarrow> Addr option) \<Rightarrow> scanner \<Rightarrow> bytes \<Rightarrow> (bytes \<times> Addr list) list" where
  "hostLines parseAddr scan b = map (hostLine parseAddr) (ruleLines (fst (scan b)))"

definition addrsOf :: "(bytes \<times> Addr list) list \<Rightarrow> bytes \<Rightarrow> Addr list" where
  "addrsOf hs k = concat (map snd (filter (\<lambda>h. fst h = k) hs))"

definition tableOf :: "(bytes \<times> Addr list) list \<Rightarrow> hostsRecords" where
  "tableOf hs = (\<lambda>k. if k \<in> fst ` set hs then Some (recordOf (addrsOf hs k)) else None)"

lemma addrsOf_absent: "k \<notin> fst ` set hs \<Longrightarrow> addrsOf hs k = []"
  by (force simp: addrsOf_def filter_empty_conv)

lemma addrsOf_append [simp]: "addrsOf (hs @ hs') k = addrsOf hs k @ addrsOf hs' k"
  by (simp add: addrsOf_def)

lemma parseHostsLine_table:
  assumes "parseHostsLine pa (tableOf hs) s = Inr m"
  shows "m = tableOf (hs @ [hostLine pa s])"
proof -
  obtain n r where n: "ParseName emptyName (fieldsFrom [] s ! 0) = Inr n"
    and r: "addHostIPs pa (drop 1 (fieldsFrom [] s)) (case tableOf hs (nb (ToLower n)) of Some r \<Rightarrow> r | None \<Rightarrow> noHost) = Inr r"
    and m: "m = (tableOf hs)(nb (ToLower n) \<mapsto> r)"
    using assms by (auto simp: parseHostsLine_def Let_def Data_def res_simps split: if_splits sum.splits fail.splits)
  have "(case tableOf hs (nb (ToLower n)) of Some r \<Rightarrow> r | None \<Rightarrow> noHost) = recordOf (addrsOf hs (nb (ToLower n)))"
    by (simp add: tableOf_def addrsOf_absent noHost_recordOf)
  with addHostIPs_recordOf r have "r = recordOf (addrsOf hs (nb (ToLower n)) @ snd (hostLine pa s))"
    by (simp add: hostLine_def)
  then show ?thesis using m n by (auto simp: tableOf_def addrsOf_def hostLine_def)
qed

lemma parseHostsLines_table:
  "parseHostsLines pa line ls (tableOf hs) = Inr m \<Longrightarrow> m = tableOf (hs @ map (hostLine pa) (ruleLines ls))"
proof (induction ls arbitrary: line hs)
  case (Cons b ls)
  show ?case
  proof (cases "stripComment b = []")
    case False
    then obtain m' where m': "parseHostsLine pa (tableOf hs) (stripComment b) = Inr m'" "parseHostsLines pa (line + 1) ls m' = Inr m"
      using Cons.prems by (auto simp: Let_def res_simps)
    from m'(2) Cons.IH [of "line + 1" "hs @ [hostLine pa (stripComment b)]"] parseHostsLine_table [OF m'(1)] False
    show ?thesis by (simp add: ruleLines_def)
  qed (use Cons in \<open>simp add: ruleLines_def\<close>)
qed (simp add: ruleLines_def)

lemma parseHostsText_table: "parseHostsText pa scan b = Inr m \<Longrightarrow> m = tableOf (hostLines pa scan b)"
  using parseHostsLines_table [of pa 0 "fst (scan b)" "[]" m]
  by (auto simp: parseHostsText_def hostLines_def res_simps tableOf_def split: if_splits)

section \<open>What is looked up\<close>

lemma lowerNameKey_wire: "labels_ok ls \<Longrightarrow> lowerNameKey (wire ls) = wire (map asciiToLower ls)"
  by (induction ls) auto

lemma lookup_key: "name_ok n \<Longrightarrow> lowerNameKey (Data n) = nb (ToLower n)"
  by (auto simp: name_ok_def Data_def lowerNameKey_wire ToLower_name_of)

lemma hostsMerge_table:
  "hostsMerge k (recordOf (addrsOf hs k), k \<in> fst ` set hs) (tableOf hs') =
    (recordOf (addrsOf (hs @ hs') k), k \<in> fst ` set (hs @ hs'))"
  by (cases "k \<in> fst ` set hs'")
     (auto simp: hostsMerge_def tableOf_def mergeHostRecord_recordOf addrsOf_absent)

text \<open>Hosts that serve some lines: those of the configuration, then those of each file.\<close>

definition serves :: "Hosts \<Rightarrow> (bytes \<times> Addr list) list list \<Rightarrow> bool" where
  "serves h hss \<longleftrightarrow> hEntries h = tableOf (hd hss) \<and> map flV (hLoaders h) = map (Some \<circ> tableOf) (tl hss) \<and> hss \<noteq> []"

lemma hostsLookup_serves:
  assumes "serves h hss" "name_ok n"
  shows "hostsLookup h n = (recordOf (addrsOf (concat hss) (nb (ToLower n))), nb (ToLower n) \<in> fst ` set (concat hss))"
proof -
  let ?k = "nb (ToLower n)"
  have loop: "foldl (\<lambda>out l. case flV l of Some recs \<Rightarrow> hostsMerge ?k out recs | None \<Rightarrow> out)
      (recordOf (addrsOf hs ?k), ?k \<in> fst ` set hs) ls = (recordOf (addrsOf (hs @ concat ts) ?k), ?k \<in> fst ` set (hs @ concat ts))"
    if "map flV ls = map (Some \<circ> tableOf) ts" for hs ls ts
    using that
  proof (induction ts arbitrary: hs ls)
    case (Cons t ts)
    then obtain l ls' where l: "ls = l # ls'" "flV l = Some (tableOf t)" "map flV ls' = map (Some \<circ> tableOf) ts" by auto
    then show ?case using Cons.IH [OF l(3), of "hs @ t"] hostsMerge_table [of ?k hs t] by simp
  qed simp
  obtain hs ts where h: "hss = hs # ts" "hEntries h = tableOf hs" "map flV (hLoaders h) = map (Some \<circ> tableOf) ts"
    using assms(1) by (cases hss) (auto simp: serves_def)
  have "hostsMerge ?k (noHost, False) (hEntries h) = (recordOf (addrsOf hs ?k), ?k \<in> fst ` set hs)"
    using hostsMerge_table [of ?k "[]" hs] h(2) by (simp add: noHost_recordOf addrsOf_def)
  then show ?thesis using loop [OF h(3), of hs] h(1) by (simp add: hostsLookup_def lookup_key [OF assms(2)] Let_def)
qed

lemma initLoaders_serves:
  "initLoaders sha fs (parseHostsFile pa scan) fps = Inr ls \<Longrightarrow>
    map flV ls = map (Some \<circ> tableOf) (map (\<lambda>fp. hostLines pa scan (the (fs fp))) fps)"
proof (induction fps arbitrary: ls)
  case (Cons fp fps)
  obtain b m where b: "fs fp = Some b" "parseHostsText pa scan b = Inr m"
    using Cons.prems
    by (auto simp: loaderInit_def NewFileLoader_def parseHostsFile_def split: option.splits sum.splits)
  then show ?case using Cons parseHostsText_table [OF b(2)]
    by (auto simp: loaderInit_def NewFileLoader_def parseHostsFile_def res_simps)
qed simp



end
