(* ===== verification/Rule.thy ===== *)
theory Rule
  imports Forward Hosts IpSet
begin

text \<open>
  The rules of the router (\<^verbatim>\<open>app/router/rule.go\<close>): a rule of the configuration with its references
  resolved, and whether a query matches it.
\<close>

section \<open>Loading a rule\<close>

record RuleConfig =
  rcReverse :: bool
  rcDomain :: string
  rcServer :: bytes
  rcServerName :: bytes
  rcPath :: bytes
  rcClientIP :: "bytes list"
  rcReject :: u16
  rcHosts :: string
  rcForward :: string
  rcRespIP :: string
  rcRespIPForward :: string

text \<open>What the tags of the configuration stand for; a set of domains or addresses is the list of its files.\<close>

record 're tables =
  tDomainSets :: "string \<rightharpoonup> 're Matcher list"
  tIpSets :: "string \<rightharpoonup> unit ipRange list list"
  tHosts :: "string \<rightharpoonup> Hosts"
  tUpstreams :: "string set"
  tBalancers :: "string set"

record 're rule =
  ruCfg :: RuleConfig
  ruDomainSet :: "'re Matcher list option"
  ruClientIp :: "unit ipRange list option"
  ruHosts :: "Hosts option"
  ruUpstream :: "target option"
  ruRespIpSet :: "unit ipRange list list option"
  ruRespIpUpstream :: "target option"

datatype ruleErr = ErrHostsAndForward | ErrNoDomainSet string | ErrNoTarget string | ErrNoHosts string | ErrNoIpSet string
  | ErrNeedsRespIp | ErrRuleStartAddr bytes | ErrRuleEndAddr bytes | ErrRuleCidr bytes | ErrRuleAddr bytes | ErrRuleRange bytes
  | ErrRuleOverlap

text \<open>A reference that is not made stays nil; one that is made must exist.\<close>

definition resolve :: "(string \<Rightarrow> 'a option) \<Rightarrow> (string \<Rightarrow> ruleErr) \<Rightarrow> string \<Rightarrow> (ruleErr, 'a option) res" where
  "resolve look err tag =
    (if length tag > 0 then (case look tag of None \<Rightarrow> Inl (Err (err tag)) | Some x \<Rightarrow> Inr (Some x)) else Inr None)"

definition lookTarget :: "'re tables \<Rightarrow> string \<Rightarrow> target option" where
  "lookTarget t tag = (if tag \<in> tUpstreams t then Some (ToUpstream tag) else if tag \<in> tBalancers t then Some (ToBalancer tag) else None)"

text \<open>The forms of \<^verbatim>\<open>client_ip\<close>: a range with a dash, a prefix with a slash, or one address.\<close>

definition clientRange :: "(bytes \<Rightarrow> Addr option) \<Rightarrow> (bytes \<Rightarrow> Prefix option) \<Rightarrow> bytes \<Rightarrow> (ruleErr, Addr \<times> Addr) res" where
  "clientRange parseAddr parsePrefix s =
    (case cut s 45 of (s1, s2, ok) \<Rightarrow>
     if ok then
       (case parseAddr s1 of None \<Rightarrow> Inl (Err (ErrRuleStartAddr s1)) | Some start \<Rightarrow>
        case parseAddr s2 of None \<Rightarrow> Inl (Err (ErrRuleEndAddr s2)) | Some end \<Rightarrow> Inr (start, end))
     else if 47 \<in> set s then
       (case parsePrefix s of None \<Rightarrow> Inl (Err (ErrRuleCidr s)) | Some p \<Rightarrow> Inr (pAddr (masked p), lastIP p))
     else (case parseAddr s of None \<Rightarrow> Inl (Err (ErrRuleAddr s)) | Some a \<Rightarrow> Inr (a, a)))"

fun addClientIPs :: "(bytes \<Rightarrow> Addr option) \<Rightarrow> (bytes \<Rightarrow> Prefix option) \<Rightarrow> bytes list \<Rightarrow> unit ipRange list \<Rightarrow>
    (ruleErr, unit ipRange list) res" where
  "addClientIPs parseAddr parsePrefix [] lb = Inr lb"
| "addClientIPs parseAddr parsePrefix (s # ss) lb =
    thenE (clientRange parseAddr parsePrefix s) (\<lambda>(start, end).
      case listAdd lb start end () of None \<Rightarrow> Inl (Err (ErrRuleRange s)) | Some lb \<Rightarrow> addClientIPs parseAddr parsePrefix ss lb)"

definition clientList :: "(bytes \<Rightarrow> Addr option) \<Rightarrow> (bytes \<Rightarrow> Prefix option) \<Rightarrow> bytes list \<Rightarrow> (ruleErr, unit ipRange list option) res" where
  "clientList parseAddr parsePrefix ss =
    (if length ss > 0 then thenE (addClientIPs parseAddr parsePrefix ss []) (\<lambda>lb.
       case builderBuild lb of Inl _ \<Rightarrow> Inl (Err ErrRuleOverlap) | Inr l \<Rightarrow> Inr (Some l))
     else Inr None)"

definition loadRule :: "(bytes \<Rightarrow> Addr option) \<Rightarrow> (bytes \<Rightarrow> Prefix option) \<Rightarrow> 're tables \<Rightarrow> RuleConfig \<Rightarrow> (ruleErr, 're rule) res" where
  "loadRule parseAddr parsePrefix t cfg =
    (if length (rcHosts cfg) > 0 \<and> length (rcForward cfg) > 0 then Inl (Err ErrHostsAndForward)
     else thenE (resolve (tDomainSets t) ErrNoDomainSet (rcDomain cfg)) (\<lambda>ds.
     thenE (resolve (lookTarget t) ErrNoTarget (rcForward cfg)) (\<lambda>up.
     thenE (resolve (tHosts t) ErrNoHosts (rcHosts cfg)) (\<lambda>hosts.
     thenE (resolve (tIpSets t) ErrNoIpSet (rcRespIP cfg)) (\<lambda>ipSet.
     thenE (if length (rcRespIPForward cfg) > 0 \<and> ipSet = None then Inl (Err ErrNeedsRespIp)
            else resolve (lookTarget t) ErrNoTarget (rcRespIPForward cfg)) (\<lambda>fb.
     thenE (clientList parseAddr parsePrefix (rcClientIP cfg)) (\<lambda>l.
       Inr \<lparr>ruCfg = cfg, ruDomainSet = ds, ruClientIp = l, ruHosts = hosts, ruUpstream = up, ruRespIpSet = ipSet,
            ruRespIpUpstream = fb\<rparr>)))))))"

section \<open>Matching\<close>

text \<open>\<^verbatim>\<open>_match\<close>: the conditions are tested in order, and those that are not set hold.\<close>

definition ruleMatch1 :: "('re \<Rightarrow> bytes \<Rightarrow> bool) \<Rightarrow> 're rule \<Rightarrow> QueryCtx \<Rightarrow> bool dmres" where
  "ruleMatch1 reMatch ru q =
    thenE (case ruDomainSet ru of None \<Rightarrow> Inr True | Some ms \<Rightarrow> domainSetMatch reMatch ms (qName (cQuestion q))) (\<lambda>ok.
     Inr (if \<not> ok then False
       else if length (rcServer (ruCfg ru)) > 0 \<and> rcServer (ruCfg ru) \<noteq> ServerTag q then False
       else if length (rcServerName (ruCfg ru)) > 0 \<and> rcServerName (ruCfg ru) \<noteq> ServerName q then False
       else if (let p = rcPath (ruCfg ru) in length p > 0 \<and>
           (if last p = 47 then length (Path q) < length p \<or> take (length p) (Path q) \<noteq> p else p \<noteq> Path q)) then False
       else case ruClientIp ru of
         None \<Rightarrow> True
       | Some l \<Rightarrow> addrIsValid (apAddr (RemoteAddr q)) \<and> lookupAddr l (unmap (apAddr (RemoteAddr q))) \<noteq> None))"

definition ruleMatch :: "('re \<Rightarrow> bytes \<Rightarrow> bool) \<Rightarrow> 're rule \<Rightarrow> QueryCtx \<Rightarrow> bool dmres" where
  "ruleMatch reMatch ru q = thenE (ruleMatch1 reMatch ru q) (\<lambda>ok. Inr (if rcReverse (ruCfg ru) then \<not> ok else ok))"

section \<open>What a rule means\<close>

text \<open>An address in a range of \<^verbatim>\<open>client_ip\<close>.\<close>

definition inClientRange :: "(bytes \<Rightarrow> Addr option) \<Rightarrow> (bytes \<Rightarrow> Prefix option) \<Rightarrow> bytes \<Rightarrow> Addr \<Rightarrow> bool" where
  "inClientRange parseAddr parsePrefix s a \<longleftrightarrow>
    (if 45 \<in> set s then
       addr2Ipv6 (the (parseAddr (fst (cut s 45)))) \<le> addr2Ipv6 a \<and> addr2Ipv6 a \<le> addr2Ipv6 (the (parseAddr (fst (snd (cut s 45)))))
     else if 47 \<in> set s then inPrefix (the (parsePrefix s)) a
     else addr2Ipv6 a = addr2Ipv6 (the (parseAddr s)))"

text \<open>The conditions of a rule on a query; the domain condition is a parameter.\<close>

definition ruleConds :: "(bytes \<Rightarrow> Addr option) \<Rightarrow> (bytes \<Rightarrow> Prefix option) \<Rightarrow> RuleConfig \<Rightarrow> bool \<Rightarrow> QueryCtx \<Rightarrow> bool" where
  "ruleConds parseAddr parsePrefix cfg inDomains q \<longleftrightarrow>
    (rcDomain cfg = [] \<or> inDomains) \<and>
    (rcServer cfg = [] \<or> ServerTag q = rcServer cfg) \<and>
    (rcServerName cfg = [] \<or> ServerName q = rcServerName cfg) \<and>
    (rcPath cfg = [] \<or> Path q = rcPath cfg \<or> last (rcPath cfg) = 47 \<and> (\<exists>r. Path q = rcPath cfg @ r)) \<and>
    (rcClientIP cfg = [] \<or> addrIsValid (apAddr (RemoteAddr q)) \<and>
      (\<exists>s \<in> set (rcClientIP cfg). inClientRange parseAddr parsePrefix s (unmap (apAddr (RemoteAddr q)))))"

lemma cut_found: "snd (snd (cut s c)) \<longleftrightarrow> c \<in> set s"
proof -
  have "indexByte c s = None \<longleftrightarrow> c \<notin> set s" by (induction c s rule: indexByte.induct) auto
  then show ?thesis by (auto simp: cut_def split: option.splits)
qed

lemma clientRange_spec:
  assumes "addr_parser pa" "prefix_parser pp" "clientRange pa pp s = Inr (x, y)" "wf_addr a"
  shows "addr2Ipv6 x \<le> addr2Ipv6 a \<and> addr2Ipv6 a \<le> addr2Ipv6 y \<longleftrightarrow> inClientRange pa pp s a"
proof -
  obtain t u ok where c: "cut s 45 = (t, u, ok)" by (cases "cut s 45") auto
  then have ok: "ok \<longleftrightarrow> 45 \<in> set s" using cut_found [of s 45] by simp
  show ?thesis
  proof (cases "ok \<or> 47 \<notin> set s")
    case True
    then show ?thesis using assms(3) c ok
      by (auto simp: clientRange_def inClientRange_def split: option.splits if_splits)
  next
    case False
    then obtain p where p: "pp s = Some p" "x = pAddr (masked p)" "y = lastIP p"
      using assms(3) c by (auto simp: clientRange_def split: option.splits)
    then have "wf_prefix p" "prefixIsValid p" using assms(2) by (auto simp: prefix_parser_def)
    from prefix_range [OF this assms(4)] show ?thesis using False ok p by (simp add: inClientRange_def)
  qed
qed

lemma addClientIPs_spec:
  assumes "addr_parser pa" "prefix_parser pp" "wf_addr a"
  shows "addClientIPs pa pp ss lb = Inr lb' \<Longrightarrow> valid_ranges lb \<Longrightarrow>
    valid_ranges lb' \<and> ((\<exists>r \<in> set lb'. inRange r (addr2Ipv6 a)) \<longleftrightarrow>
      (\<exists>r \<in> set lb. inRange r (addr2Ipv6 a)) \<or> (\<exists>s \<in> set ss. inClientRange pa pp s a))"
proof (induction ss arbitrary: lb)
  case (Cons s ss)
  obtain x y where xy: "clientRange pa pp s = Inr (x, y)" using Cons.prems(1) by (auto simp: res_simps)
  let ?r = "\<lparr>irV = (), irStart = addr2Ipv6 x, irEnd = addr2Ipv6 y\<rparr>"
  have l: "addr2Ipv6 x \<le> addr2Ipv6 y" "addClientIPs pa pp ss (lb @ [?r]) = Inr lb'"
    using Cons.prems(1) xy by (auto simp: listAdd_Some split: option.splits)
  have "valid_ranges (lb @ [?r])" using Cons.prems(2) l(1) by (simp add: valid_ranges_def)
  from Cons.IH [OF l(2) this] clientRange_spec [OF assms(1,2) xy assms(3)] show ?case by (auto simp: inRange_def)
qed simp

lemma clientList_spec:
  assumes "addr_parser pa" "prefix_parser pp" "clientList pa pp ss = Inr l" "wf_addr a"
  shows "case l of None \<Rightarrow> ss = [] | Some l \<Rightarrow> ss \<noteq> [] \<and>
    (lookupAddr l a \<noteq> None \<longleftrightarrow> addrIsValid a \<and> (\<exists>s \<in> set ss. inClientRange pa pp s a))"
proof (cases "ss = []")
  case False
  then obtain lb where lb1: "addClientIPs pa pp ss [] = Inr lb"
    and b: "(case builderBuild lb of Inl _ \<Rightarrow> Inl (Err ErrRuleOverlap) | Inr l \<Rightarrow> Inr (Some l)) = Inr l"
    using assms(3) by (auto simp: clientList_def res_simps)
  from b obtain e where lb: "addClientIPs pa pp ss [] = Inr lb" "builderBuild lb = Inr e" "l = Some e"
    using lb1 by (cases "builderBuild lb") auto
  from addClientIPs_spec [OF assms(1,2,4) lb(1)] have v: "valid_ranges lb"
    "(\<exists>r \<in> set lb. inRange r (addr2Ipv6 a)) \<longleftrightarrow> (\<exists>s \<in> set ss. inClientRange pa pp s a)"
    by (simp_all add: valid_ranges_def)
  from build_separated [OF lb(2) v(1)] have "separated e" "set e = set lb" by simp_all
  then show ?thesis using False lb(3) v(2) ranges.get_None [of e a] by (auto simp: rangeAt_def)
qed (use assms(3) in \<open>simp add: clientList_def\<close>)

lemma wf_unmap: "wf_addr a \<Longrightarrow> wf_addr (unmap a) \<and> (addrIsValid (unmap a) \<longleftrightarrow> addrIsValid a)"
  by (cases a) (auto simp: addrIsValid_def)

lemma guards: "(if \<not> a then False else if b then False else if c then False else if d then False else e) \<longleftrightarrow>
    a \<and> \<not> b \<and> \<not> c \<and> \<not> d \<and> e"
  by simp

text \<open>C20: A rule of the configuration that loads matches a query exactly if all the conditions that are set hold, or
  under \<^verbatim>\<open>reverse\<close> exactly if one of them does not: its domain set covers the name, the server tag and TLS name
  are equal, the path is the same or below it if it ends in a slash, and the client's address is in one of the
  ranges.\<close>

theorem rule_matches:
  assumes "loadRule pa pp t cfg = Inr ru"
    and "\<forall>ms. tDomainSets t (rcDomain cfg) = Some ms \<longrightarrow> list_all2 (\<lambda>b m. parseDomainSet compileRe scan b = Inr m) files ms"
    and "addr_parser pa" "prefix_parser pp" "wf_addr (apAddr (RemoteAddr q))"
  shows "ruleMatch reMatch ru q = Inr (ruleConds pa pp cfg
    (\<exists>b \<in> set files. fileMatches compileRe reMatch (fst (scan b)) (qName (cQuestion q))) q \<noteq> rcReverse cfg)"
proof -
  obtain ds l where ds: "resolve (tDomainSets t) ErrNoDomainSet (rcDomain cfg) = Inr ds"
    and l: "clientList pa pp (rcClientIP cfg) = Inr l"
    and ru: "ruCfg ru = cfg" "ruDomainSet ru = ds" "ruClientIp ru = l"
    using assms(1) by (auto simp: loadRule_def res_simps split: if_splits)
  let ?d = "\<exists>b \<in> set files. fileMatches compileRe reMatch (fst (scan b)) (qName (cQuestion q))"
  have d: "(case ds of None \<Rightarrow> Inr True | Some ms \<Rightarrow> domainSetMatch reMatch ms (qName (cQuestion q))) = Inr (rcDomain cfg = [] \<or> ?d)"
    using ds assms(2) domain_sets_match [of compileRe scan files] by (auto simp: resolve_def split: if_splits option.splits)
  have p: "(rcPath cfg = [] \<or> Path q = rcPath cfg \<or> last (rcPath cfg) = 47 \<and> (\<exists>r. Path q = rcPath cfg @ r)) \<longleftrightarrow>
    \<not> (length (rcPath cfg) > 0 \<and> (if last (rcPath cfg) = 47
       then length (Path q) < length (rcPath cfg) \<or> take (length (rcPath cfg)) (Path q) \<noteq> rcPath cfg else rcPath cfg \<noteq> Path q))"
    by (auto simp: not_less dest: sym) (metis append_take_drop_id)
  have c: "(case l of None \<Rightarrow> True
      | Some l \<Rightarrow> addrIsValid (apAddr (RemoteAddr q)) \<and> lookupAddr l (unmap (apAddr (RemoteAddr q))) \<noteq> None) \<longleftrightarrow>
    (rcClientIP cfg = [] \<or> addrIsValid (apAddr (RemoteAddr q)) \<and>
      (\<exists>s \<in> set (rcClientIP cfg). inClientRange pa pp s (unmap (apAddr (RemoteAddr q)))))"
    using clientList_spec [OF assms(3,4) l, of "unmap (apAddr (RemoteAddr q))"] wf_unmap [OF assms(5)] by (cases l) auto
  have "ruleMatch1 reMatch ru q = Inr (ruleConds pa pp cfg ?d q)"
    unfolding ruleMatch1_def ru d ruleConds_def Let_def thenE.simps c p by (simp only: guards) auto
  then show ?thesis by (simp add: ruleMatch_def ru)
qed

theorem rule_matches_witness:
  "\<exists>ru. loadRule (\<lambda>s. if s = [49] then Some (Addr4 [10, 0, 0, 1]) else None) (\<lambda>_. None)
      \<lparr>tDomainSets = Map.empty, tIpSets = Map.empty, tHosts = Map.empty, tUpstreams = {''u''}, tBalancers = {}\<rparr>
      \<lparr>rcReverse = True, rcDomain = [], rcServer = [], rcServerName = [], rcPath = [47, 97, 47], rcClientIP = [[49]],
       rcReject = 0, rcHosts = [], rcForward = ''u'', rcRespIP = [], rcRespIPForward = []\<rparr> = Inr (ru :: unit rule) \<and>
    ruleMatch (\<lambda>_ _. False) ru (zeroCtx\<lparr>Path := [47, 97, 47, 98], RemoteAddr := \<lparr>apAddr = Addr4 [10, 0, 0, 1], apPort = 5\<rparr>\<rparr>) = Inr False"
proof -
  let ?pa = "\<lambda>s :: bytes. if s = [49] then Some (Addr4 [10, 0, 0, 1]) else None"
  let ?t = "\<lparr>tDomainSets = Map.empty, tIpSets = Map.empty, tHosts = Map.empty, tUpstreams = {''u''}, tBalancers = {}\<rparr> :: unit tables"
  let ?cfg = "\<lparr>rcReverse = True, rcDomain = [], rcServer = [], rcServerName = [], rcPath = [47, 97, 47], rcClientIP = [[49]],
       rcReject = 0, rcHosts = [], rcForward = ''u'', rcRespIP = [], rcRespIPForward = []\<rparr>"
  let ?q = "zeroCtx\<lparr>Path := [47, 97, 47, 98], RemoteAddr := \<lparr>apAddr = Addr4 [10, 0, 0, 1], apPort = 5\<rparr>\<rparr>"
  let ?a = "addr2Ipv6 (Addr4 [10, 0, 0, 1])"
  have "clientList ?pa (\<lambda>_. None) [[49]] = Inr (Some [\<lparr>irV = (), irStart = ?a, irEnd = ?a\<rparr>])"
    by (simp add: clientList_def clientRange_def cut_def listAdd_def builderAdd_def addrIsValid_def ipCmp_def builderBuild_def)
  then have "\<exists>ru. loadRule ?pa (\<lambda>_. None) ?t ?cfg = Inr ru"
    by (simp add: loadRule_def resolve_def lookTarget_def)
  then obtain ru where ru: "loadRule ?pa (\<lambda>_. None) ?t ?cfg = Inr ru" by blast
  have "addr_parser ?pa" "prefix_parser (\<lambda>_. None)" "wf_addr (apAddr (RemoteAddr ?q))"
    by (simp_all add: addr_parser_def prefix_parser_def addrIsValid_def)
  from rule_matches [OF ru _ this, of "\<lambda>_. None" "\<lambda>b. ([], None)" "[]" "\<lambda>_ _. False"]
  have "ruleMatch (\<lambda>_ _. False) ru ?q = Inr False"
    by (simp add: ruleConds_def zeroCtx_def addrIsValid_def inClientRange_def)
  with ru show ?thesis by (intro exI conjI)
qed

end
