(* ===== verification/Handle.thy ===== *)
theory Handle
  imports Rule Cache
begin

text \<open>
  The handling of a query (\<^verbatim>\<open>app/router/router_handle.go\<close>): the choice of the client subnet, the chain of
  middlewares (\<^verbatim>\<open>router_middleware.go\<close>), the rules with the hosts, the cache and the upstreams, the fallback
  for responses with unwanted addresses, and prefetching.
\<close>

section \<open>The state of the router\<close>

text \<open>The parameters: stores and compression of the cache, the threshold of prefetching, the text of prefixes,
  regular expressions, and the environment of the upstreams.\<close>

record ('w, 'm, 'r, 're) deps =
  dM :: "('m, cacheEntry) Backend"
  dR :: "('r, bytes) Backend"
  dJunk :: "nat \<Rightarrow> bytes"
  dEnc :: "bytes \<Rightarrow> bytes option"
  dDec :: "bytes \<Rightarrow> bytes option"
  dPart :: "int \<Rightarrow> int"
  dText :: "Prefix \<Rightarrow> bytes"
  dRe :: "'re \<Rightarrow> bytes \<Rightarrow> bool"
  dEnv :: "'w Env"

record 're prefetchJob =
  pjKey :: bytes
  pjQ :: QueryCtx
  pjU :: target
  pjRule :: "'re rule option"

text \<open>What a middleware keeps between queries: the counter of \<^verbatim>\<open>limit\<close>, and what \<^verbatim>\<open>rvlookup\<close> put into its cache
  and when, the latest first.\<close>

record mwState =
  mwConcurrent :: u32
  mwNames :: "(Addr \<times> bytes \<times> int) list"

record ('w, 'm, 'r, 're) router =
  rsFwd :: "'w fwd"
  rsCache :: "('m, 'r) CacheCtl"
  rsPrefetching :: "bytes set"
  rsJobs :: "'re prefetchJob list"
  rsMw :: "nat \<Rightarrow> mwState"

type_synonym ('w, 'm, 'r, 're) handled = "(unit, QueryCtx \<times> ('w, 'm, 'r, 're) router) res"

definition rNow :: "('w, 'm, 'r, 're) deps \<Rightarrow> ('w, 'm, 'r, 're) router \<Rightarrow> int" where
  "rNow d s = eNow (dEnv d) (fWorld (rsFwd s))"

definition rCacheGet :: "('w, 'm, 'r, 're) deps \<Rightarrow> bytes \<Rightarrow> ('w, 'm, 'r, 're) router \<Rightarrow>
    (Msg \<times> Times) option \<times> ('w, 'm, 'r, 're) router" where
  "rCacheGet d key s = (case cacheGet (dM d) (dR d) (dDec d) (rsCache s) (rNow d s) key of (r, c) \<Rightarrow> (r, s\<lparr>rsCache := c\<rparr>))"

definition rCacheStore :: "('w, 'm, 'r, 're) deps \<Rightarrow> bytes \<Rightarrow> Msg option \<Rightarrow> ('w, 'm, 'r, 're) router \<Rightarrow> ('w, 'm, 'r, 're) router" where
  "rCacheStore d key resp s = s\<lparr>rsCache := cacheStore (dM d) (dR d) (dJunk d) (dEnc d) (rsCache s) (rNow d s) key resp\<rparr>"

definition rForward :: "('w, 'm, 'r, 're) deps \<Rightarrow> target \<Rightarrow> QueryCtx \<Rightarrow> ('w, 'm, 'r, 're) router \<Rightarrow>
    (exchErr + QueryCtx) \<times> ('w, 'm, 'r, 're) router" where
  "rForward d u q s = (case forward (dEnv d) u q (rsFwd s) of (r, f) \<Rightarrow> (r, s\<lparr>rsFwd := f\<rparr>))"

section \<open>Prefetching\<close>

text \<open>\<^verbatim>\<open>AsyncSingleFlightPrefetch\<close> starts a goroutine, which is a job of the state until it runs.\<close>

definition asyncPrefetch :: "bytes \<Rightarrow> QueryCtx \<Rightarrow> target \<Rightarrow> 're rule option \<Rightarrow> ('w, 'm, 'r, 're) router \<Rightarrow> ('w, 'm, 'r, 're) router" where
  "asyncPrefetch key q u ru s =
    (if length key = 0 then s
     else case prefetchReserve (rsPrefetching s) key of
       (p, None) \<Rightarrow> s
     | (p, Some sk) \<Rightarrow> s\<lparr>rsPrefetching := p, rsJobs := rsJobs s @ [\<lparr>pjKey = sk, pjQ = q, pjU = u, pjRule = ru\<rparr>]\<rparr>)"

definition doPrefetch :: "('w, 'm, 'r, 're) deps \<Rightarrow> bytes \<Rightarrow> QueryCtx \<Rightarrow> target \<Rightarrow> 're rule option \<Rightarrow>
    ('w, 'm, 'r, 're) router \<Rightarrow> ('w, 'm, 'r, 're) router" where
  "doPrefetch d key q u ru s =
    (if length key = 0 then s
     else case rForward d u (q\<lparr>Prefetch := True\<rparr>) s of
       (Inl _, s) \<Rightarrow> s
     | (Inr q, s) \<Rightarrow>
       (case ru of Some r \<Rightarrow>
          (case ruRespIpSet r of Some g \<Rightarrow>
             if matchMsg g (cResp q) then
               (let s = rCacheStore d key (cResp q) s in
                case ruRespIpUpstream r of None \<Rightarrow> s
                | Some fb \<Rightarrow> (case rForward d fb q s of
                    (Inl _, s) \<Rightarrow> s
                  | (Inr q, s) \<Rightarrow> rCacheStore d (appendCacheKey (dText d) [] q (ascii (rcRespIPForward (ruCfg r)))) (cResp q) s))
             else rCacheStore d key (cResp q) s
           | None \<Rightarrow> rCacheStore d key (cResp q) s)
        | None \<Rightarrow> rCacheStore d key (cResp q) s))"

text \<open>A job runs and gives its key back.\<close>

definition runJob :: "('w, 'm, 'r, 're) deps \<Rightarrow> nat \<Rightarrow> ('w, 'm, 'r, 're) router \<Rightarrow> ('w, 'm, 'r, 're) router option" where
  "runJob d i s =
    (if i < length (rsJobs s) then
       (let j = rsJobs s ! i; s = doPrefetch d (pjKey j) (pjQ j) (pjU j) (pjRule j) s in
        Some (s\<lparr>rsPrefetching := prefetchDone (rsPrefetching s) (pjKey j), rsJobs := take i (rsJobs s) @ drop (Suc i) (rsJobs s)\<rparr>))
     else None)"

section \<open>The rules\<close>

abbreviation RCodeServerFailure :: u16 where "RCodeServerFailure \<equiv> 2"
abbreviation RCodeRefused :: u16 where "RCodeRefused \<equiv> 5"

definition handleRespIpFallback :: "('w, 'm, 'r, 're) deps \<Rightarrow> 're rule \<Rightarrow> target \<Rightarrow> QueryCtx \<Rightarrow> ('w, 'm, 'r, 're) router \<Rightarrow>
    ('w, 'm, 'r, 're) handled" where
  "handleRespIpFallback d ru fb q s =
    (let key = appendCacheKey (dText d) [] q (ascii (rcRespIPForward (ruCfg ru))) in
     case rCacheGet d key s of (hit, s) \<Rightarrow>
     (case hit of
        Some (resp, t) \<Rightarrow>
          Inr (SetRespFrom q (Some resp) ''cache'', if needPrefetch (dPart d) (rNow d s) t then asyncPrefetch key q fb None s else s)
      | None \<Rightarrow>
          if eDone (dEnv d) (fWorld (rsFwd s)) then Inr (SetEmptyRespMQ q RCodeServerFailure, s)
          else (case rForward d fb q s of
            (Inl ErrDivide, s) \<Rightarrow> Inl Panic
          | (Inl _, s) \<Rightarrow> Inr (SetEmptyRespMQ q RCodeServerFailure, s)
          | (Inr q, s) \<Rightarrow> Inr (q, rCacheStore d key (cResp q) s))))"

definition unwanted :: "'re rule \<Rightarrow> Msg option \<Rightarrow> bool" where
  "unwanted ru resp \<longleftrightarrow> (case ruRespIpSet ru of Some g \<Rightarrow> matchMsg g resp | None \<Rightarrow> False)"

text \<open>The part of the loop for a rule that matches; \<open>rest\<close> goes on with the next rule.\<close>

definition applyRule :: "('w, 'm, 'r, 're) deps \<Rightarrow> 're rule \<Rightarrow> (QueryCtx \<Rightarrow> ('w, 'm, 'r, 're) router \<Rightarrow> ('w, 'm, 'r, 're) handled) \<Rightarrow>
    QueryCtx \<Rightarrow> ('w, 'm, 'r, 're) router \<Rightarrow> ('w, 'm, 'r, 're) handled" where
  "applyRule d ru rest q s =
    (if rcReject (ruCfg ru) > 0 then Inr (SetEmptyRespMQ q (rcReject (ruCfg ru)), s)
     else case ruHosts ru of
       Some h \<Rightarrow> (case hostsResponse h q of Some resp \<Rightarrow> Inr (SetRespFrom q (Some resp) ''hosts'', s) | None \<Rightarrow> rest q s)
     | None \<Rightarrow>
     (case ruUpstream ru of None \<Rightarrow> Inr (SetEmptyRespMQ q RCodeRefused, s) | Some u \<Rightarrow>
      let key = appendCacheKey (dText d) [] q (ascii (rcForward (ruCfg ru))) in
      case rCacheGet d key s of (hit, s) \<Rightarrow>
      (case hit of
         Some (resp, t) \<Rightarrow>
           if unwanted ru (Some resp) then
             (case ruRespIpUpstream ru of Some fb \<Rightarrow> handleRespIpFallback d ru fb q s | None \<Rightarrow> rest q s)
           else Inr (SetRespFrom q (Some resp) ''cache'',
                 if needPrefetch (dPart d) (rNow d s) t then asyncPrefetch key q u (Some ru) s else s)
       | None \<Rightarrow>
           if eDone (dEnv d) (fWorld (rsFwd s)) then Inr (SetEmptyRespMQ q RCodeServerFailure, s)
           else (case rForward d u q s of
             (Inl ErrDivide, s) \<Rightarrow> Inl Panic
           | (Inl _, s) \<Rightarrow> Inr (SetEmptyRespMQ q RCodeServerFailure, s)
           | (Inr q, s) \<Rightarrow>
             let s = rCacheStore d key (cResp q) s in
             if unwanted ru (cResp q) then
               (let q = SetResp q None in
                case ruRespIpUpstream ru of Some fb \<Rightarrow> handleRespIpFallback d ru fb q s | None \<Rightarrow> rest q s)
             else Inr (q, s)))))"

fun builtInHandler :: "('w, 'm, 'r, 're) deps \<Rightarrow> 're rule list \<Rightarrow> QueryCtx \<Rightarrow> ('w, 'm, 'r, 're) router \<Rightarrow> ('w, 'm, 'r, 're) handled" where
  "builtInHandler d [] q s = Inr (SetEmptyRespMQ q RCodeRefused, s)"
| "builtInHandler d (ru # rules) q s = (case ruleMatch (dRe d) ru q of
     Inl _ \<Rightarrow> Inl Panic
   | Inr ok \<Rightarrow> if \<not> ok then builtInHandler d rules q s else applyRule d ru (builtInHandler d rules) q s)"

section \<open>The entry\<close>

record ecsConfig =
  ecEnabled :: bool
  ecForward :: bool
  ecZone :: "IpMarker list option"
  ecZoneOverwrite :: "(bytes \<rightharpoonup> Prefix) option list option"

text \<open>The client's own network, or the subnet it sent.\<close>

definition clientSubnet :: "bool \<Rightarrow> QueryCtx \<Rightarrow> QueryCtx" where
  "clientSubnet fwd q =
    (let q = (if addrIsValid (apAddr (RemoteAddr q)) then
                (let a = unmap (apAddr (RemoteAddr q)) in q\<lparr>ECS2Upstream := prefixFrom a (if addrIs4 a then 24 else 48)\<rparr>)
              else q) in
     if fwd \<and> prefixIsValid (ClientECS q) then q\<lparr>ECS2Upstream := ClientECS q\<rparr> else q)"

definition setECS :: "ecsConfig \<Rightarrow> QueryCtx \<Rightarrow> (unit, QueryCtx) res" where
  "setECS c q =
    (if \<not> ecEnabled c then Inr q
     else let q = clientSubnet (ecForward c) q in
     thenE (case ecZone c of None \<Rightarrow> Inr q | Some z \<Rightarrow>
        (case zoneMark z (pAddr (ECS2Upstream q)) of
           Inl _ \<Rightarrow> Inl Panic
         | Inr mk \<Rightarrow>
             let q = q\<lparr>ECSZone := (case mk of Some m \<Rightarrow> m | None \<Rightarrow> [])\<rparr> in
             Inr (if length (ECSZone q) = 0 then q\<lparr>ECS2Upstream := noPrefix\<rparr> else q))) (\<lambda>q.
       Inr (case ecZoneOverwrite c of None \<Rightarrow> q | Some g \<Rightarrow>
         (case overwriteGet g (ECSZone q) of Some p \<Rightarrow> q\<lparr>ECS2Upstream := p\<rparr> | None \<Rightarrow> q))))"

type_synonym ('w, 'm, 'r, 're) handler = "QueryCtx \<Rightarrow> ('w, 'm, 'r, 're) router \<Rightarrow> ('w, 'm, 'r, 're) handled"

text \<open>
  A middleware is given the next handler when it is made. \<^verbatim>\<open>initMiddlewares\<close> connects each to the
  one after it and the last to the rules.
\<close>

primrec chainFrom :: "(('w, 'm, 'r, 're) handler \<Rightarrow> ('w, 'm, 'r, 're) handler) list \<Rightarrow> ('w, 'm, 'r, 're) handler \<Rightarrow> ('w, 'm, 'r, 're) handler" where
  "chainFrom [] h = h"
| "chainFrom (m # ms) h = m (chainFrom ms h)"

definition serverEntryHandler :: "('w, 'm, 'r, 're) deps \<Rightarrow> ecsConfig \<Rightarrow> (('w, 'm, 'r, 're) handler \<Rightarrow> ('w, 'm, 'r, 're) handler) list \<Rightarrow>
    're rule list \<Rightarrow> ('w, 'm, 'r, 're) handler" where
  "serverEntryHandler d c ms rules q s =
    thenE (setECS c q) (\<lambda>q.
    thenE (chainFrom ms (builtInHandler d rules) q s) (\<lambda>(q, s).
      Inr (if cResp q = None then SetEmptyRespMQ q RCodeRefused else q, s)))"

section \<open>Load balancers that were loaded can choose\<close>

text \<open>Weights of which some add up to 0 in 64 bits would make the choice divide by zero.\<close>

definition lbs_ok :: "'w fwd \<Rightarrow> bool" where
  "lbs_ok s \<longleftrightarrow> (\<forall>l lb. fLbs s l = Some lb \<longrightarrow> weights_ok (lbE lb) \<and>
     (\<exists>on. lbSamplerOf lb = \<lparr>wa = sums 0 on, bs = on\<rparr> \<and> weights_ok on))"

lemma simple_safe:
  assumes "weights_ok on"
  shows "\<exists>b. simple \<lparr>wa = sums 0 on, bs = on\<rparr> n = Inr b"
proof (cases "length on > 1")
  case True
  then have "Suc (length on - 1) = length on" by simp
  then have "sums 0 on ! (length on - 1) = before on (length on)" using sums_before [OF assms, of "length on - 1"] True by simp
  moreover have "before on (length on) > 0"
    using before_mono [OF weights_ok_pos [OF assms], of 0 "length on"] True by (cases on) (simp_all add: before_def)
  ultimately show ?thesis using True by (simp add: simple_def Let_def split: prod.split)
qed (auto simp: simple_def not_less le_Suc_eq)

lemma lbPick_safe:
  assumes "lbSamplerOf lb = \<lparr>wa = sums 0 on, bs = on\<rparr>" "weights_ok on"
  shows "fst (lbPick env lb q w) \<noteq> PickPanic"
proof -
  have "\<exists>r w'. simpleFn env lb q w = (Inr r, w')"
  proof (cases "lbMethodOf lb")
    case MRandom
    then show ?thesis using simple_safe [OF assms(2)] by (simp add: simpleFn_def assms(1) split: prod.split)
  next
    case MFallThrough
    then show ?thesis by (simp add: simpleFn_def assms(1) split: prod.split)
  next
    case MQnameHash
    then show ?thesis using simple_safe [OF assms(2)] by (simp add: simpleFn_def assms(1))
  next
    case MClientIpHash
    then show ?thesis using simple_safe [OF assms(2)] by (auto simp: simpleFn_def assms(1) Let_def split: prod.split)
  qed
  then obtain r w' where r: "simpleFn env lb q w = (Inr r, w')" by blast
  obtain b z where "fastPath (lbSamplerOf lb) = (b, z)" by fastforce
  then show ?thesis by (cases b; cases r) (simp_all add: lbPick_def r)
qed

text \<open>An exchange changes the response of the query and nothing else of it.\<close>

definition answered :: "QueryCtx \<Rightarrow> (exchErr + QueryCtx) \<Rightarrow> bool" where
  "answered q r \<longleftrightarrow> (case r of Inl e \<Rightarrow> e \<noteq> ErrDivide | Inr q' \<Rightarrow> \<exists>m from. q' = SetRespFrom q (Some m) from)"

lemma lbs_ok_world [simp]: "lbs_ok (s\<lparr>fWorld := w\<rparr>) = lbs_ok s" "lbs_ok (s\<lparr>fUps := u\<rparr>) = lbs_ok s"
  by (simp_all add: lbs_ok_def)

lemma lbs_ok_rebuild: "lbs_ok s \<Longrightarrow> lbs_ok (rebuildLbs t s)"
proof -
  assume s: "lbs_ok s"
  have "weights_ok (filter P (lbE lb))" if "fLbs s l = Some lb" for P l lb
    using s that unfolding lbs_ok_def by (intro weights_ok_filter) blast
  then show ?thesis using s unfolding lbs_ok_def rebuildLbs_def buildSampler_eq Let_def by (auto split: if_splits)
qed

lemma answered_simps [simp]: "answered q (Inl e) = (e \<noteq> ErrDivide)" "answered q (Inr (SetRespFrom q (Some m) from))"
  by (auto simp: answered_def)

lemma exchangeUpstream_ok:
  assumes "lbs_ok s" "exchangeUpstream env t m q s = (r, s')"
  shows "answered q r \<and> lbs_ok s'"
proof (cases "fUps s t")
  case (Some u)
  obtain x w where "eExchange env t m (fWorld s) = (x, w)" by fastforce
  then show ?thesis using assms Some
    by (cases x) (auto simp: exchangeUpstream_def Let_def lbs_ok_rebuild split: if_splits prod.splits)
qed (use assms in \<open>auto simp: exchangeUpstream_def\<close>)

lemma exchange_ok:
  assumes "lbs_ok s" "exchange env u m q s = (r, s')"
  shows "answered q r \<and> lbs_ok s'"
proof (cases u)
  case (ToUpstream t)
  then show ?thesis using exchangeUpstream_ok [OF assms(1)] assms(2) by (simp add: exchange_def)
next
  case (ToBalancer l)
  show ?thesis
  proof (cases "fLbs s l")
    case (Some lb)
    obtain p w where p: "lbPick (lbEnv.truncate env) lb q (fWorld s) = (p, w)" by fastforce
    moreover have "p \<noteq> PickPanic"
      using assms(1) Some lbPick_safe [of lb _ "lbEnv.truncate env" q "fWorld s"] p unfolding lbs_ok_def by force
    ultimately show ?thesis using assms ToBalancer Some exchangeUpstream_ok [of "s\<lparr>fWorld := w\<rparr>" env]
      by (cases p) (auto simp: exchange_def exchangeBalancer_def Let_def answered_def)
  qed (use assms ToBalancer in \<open>auto simp: exchange_def exchangeBalancer_def answered_def\<close>)
qed

lemma forward_ok:
  assumes "lbs_ok s" "forward env u q s = (r, s')"
  shows "answered q r \<and> lbs_ok s'"
proof -
  obtain b x where x: "exchange env u (makeQueryMsg q b) q s = (x, s')"
    "r = (case x of Inl e \<Rightarrow> Inl e | Inr q \<Rightarrow> Inr (q\<lparr>cResp := map_option removeEDNS0 (cResp q)\<rparr>))"
    using assms(2) by (auto simp: forward_def Let_def split: prod.splits)
  from exchange_ok [OF assms(1) x(1)] have a: "answered q x" "lbs_ok s'" by auto
  show ?thesis
  proof (cases x)
    case (Inr q1)
    then obtain m t where "q1 = SetRespFrom q (Some m) t" using a by (auto simp: answered_def)
    then have "r = Inr (SetRespFrom q (Some (removeEDNS0 m)) t)" using x(2) Inr by (simp add: SetRespFrom_def)
    then show ?thesis using a by simp
  qed (use a x(2) in simp)
qed

lemma rForward_ok:
  assumes "lbs_ok (rsFwd s)"
  shows "\<exists>r s'. rForward d u q s = (r, s') \<and> answered q r \<and> lbs_ok (rsFwd s')"
proof -
  obtain r f where f: "forward (dEnv d) u q (rsFwd s) = (r, f)" by fastforce
  from forward_ok [OF assms f] f show ?thesis by (simp add: rForward_def)
qed

lemma rsFwd_simps [simp]: "rsFwd (rCacheStore d k m s) = rsFwd s" "rsFwd (asyncPrefetch k q u ru s) = rsFwd s"
    "rCacheGet d k s = (hit, s') \<Longrightarrow> rsFwd s' = rsFwd s"
  by (auto simp: rCacheStore_def asyncPrefetch_def prefetchReserve_def rCacheGet_def split: prod.splits option.splits if_splits)

section \<open>Which rule decides\<close>

text \<open>
  A query is served by an upstream with the response \<open>m\<close> if the cache has \<open>m\<close> under the key of the query and
  the upstream, or if it has nothing, the query is not over, and the upstream is asked and returns \<open>m\<close>,
  which then is stored under the key.
\<close>

definition served :: "('w, 'm, 'r, 're) deps \<Rightarrow> target \<Rightarrow> bytes \<Rightarrow> QueryCtx \<Rightarrow> ('w, 'm, 'r, 're) router \<Rightarrow>
    Msg \<Rightarrow> string \<Rightarrow> Times option \<Rightarrow> ('w, 'm, 'r, 're) router \<Rightarrow> bool" where
  "served d u key q s m t x s' \<longleftrightarrow>
    (\<exists>ts. rCacheGet d key s = (Some (m, ts), s') \<and> t = ''cache'' \<and> x = Some ts) \<or>
    (\<exists>s1 s2. rCacheGet d key s = (None, s1) \<and> \<not> eDone (dEnv d) (fWorld (rsFwd s1)) \<and>
      rForward d u q s1 = (Inr (SetRespFrom q (Some m) t), s2) \<and> returned (dEnv d) u q (rsFwd s1) m t \<and>
      x = None \<and> s' = rCacheStore d key (Some m) s2)"

text \<open>It is not served if the cache has nothing and the query is over or the exchange fails.\<close>

definition unserved :: "('w, 'm, 'r, 're) deps \<Rightarrow> target \<Rightarrow> bytes \<Rightarrow> QueryCtx \<Rightarrow> ('w, 'm, 'r, 're) router \<Rightarrow>
    ('w, 'm, 'r, 're) router \<Rightarrow> bool" where
  "unserved d u key q s s' \<longleftrightarrow> (\<exists>s1. rCacheGet d key s = (None, s1) \<and>
    (if eDone (dEnv d) (fWorld (rsFwd s1)) then s' = s1 else \<exists>e. rForward d u q s1 = (Inl e, s')))"

text \<open>The query gets the response, and if it is an old one from the cache, a job that fetches it again.\<close>

definition gets :: "('w, 'm, 'r, 're) deps \<Rightarrow> target \<Rightarrow> 're rule option \<Rightarrow> bytes \<Rightarrow> QueryCtx \<Rightarrow> Msg \<Rightarrow> string \<Rightarrow> Times option \<Rightarrow>
    ('w, 'm, 'r, 're) router \<Rightarrow> QueryCtx \<Rightarrow> ('w, 'm, 'r, 're) router \<Rightarrow> bool" where
  "gets d u ru key q m t x s q' s' \<longleftrightarrow> q' = SetRespFrom q (Some m) t \<and>
    s' = (case x of Some ts \<Rightarrow> if needPrefetch (dPart d) (rNow d s) ts then asyncPrefetch key q u ru s else s | None \<Rightarrow> s)"

definition keyFor :: "('w, 'm, 'r, 're) deps \<Rightarrow> string \<Rightarrow> QueryCtx \<Rightarrow> bytes" where
  "keyFor d tag q = appendCacheKey (dText d) [] q (ascii tag)"

text \<open>
  A rule passes a query on if it does not match, has hosts without an answer, or if its upstream serves an unwanted
  response and it has no other upstream for this case.
\<close>

definition passes :: "('w, 'm, 'r, 're) deps \<Rightarrow> 're rule \<Rightarrow> QueryCtx \<Rightarrow> ('w, 'm, 'r, 're) router \<Rightarrow> ('w, 'm, 'r, 're) router \<Rightarrow> bool" where
  "passes d ru q s s' \<longleftrightarrow> ruleMatch (dRe d) ru q = Inr False \<and> s' = s \<or>
     ruleMatch (dRe d) ru q = Inr True \<and> rcReject (ruCfg ru) = 0 \<and> (case ruHosts ru of
       Some h \<Rightarrow> hostsResponse h q = None \<and> s' = s
     | None \<Rightarrow> ruRespIpUpstream ru = None \<and> (\<exists>u m t x. ruUpstream ru = Some u \<and>
         served d u (keyFor d (rcForward (ruCfg ru)) q) q s m t x s' \<and> unwanted ru (Some m)))"

definition fallsBack :: "('w, 'm, 'r, 're) deps \<Rightarrow> 're rule \<Rightarrow> target \<Rightarrow> QueryCtx \<Rightarrow> ('w, 'm, 'r, 're) router \<Rightarrow>
    QueryCtx \<Rightarrow> ('w, 'm, 'r, 're) router \<Rightarrow> bool" where
  "fallsBack d ru fb q s q' s' \<longleftrightarrow> (let key = keyFor d (rcRespIPForward (ruCfg ru)) q in
     unserved d fb key q s s' \<and> q' = SetEmptyRespMQ q RCodeServerFailure \<or>
     (\<exists>m t x s1. served d fb key q s m t x s1 \<and> gets d fb None key q m t x s1 q' s'))"

definition decides :: "('w, 'm, 'r, 're) deps \<Rightarrow> 're rule \<Rightarrow> QueryCtx \<Rightarrow> ('w, 'm, 'r, 're) router \<Rightarrow>
    QueryCtx \<Rightarrow> ('w, 'm, 'r, 're) router \<Rightarrow> bool" where
  "decides d ru q s q' s' \<longleftrightarrow> ruleMatch (dRe d) ru q = Inr True \<and>
     (if rcReject (ruCfg ru) > 0 then q' = SetEmptyRespMQ q (rcReject (ruCfg ru)) \<and> s' = s
      else case ruHosts ru of
        Some h \<Rightarrow> \<exists>m. hostsResponse h q = Some m \<and> q' = SetRespFrom q (Some m) ''hosts'' \<and> s' = s
      | None \<Rightarrow> (case ruUpstream ru of
          None \<Rightarrow> q' = SetEmptyRespMQ q RCodeRefused \<and> s' = s
        | Some u \<Rightarrow> (let key = keyFor d (rcForward (ruCfg ru)) q in
            unserved d u key q s s' \<and> q' = SetEmptyRespMQ q RCodeServerFailure \<or>
            (\<exists>m t x s1. served d u key q s m t x s1 \<and>
              (if unwanted ru (Some m) then \<exists>fb. ruRespIpUpstream ru = Some fb \<and> fallsBack d ru fb q s1 q' s'
               else gets d u (Some ru) key q m t x s1 q' s')))))"

text \<open>The rules at the front of a list pass the query on one after the other.\<close>

inductive passed :: "('w, 'm, 'r, 're) deps \<Rightarrow> QueryCtx \<Rightarrow> 're rule list \<Rightarrow> ('w, 'm, 'r, 're) router \<Rightarrow> ('w, 'm, 'r, 're) router \<Rightarrow> bool"
  for d q where
  none: "passed d q [] s s"
| one: "passes d ru q s s1 \<Longrightarrow> passed d q rules s1 s' \<Longrightarrow> passed d q (ru # rules) s s'"

lemma source_cases:
  assumes "lbs_ok (rsFwd s)"
  obtains (hit) m ts s1 where "rCacheGet d key s = (Some (m, ts), s1)" "served d u key q s m ''cache'' (Some ts) s1" "lbs_ok (rsFwd s1)"
  | (over) s1 where "rCacheGet d key s = (None, s1)" "eDone (dEnv d) (fWorld (rsFwd s1))" "unserved d u key q s s1" "lbs_ok (rsFwd s1)"
  | (failed) s1 e s2 where "rCacheGet d key s = (None, s1)" "\<not> eDone (dEnv d) (fWorld (rsFwd s1))" "rForward d u q s1 = (Inl e, s2)"
      "e \<noteq> ErrDivide" "unserved d u key q s s2" "lbs_ok (rsFwd s2)"
  | (got) s1 m t s2 where "rCacheGet d key s = (None, s1)" "\<not> eDone (dEnv d) (fWorld (rsFwd s1))"
      "rForward d u q s1 = (Inr (SetRespFrom q (Some m) t), s2)" "served d u key q s m t None (rCacheStore d key (Some m) s2)"
      "lbs_ok (rsFwd (rCacheStore d key (Some m) s2))"
proof -
  obtain r s1 where g: "rCacheGet d key s = (r, s1)" by fastforce
  with assms(1) have l: "lbs_ok (rsFwd s1)" by simp
  obtain x s2 where x: "rForward d u q s1 = (x, s2)" "answered q x" "lbs_ok (rsFwd s2)" using rForward_ok [OF l] by blast
  show ?thesis
  proof (cases r)
    case (Some a)
    then show ?thesis using g l by (cases a) (auto simp: served_def intro!: hit)
  next
    case None
    show ?thesis
    proof (cases "eDone (dEnv d) (fWorld (rsFwd s1))")
      case True
      then show ?thesis using g None l by (intro over [of s1]) (auto simp: unserved_def)
    next
      case False
      show ?thesis
      proof (cases x)
        case (Inl e)
        then show ?thesis using g None l x False by (intro failed [of s1 e s2]) (simp_all add: unserved_def)
      next
        case (Inr q1)
        obtain f where f: "forward (dEnv d) u q (rsFwd s1) = (Inr q1, f)"
          using x(1) Inr by (auto simp: rForward_def split: prod.splits)
        from forward_from [OF f] obtain m t where "q1 = SetRespFrom q (Some m) t" "returned (dEnv d) u q (rsFwd s1) m t" by blast
        then show ?thesis using g None l x False Inr by (intro got [of s1 m t s2]) (simp_all add: served_def)
      qed
    qed
  qed
qed

lemma SetRespFrom_parts [simp]: "cResp (SetRespFrom q r t) = r" "respFrom (SetRespFrom q r t) = t"
  by (simp_all add: SetRespFrom_def)

lemma SetResp_back: "cResp q = None \<Longrightarrow> respFrom q = [] \<Longrightarrow> SetResp (SetRespFrom q a t) None = q"
  by (cases q) (simp add: SetResp_def SetRespFrom_def)

lemma gets_ok: "gets d u ru key q m t x s q' s' \<Longrightarrow> rsFwd s' = rsFwd s"
  by (simp add: gets_def split: option.splits)

lemma fallback_decided:
  assumes "lbs_ok (rsFwd s)"
  shows "\<exists>q' s'. handleRespIpFallback d ru fb q s = Inr (q', s') \<and> lbs_ok (rsFwd s') \<and> fallsBack d ru fb q s q' s'"
proof -
  let ?k = "keyFor d (rcRespIPForward (ruCfg ru)) q"
  note hf = handleRespIpFallback_def [of d ru fb q s, folded keyFor_def]
  show ?thesis using assms
  proof (cases rule: source_cases [where d = d and key = ?k and u = fb and q = q])
    case (hit m ts s1)
    let ?s = "if needPrefetch (dPart d) (rNow d s1) ts then asyncPrefetch ?k q fb None s1 else s1"
    have "gets d fb None ?k q m ''cache'' (Some ts) s1 (SetRespFrom q (Some m) ''cache'') ?s" by (simp add: gets_def)
    then have "fallsBack d ru fb q s (SetRespFrom q (Some m) ''cache'') ?s" unfolding fallsBack_def Let_def using hit(2) by blast
    then show ?thesis using hit by (intro exI [of _ "SetRespFrom q (Some m) ''cache''"] exI [of _ ?s]) (simp add: hf Let_def)
  next
    case (over s1)
    then show ?thesis by (auto simp: hf fallsBack_def Let_def)
  next
    case (failed s1 e s2)
    then show ?thesis by (cases e) (auto simp: hf fallsBack_def Let_def)
  next
    case (got s1 m t s2)
    have "gets d fb None ?k q m t None (rCacheStore d ?k (Some m) s2) (SetRespFrom q (Some m) t) (rCacheStore d ?k (Some m) s2)"
      by (simp add: gets_def)
    then have "fallsBack d ru fb q s (SetRespFrom q (Some m) t) (rCacheStore d ?k (Some m) s2)"
      unfolding fallsBack_def Let_def using got(4) by blast
    then show ?thesis using got by (simp add: hf Let_def)
  qed
qed

definition stepped :: "('w, 'm, 'r, 're) deps \<Rightarrow> 're rule \<Rightarrow> ('w, 'm, 'r, 're) handler \<Rightarrow> QueryCtx \<Rightarrow> ('w, 'm, 'r, 're) router \<Rightarrow>
    ('w, 'm, 'r, 're) handled \<Rightarrow> bool" where
  "stepped d ru rest q s x \<longleftrightarrow> (\<exists>q' s'. x = Inr (q', s') \<and> decides d ru q s q' s' \<and> lbs_ok (rsFwd s')) \<or>
     (\<exists>s'. x = rest q s' \<and> passes d ru q s s' \<and> lbs_ok (rsFwd s'))"

lemma steppedI: "decides d ru q s q' s' \<Longrightarrow> lbs_ok (rsFwd s') \<Longrightarrow> stepped d ru rest q s (Inr (q', s'))"
  "passes d ru q s s' \<Longrightarrow> lbs_ok (rsFwd s') \<Longrightarrow> stepped d ru rest q s (rest q s')"
  by (auto simp: stepped_def)

text \<open>A rule with upstreams.\<close>

lemma unwanted_stepped:
  assumes "lbs_ok (rsFwd s1)" "ruleMatch (dRe d) ru q = Inr True" "rcReject (ruCfg ru) = 0" "ruHosts ru = None"
    "ruUpstream ru = Some u" "served d u (keyFor d (rcForward (ruCfg ru)) q) q s m t x s1" "unwanted ru (Some m)"
  shows "stepped d ru rest q s (case ruRespIpUpstream ru of Some fb \<Rightarrow> handleRespIpFallback d ru fb q s1 | None \<Rightarrow> rest q s1)"
proof (cases "ruRespIpUpstream ru")
  case None
  then have "passes d ru q s s1" unfolding passes_def using assms(2-7) by auto
  then show ?thesis using None assms(1) by (simp add: steppedI)
next
  case (Some fb)
  obtain q' s' where f: "handleRespIpFallback d ru fb q s1 = Inr (q', s')" "lbs_ok (rsFwd s')" "fallsBack d ru fb q s1 q' s'"
    using fallback_decided [OF assms(1)] by blast
  have "\<exists>m t x s1. served d u (keyFor d (rcForward (ruCfg ru)) q) q s m t x s1 \<and> unwanted ru (Some m) \<and> fallsBack d ru fb q s1 q' s'"
    using assms(6,7) f(3) by blast
  then have "decides d ru q s q' s'" using assms(2-5) Some by (auto simp: decides_def Let_def)
  then show ?thesis using Some f by (simp add: steppedI)
qed

lemma upstream_stepped:
  assumes "lbs_ok (rsFwd s)" "ruleMatch (dRe d) ru q = Inr True" "cResp q = None" "respFrom q = []"
    "rcReject (ruCfg ru) = 0" "ruHosts ru = None" "ruUpstream ru = Some u"
  shows "stepped d ru rest q s (applyRule d ru rest q s)"
proof -
  let ?k = "keyFor d (rcForward (ruCfg ru)) q"
  note ap = applyRule_def [of d ru rest q s, folded keyFor_def] and un = unwanted_stepped [OF _ assms(2,5-7)]
  have fail: "decides d ru q s (SetEmptyRespMQ q RCodeServerFailure) s'" if "unserved d u ?k q s s'" for s'
    using that assms(2,5-7) by (simp add: decides_def Let_def)
  have ok: "decides d ru q s (SetRespFrom q (Some m) t) s'"
    if "served d u ?k q s m t x s1" "\<not> unwanted ru (Some m)" "gets d u (Some ru) ?k q m t x s1 (SetRespFrom q (Some m) t) s'" for m t x s1 s'
  proof -
    have "\<exists>m' t' x s1. served d u ?k q s m' t' x s1 \<and>
      (if unwanted ru (Some m') then \<exists>fb. ruRespIpUpstream ru = Some fb \<and> fallsBack d ru fb q s1 (SetRespFrom q (Some m) t) s'
       else gets d u (Some ru) ?k q m' t' x s1 (SetRespFrom q (Some m) t) s')"
      using that by (intro exI [of _ m] exI [of _ t] exI [of _ x] exI [of _ s1]) simp
    then show ?thesis using assms(2,5-7) by (simp add: decides_def Let_def)
  qed
  show ?thesis using assms(1)
  proof (cases rule: source_cases [where d = d and key = ?k and u = u and q = q])
    case (hit m ts s1)
    let ?s = "if needPrefetch (dPart d) (rNow d s1) ts then asyncPrefetch ?k q u (Some ru) s1 else s1"
    show ?thesis
    proof (cases "unwanted ru (Some m)")
      case True
      then show ?thesis using un [OF hit(3,2)] hit(1) assms by (simp add: ap Let_def)
    next
      case False
      have "decides d ru q s (SetRespFrom q (Some m) ''cache'') ?s" by (rule ok [OF hit(2) False]) (simp add: gets_def)
      then have "stepped d ru rest q s (Inr (SetRespFrom q (Some m) ''cache'', ?s))" by (rule steppedI) (simp add: hit)
      then show ?thesis using hit(1) False assms by (simp add: ap Let_def)
    qed
  next
    case (over s1)
    then show ?thesis using steppedI(1) [OF fail] assms by (simp add: ap Let_def)
  next
    case (failed s1 e s2)
    then show ?thesis using steppedI(1) [OF fail] assms by (cases e) (simp_all add: ap Let_def)
  next
    case (got s1 m t s2)
    let ?s = "rCacheStore d ?k (Some m) s2"
    show ?thesis
    proof (cases "unwanted ru (Some m)")
      case True
      then show ?thesis using un [OF got(5,4)] got(1-3) assms by (simp add: ap Let_def SetResp_back)
    next
      case False
      have "decides d ru q s (SetRespFrom q (Some m) t) ?s" by (rule ok [OF got(4) False]) (simp add: gets_def)
      then have "stepped d ru rest q s (Inr (SetRespFrom q (Some m) t, ?s))" by (rule steppedI) (rule got)
      then show ?thesis using got(1-3) False assms by (simp add: ap Let_def)
    qed
  qed
qed

lemma applyRule_stepped:
  assumes "lbs_ok (rsFwd s)" "ruleMatch (dRe d) ru q = Inr True" "cResp q = None" "respFrom q = []"
  shows "stepped d ru rest q s (applyRule d ru rest q s)"
proof -
  consider "rcReject (ruCfg ru) > 0" | h where "rcReject (ruCfg ru) = 0" "ruHosts ru = Some h"
    | "rcReject (ruCfg ru) = 0" "ruHosts ru = None" "ruUpstream ru = None"
    | u where "rcReject (ruCfg ru) = 0" "ruHosts ru = None" "ruUpstream ru = Some u"
    using word_gt_0 by (cases "ruHosts ru"; cases "ruUpstream ru") auto
  then show ?thesis
  proof cases
    case 2
    then show ?thesis using assms
      by (cases "hostsResponse h q") (auto simp: applyRule_def decides_def passes_def intro!: steppedI)
  next
    case 4
    then show ?thesis using upstream_stepped [OF assms] by blast
  qed (use assms in \<open>auto simp: applyRule_def decides_def intro!: steppedI\<close>)
qed

lemma builtin_decides:
  assumes "lbs_ok (rsFwd s)" "cResp q = None" "respFrom q = []"
    "\<forall>ru \<in> set rules. \<exists>b. ruleMatch (dRe d) ru q = Inr b"
  shows "\<exists>q' s' i s1. builtInHandler d rules q s = Inr (q', s') \<and> lbs_ok (rsFwd s') \<and> i \<le> length rules \<and>
    passed d q (take i rules) s s1 \<and>
    (if i < length rules then decides d (rules ! i) q s1 q' s' else q' = SetEmptyRespMQ q RCodeRefused \<and> s' = s1)"
  using assms
proof (induction rules arbitrary: s)
  case Nil
  then show ?case by (auto intro: passed.none)
next
  case (Cons ru rules)
  have next_rule: "\<exists>q' s' i s1. builtInHandler d rules q t = Inr (q', s') \<and> lbs_ok (rsFwd s') \<and> i \<le> length (ru # rules) \<and>
      passed d q (take i (ru # rules)) s s1 \<and>
      (if i < length (ru # rules) then decides d ((ru # rules) ! i) q s1 q' s' else q' = SetEmptyRespMQ q RCodeRefused \<and> s' = s1)"
    if t: "lbs_ok (rsFwd t)" and p: "passes d ru q s t" for t
  proof -
    obtain q' s' i s1 where i: "builtInHandler d rules q t = Inr (q', s')" "lbs_ok (rsFwd s')" "i \<le> length rules"
      "passed d q (take i rules) t s1"
      "if i < length rules then decides d (rules ! i) q s1 q' s' else q' = SetEmptyRespMQ q RCodeRefused \<and> s' = s1"
      using Cons.IH [OF t Cons.prems(2,3)] Cons.prems(4) by auto
    from passed.one [OF p i(4)] i(1,2,3,5) show ?thesis
      by (intro exI [of _ q'] exI [of _ s'] exI [of _ "Suc i"] exI [of _ s1]) auto
  qed
  obtain b where b: "ruleMatch (dRe d) ru q = Inr b" using Cons.prems(4) by auto
  show ?case
  proof (cases b)
    case False
    then show ?thesis using next_rule [OF Cons.prems(1)] b by (simp add: passes_def)
  next
    case True
    with b have m: "ruleMatch (dRe d) ru q = Inr True" by simp
    have "stepped d ru (builtInHandler d rules) q s (applyRule d ru (builtInHandler d rules) q s)"
      by (rule applyRule_stepped [OF Cons.prems(1) m Cons.prems(2,3)])
    then consider q' s' where "builtInHandler d (ru # rules) q s = Inr (q', s')" "decides d ru q s q' s'" "lbs_ok (rsFwd s')"
      | t where "builtInHandler d (ru # rules) q s = builtInHandler d rules q t" "passes d ru q s t" "lbs_ok (rsFwd t)"
      unfolding stepped_def by (auto simp: m)
    then show ?thesis
    proof cases
      case 1
      then show ?thesis by (intro exI [of _ q'] exI [of _ s'] exI [of _ 0] exI [of _ s]) (simp add: passed.none)
    next
      case 2
      then show ?thesis using next_rule by simp
    qed
  qed
qed

section \<open>The entry answers every query\<close>

definition unanswered :: "QueryCtx \<Rightarrow> bool" where
  "unanswered q \<longleftrightarrow> cResp q = None \<and> respFrom q = []"

text \<open>A handler that returns, and a middleware that makes one of one.\<close>

definition responsive :: "('w, 'm, 'r, 're) handler \<Rightarrow> bool" where
  "responsive h \<longleftrightarrow> (\<forall>q s. unanswered q \<and> lbs_ok (rsFwd s) \<longrightarrow> (\<exists>q' s'. h q s = Inr (q', s') \<and> lbs_ok (rsFwd s')))"

definition keeps_responsive :: "(('w, 'm, 'r, 're) handler \<Rightarrow> ('w, 'm, 'r, 're) handler) \<Rightarrow> bool" where
  "keeps_responsive m \<longleftrightarrow> (\<forall>h. responsive h \<longrightarrow> responsive (m h))"

lemma chain_responsive: "responsive h \<Longrightarrow> \<forall>m \<in> set ms. keeps_responsive m \<Longrightarrow> responsive (chainFrom ms h)"
  by (induction ms) (auto simp: keeps_responsive_def)

definition rules_total :: "('re \<Rightarrow> bytes \<Rightarrow> bool) \<Rightarrow> 're rule list \<Rightarrow> bool" where
  "rules_total re rules \<longleftrightarrow> (\<forall>ru \<in> set rules. \<forall>q. \<exists>b. ruleMatch re ru q = Inr b)"

definition zones_total :: "ecsConfig \<Rightarrow> bool" where
  "zones_total c \<longleftrightarrow> (\<forall>z a. ecZone c = Some z \<longrightarrow> (\<exists>r. zoneMark z a = Inr r))"

lemma builtin_responsive:
  assumes "rules_total (dRe d) rules"
  shows "responsive (builtInHandler d rules)"
proof -
  have "\<exists>q' s'. builtInHandler d rules q s = Inr (q', s') \<and> lbs_ok (rsFwd s')" if "unanswered q" "lbs_ok (rsFwd s)" for q s
    using builtin_decides [OF that(2), of q rules d] that(1) assms by (auto simp: unanswered_def rules_total_def)
  then show ?thesis unfolding responsive_def by blast
qed

lemma setECS_ok:
  assumes "zones_total c" "unanswered q"
  shows "\<exists>q'. setECS c q = Inr q' \<and> unanswered q'"
proof -
  have q1: "unanswered (clientSubnet b q)" for b using assms(2) by (simp add: clientSubnet_def unanswered_def Let_def)
  show ?thesis
  proof (cases "ecZone c")
    case None
    then show ?thesis using q1 assms(2) by (auto simp: setECS_def Let_def unanswered_def split: option.splits)
  next
    case (Some z)
    then obtain r where "zoneMark z (pAddr (ECS2Upstream (clientSubnet (ecForward c) q))) = Inr r"
      using assms(1) by (auto simp: zones_total_def)
    then show ?thesis using q1 Some assms(2) by (auto simp: setECS_def unanswered_def Let_def split: option.splits)
  qed
qed

text \<open>A router without caches and upstreams, and rules without conditions.\<close>

definition sampleDeps :: "(unit, (bytes \<rightharpoonup> cacheEntry \<times> int), (bytes \<rightharpoonup> bytes \<times> int), unit) deps" where
  "sampleDeps = \<lparr>dM = mapBackend, dR = mapBackend, dJunk = (\<lambda>_. []), dEnc = Some, dDec = Some, dPart = (\<lambda>x. x),
     dText = someText, dRe = (\<lambda>_ _. False), dEnv = \<lparr>leRand = Pair 0, leSum64 = (\<lambda>_. 0), leAllow = (\<lambda>_ _. Pair True),
     eExchange = (\<lambda>_ m. Pair (Some m)), eNow = (\<lambda>_. 0), eDone = (\<lambda>_. False)\<rparr>\<rparr>"

definition sampleRouter :: "(unit, (bytes \<rightharpoonup> cacheEntry \<times> int), (bytes \<rightharpoonup> bytes \<times> int), unit) router" where
  "sampleRouter = \<lparr>rsFwd = \<lparr>fUps = Map.empty, fLbs = Map.empty, fWorld = ()\<rparr>, rsCache = initCache 0 0 None None,
     rsPrefetching = {}, rsJobs = [], rsMw = (\<lambda>_. \<lparr>mwConcurrent = 0, mwNames = []\<rparr>)\<rparr>"

definition sampleRule :: "bool \<Rightarrow> u16 \<Rightarrow> unit rule" where
  "sampleRule b code = \<lparr>ruCfg = \<lparr>rcReverse = b, rcDomain = [], rcServer = [], rcServerName = [], rcPath = [], rcClientIP = [],
     rcReject = code, rcHosts = [], rcForward = [], rcRespIP = [], rcRespIPForward = []\<rparr>, ruDomainSet = None,
     ruClientIp = None, ruHosts = None, ruUpstream = None, ruRespIpSet = None, ruRespIpUpstream = None\<rparr>"

lemma sample_simps [simp]: "lbs_ok (rsFwd sampleRouter)" "ruleMatch re (sampleRule b code) q = Inr (\<not> b)"
    "cResp zeroCtx = None" "respFrom zeroCtx = []" "unanswered zeroCtx"
  by (simp_all add: lbs_ok_def sampleRouter_def ruleMatch_def ruleMatch1_def sampleRule_def zeroCtx_def unanswered_def)

text \<open>C21: The rules are tried in order and the first one that does not pass the query on decides it, by its rejection code,
  the records of its hosts, or the response of its upstream. That response is the one the cache holds for the query and the upstream,
  or else the one the upstream (or the upstream its load balancer picks) returns to the query message for the query,
  and then it is stored; if it is unwanted, the response of the other upstream takes its place, got in the same way, or
  without one the query is passed on. Only if the cache has nothing and the query is over or the exchange fails, the answer is
  SERVFAIL. If every rule passes the query on, it is refused. No choice of a backend divides by zero.\<close>

theorem builtin_first_rule:
  assumes "lbs_ok (rsFwd s)" "cResp q = None" "respFrom q = []"
    "\<forall>ru \<in> set rules. \<exists>b. ruleMatch (dRe d) ru q = Inr b"
  shows "\<exists>q' s' i s1. builtInHandler d rules q s = Inr (q', s') \<and> lbs_ok (rsFwd s') \<and> i \<le> length rules \<and>
    passed d q (take i rules) s s1 \<and>
    (if i < length rules then decides d (rules ! i) q s1 q' s' else q' = SetEmptyRespMQ q RCodeRefused \<and> s' = s1)"
  by (rule builtin_decides [OF assms])

theorem builtin_first_rule_witness:
  "\<exists>q' s' i s1. builtInHandler sampleDeps [sampleRule True 2, sampleRule False 3] zeroCtx sampleRouter = Inr (q', s') \<and>
    lbs_ok (rsFwd s') \<and> i \<le> length [sampleRule True 2, sampleRule False 3] \<and>
    passed sampleDeps zeroCtx (take i [sampleRule True 2, sampleRule False 3]) sampleRouter s1 \<and>
    (if i < length [sampleRule True 2, sampleRule False 3]
     then decides sampleDeps ([sampleRule True 2, sampleRule False 3] ! i) zeroCtx s1 q' s'
     else q' = SetEmptyRespMQ zeroCtx RCodeRefused \<and> s' = s1)"
  by (rule builtin_first_rule) auto

text \<open>C22: Every query is answered: the entry returns and has set a response, whatever the state of the caches, the
  upstreams and the load balancers, and whatever chain of middlewares is configured, if each middleware returns when
  the next one does.\<close>

theorem entry_responds:
  assumes "lbs_ok (rsFwd s)" "unanswered q" "rules_total (dRe d) rules" "zones_total c" "\<forall>m \<in> set ms. keeps_responsive m"
  shows "\<exists>q' s'. serverEntryHandler d c ms rules q s = Inr (q', s') \<and> cResp q' \<noteq> None \<and> lbs_ok (rsFwd s')"
proof -
  obtain q1 where q1: "setECS c q = Inr q1" "unanswered q1" using setECS_ok [OF assms(4,2)] by blast
  have "responsive (chainFrom ms (builtInHandler d rules))"
    using builtin_responsive [OF assms(3)] assms(5) by (rule chain_responsive)
  then obtain q2 s2 where "chainFrom ms (builtInHandler d rules) q1 s = Inr (q2, s2)" "lbs_ok (rsFwd s2)"
    using q1(2) assms(1) unfolding responsive_def by blast
  then show ?thesis using q1(1) by (auto simp: serverEntryHandler_def SetEmptyRespMQ_def SetResp_def SetRespFrom_def)
qed

theorem entry_responds_witness:
  "\<exists>q' s'. serverEntryHandler sampleDeps \<lparr>ecEnabled = True, ecForward = True, ecZone = Some [], ecZoneOverwrite = Some []\<rparr>
      [\<lambda>h. h] [sampleRule True 2, sampleRule False 3] zeroCtx sampleRouter = Inr (q', s') \<and> cResp q' \<noteq> None \<and> lbs_ok (rsFwd s')"
  by (rule entry_responds) (auto simp: rules_total_def zones_total_def keeps_responsive_def)

end
