(* ===== verification/Middleware.thy ===== *)
theory Middleware
  imports Handle Machine
begin

text \<open>
  The middlewares: their registry and how they are set up (\<^verbatim>\<open>app/router/router_middleware.go\<close>), and the two the
  program has, \<^verbatim>\<open>limit\<close> and \<^verbatim>\<open>rvlookup\<close> (\<^verbatim>\<open>app/router/middleware\<close>). The decoding of arguments, the rate
  limiter and the cache are parameters.
\<close>

section \<open>The registry\<close>

type_synonym ('a, 'h) factory = "'a \<Rightarrow> string + ('h \<Rightarrow> 'h)"

definition mwReg :: "string \<Rightarrow> 'f \<Rightarrow> (string \<rightharpoonup> 'f) \<Rightarrow> bool \<times> (string \<rightharpoonup> 'f)" where
  "mwReg typ fn r = (case r typ of Some _ \<Rightarrow> (False, r) | None \<Rightarrow> (True, r(typ \<mapsto> fn)))"

definition mustRegMiddleware :: "string \<Rightarrow> 'f \<Rightarrow> (string \<rightharpoonup> 'f) \<Rightarrow> (unit, string \<rightharpoonup> 'f) res" where
  "mustRegMiddleware typ fn r = (case mwReg typ fn r of (ok, r) \<Rightarrow> if ok then Inr r else Inl Panic)"

text \<open>The configuration of a middleware: the value of \<^verbatim>\<open>type\<close> if it is a string, and the other keys.\<close>

datatype mwErr = ErrNoType | ErrUnknownType string | ErrInit string | ErrAt nat mwErr

definition initMiddleware :: "(string \<rightharpoonup> ('a, 'h) factory) \<Rightarrow> string option \<times> 'a \<Rightarrow> (mwErr, 'h \<Rightarrow> 'h) res" where
  "initMiddleware reg cfg = (case fst cfg of None \<Rightarrow> Inl (Err ErrNoType) | Some typ \<Rightarrow>
     (case reg typ of None \<Rightarrow> Inl (Err (ErrUnknownType typ))
      | Some ff \<Rightarrow> (case ff (snd cfg) of Inl e \<Rightarrow> Inl (Err (ErrInit e)) | Inr m \<Rightarrow> Inr m)))"

fun initMiddlewares :: "(string \<rightharpoonup> ('a, 'h) factory) \<Rightarrow> nat \<Rightarrow> (string option \<times> 'a) list \<Rightarrow> (mwErr, ('h \<Rightarrow> 'h) list) res" where
  "initMiddlewares reg i [] = Inr []"
| "initMiddlewares reg i (cfg # cfgs) =
    thenE (wrapE (ErrAt i) (initMiddleware reg cfg)) (\<lambda>m.
    thenE (initMiddlewares reg (i + 1) cfgs) (\<lambda>ms. Inr (m # ms)))"

section \<open>limit\<close>

record limitArgs =
  laConcurrent :: "32 word"
  laQPS :: int

text \<open>The counter is a 32-bit integer with a sign.\<close>

definition limitEnter :: "32 word \<Rightarrow> 32 word \<Rightarrow> bool \<times> 32 word" where
  "limitEnter lim c = (if sint lim > 0 then (let cc = c + 1 in (sint cc \<le> sint lim, cc)) else (True, c))"

definition limitLeave :: "32 word \<Rightarrow> 32 word \<Rightarrow> 32 word" where
  "limitLeave lim c = (if sint lim > 0 then c - 1 else c)"

text \<open>\<open>i\<close> is the number of the middleware, under which it keeps its counter; \<open>allow\<close> is the rate limiter.\<close>

definition limitHandle :: "nat \<Rightarrow> limitArgs \<Rightarrow> ('w \<Rightarrow> bool \<times> 'w) \<Rightarrow> ('w, 'm, 'r, 're) handler \<Rightarrow> ('w, 'm, 'r, 're) handler" where
  "limitHandle i a allow next' q s =
    (case (if laQPS a > 0 then allow (fWorld (rsFwd s)) else (True, fWorld (rsFwd s))) of (ok, w) \<Rightarrow>
     let s = s\<lparr>rsFwd := (rsFwd s)\<lparr>fWorld := w\<rparr>\<rparr> in
     if \<not> ok then Inr (SetEmptyRespMQ q RCodeRefused, s)
     else case limitEnter (laConcurrent a) (mwConcurrent (rsMw s i)) of (ok, c) \<Rightarrow>
     let s = s\<lparr>rsMw := (rsMw s)(i := (rsMw s i)\<lparr>mwConcurrent := c\<rparr>)\<rparr> in
     if \<not> ok then Inr (SetEmptyRespMQ q RCodeRefused, s)
     else thenE (next' q s) (\<lambda>(q, s).
       Inr (q, s\<lparr>rsMw := (rsMw s)(i := (rsMw s i)\<lparr>mwConcurrent := limitLeave (laConcurrent a) (mwConcurrent (rsMw s i))\<rparr>)\<rparr>)))"

section \<open>rvlookup\<close>

text \<open>\<^verbatim>\<open>strconv.ParseUint\<close> for a base up to 16 and a size in bits.\<close>

definition digitVal :: "u8 \<Rightarrow> nat option" where
  "digitVal c = (let n = unat c in
     if 48 \<le> n \<and> n \<le> 57 then Some (n - 48) else if 97 \<le> n \<and> n \<le> 102 then Some (n - 87)
     else if 65 \<le> n \<and> n \<le> 70 then Some (n - 55) else None)"

fun parseUintLoop :: "nat \<Rightarrow> nat \<Rightarrow> bytes \<Rightarrow> nat \<Rightarrow> nat option" where
  "parseUintLoop base mx [] n = Some n"
| "parseUintLoop base mx (c # cs) n = (case digitVal c of None \<Rightarrow> None | Some d \<Rightarrow>
     if d \<ge> base then None
     else let n' = n * base + d in if n' > mx then None else parseUintLoop base mx cs n')"

definition parseUint :: "bytes \<Rightarrow> nat \<Rightarrow> nat \<Rightarrow> nat option" where
  "parseUint s base bits = (if s = [] then None else parseUintLoop base (2 ^ bits - 1) s 0)"

definition parseIpv4 :: "bytes list \<Rightarrow> Addr option" where
  "parseIpv4 labels =
    (if length labels \<noteq> 4 then None
     else let us = map (\<lambda>i. parseUint (labels ! (3 - i)) 10 8) [0..<4] in
     if None \<in> set us then None else Some (Addr4 (map (byte_of \<circ> the) us)))"

text \<open>Every two digits make a byte.\<close>

fun nibbles :: "nat list \<Rightarrow> bytes" where
  "nibbles (h # l # r) = (push_bit 4 (byte_of h) + byte_of l) # nibbles r"
| "nibbles _ = []"

definition parseIpv16 :: "bytes list \<Rightarrow> Addr option" where
  "parseIpv16 labels =
    (if length labels \<noteq> 32 then None
     else let us = map (\<lambda>i. parseUint (labels ! (31 - i)) 16 4) [0..<32] in
     if None \<in> set us then None else Some (Addr6 (nibbles (map the us)) []))"

definition parsePtr :: "Name \<Rightarrow> Addr option" where
  "parsePtr n =
    (let labels = Labels n; k = length labels in
     if k < 2 then None
     else if labels ! (k - 1) \<noteq> ascii ''arpa'' then None
     else if labels ! (k - 2) = ascii ''in-addr'' then parseIpv4 (take (k - 2) labels)
     else if labels ! (k - 2) = ascii ''ip6'' then parseIpv16 (take (k - 2) labels)
     else None)"

text \<open>
  \<open>get\<close> is what the cache returns at an instant, after what was put into it and when: a cache with a time to live
  and a maximum size returns a value only for a while, and may drop any value before. \<open>nowOf\<close> is the clock.
\<close>

type_synonym rvCache = "(Addr \<times> bytes \<times> int) list \<Rightarrow> int \<Rightarrow> Addr \<Rightarrow> bytes option"

definition rvLookup :: "rvCache \<Rightarrow> int \<Rightarrow> Name \<Rightarrow> mwState \<Rightarrow> Resource option" where
  "rvLookup get now n st = (case parsePtr n of None \<Rightarrow> None | Some addr \<Rightarrow>
     (case get (mwNames st) now (unmap addr) of None \<Rightarrow> None | Some raw \<Rightarrow>
        (case ParseNameRaw emptyName raw of Inr d \<Rightarrow> Some (NAME_rr \<lparr>hName = n, hType = TypePTR, hClass = ClassINET, hTTL = 10, hLength = 0\<rparr> d)
         | Inl _ \<Rightarrow> None)))"

definition saveNameAddr :: "int \<Rightarrow> Name \<Rightarrow> Addr \<Rightarrow> mwState \<Rightarrow> mwState" where
  "saveNameAddr now n addr st = st\<lparr>mwNames := (addr, Data n, now) # mwNames st\<rparr>"

fun saveAnswers :: "int \<Rightarrow> Resource list \<Rightarrow> mwState \<Rightarrow> mwState" where
  "saveAnswers now [] st = st"
| "saveAnswers now (r # rs) st = saveAnswers now rs (case r of
     A_rr h a \<Rightarrow> saveNameAddr now (hName h) (Addr4 a) st
   | AAAA_rr h a \<Rightarrow> saveNameAddr now (hName h) (unmap (Addr6 a [])) st
   | _ \<Rightarrow> st)"

definition rvHandle :: "nat \<Rightarrow> ('w \<Rightarrow> int) \<Rightarrow> rvCache \<Rightarrow> ('w, 'm, 'r, 're) handler \<Rightarrow> ('w, 'm, 'r, 're) handler" where
  "rvHandle i nowOf get next' q s =
    (let qq = cQuestion q in
     case (if qType qq = TypePTR \<and> qClass qq = ClassINET
           then rvLookup get (nowOf (fWorld (rsFwd s))) (qName qq) (rsMw s i) else None) of
       Some rr \<Rightarrow> Inr (SetRespFrom q (Some (NewMsg\<lparr>Questions := [questionCopy qq], Answers := [rr]\<rparr>)) ''rvlookup'', s)
     | None \<Rightarrow> thenE (next' q s) (\<lambda>(q, s).
         Inr (q, case cResp q of None \<Rightarrow> s | Some resp \<Rightarrow>
           if qClass qq = ClassINET \<and> (qType qq = TypeA \<or> qType qq = TypeAAAA)
           then s\<lparr>rsMw := (rsMw s)(i := saveAnswers (nowOf (fWorld (rsFwd s))) (Answers resp) (rsMw s i))\<rparr> else s)))"

section \<open>Both return when the rest of the chain does\<close>

lemma limit_keeps_responsive: "keeps_responsive (limitHandle i a (allow :: 'w \<Rightarrow> bool \<times> 'w))"
proof -
  have "\<exists>q' s'. limitHandle i a allow h q s = Inr (q', s') \<and> lbs_ok (rsFwd s')"
    if h: "responsive h" "unanswered q" "lbs_ok (rsFwd s)" for h :: "('w, 'm, 'r, 're) handler" and q s
  proof -
    obtain ok w where al: "(if laQPS a > 0 then allow (fWorld (rsFwd s)) else (True, fWorld (rsFwd s))) = (ok, w)" by fastforce
    obtain ok2 c where en: "limitEnter (laConcurrent a) (mwConcurrent (rsMw s i)) = (ok2, c)" by fastforce
    have ok: "lbs_ok (f\<lparr>fWorld := w\<rparr>) \<longleftrightarrow> lbs_ok f" for f :: "'w fwd" by (simp add: lbs_ok_def)
    let ?s = "s\<lparr>rsFwd := (rsFwd s)\<lparr>fWorld := w\<rparr>, rsMw := (rsMw s)(i := (rsMw s i)\<lparr>mwConcurrent := c\<rparr>)\<rparr>"
    have "lbs_ok (rsFwd ?s)" using h(3) ok by simp
    then obtain q' s' where "h q ?s = Inr (q', s')" "lbs_ok (rsFwd s')" using h(1,2) unfolding responsive_def by blast
    then show ?thesis using h(3) ok en by (simp add: limitHandle_def al Let_def)
  qed
  then show ?thesis unfolding keeps_responsive_def responsive_def [of "limitHandle _ _ _ _"] by blast
qed

lemma rv_keeps_responsive: "keeps_responsive (rvHandle i (nowOf :: 'w \<Rightarrow> int) get)"
proof -
  have "\<exists>q' s'. rvHandle i nowOf get h q s = Inr (q', s') \<and> lbs_ok (rsFwd s')"
    if h: "responsive h" "unanswered q" "lbs_ok (rsFwd s)" for h :: "('w, 'm, 'r, 're) handler" and q s
  proof -
    obtain q' s' where "h q s = Inr (q', s')" "lbs_ok (rsFwd s')" using h unfolding responsive_def by blast
    then show ?thesis using h(3) by (auto simp: rvHandle_def Let_def split: option.splits if_splits)
  qed
  then show ?thesis unfolding keeps_responsive_def responsive_def [of "rvHandle _ _ _ _"] by blast
qed

section \<open>The counter of \<^verbatim>\<open>limit\<close>\<close>

text \<open>Queries come and finish in any order. Those that run and those that were refused are counted beside.\<close>

datatype limitEvent = Arrive | Finish

record limitRun =
  lrCount :: "32 word"
  lrRunning :: nat
  lrRefused :: nat

fun limitStep :: "32 word \<Rightarrow> limitEvent \<Rightarrow> limitRun \<Rightarrow> limitRun option" where
  "limitStep lim Arrive s = Some (case limitEnter lim (lrCount s) of (ok, c) \<Rightarrow>
     if ok then s\<lparr>lrCount := c, lrRunning := lrRunning s + 1\<rparr> else s\<lparr>lrCount := c, lrRefused := lrRefused s + 1\<rparr>)"
| "limitStep lim Finish s = (if lrRunning s = 0 then None
     else Some (s\<lparr>lrCount := limitLeave lim (lrCount s), lrRunning := lrRunning s - 1\<rparr>))"

definition limitZero :: limitRun where
  "limitZero = \<lparr>lrCount = 0, lrRunning = 0, lrRefused = 0\<rparr>"

interpretation limit: machine "\<lambda>s. s = limitZero" "limitStep lim" "\<lambda>s. 0 < sint lim \<longrightarrow> lrCount s = of_nat (lrRunning s + lrRefused s)"
  by unfold_locales
    (auto simp: limitZero_def limitEnter_def limitLeave_def Let_def gr0_conv_Suc elim!: limitStep.elims split: if_splits)

lemma sint_of_small_nat: "n < 2 ^ 31 \<Longrightarrow> sint (of_nat n :: 32 word) = int n"
  by (simp add: signed_of_nat signed_take_bit_int_eq_self)

text \<open>C28:
  What the concurrency limit counts: the queries that run and also all that it ever refused, whose count is
  never taken back. Once it has refused as many as the limit, it refuses every further query, even when none
  runs, until the counter has wrapped.
\<close>

theorem limit_counts_refused:
  assumes "0 < sint lim" "run (limitStep lim) es limitZero = Some s"
  shows "lrCount s = of_nat (lrRunning s + lrRefused s) \<and>
    (sint lim \<le> int (lrRefused s) \<longrightarrow> lrRunning s + lrRefused s < 2 ^ 31 - 1 \<longrightarrow>
      limitStep lim Arrive s = Some (s\<lparr>lrCount := lrCount s + 1, lrRefused := lrRefused s + 1\<rparr>))"
proof -
  have c: "lrCount s = of_nat (lrRunning s + lrRefused s)" using limit.run_inv [OF assms(2)] assms(1) by blast
  moreover have "limitStep lim Arrive s = Some (s\<lparr>lrCount := lrCount s + 1, lrRefused := lrRefused s + 1\<rparr>)"
    if a: "sint lim \<le> int (lrRefused s)" "lrRunning s + lrRefused s < 2 ^ 31 - 1"
  proof -
    have "sint (lrCount s + 1) = int (Suc (lrRunning s + lrRefused s))"
      using sint_of_small_nat [of "Suc (lrRunning s + lrRefused s)"] a(2) by (simp add: c add.commute)
    then show ?thesis using assms(1) a(1) by (simp add: limitEnter_def)
  qed
  ultimately show ?thesis by blast
qed

text \<open>With a limit of one: two at once, then both are gone, and the next is refused.\<close>

theorem limit_counts_refused_witness:
  "run (limitStep 1) [Arrive, Arrive, Finish] limitZero = Some \<lparr>lrCount = 1, lrRunning = 0, lrRefused = 1\<rparr> \<and>
   limitStep 1 Arrive \<lparr>lrCount = 1, lrRunning = 0, lrRefused = 1\<rparr> = Some \<lparr>lrCount = 2, lrRunning = 0, lrRefused = 2\<rparr>"
proof -
  have r: "run (limitStep 1) [Arrive, Arrive, Finish] limitZero = Some \<lparr>lrCount = 1, lrRunning = 0, lrRefused = 1\<rparr>"
    by (simp add: limitZero_def limitEnter_def limitLeave_def)
  show ?thesis using r limit_counts_refused [OF _ r] by simp
qed

section \<open>Reverse lookups\<close>

text \<open>The names under which addresses are looked up: the bytes in decimal, or every half of a byte in hexadecimal.\<close>

definition reverseName4 :: "bytes \<Rightarrow> Name" where
  "reverseName4 a = name_of (map (\<lambda>b. decimal (unat b)) (rev a) @ [ascii ''in-addr'', ascii ''arpa''])"

definition hexDigit :: "nat \<Rightarrow> bytes" where
  "hexDigit n = [byte_of (if n < 10 then 48 + n else 87 + n)]"

definition halves :: "bytes \<Rightarrow> nat list" where
  "halves a = concat (map (\<lambda>b. [unat b div 16, unat b mod 16]) a)"

definition reverseName6 :: "bytes \<Rightarrow> Name" where
  "reverseName6 a = name_of (map hexDigit (rev (halves a)) @ [ascii ''ip6'', ascii ''arpa''])"

fun reverseName :: "Addr \<Rightarrow> Name" where
  "reverseName (Addr4 a) = reverseName4 a"
| "reverseName (Addr6 a z) = reverseName6 a"
| "reverseName NoAddr = emptyName"

lemma digitVal_digit [simp]: "k < 10 \<Longrightarrow> digitVal (byte_of (48 + k)) = Some k"
  by (simp add: digitVal_def Let_def)

lemma parseUintLoop_decimal: "n \<le> mx \<Longrightarrow> parseUintLoop 10 mx (decimal n @ r) 0 = parseUintLoop 10 mx r n"
proof (induction n arbitrary: r rule: decimal.induct)
  case (1 n)
  have "\<not> 10 \<le> n mod 10" by (simp add: not_le)
  then show ?case using 1 by (cases "n < 10") (simp_all add: decimal.simps [of n])
qed

lemma parseUint_decimal [simp]: "parseUint (decimal (unat (c :: u8))) 10 8 = Some (unat c)"
proof -
  have "unat c < 256" by simp
  then have "unat c \<le> 255" by linarith
  moreover have "decimal (unat c) \<noteq> []" by (subst decimal.simps) simp
  ultimately show ?thesis using parseUintLoop_decimal [of "unat c" 255 "[]"] by (simp add: parseUint_def)
qed

lemma parsePtr_reverseName4:
  assumes "length a = 4"
  shows "parsePtr (reverseName4 a) = Some (Addr4 a)"
proof -
  obtain w x y z where "a = [w, x, y, z]"
    using assms by (auto simp: numeral_eq_Suc length_Suc_conv)
  moreover have "[0..<4] = [0, 1, 2, 3]" by (simp add: upt_rec)
  ultimately show ?thesis by (simp add: parsePtr_def reverseName4_def parseIpv4_def byte_of_def)
qed

lemma parseUint_hex: "n < 16 \<Longrightarrow> parseUint (hexDigit n) 16 4 = Some n"
  by (auto simp: hexDigit_def parseUint_def digitVal_def Let_def)

lemma nibble_byte: "push_bit 4 (byte_of (unat c div 16)) + byte_of (unat c mod 16) = (c :: u8)"
proof (rule u8_allI)
  show "list_all (\<lambda>n. push_bit 4 (byte_of (unat (byte_of n) div 16)) + byte_of (unat (byte_of n) mod 16) = byte_of n) [0..<256]"
    by code_simp
qed

lemma nibbles_halves: "nibbles (halves a) = a"
  by (induction a) (simp_all add: halves_def nibble_byte)

lemma halves_length: "length (halves a) = 2 * length a"
  by (induction a) (simp_all add: halves_def)

lemma halves_small: "n \<in> set (halves a) \<Longrightarrow> n < 16"
proof -
  assume "n \<in> set (halves a)"
  then obtain b :: u8 where "n = unat b div 16 \<or> n = unat b mod 16" by (auto simp: halves_def)
  moreover have "unat b < 256" by simp
  ultimately show ?thesis by (auto simp: div_less_iff_less_mult)
qed

lemma parsePtr_reverseName6:
  assumes "length a = 16"
  shows "parsePtr (reverseName6 a) = Some (Addr6 a [])"
proof -
  let ?l = "map hexDigit (rev (halves a))"
  have l: "length ?l = 32" using assms by (simp add: halves_length)
  have "parseUint (?l ! (31 - i)) 16 4 = Some (halves a ! i)" if "i < 32" for i
  proof -
    have "?l ! (31 - i) = hexDigit (halves a ! i)" using that assms by (simp add: halves_length rev_nth)
    then show ?thesis using that assms halves_small [OF nth_mem, of i a] by (simp add: parseUint_hex halves_length)
  qed
  then have "map (\<lambda>i. parseUint (?l ! (31 - i)) 16 4) [0..<32] = map (\<lambda>i. Some (halves a ! i)) [0..<32]" by simp
  also have "\<dots> = map Some (halves a)" using assms by (intro nth_equalityI) (simp_all add: halves_length)
  finally have "parseIpv16 ?l = Some (Addr6 a [])" using l by (auto simp: parseIpv16_def Let_def comp_def nibbles_halves)
  moreover have "Labels (reverseName6 a) = ?l @ [ascii ''ip6'', ascii ''arpa'']" by (simp add: reverseName6_def)
  moreover have "ascii ''ip6'' \<noteq> ascii ''in-addr''" by code_simp
  ultimately show ?thesis using l unfolding parsePtr_def by (simp add: nth_append del: length_map length_rev)
qed

lemma ParseNameRaw_Data: "name_ok n \<Longrightarrow> ParseNameRaw emptyName (Data n) = Inr n"
  by (auto simp: name_ok_def ParseNameRaw_def emptyName_def dirty_def Data_def parseLabels_wire)

text \<open>Addresses a name can be looked up for, and the address of a record.\<close>

fun lookupAddr :: "Addr \<Rightarrow> bool" where
  "lookupAddr (Addr4 a) = (length a = 4)"
| "lookupAddr (Addr6 a z) = (length a = 16 \<and> z = [])"
| "lookupAddr NoAddr = False"

lemma parsePtr_reverseName: "lookupAddr x \<Longrightarrow> parsePtr (reverseName x) = Some x"
  by (cases x) (simp_all add: parsePtr_reverseName4 parsePtr_reverseName6)

fun recordAddr :: "Resource \<Rightarrow> Addr option" where
  "recordAddr (A_rr h a) = Some (Addr4 a)"
| "recordAddr (AAAA_rr h a) = Some (unmap (Addr6 a []))"
| "recordAddr _ = None"

text \<open>The addresses in responses, with the names they came under and the instants of the responses.\<close>

definition seen :: "(Msg \<times> int) set \<Rightarrow> (Addr \<times> bytes \<times> int) set" where
  "seen R = {(a, Data (hName (Hdr r)), t) |a r t. \<exists>resp. (resp, t) \<in> R \<and> r \<in> set (Answers resp) \<and> recordAddr r = Some a}"

lemma saveAnswers_names: "set (mwNames (saveAnswers now rs st)) =
    set (mwNames st) \<union> {(a, Data (hName (Hdr r)), now) |a r. r \<in> set rs \<and> recordAddr r = Some a}"
proof (induction rs arbitrary: st)
  case (Cons r rs)
  have "set (mwNames (saveAnswers now [r] st)) = set (mwNames st) \<union> {(a, Data (hName (Hdr r)), now) |a. recordAddr r = Some a}"
    by (cases r) (auto simp: saveNameAddr_def)
  then show ?case using Cons.IH [of "saveAnswers now [r] st"] by auto
qed simp

text \<open>
  What leads to a state: the middleware has got the responses \<open>R\<close> to queries for addresses from the rest of the chain, each at
  an instant; besides, time passes and everything else happens that leaves its cache alone.
\<close>

inductive rv_reach :: "nat \<Rightarrow> ('w \<Rightarrow> int) \<Rightarrow> rvCache \<Rightarrow> (Msg \<times> int) set \<Rightarrow> ('w, 'm, 'r, 're) router \<Rightarrow> bool"
  for i nowOf get where
  start: "mwNames (rsMw s i) = [] \<Longrightarrow> rv_reach i nowOf get {} s"
| query: "rv_reach i nowOf get R s \<Longrightarrow> next' q s = Inr (q', s1) \<Longrightarrow> rsMw s1 i = rsMw s i \<Longrightarrow> cResp q' = Some resp \<Longrightarrow>
    qClass (cQuestion q) = ClassINET \<Longrightarrow> qType (cQuestion q) = TypeA \<or> qType (cQuestion q) = TypeAAAA \<Longrightarrow>
    rvHandle i nowOf get next' q s = Inr (q', s') \<Longrightarrow> rv_reach i nowOf get (insert (resp, nowOf (fWorld (rsFwd s1))) R) s'"
| other: "rv_reach i nowOf get R s \<Longrightarrow> mwNames (rsMw s' i) = mwNames (rsMw s i) \<Longrightarrow> rv_reach i nowOf get R s'"

lemma rv_reach_seen: "rv_reach i nowOf get R s \<Longrightarrow> set (mwNames (rsMw s i)) = seen R"
proof (induction rule: rv_reach.induct)
  case (query R s next' q q' s1 resp s')
  then have "mwNames (rsMw s' i) = mwNames (saveAnswers (nowOf (fWorld (rsFwd s1))) (Answers resp) (rsMw s i))"
    by (auto simp: rvHandle_def Let_def)
  then show ?case using query.IH by (auto simp: saveAnswers_names seen_def)
qed (simp_all add: seen_def)

text \<open>A cache with a time to live: it may forget anything, but returns only what was put in for the address and is alive.\<close>

definition forgetful :: "int \<Rightarrow> rvCache \<Rightarrow> bool" where
  "forgetful ttl get \<longleftrightarrow> (\<forall>l now a v. get l now a = Some v \<longrightarrow> (\<exists>t. (a, v, t) \<in> set l \<and> now < t + ttl))"

text \<open>C29:
  Every address in a response to a query for addresses is put into the cache of the middleware with its name. A reverse query
  for an address, of IPv4 or IPv6, is answered by the middleware itself if the cache still has a name for the address: then
  the answer is a name under which a response had this address, and not longer ago than the time to live of the cache. If the
  cache has none, because there was none or it has forgotten it, the query goes to the rest of the chain.
\<close>

theorem rv_answers_reverse:
  assumes "rv_reach i nowOf get R s" "forgetful ttl get" "\<forall>(resp, t) \<in> R. \<forall>r \<in> set (Answers resp). name_ok (hName (Hdr r))"
    and "lookupAddr x" "cQuestion p = \<lparr>qName = reverseName x, qType = TypePTR, qClass = ClassINET\<rparr>"
  shows "set (mwNames (rsMw s i)) = seen R \<and>
    (case get (mwNames (rsMw s i)) (nowOf (fWorld (rsFwd s))) (unmap x) of
       None \<Rightarrow> rvHandle i nowOf get next' p s = next' p s
     | Some _ \<Rightarrow> \<exists>resp t r. (resp, t) \<in> R \<and> nowOf (fWorld (rsFwd s)) < t + ttl \<and> r \<in> set (Answers resp) \<and>
         recordAddr r = Some (unmap x) \<and>
         rvHandle i nowOf get next' p s = Inr (SetRespFrom p (Some (NewMsg\<lparr>Questions := [questionCopy (cQuestion p)],
           Answers := [NAME_rr \<lparr>hName = reverseName x, hType = TypePTR, hClass = ClassINET, hTTL = 10, hLength = 0\<rparr> (hName (Hdr r))]\<rparr>))
           ''rvlookup'', s))"
proof (intro conjI)
  let ?now = "nowOf (fWorld (rsFwd s))"
  show names: "set (mwNames (rsMw s i)) = seen R" by (rule rv_reach_seen [OF assms(1)])
  show "case get (mwNames (rsMw s i)) ?now (unmap x) of
       None \<Rightarrow> rvHandle i nowOf get next' p s = next' p s
     | Some _ \<Rightarrow> \<exists>resp t r. (resp, t) \<in> R \<and> ?now < t + ttl \<and> r \<in> set (Answers resp) \<and> recordAddr r = Some (unmap x) \<and>
         rvHandle i nowOf get next' p s = Inr (SetRespFrom p (Some (NewMsg\<lparr>Questions := [questionCopy (cQuestion p)],
           Answers := [NAME_rr \<lparr>hName = reverseName x, hType = TypePTR, hClass = ClassINET, hTTL = 10, hLength = 0\<rparr> (hName (Hdr r))]\<rparr>))
           ''rvlookup'', s)"
  proof (cases "get (mwNames (rsMw s i)) ?now (unmap x)")
    case None
    then have "rvHandle i nowOf get next' p s = thenE (next' p s) Inr"
      using assms(4,5) by (auto simp: rvHandle_def rvLookup_def parsePtr_reverseName Let_def split: option.splits intro!: thenE_guard)
    then show ?thesis using None by (cases "next' p s") simp_all
  next
    case (Some raw)
    then obtain t where t: "(unmap x, raw, t) \<in> seen R" "?now < t + ttl" using assms(2) names unfolding forgetful_def by blast
    then obtain resp r where r: "(resp, t) \<in> R" "r \<in> set (Answers resp)" "recordAddr r = Some (unmap x)" "raw = Data (hName (Hdr r))"
      by (auto simp: seen_def)
    then have "name_ok (hName (Hdr r))" using assms(3) by blast
    then have "rvHandle i nowOf get next' p s = Inr (SetRespFrom p (Some (NewMsg\<lparr>Questions := [questionCopy (cQuestion p)],
        Answers := [NAME_rr \<lparr>hName = reverseName x, hType = TypePTR, hClass = ClassINET, hTTL = 10, hLength = 0\<rparr> (hName (Hdr r))]\<rparr>)) ''rvlookup'', s)"
      using assms(4,5) Some r(4) by (simp add: rvHandle_def rvLookup_def parsePtr_reverseName ParseNameRaw_Data Let_def)
    then show ?thesis using Some t(2) r(1-3) by auto
  qed
qed

text \<open>
  A cache that forgets nothing before its time, here of a minute. A query for \<^verbatim>\<open>a\<close> is answered with an address of each kind;
  then the reverse queries for both are answered with \<^verbatim>\<open>a\<close>.
\<close>

definition minuteCache :: rvCache where
  "minuteCache l now a = (case map_of l a of Some (v, t) \<Rightarrow> if now < t + 60 then Some v else None | None \<Rightarrow> None)"

lemma minuteCache_ok: "forgetful 60 minuteCache"
  unfolding forgetful_def minuteCache_def by (auto split: option.splits if_splits dest!: map_of_SomeD)

definition sampleHost :: Name where
  "sampleHost = name_of [ascii ''a'']"

definition host4 :: bytes where
  "host4 = [192, 0, 2, 1]"

definition host6 :: bytes where
  "host6 = [0x20, 0x01, 0x0D, 0xB8, 0, 0, 0, 0, 0, 0, 0, 0, 0, 0, 0, 0x1F]"

definition sampleAnswer :: Msg where
  "sampleAnswer = NewMsg\<lparr>Answers := [A_rr \<lparr>hName = sampleHost, hType = TypeA, hClass = ClassINET, hTTL = 60, hLength = 4\<rparr> host4,
     AAAA_rr \<lparr>hName = sampleHost, hType = TypeAAAA, hClass = ClassINET, hTTL = 60, hLength = 16\<rparr> host6]\<rparr>"

definition sampleNext :: "('w, 'm, 'r, 're) handler" where
  "sampleNext q s = Inr (SetResp q (Some sampleAnswer), s)"

definition sampleAQuery :: QueryCtx where
  "sampleAQuery = zeroCtx\<lparr>cQuestion := \<lparr>qName = sampleHost, qType = TypeA, qClass = ClassINET\<rparr>\<rparr>"

definition samplePtrQuery :: "Addr \<Rightarrow> QueryCtx" where
  "samplePtrQuery x = zeroCtx\<lparr>cQuestion := \<lparr>qName = reverseName x, qType = TypePTR, qClass = ClassINET\<rparr>\<rparr>"

theorem rv_answers_reverse_witness:
  "let named = (\<lambda>x s. rvHandle 0 (\<lambda>_. 0) minuteCache sampleNext (samplePtrQuery x) s = Inr (SetRespFrom (samplePtrQuery x)
      (Some (NewMsg\<lparr>Questions := [questionCopy (cQuestion (samplePtrQuery x))],
        Answers := [NAME_rr \<lparr>hName = reverseName x, hType = TypePTR, hClass = ClassINET, hTTL = 10, hLength = 0\<rparr> sampleHost]\<rparr>)) ''rvlookup'', s)) in
    \<exists>q' s''. rvHandle 0 (\<lambda>_. 0) minuteCache sampleNext sampleAQuery sampleRouter = Inr (q', s'') \<and>
      named (Addr4 host4) s'' \<and> named (Addr6 host6 []) s''"
proof -
  let ?s = "sampleRouter\<lparr>rsMw := (rsMw sampleRouter)(0 := saveAnswers 0 (Answers sampleAnswer) (rsMw sampleRouter 0))\<rparr>"
  have ok: "name_ok sampleHost"
    unfolding name_ok_def sampleHost_def by (rule exI [of _ "[ascii ''a'']"]) (simp add: label_ok_def ascii_def)
  have s: "rvHandle 0 (\<lambda>_. 0) minuteCache sampleNext sampleAQuery sampleRouter = Inr (SetResp sampleAQuery (Some sampleAnswer), ?s)"
    by (simp add: rvHandle_def sampleNext_def sampleAQuery_def SetResp_def SetRespFrom_def Let_def)
  have r: "rv_reach 0 (\<lambda>_. 0) minuteCache (insert (sampleAnswer, 0) {}) ?s"
  proof (rule rv_reach.query [where ?s1.0 = sampleRouter, OF rv_reach.start _ _ _ _ _ s, simplified])
    show "mwNames (rsMw sampleRouter 0) = []" by (simp add: sampleRouter_def)
  qed (simp_all add: sampleNext_def sampleAQuery_def SetResp_def SetRespFrom_def)
  have un: "take 12 host6 \<noteq> v4mapped" by (simp add: host6_def v4mapped_def)
  have names: "mwNames (rsMw ?s 0) = [(Addr6 host6 [], Data sampleHost, 0), (Addr4 host4, Data sampleHost, 0)]"
    by (simp add: sampleRouter_def sampleAnswer_def saveNameAddr_def un)
  have "rvHandle 0 (\<lambda>_. 0) minuteCache sampleNext (samplePtrQuery x) ?s = Inr (SetRespFrom (samplePtrQuery x)
      (Some (NewMsg\<lparr>Questions := [questionCopy (cQuestion (samplePtrQuery x))],
        Answers := [NAME_rr \<lparr>hName = reverseName x, hType = TypePTR, hClass = ClassINET, hTTL = 10, hLength = 0\<rparr> sampleHost]\<rparr>)) ''rvlookup'', ?s)"
    if x: "x \<in> {Addr4 host4, Addr6 host6 []}" for x
  proof -
    have l: "lookupAddr x" using x by (auto simp: host4_def host6_def)
    have hit: "minuteCache (mwNames (rsMw ?s 0)) 0 (unmap x) = Some (Data sampleHost)"
      using x un unfolding names by (auto simp: minuteCache_def)
    have h: "hName (Hdr r) = sampleHost" if "r \<in> set (Answers sampleAnswer)" for r using that by (auto simp: sampleAnswer_def)
    have q: "cQuestion (samplePtrQuery x) = \<lparr>qName = reverseName x, qType = TypePTR, qClass = ClassINET\<rparr>" by (simp add: samplePtrQuery_def)
    have n: "\<forall>(resp, t) \<in> {(sampleAnswer, 0)}. \<forall>r \<in> set (Answers resp). name_ok (hName (Hdr r))" using h ok by simp
    from conjunct2 [OF rv_answers_reverse [OF r minuteCache_ok n l q, of sampleNext]] hit h show ?thesis by auto
  qed
  from s this [of "Addr4 host4"] this [of "Addr6 host6 []"] show ?thesis unfolding Let_def by (intro exI conjI) simp_all
qed

end
