(* ===== verification/DnsFit.thy ===== *)
theory DnsFit
  imports DnsMsgCodec
begin

text \<open>
  Messages that fit: packing with a size limit leaves nothing out if the uncompressed message is within the limit,
  so what is packed is what packing without a limit gives, and it unpacks to the message.
\<close>

section \<open>Compression shortens\<close>

locale shrinking_codec = wire_codec +
  assumes len_compressed: "valid a \<Longrightarrow> \<exists>n n'. packLen a cm = Inr n \<and> packLen a None = Inr n' \<and> n \<le> n'"

context shrinking_codec begin

text \<open>The records that are not skipped fit.\<close>

lemma packMany_fits:
  assumes "list_all valid xs" "off \<le> length b" "cmap_ok (drop off b) cm" "limit > 0"
    and "list_all2 (\<lambda>x n. packLen x None = Inr n) (filter (\<lambda>x. \<not> skip x) xs) lens" "int (length b + sum_list lens) \<le> limit"
  shows "\<exists>x cm'. packMany pack packLen skip limit off xs b cm tc = Inr (b @ x, cm', tc) \<and>
    packMany pack packLen (\<lambda>_. False) 0 off (filter (\<lambda>x. \<not> skip x) xs) b cm tc = Inr (b @ x, cm', tc) \<and>
    length x \<le> sum_list lens \<and> cmap_ok (drop off b @ x) cm'"
  using assms
proof (induction xs arbitrary: b cm lens)
  case Nil
  then show ?case by simp
next
  case (Cons a as)
  show ?case
  proof (cases "skip a")
    case True
    then show ?thesis using Cons.IH [of b cm lens] Cons.prems by simp
  next
    case ns: False
    then obtain n ls where lens: "lens = n # ls" "packLen a None = Inr n"
      "list_all2 (\<lambda>x n. packLen x None = Inr n) (filter (\<lambda>x. \<not> skip x) as) ls"
      using Cons.prems(5) by (auto simp: list_all2_Cons1)
    from packs [of a off b cm] Cons.prems obtain x cm1 where 1:
      "pack a b cm off = Inr (b @ x, cm1)" "cmap_le cm cm1" "cmap_ok (drop off b @ x) cm1" by auto
    obtain l where l: "packLen a cm = Inr l" "l \<le> n" using len_compressed [of a cm] Cons.prems(1) lens(2) by auto
    obtain k where "packLen a cm = Inr k" "length x \<le> k" using len [OF _ cmap_le_refl 1(1)] Cons.prems(1) by auto
    with l have x: "length x \<le> n" by simp
    have d: "drop off (b @ x) = drop off b @ x" using Cons.prems(2) by simp
    from Cons.IH [of "b @ x" cm1 ls] Cons.prems 1(3) d lens(1,3) x obtain y cm' where 2:
      "packMany pack packLen skip limit off as (b @ x) cm1 tc = Inr (b @ x @ y, cm', tc)"
      "packMany pack packLen (\<lambda>_. False) 0 off (filter (\<lambda>x. \<not> skip x) as) (b @ x) cm1 tc = Inr (b @ x @ y, cm', tc)"
      "length y \<le> sum_list ls" "cmap_ok (drop off b @ x @ y) cm'" by auto
    have "\<not> int (length b + l) > limit" using Cons.prems(6) l(2) lens(1) by simp
    then show ?thesis using 1 2 l ns Cons.prems(4) x lens(1)
      by (intro exI [of _ "x @ y"] exI [of _ cm']) simp
  qed
qed

lemma packMany_len_le:
  assumes "list_all valid xs" "off \<le> length b" "cmap_ok (drop off b) cm" "list_all2 (\<lambda>x n. packLen x None = Inr n) xs lens"
    and "packMany pack packLen (\<lambda>_. False) 0 off xs b cm tc = Inr (b', cm', tc')"
  shows "length b' \<le> length b + sum_list lens \<and> off \<le> length b' \<and> cmap_ok (drop off b') cm'"
  using packMany_fits [OF assms(1-3), of "int (length b + sum_list lens) + 1" "\<lambda>_. False" lens tc] assms(2,4,5) by auto

end

lemma name_shorter:
  assumes "name_ok n"
  shows "\<exists>k k'. namePackLen n cm = Inr k \<and> namePackLen n None = Inr k' \<and> k \<le> k'"
proof -
  obtain ls where ls: "labels_ok ls" "n = name_of ls" using assms by (auto simp: name_ok_def)
  have "\<forall>suf. cmap_find None suf \<noteq> None \<longrightarrow> cmap_find cm suf \<noteq> None" by simp
  from namePackLenFrom_antimono [OF ls(1) this, of 0] ls(2) show ?thesis by (auto simp: namePackLen_def)
qed

lemma body_shorter:
  assumes "tag_ok r"
  shows "\<exists>k k'. packBodyLen r cm = Inr k \<and> packBodyLen r None = Inr k' \<and> k \<le> k'"
proof (cases r)
  case (SOA_rr h nsd mb s rf rt ex mt)
  then have "name_ok nsd" "name_ok mb" using assms by (auto simp: packable_def)
  from name_shorter [OF this(1), of cm] name_shorter [OF this(2), of cm] show ?thesis using SOA_rr by auto
next
  case (NAME_rr h n)
  then show ?thesis using assms name_shorter [of n cm] by (auto simp: packable_def)
next
  case (MX_rr h p n)
  then show ?thesis using assms name_shorter [of n cm] by (auto simp: packable_def)
next
  case (SRV_rr h p w po n)
  then show ?thesis using assms name_shorter [of n cm] by (auto simp: packable_def)
qed auto

interpretation question_fit: shrinking_codec questionPack questionPackLen questionUnpack question_ok "(=)" "\<lambda>q. nlabels (qName q)"
proof unfold_locales
  fix a :: Question and cm
  assume "question_ok a"
  then show "\<exists>n n'. questionPackLen a cm = Inr n \<and> questionPackLen a None = Inr n' \<and> n \<le> n'"
    using name_shorter [of "qName a" cm] by (auto simp: questionPackLen_def question_ok_def packable_def)
qed

interpretation resource_fit: shrinking_codec packRR packRRLen unpackResource resource_ok same_rr rr_depth
proof unfold_locales
  fix a :: Resource and cm
  assume a: "resource_ok a"
  then have t: "tag_ok a" and n: "name_ok (hName (Hdr a))" by (auto simp: resource_ok_def packable_def)
  obtain k k' where k: "packBodyLen a cm = Inr k" "packBodyLen a None = Inr k'" "k \<le> k'" using body_shorter [OF t] by blast
  have "k' \<le> 65535" using packBodyLen_le [OF t, of None] k(2) by simp
  then show "\<exists>n n'. packRRLen a cm = Inr n \<and> packRRLen a None = Inr n' \<and> n \<le> n'"
    using name_shorter [OF n, of cm] k by (auto simp: packRRLen_def hdrPackLen_def)
qed

section \<open>Messages that fit\<close>

text \<open>An EDNS0 record, if there is one, is the last of the additional records, where packing puts it.\<close>

definition opt_last :: "Msg \<Rightarrow> bool" where
  "opt_last m \<longleftrightarrow> (\<forall>r \<in> set (Additionals m). \<not> isOPT r) \<or>
     (\<exists>rs r. Additionals m = rs @ [r] \<and> isOPT r \<and> (\<forall>r \<in> set rs. \<not> isOPT r))"

definition lens_of :: "('a \<Rightarrow> cmap \<Rightarrow> nat dres) \<Rightarrow> 'a list \<Rightarrow> nat list \<Rightarrow> bool" where
  "lens_of pl xs lens \<longleftrightarrow> list_all2 (\<lambda>x n. pl x None = Inr n) xs lens"

lemma sumLen_Inr: "sumLen f xs s = Inr n \<Longrightarrow> \<exists>lens. list_all2 (\<lambda>x n. f x = Inr n) xs lens \<and> n = s + sum_list lens"
proof (induction xs arbitrary: s)
  case (Cons a as)
  then obtain l where "f a = Inr l" "sumLen f as (s + l) = Inr n" by (auto simp: res_simps)
  moreover from Cons.IH [OF this(2)] obtain ls where "list_all2 (\<lambda>x n. f x = Inr n) as ls" "n = s + l + sum_list ls" by blast
  ultimately show ?case by (intro exI [of _ "l # ls"]) simp
qed simp

lemma maxPackLen_lens:
  assumes "maxPackLen m = Inr n"
  shows "\<exists>l1 l2 l3 l4. lens_of questionPackLen (Questions m) l1 \<and> lens_of packRRLen (Answers m) l2 \<and>
    lens_of packRRLen (Authorities m) l3 \<and> lens_of packRRLen (Additionals m) l4 \<and>
    n = 12 + sum_list l1 + sum_list l2 + sum_list l3 + sum_list l4"
proof -
  obtain a b c where s: "sumLen (\<lambda>q. questionPackLen q None) (Questions m) 12 = Inr a"
    "sumLen (\<lambda>r. packRRLen r None) (Answers m) a = Inr b" "sumLen (\<lambda>r. packRRLen r None) (Authorities m) b = Inr c"
    "sumLen (\<lambda>r. packRRLen r None) (Additionals m) c = Inr n"
    using assms by (auto simp: maxPackLen_def res_simps)
  from sumLen_Inr [OF s(1)] sumLen_Inr [OF s(2)] sumLen_Inr [OF s(3)] sumLen_Inr [OF s(4)]
  show ?thesis unfolding lens_of_def by (elim exE conjE) (intro exI conjI; (assumption | simp))
qed

lemma filter_all: "\<forall>x \<in> set xs. \<not> P x \<Longrightarrow> filter (\<lambda>x. \<not> P x) xs = xs"
  by (induction xs) auto

lemma packMany_append: "packMany pk pl sk 0 off (xs @ ys) b cm tc =
    thenE (packMany pk pl sk 0 off xs b cm tc) (\<lambda>(b, cm, tc). packMany pk pl sk 0 off ys b cm tc)"
proof (induction xs arbitrary: b cm tc)
  case (Cons a as)
  then show ?case by (cases "pk a b cm off") auto
qed simp

text \<open>The four sections, and then the EDNS0 record, as without a limit.\<close>

lemma packSections_fits:
  assumes ok: "msg_ok m" and lim: "limit > 0" and off: "off \<le> length b" and cm: "cmap_ok (drop off b) cm"
    and opt: "opt = lastOPT (Additionals m)" "opt_last m"
    and l: "lens_of questionPackLen (Questions m) l1" "lens_of packRRLen (Answers m) l2"
      "lens_of packRRLen (Authorities m) l3" "lens_of packRRLen (filter (\<lambda>r. \<not> isOPT r) (Additionals m)) l4"
    and room: "int (length b + sum_list l1 + sum_list l2 + sum_list l3 + sum_list l4) \<le> limit"
    and run: "packSections m None 0 off b cm = Inr r"
  shows "packSections m opt limit off b cm = Inr r"
proof -
  have v: "list_all question_ok (Questions m)" "list_all resource_ok (Answers m)"
    "list_all resource_ok (Authorities m)" "list_all resource_ok (Additionals m)" using ok by (auto simp: msg_ok_def)
  have t: "filter (\<lambda>_. True) xs = xs" for xs :: "'a list" by simp
  from question_fit.packMany_fits [OF v(1) off cm lim, of "\<lambda>_. False" l1 False] l(1) room obtain x1 c1 where
    1: "packMany questionPack questionPackLen (\<lambda>_. False) limit off (Questions m) b cm False = Inr (b @ x1, c1, False)"
      "packMany questionPack questionPackLen (\<lambda>_. False) 0 off (Questions m) b cm False = Inr (b @ x1, c1, False)"
      "length x1 \<le> sum_list l1" "cmap_ok (drop off b @ x1) c1" by (auto simp: lens_of_def)
  have o1: "off \<le> length (b @ x1)" "cmap_ok (drop off (b @ x1)) c1" using off 1(4) by auto
  from resource_fit.packMany_fits [OF v(2) o1 lim, of "\<lambda>_. False" l2 False] l(2) room off 1(3) obtain x2 c2 where
    2: "packMany packRR packRRLen (\<lambda>_. False) limit off (Answers m) (b @ x1) c1 False = Inr (b @ x1 @ x2, c2, False)"
      "packMany packRR packRRLen (\<lambda>_. False) 0 off (Answers m) (b @ x1) c1 False = Inr (b @ x1 @ x2, c2, False)"
      "length x2 \<le> sum_list l2" "cmap_ok (drop off b @ x1 @ x2) c2" by (auto simp: lens_of_def)
  have o2: "off \<le> length (b @ x1 @ x2)" "cmap_ok (drop off (b @ x1 @ x2)) c2" using off 2(4) by auto
  from resource_fit.packMany_fits [OF v(3) o2 lim, of "\<lambda>_. False" l3 False] l(3) room off 1(3) 2(3) obtain x3 c3 where
    3: "packMany packRR packRRLen (\<lambda>_. False) limit off (Authorities m) (b @ x1 @ x2) c2 False = Inr (b @ x1 @ x2 @ x3, c3, False)"
      "packMany packRR packRRLen (\<lambda>_. False) 0 off (Authorities m) (b @ x1 @ x2) c2 False = Inr (b @ x1 @ x2 @ x3, c3, False)"
      "length x3 \<le> sum_list l3" "cmap_ok (drop off b @ x1 @ x2 @ x3) c3" by (auto simp: lens_of_def)
  have o3: "off \<le> length (b @ x1 @ x2 @ x3)" "cmap_ok (drop off (b @ x1 @ x2 @ x3)) c3" using off 3(4) by auto
  have sk: "filter (\<lambda>r. \<not> (opt \<noteq> None \<and> isOPT r)) (Additionals m) = filter (\<lambda>r. \<not> isOPT r) (Additionals m)"
    using opt(1) lastOPT_None [of "Additionals m"] by (auto intro: filter_cong)
  from resource_fit.packMany_fits [OF v(4) o3 lim, of "\<lambda>r. opt \<noteq> None \<and> isOPT r" l4 False] l(4) room off 1(3) 2(3) 3(3)
  obtain x4 c4 where
    4: "packMany packRR packRRLen (\<lambda>r. opt \<noteq> None \<and> isOPT r) limit off (Additionals m) (b @ x1 @ x2 @ x3) c3 False =
        Inr (b @ x1 @ x2 @ x3 @ x4, c4, False)"
      "packMany packRR packRRLen (\<lambda>_. False) 0 off (filter (\<lambda>r. \<not> isOPT r) (Additionals m)) (b @ x1 @ x2 @ x3) c3 False =
        Inr (b @ x1 @ x2 @ x3 @ x4, c4, False)"
    unfolding sk by (auto simp: lens_of_def)
  let ?b4 = "b @ x1 @ x2 @ x3 @ x4"
  have lhs: "packSections m opt limit off b cm =
      (case opt of None \<Rightarrow> Inr (?b4, c4) | Some r \<Rightarrow> newSectionErr ''edns0'' (packRR r ?b4 c4 off))"
    unfolding packSections_def using 1(1) 2(1) 3(1) 4(1) by simp
  have rhs: "packSections m None 0 off b cm = thenE (newSectionErr ''additional''
      (packMany packRR packRRLen (\<lambda>_. False) 0 off (Additionals m) (b @ x1 @ x2 @ x3) c3 False)) (\<lambda>(b, cm, tc). Inr (b, cm))"
    unfolding packSections_def using 1(2) 2(2) 3(2) by simp
  from opt(2) consider "\<forall>r \<in> set (Additionals m). \<not> isOPT r"
    | rs o' where "Additionals m = rs @ [o']" "isOPT o'" "\<forall>r \<in> set rs. \<not> isOPT r" unfolding opt_last_def by blast
  then show ?thesis
  proof cases
    case 1
    then have "opt = None" "filter (\<lambda>r. \<not> isOPT r) (Additionals m) = Additionals m"
      using opt(1) lastOPT_None [of "Additionals m"] by (simp_all add: filter_all)
    then show ?thesis using run lhs rhs 4(2) by simp
  next
    case 2
    then have o: "opt = Some o'" "filter (\<lambda>r. \<not> isOPT r) (Additionals m) = rs"
      using opt(1) by (simp_all add: lastOPT_snoc filter_all)
    have "packMany packRR packRRLen (\<lambda>_. False) 0 off (Additionals m) (b @ x1 @ x2 @ x3) c3 False =
        thenE (packRR o' ?b4 c4 off) (\<lambda>(b, cm). Inr (b, cm, False))"
      using 4(2) [unfolded o(2)] 2(1) by (simp add: packMany_append split: prod.splits)
    then show ?thesis using run lhs rhs o(1) by (cases "packRR o' ?b4 c4 off") (auto simp: newSectionErr_def wrapE_def split: fail.splits)
  qed
qed

lemma lens_split:
  assumes "lens_of pl xs lens"
  shows "\<exists>l. lens_of pl (filter P xs) l \<and> sum_list l \<le> sum_list lens"
proof -
  have "list_all2 (\<lambda>x n. pl x None = Inr n) xs lens" using assms by (simp add: lens_of_def)
  then show ?thesis
  proof (induction rule: list_all2_induct)
    case (Cons x xs y ys)
    then obtain l where "lens_of pl (filter P xs) l" "sum_list l \<le> sum_list ys" by blast
    then show ?case using Cons(1) by (cases "P x") (auto simp: lens_of_def intro: exI [of _ "y # l"] exI [of _ l])
  qed (simp add: lens_of_def)
qed

text \<open>The data of the EDNS0 record is set aside; the lengths of the others leave room for it.\<close>

lemma lens_opt:
  assumes "lens_of packRRLen (Additionals m) lens" "opt_last m" "list_all resource_ok (Additionals m)"
  shows "\<exists>l. lens_of packRRLen (filter (\<lambda>r. \<not> isOPT r) (Additionals m)) l \<and> int (sum_list l) + optData m \<le> int (sum_list lens)"
proof -
  from assms(2) consider "\<forall>r \<in> set (Additionals m). \<not> isOPT r"
    | rs r where "Additionals m = rs @ [r]" "isOPT r" "\<forall>r \<in> set rs. \<not> isOPT r" unfolding opt_last_def by blast
  then show ?thesis
  proof cases
    case 1
    then have "optData m = 0" "filter (\<lambda>r. \<not> isOPT r) (Additionals m) = Additionals m"
      using lastOPT_None [of "Additionals m"] by (simp_all add: optData_def filter_all)
    then show ?thesis using assms(1) by auto
  next
    case 2
    then have l: "lastOPT (Additionals m) = Some r" "filter (\<lambda>r. \<not> isOPT r) (Additionals m) = rs"
      by (simp_all add: lastOPT_snoc filter_all)
    from opt_raw [OF assms(3) l(1)] obtain h d where r: "r = Raw_rr h d" by blast
    from assms(1) 2(1) obtain ls n where ls: "lens = ls @ [n]" "lens_of packRRLen rs ls" "packRRLen r None = Inr n"
      by (auto simp: lens_of_def list_all2_append1 list_all2_Cons1)
    then have "n \<ge> length d" using r by (auto simp: packRRLen_def res_simps split: if_splits)
    then show ?thesis using ls l r by (auto simp: optData_def)
  qed
qed

lemma pack_fits:
  assumes ok: "msg_ok m" and o: "opt_last m" and lim: "limit > 0"
    and n: "maxPackLen m = Inr n" "int (length b + n) \<le> minLimit limit"
    and run: "msgPack m b compression 0 = Inr out"
  shows "msgPack m b compression limit = Inr out"
proof -
  have v: "list_all resource_ok (Additionals m)" using ok by (simp add: msg_ok_def)
  obtain l1 l2 l3 l4 where l: "lens_of questionPackLen (Questions m) l1" "lens_of packRRLen (Answers m) l2"
    "lens_of packRRLen (Authorities m) l3" "lens_of packRRLen (Additionals m) l4"
    "n = 12 + sum_list l1 + sum_list l2 + sum_list l3 + sum_list l4"
    using maxPackLen_lens [OF n(1)] by blast
  obtain l5 where l5: "lens_of packRRLen (filter (\<lambda>r. \<not> isOPT r) (Additionals m)) l5"
    "int (sum_list l5) + optData m \<le> int (sum_list l4)" using lens_opt [OF l(4) o v] by blast
  have opt: "limitOPT m limit = lastOPT (Additionals m)" using lim by (simp add: limitOPT_def minLimit_def)
  have d: "optData m \<ge> 0" by (simp add: optData_def split: option.splits)
  have e: "ednsLimit (limitOPT m limit) (minLimit limit) = Inr (minLimit limit - optData m)"
    using opt_raw(2) [OF v] unfolding opt by (auto simp: ednsLimit_def optData_def split: option.splits)
  from run obtain cm where r: "counts_ok m" "packSections m None 0 (length b) (b @ headerBytes m) (startMap m compression) = Inr (out, cm)"
    by (auto simp: msgPack_eq_Inr ednsLimit_def)
  have "packSections m (lastOPT (Additionals m)) (minLimit limit - optData m) (length b) (b @ headerBytes m) (startMap m compression) = Inr (out, cm)"
    by (rule packSections_fits [OF ok _ _ _ refl o l(1-3) l5(1) _ r(2)]) (use n l l5 d in auto)
  then show ?thesis using r(1) e opt by (auto simp: msgPack_eq_Inr)
qed

lemma pack_len_le:
  assumes ok: "msg_ok m" and n: "maxPackLen m = Inr n" and run: "msgPack m b compression 0 = Inr (b @ x)"
  shows "length x \<le> n"
proof -
  have v: "list_all question_ok (Questions m)" "list_all resource_ok (Answers m)"
    "list_all resource_ok (Authorities m)" "list_all resource_ok (Additionals m)" using ok by (auto simp: msg_ok_def)
  obtain l1 l2 l3 l4 where l: "lens_of questionPackLen (Questions m) l1" "lens_of packRRLen (Answers m) l2"
    "lens_of packRRLen (Authorities m) l3" "lens_of packRRLen (Additionals m) l4"
    "n = 12 + sum_list l1 + sum_list l2 + sum_list l3 + sum_list l4"
    using maxPackLen_lens [OF n] by blast
  from run obtain cm where "packSections m None 0 (length b) (b @ headerBytes m) (startMap m compression) = Inr (b @ x, cm)"
    by (auto simp: msgPack_eq_Inr ednsLimit_def)
  then obtain b1 c1 t1 b2 c2 t2 b3 c3 t3 t4 where
    p: "packMany questionPack questionPackLen (\<lambda>_. False) 0 (length b) (Questions m) (b @ headerBytes m) (startMap m compression) False =
        Inr (b1, c1, t1)"
      "packMany packRR packRRLen (\<lambda>_. False) 0 (length b) (Answers m) b1 c1 t1 = Inr (b2, c2, t2)"
      "packMany packRR packRRLen (\<lambda>_. False) 0 (length b) (Authorities m) b2 c2 t2 = Inr (b3, c3, t3)"
      "packMany packRR packRRLen (\<lambda>_. False) 0 (length b) (Additionals m) b3 c3 t3 = Inr (b @ x, cm, t4)"
    unfolding packSections_def by (auto simp: thenE_eq_Inr)
  note l = l [unfolded lens_of_def]
  have 1: "length b1 \<le> length b + 12 + sum_list l1" "length b \<le> length b1" "cmap_ok (drop (length b) b1) c1"
    using question_fit.packMany_len_le [OF v(1) _ _ l(1) p(1)] by simp_all
  have 2: "length b2 \<le> length b1 + sum_list l2" "length b \<le> length b2" "cmap_ok (drop (length b) b2) c2"
    using resource_fit.packMany_len_le [OF v(2) 1(2,3) l(2) p(2)] by simp_all
  have 3: "length b3 \<le> length b2 + sum_list l3" "length b \<le> length b3" "cmap_ok (drop (length b) b3) c3"
    using resource_fit.packMany_len_le [OF v(3) 2(2,3) l(3) p(3)] by simp_all
  have "length (b @ x) \<le> length b3 + sum_list l4"
    using resource_fit.packMany_len_le [OF v(4) 3(2,3) l(4) p(4)] by simp
  then show ?thesis using 1(1) 2(1) 3(1) l(5) by simp
qed

text \<open>Whoever unpacks what was packed gets the message.\<close>

lemma packed_fits_unpacks:
  assumes "msg_ok m" "hdr_ok (mHeader m)" "opt_last m" "limit > 0" "compression \<longrightarrow> msg_depth m \<le> 10"
    and "maxPackLen m = Inr n" "int (length b + n) \<le> minLimit limit"
  shows "\<exists>x m'. msgPack m b compression limit = Inr (b @ x) \<and> msgUnpack x = Inr m' \<and> same_msg m m' \<and> length x \<le> n"
  using pack_unpack_unlimited [OF assms(1,2), of 0 compression b] assms(5) pack_fits [OF assms(1,3,4,6,7)]
    pack_len_le [OF assms(1,6)] by blast

end
