(* ===== verification/Frame.thy ===== *)
theory Frame
  imports DnsFit
begin

text \<open>
  Messages on streams and in datagrams: reading (\<^verbatim>\<open>internal/dnsutils/net_io.go\<close>) and what upstreams are sent
  (\<^verbatim>\<open>internal/upstream/transport/utils.go\<close>). A stream is the list of the bytes that will come before its end;
  buffers come from a pool with any contents, \<open>junk n\<close> for one of \<open>n\<close> bytes.
\<close>

section \<open>Reading\<close>

datatype netErr = ErrEOF | ErrUnexpectedEOF | ErrInvalidMsg err | ErrPayloadOverFlow

text \<open>\<^verbatim>\<open>io.ReadFull\<close>: the bytes read, and the error if they are not enough.\<close>

definition readFull :: "nat \<Rightarrow> bytes \<Rightarrow> bytes \<times> netErr option \<times> bytes" where
  "readFull n c = (take n c, if length c \<ge> n then None else if c = [] then Some ErrEOF else Some ErrUnexpectedEOF, drop n c)"

definition netE :: "'a dres \<Rightarrow> (netErr, 'a) res" where
  "netE r = (case r of Inr x \<Rightarrow> Inr x | Inl Panic \<Rightarrow> Inl Panic | Inl (Err e) \<Rightarrow> Inl (Err (ErrInvalidMsg e)))"

text \<open>The message, how many bytes were read, and the rest of the stream.\<close>

definition readMsgFromTCP :: "bytes \<Rightarrow> (netErr, Msg) res \<times> nat \<times> bytes" where
  "readMsgFromTCP c =
    (case readFull 2 c of (hdr, e, c) \<Rightarrow>
     let n = length hdr in
     (case e of Some e \<Rightarrow> (Inl (Err e), n, c) | None \<Rightarrow>
      let len = unat (get_u16 (hdr ! 0) (hdr ! 1)) in
      (case readFull len c of (msg, e, c) \<Rightarrow>
       let n = n + length msg in
       (case e of Some e \<Rightarrow> (Inl (Err e), n, c) | None \<Rightarrow> (netE (msgUnpack msg), n, c)))))"

text \<open>A datagram that is longer than the buffer is cut off.\<close>

definition readMsgFromUDP :: "bytes \<Rightarrow> nat \<Rightarrow> (netErr, Msg) res \<times> nat" where
  "readMsgFromUDP c bufSize =
    (let bufSize = (if bufSize < 2048 then 2048 else bufSize);
         b = take bufSize c in
     (netE (msgUnpack b), length b))"

section \<open>Queries to upstreams\<close>

text \<open>Both write into a buffer of the exact length, so the message ends up in it.\<close>

definition packTcpMsg :: "(nat \<Rightarrow> bytes) \<Rightarrow> Msg \<Rightarrow> u16 \<Rightarrow> (netErr, bytes) res" where
  "packTcpMsg junk m qid =
    thenE (netE (maxPackLen m)) (\<lambda>l.
      if l > 65535 then Inl (Err ErrPayloadOverFlow)
      else thenE (netE (msgPack m (take 2 (junk (l + 2))) False 0)) (\<lambda>p.
        let b = take (l + 2) (p @ drop (length p) (junk (l + 2))) in
        Inr (put_u16 (word_of_nat l) @ put_u16 qid @ drop 4 b)))"

definition packMsg :: "(nat \<Rightarrow> bytes) \<Rightarrow> Msg \<Rightarrow> u16 \<Rightarrow> (netErr, bytes) res" where
  "packMsg junk m qid =
    thenE (netE (maxPackLen m)) (\<lambda>l.
    thenE (netE (msgPack m [] False 0)) (\<lambda>p.
      let b = take l (p @ drop (length p) (junk l)) in
      Inr (put_u16 qid @ drop 2 b)))"

definition copyMsgWithLenHdr :: "bytes \<Rightarrow> (netErr, bytes) res" where
  "copyMsgWithLenHdr m =
    (let l = length m in if l > 65535 then Inl (Err ErrPayloadOverFlow) else Inr (put_u16 (word_of_nat l) @ m))"

definition copyMsg :: "bytes \<Rightarrow> bytes" where
  "copyMsg m = m"

definition defaultIfLeZero :: "int \<Rightarrow> int \<Rightarrow> int" where
  "defaultIfLeZero i d = (if i > 0 then i else d)"

fun joinErr :: "'e list \<Rightarrow> 'e list option" where
  "joinErr [] = None"
| "joinErr es = Some es"

section \<open>Frames\<close>

lemma netE_simps [simp]: "netE (Inr x) = Inr x" "netE r = Inr x \<longleftrightarrow> r = Inr x"
  by (auto simp: netE_def split: sum.splits fail.splits)

lemma readFull_append [simp]: "length x = n \<Longrightarrow> readFull n (x @ c) = (x, None, c)"
  by (simp add: readFull_def)

text \<open>A frame that holds a message is read as this message, and nothing after it is.\<close>

lemma read_frame:
  assumes "length x \<le> 65535" "msgUnpack x = Inr m"
  shows "readMsgFromTCP (put_u16 (word_of_nat (length x)) @ x @ c) = (Inr m, length x + 2, c)"
proof -
  have "unat (word_of_nat (length x) :: u16) = length x" using assms(1) by (simp add: unat_of_nat)
  then show ?thesis using assms(2) by (simp add: readMsgFromTCP_def get_u16_put)
qed

text \<open>Only the first two bytes depend on the number of a message.\<close>

abbreviation with_id :: "Msg \<Rightarrow> u16 \<Rightarrow> Msg" where
  "with_id m q \<equiv> m\<lparr>mHeader := (mHeader m)\<lparr>ID := q\<rparr>\<rparr>"

lemma headerBytes_id: "headerBytes (with_id m q) = put_u16 q @ drop 2 (headerBytes m)"
  by (simp add: rawHeaderBytes_def rawHeaderOf_def headerPack_def Let_def)

lemma pack_with_id:
  assumes "msgPack m b compression limit = Inr (b @ x)"
  shows "msgPack (with_id m q) b compression limit = Inr (b @ put_u16 q @ drop 2 x)"
proof -
  from assms obtain l cm where c: "counts_ok m" "ednsLimit (limitOPT m limit) (minLimit limit) = Inr l"
    and p: "packSections m (limitOPT m limit) l (length b) (b @ headerBytes m) (startMap m compression) = Inr (b @ x, cm)"
    by (auto simp: msgPack_eq_Inr)
  from packSections_append_only [OF p, of "b @ headerBytes (with_id m q)"] obtain y where
    y: "b @ x = (b @ headerBytes m) @ y"
      "packSections m (limitOPT m limit) l (length b) (b @ headerBytes (with_id m q)) (startMap m compression) =
        Inr ((b @ headerBytes (with_id m q)) @ y, cm)" by auto
  from y(1) have "put_u16 q @ drop 2 x = headerBytes (with_id m q) @ y" by (simp add: headerBytes_id)
  moreover have "packSections (with_id m q) = packSections m" by (intro ext) (simp add: packSections_def)
  ultimately show ?thesis using c y(2)
    by (auto simp: msgPack_eq_Inr counts_ok_def limitOPT_def startMap_def)
qed

text \<open>What an upstream is sent for a query it gets under the number \<open>qid\<close>.\<close>

lemma sent_bytes:
  assumes ok: "msg_ok m" "hdr_ok (mHeader m)" and l: "maxPackLen m = Inr l"
  shows "\<exists>x m'. msgPack m b False 0 = Inr (b @ x) \<and> length x = l \<and> l \<ge> 12 \<and>
    msgUnpack (put_u16 qid @ drop 2 x) = Inr m' \<and> same_msg (with_id m qid) m'"
proof -
  obtain x where x: "msgPack m b False 0 = Inr (b @ x)" using pack_unpack_unlimited [OF ok, of 0 False b] by auto
  have n: "length x = l" using max_len_exact_at [OF ok(1) x] l by simp
  have "msg_ok (with_id m qid)" "hdr_ok (mHeader (with_id m qid))" using ok by (simp_all add: msg_ok_def hdr_ok_def counts_ok_def)
  from pack_unpack_unlimited [OF this, of 0 False b] pack_with_id [OF x, of qid]
  have "\<exists>m'. msgUnpack (put_u16 qid @ drop 2 x) = Inr m' \<and> same_msg (with_id m qid) m'" by auto
  moreover have "12 \<le> l" using maxPackLen_lens [OF l] by auto
  ultimately show ?thesis using x n by blast
qed

lemma frame_sent:
  assumes "msg_ok m" "hdr_ok (mHeader m)" "maxPackLen m = Inr l" "l \<le> 65535" "\<forall>n. length (junk n) = n"
  shows "\<exists>f m'. packTcpMsg junk m qid = Inr f \<and> readMsgFromTCP (f @ c) = (Inr m', l + 2, c) \<and> same_msg (with_id m qid) m'"
proof -
  obtain x m1 where x: "msgPack m (take 2 (junk (l + 2))) False 0 = Inr (take 2 (junk (l + 2)) @ x)" "length x = l" "l \<ge> 12"
    "msgUnpack (put_u16 qid @ drop 2 x) = Inr m1" "same_msg (with_id m qid) m1"
    using sent_bytes [OF assms(1-3)] by blast
  have j: "length (junk k) = k" for k using assms(5) by simp
  have f: "packTcpMsg junk m qid = Inr (put_u16 (word_of_nat l) @ put_u16 qid @ drop 2 x)"
    using assms(3,4) x(1,2) by (simp add: packTcpMsg_def Let_def j)
  have "length (put_u16 qid @ drop 2 x) = l" using x(2,3) by simp
  then have r: "readMsgFromTCP (put_u16 (word_of_nat l) @ put_u16 qid @ drop 2 x @ c) = (Inr m1, l + 2, c)"
    using read_frame [of "put_u16 qid @ drop 2 x" m1 c] assms(4) x(4) by simp
  then show ?thesis using f x(5) by auto
qed

text \<open>A query that is sent upstream under a number is received as this query with this number: as a frame of a
  stream, after which the reader is at the start of what follows, and as a datagram. The buffer may have held
  anything; the query must not be longer than a frame can hold.\<close>

theorem query_frame:
  assumes "msg_ok m" "hdr_ok (mHeader m)" "maxPackLen m = Inr l" "l \<le> 65535" "\<forall>n. length (junk n) = n"
  shows "(\<exists>f m'. packTcpMsg junk m qid = Inr f \<and> readMsgFromTCP (f @ c) = (Inr m', l + 2, c) \<and> same_msg (with_id m qid) m') \<and>
    (\<exists>d m'. packMsg junk m qid = Inr d \<and> (l \<le> n \<longrightarrow> readMsgFromUDP d n = (Inr m', l)) \<and> same_msg (with_id m qid) m')"
proof -
  obtain y m2 where y: "msgPack m [] False 0 = Inr y" "length y = l" "l \<ge> 12"
    "msgUnpack (put_u16 qid @ drop 2 y) = Inr m2" "same_msg (with_id m qid) m2"
    using sent_bytes [OF assms(1-3), of "[]" qid] by auto
  have d: "packMsg junk m qid = Inr (put_u16 qid @ drop 2 y)" using assms(3) y(1,2) by (simp add: packMsg_def)
  have "readMsgFromUDP (put_u16 qid @ drop 2 y) n = (Inr m2, l)" if "l \<le> n"
    using that y(2-4) by (simp add: readMsgFromUDP_def Let_def)
  with d y(5) have udp: "\<exists>d m'. packMsg junk m qid = Inr d \<and> (l \<le> n \<longrightarrow> readMsgFromUDP d n = (Inr m', l)) \<and> same_msg (with_id m qid) m'"
    by blast
  with frame_sent [OF assms] show ?thesis by (intro conjI)
qed

lemma sampleMsg_len: "\<exists>l \<le> 65535. maxPackLen sampleMsg = Inr l"
  by (simp add: maxPackLen_def sampleMsg_def questionPackLen_def packRRLen_def hdrPackLen_def namePackLen_def name_of_def)

theorem query_frame_witness:
  "\<exists>l f m'. packTcpMsg (\<lambda>n. replicate n 7) sampleMsg 9 = Inr f \<and> readMsgFromTCP (f @ [1]) = (Inr m', l + 2, [1]) \<and>
    same_msg (with_id sampleMsg 9) m'"
proof -
  obtain l where l: "maxPackLen sampleMsg = Inr l" "l \<le> 65535" using sampleMsg_len by blast
  have "\<forall>n. length (replicate n (7 :: u8)) = n" by simp
  from query_frame [OF sampleMsg_ok(1,2) l this, of 9 "[1]"] show ?thesis by blast
qed

end
