(* ===== verification/ConnPool.thy ===== *)
theory ConnPool
  imports Machine "HOL-Library.Multiset"
begin

text \<open>
  The pool of upstream connections (\<^verbatim>\<open>internal/connpool/pool.go\<close>). Connections and dial calls are numbers. What
  a connection reports when it is asked is an argument, since it may change at any time, and so is the order in
  which a map is iterated. The product with the floating-point ratio is a function \<open>allowed\<close>.
\<close>

section \<open>The pool\<close>

type_synonym conn = nat
type_synonym dial = nat

record ConnStatus =
  csClosed :: bool
  csAvailable :: bool

record dialingCall =
  dcQueue :: nat
  dcNotified :: bool
  dcConn :: "conn option"
  dcErr :: bool

record Opts =
  poMaxConn :: int
  poMaxStream :: int

record Pool =
  plClosed :: bool
  plDialing :: "dial set"
  plLast :: "dial option"
  plCalls :: "dial \<Rightarrow> dialingCall"
  plBusy :: "conn \<rightharpoonup> nat"
  plIdle :: "conn \<rightharpoonup> nat"

definition newDialCall :: dialingCall where
  "newDialCall = \<lparr>dcQueue = 0, dcNotified = False, dcConn = None, dcErr = False\<rparr>"

definition newPool :: Pool where
  "newPool = \<lparr>plClosed = False, plDialing = {}, plLast = None, plCalls = (\<lambda>_. newDialCall), plBusy = Map.empty, plIdle = Map.empty\<rparr>"

definition maxStream :: "Opts \<Rightarrow> nat" where
  "maxStream o' = (if poMaxStream o' > 0 then nat (poMaxStream o') else 1)"

record PoolStatus =
  psClosed :: bool
  psDialing :: nat
  psBusy :: nat
  psIdle :: nat

definition poolStatus :: "Pool \<Rightarrow> PoolStatus" where
  "poolStatus p = (if plClosed p then \<lparr>psClosed = True, psDialing = 0, psBusy = 0, psIdle = 0\<rparr>
     else \<lparr>psClosed = False, psDialing = card (plDialing p), psBusy = card (dom (plBusy p)), psIdle = card (dom (plIdle p))\<rparr>)"

abbreviation "maxSearchSteps \<equiv> 4 :: nat"

text \<open>The loop of \<^verbatim>\<open>pickBusyConnLocked\<close> over the busy connections: the one picked, and those left in the map.\<close>

fun pickLoop :: "nat \<Rightarrow> (conn \<Rightarrow> ConnStatus) \<Rightarrow> conn list \<Rightarrow> nat \<Rightarrow> conn option \<Rightarrow> (conn \<rightharpoonup> nat) \<Rightarrow> conn option \<times> (conn \<rightharpoonup> nat)" where
  "pickLoop mx st [] steps picked busy = (picked, busy)"
| "pickLoop mx st (c # cs) steps picked busy =
    (case busy c of None \<Rightarrow> pickLoop mx st cs steps picked busy | Some k \<Rightarrow>
     if csClosed (st c) then pickLoop mx st cs steps picked (busy(c := None))
     else if steps > maxSearchSteps then (picked, busy)
     else if \<not> csAvailable (st c) \<or> k \<ge> mx then pickLoop mx st cs (steps + 1) picked busy
     else if (case picked of None \<Rightarrow> True | Some d \<Rightarrow> k > the (busy d)) then
       (if k = mx - 1 then (Some c, busy) else pickLoop mx st cs (steps + 1) (Some c) busy)
     else pickLoop mx st cs (steps + 1) picked busy)"

definition pickBusyConn :: "nat \<Rightarrow> (conn \<Rightarrow> ConnStatus) \<Rightarrow> conn list \<Rightarrow> Pool \<Rightarrow> conn option \<times> Pool" where
  "pickBusyConn mx st order p = (case pickLoop mx st order 0 None (plBusy p) of
     (None, busy) \<Rightarrow> (None, p\<lparr>plBusy := busy\<rparr>)
   | (Some c, busy) \<Rightarrow> (Some c, p\<lparr>plBusy := busy(c \<mapsto> the (busy c) + 1)\<rparr>))"

fun idleLoop :: "(conn \<Rightarrow> ConnStatus) \<Rightarrow> conn list \<Rightarrow> (conn \<rightharpoonup> nat) \<Rightarrow> conn option \<times> (conn \<rightharpoonup> nat)" where
  "idleLoop st [] idle = (None, idle)"
| "idleLoop st (c # cs) idle =
    (if csClosed (st c) then idleLoop st cs (idle(c := None))
     else if \<not> csAvailable (st c) then idleLoop st cs idle
     else (Some c, idle))"

text \<open>\<^verbatim>\<open>Get\<close> up to the wait: a connection, a dial call to wait for, or an error. \<open>dc\<close> is a new dial call.\<close>

datatype getRes = GotConn conn | WaitDial dial | GetPoolClosed | GetNoConn

definition poolGet :: "Opts \<Rightarrow> (conn \<Rightarrow> ConnStatus) \<Rightarrow> conn list \<Rightarrow> conn list \<Rightarrow> dial \<Rightarrow> Pool \<Rightarrow> getRes \<times> Pool" where
  "poolGet o' st busyOrder idleOrder dc p =
    (if plClosed p then (GetPoolClosed, p)
     else case pickBusyConn (maxStream o') st busyOrder p of
       (Some c, p) \<Rightarrow> (GotConn c, p)
     | (None, p) \<Rightarrow>
       (case idleLoop st idleOrder (plIdle p) of
          (Some c, idle) \<Rightarrow> (GotConn c, p\<lparr>plIdle := idle(c := None), plBusy := (plBusy p)(c \<mapsto> the (idle c) + 1)\<rparr>)
        | (None, idle) \<Rightarrow>
          let p = p\<lparr>plIdle := idle\<rparr> in
          (case (case plLast p of Some d \<Rightarrow> if dcQueue (plCalls p d) < maxStream o' then Some d else None | None \<Rightarrow> None) of
             Some d \<Rightarrow> (WaitDial d, p\<lparr>plCalls := (plCalls p)(d := (plCalls p d)\<lparr>dcQueue := dcQueue (plCalls p d) + 1\<rparr>)\<rparr>)
           | None \<Rightarrow>
             if poMaxConn o' \<le> 0 \<or> int (card (plDialing p) + card (dom (plBusy p)) + card (dom (plIdle p))) < poMaxConn o' then
               (WaitDial dc, p\<lparr>plCalls := (plCalls p)(dc := newDialCall\<lparr>dcQueue := 1\<rparr>), plLast := Some dc, plDialing := insert dc (plDialing p)\<rparr>)
             else (GetNoConn, p))))"

text \<open>The end of the goroutine that dials; \<open>r\<close> is the connection if dialing succeeded. It may have to be closed.\<close>

definition dialDone :: "dial \<Rightarrow> conn option \<Rightarrow> Pool \<Rightarrow> conn list \<times> Pool" where
  "dialDone dc r p =
    (if plClosed p \<or> dcErr (plCalls p dc) then (case r of Some c \<Rightarrow> [c] | None \<Rightarrow> [], p)
     else let q = dcQueue (plCalls p dc);
       p = p\<lparr>plCalls := (plCalls p)(dc := (plCalls p dc)\<lparr>dcConn := r, dcErr := (r = None), dcNotified := True\<rparr>),
             plLast := (if plLast p = Some dc then None else plLast p), plDialing := plDialing p - {dc}\<rparr> in
     ([], case r of None \<Rightarrow> p | Some c \<Rightarrow>
        if q = 0 then p\<lparr>plIdle := (plIdle p)(c \<mapsto> q)\<rparr> else p\<lparr>plBusy := (plBusy p)(c \<mapsto> q)\<rparr>))"

fun closeLoop :: "conn \<Rightarrow> conn list \<Rightarrow> nat \<Rightarrow> (conn \<rightharpoonup> nat) \<Rightarrow> conn list \<times> nat \<times> (conn \<rightharpoonup> nat)" where
  "closeLoop c [] rm idle = ([], rm, idle)"
| "closeLoop c (d # ds) rm idle =
    (if d = c then closeLoop c ds rm idle
     else if rm - 1 \<le> 0 then ([d], rm - 1, idle(d := None))
     else case closeLoop c ds (rm - 1) (idle(d := None)) of (cl, r) \<Rightarrow> (d # cl, r))"

definition release :: "(conn \<Rightarrow> ConnStatus) \<Rightarrow> (nat \<Rightarrow> nat) \<Rightarrow> conn list \<Rightarrow> conn \<Rightarrow> Pool \<Rightarrow> conn list \<times> Pool" where
  "release st allowed idleOrder c p =
    (case plBusy p c of None \<Rightarrow> ([], p) | Some k \<Rightarrow>
     if csClosed (st c) then ([], p\<lparr>plBusy := (plBusy p)(c := None)\<rparr>)
     else if k - 1 = 0 then
       (let busy = (plBusy p)(c := None); idle = (plIdle p)(c \<mapsto> 0);
            maxIdleAllowed = max (allowed (card (dom busy))) 1;
            rm = card (dom idle) - maxIdleAllowed in
        if rm > 0 then
          (case closeLoop c idleOrder rm idle of (cl, rm, idle) \<Rightarrow>
             if rm > 0 then (cl @ [c], p\<lparr>plBusy := busy, plIdle := idle(c := None)\<rparr>)
             else (cl, p\<lparr>plBusy := busy, plIdle := idle\<rparr>))
        else ([], p\<lparr>plBusy := busy, plIdle := idle\<rparr>))
     else ([], p\<lparr>plBusy := (plBusy p)(c \<mapsto> k - 1)\<rparr>))"

definition markDead :: "conn \<Rightarrow> Pool \<Rightarrow> conn list \<times> Pool" where
  "markDead c p = ([c], p\<lparr>plIdle := (plIdle p)(c := None), plBusy := (plBusy p)(c := None)\<rparr>)"

definition cancelDial :: "dialingCall \<Rightarrow> dialingCall" where
  "cancelDial dc = (if dcConn dc \<noteq> None \<or> dcErr dc then dc else dc\<lparr>dcErr := True, dcNotified := True\<rparr>)"

definition poolClose :: "Pool \<Rightarrow> conn set \<times> Pool" where
  "poolClose p =
    (if plClosed p then ({}, p)
     else (dom (plBusy p) \<union> dom (plIdle p), p\<lparr>plClosed := True,
       plCalls := (\<lambda>d. if d \<in> plDialing p then cancelDial (plCalls p d) else plCalls p d)\<rparr>))"

text \<open>
  \<^verbatim>\<open>waitConn\<close> with the closure \<^verbatim>\<open>waitDialCall\<close> after it. With \<open>ctxDone\<close> the caller gives up, unless the
  call has been decided in the meantime.
\<close>

datatype waitRes = WaitGot conn | WaitFailed | WaitCtx | WaitUnavailable

definition waitDialCall :: "(conn \<Rightarrow> ConnStatus) \<Rightarrow> (nat \<Rightarrow> nat) \<Rightarrow> conn list \<Rightarrow> bool \<Rightarrow> dial \<Rightarrow> Pool \<Rightarrow> waitRes \<times> Pool" where
  "waitDialCall st allowed idleOrder ctxDone dc p =
    (let d = plCalls p dc in
     if ctxDone \<and> dcConn d = None \<and> \<not> dcErr d then (WaitCtx, p\<lparr>plCalls := (plCalls p)(dc := d\<lparr>dcQueue := dcQueue d - 1\<rparr>)\<rparr>)
     else case dcConn d of
       None \<Rightarrow> (WaitFailed, p)
     | Some c \<Rightarrow> if \<not> csAvailable (st c) then (WaitUnavailable, snd (release st allowed idleOrder c p)) else (WaitGot c, p))"

section \<open>The pool and its callers\<close>

text \<open>
  \<open>syDials\<close> are the goroutines that dial, \<open>syWaiting\<close> the callers that wait for a dial call and \<open>syHeld\<close> the
  connections callers have got and not released, once for every stream.
\<close>

record poolSys =
  syPool :: Pool
  syDials :: "dial set"
  syWaiting :: "dial list"
  syHeld :: "conn list"

datatype poolEv =
    EvGet "conn \<Rightarrow> ConnStatus" "conn list" "conn list" dial
  | EvDialed dial "conn option"
  | EvWait bool dial "conn \<Rightarrow> ConnStatus" "conn list"
  | EvRelease conn "conn \<Rightarrow> ConnStatus" "conn list"
  | EvMarkDead conn
  | EvClose

definition fresh_conn :: "poolSys \<Rightarrow> conn \<Rightarrow> bool" where
  "fresh_conn s c \<longleftrightarrow> c \<notin> dom (plBusy (syPool s)) \<and> c \<notin> dom (plIdle (syPool s)) \<and> c \<notin> set (syHeld s) \<and>
     (\<forall>d \<in> set (syWaiting s). dcConn (plCalls (syPool s) d) \<noteq> Some c)"

fun poolStep :: "Opts \<Rightarrow> (nat \<Rightarrow> nat) \<Rightarrow> poolEv \<Rightarrow> poolSys \<Rightarrow> poolSys option" where
  "poolStep o' al (EvGet st bo io dc) s =
    (if distinct bo \<and> set bo = dom (plBusy (syPool s)) \<and> distinct io \<and> set io = dom (plIdle (syPool s)) \<and>
        dc \<notin> syDials s \<and> dc \<notin> set (syWaiting s) then
       (case poolGet o' st bo io dc (syPool s) of (r, p) \<Rightarrow>
        let s' = s\<lparr>syPool := p\<rparr> in
        Some (case r of
          GotConn c \<Rightarrow> s'\<lparr>syHeld := c # syHeld s\<rparr>
        | WaitDial d \<Rightarrow> s'\<lparr>syWaiting := d # syWaiting s, syDials := (if d = dc then insert d (syDials s) else syDials s)\<rparr>
        | _ \<Rightarrow> s'))
     else None)"
| "poolStep o' al (EvDialed d r) s =
    (if d \<in> syDials s \<and> (case r of Some c \<Rightarrow> fresh_conn s c | None \<Rightarrow> True) then
       Some (s\<lparr>syPool := snd (dialDone d r (syPool s)), syDials := syDials s - {d}\<rparr>)
     else None)"
| "poolStep o' al (EvWait ctxDone d st io) s =
    (if d \<in> set (syWaiting s) \<and> (ctxDone \<or> dcNotified (plCalls (syPool s) d)) then
       (case waitDialCall st al io ctxDone d (syPool s) of (r, p) \<Rightarrow>
        let s' = s\<lparr>syPool := p, syWaiting := remove1 d (syWaiting s)\<rparr> in
        Some (case r of WaitGot c \<Rightarrow> s'\<lparr>syHeld := c # syHeld s\<rparr> | _ \<Rightarrow> s'))
     else None)"
| "poolStep o' al (EvRelease c st io) s =
    (if c \<in> set (syHeld s) then Some (s\<lparr>syPool := snd (release st al io c (syPool s)), syHeld := remove1 c (syHeld s)\<rparr>) else None)"
| "poolStep o' al (EvMarkDead c) s = Some (s\<lparr>syPool := snd (markDead c (syPool s))\<rparr>)"
| "poolStep o' al EvClose s = Some (s\<lparr>syPool := snd (poolClose (syPool s))\<rparr>)"

definition poolStart :: "poolSys \<Rightarrow> bool" where
  "poolStart s \<longleftrightarrow> s = \<lparr>syPool = newPool, syDials = {}, syWaiting = [], syHeld = []\<rparr>"

text \<open>How many callers use a connection: those that hold it and those that will get it from their dial call.\<close>

definition users :: "poolSys \<Rightarrow> conn \<Rightarrow> nat" where
  "users s c = count_list (syHeld s) c + length (filter (\<lambda>d. dcConn (plCalls (syPool s) d) = Some c) (syWaiting s))"

text \<open>The maps count the users; a dial call that is under way counts its waiters.\<close>

definition maps_ok :: "nat \<Rightarrow> (conn \<Rightarrow> nat) \<Rightarrow> (conn \<rightharpoonup> nat) \<Rightarrow> (conn \<rightharpoonup> nat) \<Rightarrow> bool" where
  "maps_ok mx us busy idle \<longleftrightarrow> finite (dom busy) \<and> finite (dom idle) \<and>
     (\<forall>c k. busy c = Some k \<longrightarrow> 1 \<le> k \<and> k \<le> mx \<and> us c = k \<and> idle c = None) \<and>
     (\<forall>c k. idle c = Some k \<longrightarrow> k = 0 \<and> us c = 0)"

definition calls_ok :: "nat \<Rightarrow> Pool \<Rightarrow> dial set \<Rightarrow> dial list \<Rightarrow> bool" where
  "calls_ok mx p dials waiting \<longleftrightarrow> finite (plDialing p) \<and> (\<not> plClosed p \<longrightarrow> plDialing p = dials \<and>
     (\<forall>d \<in> dials. plCalls p d = newDialCall\<lparr>dcQueue := count_list waiting d\<rparr> \<and> count_list waiting d \<le> mx) \<and>
     (\<forall>d. plLast p = Some d \<longrightarrow> d \<in> dials))"

definition conn_count :: "Pool \<Rightarrow> nat" where
  "conn_count p = card (plDialing p) + card (dom (plBusy p)) + card (dom (plIdle p))"

definition poolInv :: "Opts \<Rightarrow> poolSys \<Rightarrow> bool" where
  "poolInv o' s \<longleftrightarrow> maps_ok (maxStream o') (users s) (plBusy (syPool s)) (plIdle (syPool s)) \<and>
     calls_ok (maxStream o') (syPool s) (syDials s) (syWaiting s) \<and>
     (poMaxConn o' > 0 \<longrightarrow> int (conn_count (syPool s)) \<le> poMaxConn o')"

section \<open>The operations keep the counts\<close>

lemma maxStream_pos: "maxStream o' \<ge> 1"
  by (auto simp: maxStream_def)

text \<open>A loop may drop entries of a map but adds none.\<close>

lemma pickLoop_le: "pickLoop mx st cs n pk busy = (r, busy') \<Longrightarrow> busy' \<subseteq>\<^sub>m busy"
proof (induction mx st cs n pk busy arbitrary: r busy' rule: pickLoop.induct)
  case (2 mx st c cs n pk busy)
  have d: "(\<lambda>a. if a = c then None else busy a) \<subseteq>\<^sub>m busy" by (simp add: map_le_def dom_def)
  from 2 show ?case
    by (auto simp: fun_upd_def split: option.splits if_splits intro: map_le_trans [OF _ d])
qed simp

lemma pickLoop_pick:
  assumes "pickLoop mx st cs n pk busy = (Some c, busy')" "distinct cs"
    "\<forall>d. pk = Some d \<longrightarrow> d \<notin> set cs \<and> (\<exists>k < mx. busy d = Some k)"
  shows "\<exists>k < mx. busy' c = Some k"
  using assms
proof (induction mx st cs n pk busy arbitrary: rule: pickLoop.induct)
  case (2 mx st c' cs n pk busy)
  then show ?case by (auto simp: fun_upd_def split: option.splits if_splits)
qed auto

lemma idleLoop_le: "idleLoop st cs idle = (r, idle') \<Longrightarrow> idle' \<subseteq>\<^sub>m idle"
proof (induction st cs idle arbitrary: r idle' rule: idleLoop.induct)
  case (2 st c cs idle)
  have d: "(\<lambda>a. if a = c then None else idle a) \<subseteq>\<^sub>m idle" by (simp add: map_le_def dom_def)
  from 2 show ?case by (auto simp: fun_upd_def split: if_splits intro: map_le_trans [OF _ d])
qed simp

lemma idleLoop_pick: "idleLoop st cs idle = (Some c, idle') \<Longrightarrow> distinct cs \<Longrightarrow> set cs \<subseteq> dom idle \<Longrightarrow> c \<in> dom idle'"
proof (induction st cs idle arbitrary: idle' rule: idleLoop.induct)
  case (2 st d cs idle)
  then have "set cs \<subseteq> dom (\<lambda>a. if a = d then None else idle a)" by (auto simp: dom_def)
  with 2 show ?case by (auto simp: fun_upd_def split: if_splits)
qed simp

lemma closeLoop_le: "closeLoop c ds rm idle = (cl, rm', idle') \<Longrightarrow> idle' \<subseteq>\<^sub>m idle"
proof (induction c ds rm idle arbitrary: cl rm' idle' rule: closeLoop.induct)
  case (2 c d ds rm idle)
  have d: "(\<lambda>a. if a = d then None else idle a) \<subseteq>\<^sub>m idle" by (simp add: map_le_def dom_def)
  from 2 show ?case by (auto simp: fun_upd_def split: if_splits prod.splits intro: map_le_trans [OF _ d] d)
qed simp

lemma maps_ok_le: "maps_ok mx us busy idle \<Longrightarrow> busy' \<subseteq>\<^sub>m busy \<Longrightarrow> idle' \<subseteq>\<^sub>m idle \<Longrightarrow> maps_ok mx us busy' idle'"
  unfolding maps_ok_def by (smt (verit) domIff finite_subset map_le_def map_le_implies_dom_le option.simps(3))

lemma card_dom_le: "m \<subseteq>\<^sub>m m' \<Longrightarrow> finite (dom m') \<Longrightarrow> card (dom m) \<le> card (dom m')"
  by (simp add: card_mono map_le_implies_dom_le)

text \<open>What the operations on the maps leave alone.\<close>

definition same_calls :: "Pool \<Rightarrow> Pool \<Rightarrow> bool" where
  "same_calls p p' \<longleftrightarrow> plClosed p' = plClosed p \<and> plDialing p' = plDialing p \<and> plLast p' = plLast p \<and> plCalls p' = plCalls p"

lemma same_callsD: "same_calls p p' \<Longrightarrow> calls_ok mx p ds ws \<Longrightarrow> calls_ok mx p' ds ws"
  by (auto simp: same_calls_def calls_ok_def)

definition fewer :: "Pool \<Rightarrow> Pool \<Rightarrow> bool" where
  "fewer p p' \<longleftrightarrow> card (dom (plBusy p')) + card (dom (plIdle p')) \<le> card (dom (plBusy p)) + card (dom (plIdle p))"

lemma idle_enter:
  assumes "maps_ok mx us busy idle" "busy c = Some 1"
  shows "maps_ok mx (us(c := 0)) (busy(c := None)) (idle(c \<mapsto> 0))"
    "card (dom (busy(c := None))) + card (dom (idle(c \<mapsto> 0))) = card (dom busy) + card (dom idle)"
proof -
  have f: "finite (dom busy)" "finite (dom idle)" and c: "c \<in> dom busy" "c \<notin> dom idle" using assms by (auto simp: maps_ok_def)
  then have "card (dom busy) > 0" by (auto simp: card_gt_0_iff)
  then show "card (dom (busy(c := None))) + card (dom (idle(c \<mapsto> 0))) = card (dom busy) + card (dom idle)"
    using f c by (simp add: card_Diff_singleton)
qed (use assms in \<open>auto simp: maps_ok_def\<close>)

lemma release_ok:
  assumes "maps_ok mx us (plBusy p) (plIdle p)" "us c \<ge> 1" "release st al io c p = (cl, p')"
  shows "maps_ok mx (us(c := us c - 1)) (plBusy p') (plIdle p') \<and> same_calls p p' \<and> fewer p p'"
proof (cases "plBusy p c")
  case None
  moreover have "plIdle p c = None" using assms(1,2) by (cases "plIdle p c") (auto simp: maps_ok_def)
  ultimately show ?thesis using assms by (auto simp: release_def maps_ok_def same_calls_def fewer_def)
next
  case (Some k)
  have us: "us c = k" "k \<ge> 1" "k \<le> mx" and f: "finite (dom (plBusy p))" "finite (dom (plIdle p))" using assms(1) Some by (auto simp: maps_ok_def)
  then have less: "k - Suc 0 \<le> mx" by linarith
  show ?thesis
  proof (cases "csClosed (st c) \<or> k - 1 \<noteq> 0")
    case True
    have "card (dom ((plBusy p)(c := None))) \<le> card (dom (plBusy p))" using f by (intro card_dom_le) (auto simp: map_le_def)
    moreover have "insert c (dom (plBusy p)) = dom (plBusy p)" using Some by auto
    ultimately show ?thesis using assms True Some us less
      by (auto simp: release_def maps_ok_def same_calls_def fewer_def split: if_splits)
  next
    case False
    then have k: "k = 1" using us by simp
    let ?b = "(plBusy p)(c := None)" and ?i = "(plIdle p)(c \<mapsto> 0)"
    note ent = idle_enter [OF assms(1) Some [unfolded k]]
    have i: "finite (dom ?i)" using f by simp
    obtain idle' where p': "p' = p\<lparr>plBusy := ?b, plIdle := idle'\<rparr>" "idle' \<subseteq>\<^sub>m ?i"
    proof -
      have "\<exists>idle'. p' = p\<lparr>plBusy := ?b, plIdle := idle'\<rparr> \<and> idle' \<subseteq>\<^sub>m ?i"
      proof (cases "card (dom ?i) - max (al (card (dom ?b))) 1 > 0")
        case rm: True
        obtain x n j where l: "closeLoop c io (card (dom ?i) - max (al (card (dom ?b))) 1) ?i = (x, n, j)" by (cases "closeLoop c io (card (dom ?i) - max (al (card (dom ?b))) 1) ?i") auto
        have le: "j \<subseteq>\<^sub>m ?i" by (rule closeLoop_le [OF l])
        have "j(c := None) \<subseteq>\<^sub>m j" by (simp add: map_le_def dom_def)
        then have "j(c := None) \<subseteq>\<^sub>m ?i" using le by (rule map_le_trans)
        then show ?thesis using assms(3) Some False rm l le by (auto simp: release_def Let_def split: if_splits)
      next
        case rm: False
        then show ?thesis using assms(3) Some False by (auto simp: release_def Let_def)
      qed
      then show ?thesis using that by blast
    qed
    have "maps_ok mx (us(c := us c - 1)) ?b idle'"
      by (rule maps_ok_le [OF _ map_le_refl p'(2)]) (use ent(1) us k in simp)
    moreover have "card (dom ?b) + card (dom idle') \<le> card (dom (plBusy p)) + card (dom (plIdle p))"
      using card_dom_le [OF p'(2) i] ent(2) by simp
    ultimately show ?thesis using p' by (simp add: same_calls_def fewer_def)
  qed
qed

section \<open>Every step keeps the invariant\<close>

lemma count_remove1: "count_list (remove1 x xs) y = count_list xs y - (if x = y then 1 else 0)"
  by (induction xs) (auto simp: count_list_0_iff)

lemma length_filter_remove1: "length (filter P (remove1 d xs)) = length (filter P xs) - (if d \<in> set xs \<and> P d then 1 else 0)"
  by (simp add: filter_remove1 length_remove1)

lemma users_hold: "users (s\<lparr>syPool := p, syHeld := c # syHeld s\<rparr>) = (users s)(c := users s c + 1)" if "plCalls p = plCalls (syPool s)"
  using that by (auto simp: users_def)

lemma users_calls: "plCalls p = plCalls (syPool s) \<Longrightarrow> users (s\<lparr>syPool := p\<rparr>) = users s"
  by (auto simp: users_def)

lemma users_wait: "users (s\<lparr>syPool := p, syWaiting := d # syWaiting s, syDials := ds\<rparr>) = users s"
  if "\<forall>e \<in> set (syWaiting s). dcConn (plCalls p e) = dcConn (plCalls (syPool s) e)" "dcConn (plCalls p d) = None"
proof -
  have "filter (\<lambda>d. dcConn (plCalls p d) = Some c) (syWaiting s) =
      filter (\<lambda>d. dcConn (plCalls (syPool s) d) = Some c) (syWaiting s)" for c
    using that by (intro filter_cong) auto
  then show ?thesis using that by (auto simp: users_def)
qed

lemma get_step:
  assumes inv: "poolInv o' s" and g: "distinct bo" "distinct io" "set io = dom (plIdle (syPool s))"
    "dc \<notin> syDials s" "dc \<notin> set (syWaiting s)"
    and run: "poolGet o' st bo io dc (syPool s) = (r, p)"
  shows "poolInv o' (case r of GotConn c \<Rightarrow> s\<lparr>syPool := p, syHeld := c # syHeld s\<rparr>
    | WaitDial d \<Rightarrow> s\<lparr>syPool := p, syWaiting := d # syWaiting s, syDials := (if d = dc then insert d (syDials s) else syDials s)\<rparr>
    | _ \<Rightarrow> s\<lparr>syPool := p\<rparr>)"
proof (cases "plClosed (syPool s)")
  case True
  then show ?thesis using inv run by (auto simp: poolGet_def)
next
  case opn: False
  let ?p = "syPool s" and ?mx = "maxStream o'"
  have maps: "maps_ok ?mx (users s) (plBusy ?p) (plIdle ?p)" and calls: "calls_ok ?mx ?p (syDials s) (syWaiting s)"
    and cnt: "poMaxConn o' > 0 \<longrightarrow> int (conn_count ?p) \<le> poMaxConn o'" using inv by (auto simp: poolInv_def)
  have f: "finite (dom (plBusy ?p))" "finite (dom (plIdle ?p))" using maps by (auto simp: maps_ok_def)
  obtain pk busy where pk: "pickLoop ?mx st bo 0 None (plBusy ?p) = (pk, busy)" by fastforce
  have le: "busy \<subseteq>\<^sub>m plBusy ?p" by (rule pickLoop_le [OF pk])
  have cb: "card (dom busy) \<le> card (dom (plBusy ?p))" by (rule card_dom_le [OF le f(1)])
  show ?thesis
  proof (cases pk)
    case (Some c)
    then obtain k where k: "k < ?mx" "busy c = Some k" using pickLoop_pick [OF pk [unfolded Some] g(1)] by auto
    have p: "r = GotConn c" "p = ?p\<lparr>plBusy := busy(c \<mapsto> k + 1)\<rparr>" using run pk Some opn k by (auto simp: poolGet_def pickBusyConn_def)
    have "maps_ok ?mx (users s) busy (plIdle ?p)" by (rule maps_ok_le [OF maps le map_le_refl])
    then have "maps_ok ?mx ((users s)(c := users s c + 1)) (busy(c \<mapsto> k + 1)) (plIdle ?p)"
      using k by (auto simp: maps_ok_def)
    moreover have "dom (busy(c \<mapsto> k + 1)) = dom busy" using k(2) by auto
    ultimately show ?thesis using calls cnt cb p
      by (auto simp: poolInv_def users_hold calls_ok_def conn_count_def)
  next
    case None
    obtain ik idle where ik: "idleLoop st io (plIdle ?p) = (ik, idle)" by fastforce
    have ile: "idle \<subseteq>\<^sub>m plIdle ?p" by (rule idleLoop_le [OF ik])
    have ci: "card (dom idle) \<le> card (dom (plIdle ?p))" by (rule card_dom_le [OF ile f(2)])
    have maps': "maps_ok ?mx (users s) busy idle" by (rule maps_ok_le [OF maps le ile])
    then have fi: "finite (dom idle)" "finite (dom busy)" by (auto simp: maps_ok_def)
    show ?thesis
    proof (cases ik)
      case (Some c)
      have "c \<in> dom idle" using idleLoop_pick [OF ik [unfolded Some] g(2)] g(3) by simp
      then have k: "idle c = Some 0" "users s c = 0" "c \<notin> dom busy" using maps' by (auto simp: maps_ok_def)
      have p: "r = GotConn c" "p = ?p\<lparr>plIdle := idle(c := None), plBusy := busy(c \<mapsto> 1)\<rparr>"
        using run pk ik Some None opn k by (auto simp: poolGet_def pickBusyConn_def)
      have "maps_ok ?mx ((users s)(c := users s c + 1)) (busy(c \<mapsto> 1)) (idle(c := None))"
        using k maps' maxStream_pos [of o'] by (auto simp: maps_ok_def)
      moreover have "card (dom (busy(c \<mapsto> 1))) + card (dom (idle(c := None))) = card (dom busy) + card (dom idle)"
        using k fi by (simp add: card_Diff_singleton domI) (metis One_nat_def Suc_pred card_gt_0_iff domI empty_iff)
      ultimately show ?thesis using calls cnt cb ci p
        by (auto simp: poolInv_def users_hold calls_ok_def conn_count_def)
    next
      case none: None
      let ?q = "?p\<lparr>plBusy := busy, plIdle := idle\<rparr>"
      have ds: "plDialing ?p = syDials s" "finite (syDials s)" and cl: "\<forall>d \<in> syDials s. plCalls ?p d =
          newDialCall\<lparr>dcQueue := count_list (syWaiting s) d\<rparr> \<and> count_list (syWaiting s) d \<le> ?mx"
        "\<forall>d. plLast ?p = Some d \<longrightarrow> d \<in> syDials s" using calls opn by (auto simp: calls_ok_def)
      show ?thesis
      proof (cases "\<exists>d. plLast ?p = Some d \<and> dcQueue (plCalls ?p d) < ?mx")
        case True
        then obtain d where d: "plLast ?p = Some d" "dcQueue (plCalls ?p d) < ?mx" by blast
        then have dd: "d \<in> syDials s" "plCalls ?p d = newDialCall\<lparr>dcQueue := count_list (syWaiting s) d\<rparr>" using cl by auto
        let ?c = "(plCalls ?p)(d := (plCalls ?p d)\<lparr>dcQueue := dcQueue (plCalls ?p d) + 1\<rparr>)"
        have p: "r = WaitDial d" "p = ?q\<lparr>plCalls := ?c\<rparr>" "d \<noteq> dc"
          using run pk ik None none opn d dd g(4) by (auto simp: poolGet_def pickBusyConn_def Let_def)
        have "users (s\<lparr>syPool := p, syWaiting := d # syWaiting s, syDials := syDials s\<rparr>) = users s"
          by (rule users_wait) (use p dd in \<open>auto simp: newDialCall_def\<close>)
        then show ?thesis using maps' cnt cb ci p opn ds cl d dd
          by (auto simp: poolInv_def calls_ok_def conn_count_def)
      next
        case False
        then have x: "(case plLast ?p of Some d \<Rightarrow> if dcQueue (plCalls ?p d) < ?mx then Some d else None | None \<Rightarrow> None) = None"
          by (auto split: option.splits)
        let ?g = "poMaxConn o' \<le> 0 \<or> int (card (plDialing ?p) + card (dom busy) + card (dom idle)) < poMaxConn o'"
        show ?thesis
        proof (cases ?g)
          case True
          have p: "r = WaitDial dc \<and> p = ?q\<lparr>plCalls := (plCalls ?p)(dc := newDialCall\<lparr>dcQueue := 1\<rparr>), plLast := Some dc,
              plDialing := insert dc (plDialing ?p)\<rparr>"
            using run pk ik None none opn x True
            by (cases "plLast ?p") (auto simp: poolGet_def pickBusyConn_def Let_def split: if_splits)
          have "users (s\<lparr>syPool := p, syWaiting := dc # syWaiting s, syDials := insert dc (syDials s)\<rparr>) = users s"
            by (rule users_wait) (use p g(5) in \<open>auto simp: newDialCall_def\<close>)
          then show ?thesis using maps' p opn ds cl True g(4,5) maxStream_pos [of o']
            by (auto simp: poolInv_def calls_ok_def conn_count_def count_list_0_iff)
        next
          case False
          have p: "r = GetNoConn \<and> p = ?q" using run pk ik None none opn x False
            by (cases "plLast ?p") (auto simp: poolGet_def pickBusyConn_def Let_def split: if_splits)
          have "users (s\<lparr>syPool := p\<rparr>) = users s" by (rule users_calls) (simp add: p)
          then show ?thesis using maps' calls cnt cb ci p by (auto simp: poolInv_def calls_ok_def conn_count_def)
        qed
      qed
    qed
  qed
qed

lemma dial_step:
  assumes inv: "poolInv o' s" and d: "d \<in> syDials s" and fresh: "case r of Some c \<Rightarrow> fresh_conn s c | None \<Rightarrow> True"
  shows "poolInv o' (s\<lparr>syPool := snd (dialDone d r (syPool s)), syDials := syDials s - {d}\<rparr>)"
proof -
  let ?p = "syPool s" and ?mx = "maxStream o'"
  have maps: "maps_ok ?mx (users s) (plBusy ?p) (plIdle ?p)" and calls: "calls_ok ?mx ?p (syDials s) (syWaiting s)"
    and cnt: "poMaxConn o' > 0 \<longrightarrow> int (conn_count ?p) \<le> poMaxConn o'" using inv by (auto simp: poolInv_def)
  show ?thesis
  proof (cases "plClosed ?p")
    case True
    have "users (s\<lparr>syPool := ?p, syDials := syDials s - {d}\<rparr>) = users s" by (auto simp: fun_eq_iff users_def)
    then show ?thesis using True inv by (auto simp: dialDone_def poolInv_def calls_ok_def)
  next
    case False
    let ?n = "count_list (syWaiting s) d"
    have c: "plDialing ?p = syDials s" "finite (syDials s)" "\<forall>e \<in> syDials s. plCalls ?p e =
        newDialCall\<lparr>dcQueue := count_list (syWaiting s) e\<rparr> \<and> count_list (syWaiting s) e \<le> ?mx"
      "\<forall>e. plLast ?p = Some e \<longrightarrow> e \<in> syDials s" using calls False by (auto simp: calls_ok_def)
    then have dc: "plCalls ?p d = newDialCall\<lparr>dcQueue := ?n\<rparr>" "?n \<le> ?mx" using d by auto
    let ?q = "?p\<lparr>plCalls := (plCalls ?p)(d := (plCalls ?p d)\<lparr>dcConn := r, dcErr := (r = None), dcNotified := True\<rparr>),
             plLast := (if plLast ?p = Some d then None else plLast ?p), plDialing := plDialing ?p - {d}\<rparr>"
    have q: "snd (dialDone d r ?p) = (case r of None \<Rightarrow> ?q | Some c \<Rightarrow>
        if ?n = 0 then ?q\<lparr>plIdle := (plIdle ?p)(c \<mapsto> 0)\<rparr> else ?q\<lparr>plBusy := (plBusy ?p)(c \<mapsto> ?n)\<rparr>)"
      using False dc by (simp add: dialDone_def newDialCall_def Let_def split: option.splits)
    have cq: "calls_ok ?mx p (syDials s - {d}) (syWaiting s)" if "same_calls ?q p" for p
      using that c False by (auto simp: calls_ok_def same_calls_def)
    have card1: "card (plDialing ?p) = card (syDials s - {d}) + 1" using card_Suc_Diff1 [OF c(2) d] c(1) by simp
    have cl: "count_list ws d = length (filter ((=) d) ws)" for ws by (induction ws) auto
    show ?thesis
    proof (cases r)
      case None
      have "users (s\<lparr>syPool := ?q, syDials := syDials s - {d}\<rparr>) = users s"
        using dc None by (auto simp: fun_eq_iff users_def newDialCall_def intro!: arg_cong [where f = length] filter_cong)
      then show ?thesis using q None maps cq [of ?q] card1 cnt c(1) d
        by (auto simp: poolInv_def same_calls_def conn_count_def)
    next
      case (Some c)
      then have fr: "c \<notin> dom (plBusy ?p)" "c \<notin> dom (plIdle ?p)" "c \<notin> set (syHeld s)"
        "\<forall>e \<in> set (syWaiting s). dcConn (plCalls ?p e) \<noteq> Some c" using fresh by (auto simp: fresh_conn_def)
      let ?p' = "snd (dialDone d r ?p)"
      have pc: "plCalls ?p' = (plCalls ?p)(d := (plCalls ?p d)\<lparr>dcConn := Some c, dcErr := False, dcNotified := True\<rparr>)"
        using q Some by auto
      have "length (filter (\<lambda>e. dcConn (plCalls ?p' e) = Some x) (syWaiting s)) =
          (if x = c then ?n else length (filter (\<lambda>e. dcConn (plCalls ?p e) = Some x) (syWaiting s)))" for x
        unfolding cl pc using fr(4) dc(1) by (auto simp: newDialCall_def intro!: arg_cong [where f = length] filter_cong)
      then have us: "users (s\<lparr>syPool := ?p', syDials := syDials s - {d}\<rparr>) = (users s)(c := ?n)"
        using fr(3) by (auto simp: fun_eq_iff users_def count_list_0_iff)
      have "maps_ok ?mx ((users s)(c := ?n)) (plBusy ?p') (plIdle ?p')"
        using maps fr(1,2) dc(2) q Some by (auto simp: maps_ok_def)
      moreover have "calls_ok ?mx ?p' (syDials s - {d}) (syWaiting s)"
        using q Some by (intro cq) (auto simp: same_calls_def)
      moreover have "conn_count ?p' = conn_count ?p"
        using q Some card1 c(1) fr(1,2) maps by (auto simp: conn_count_def maps_ok_def)
      ultimately show ?thesis using cnt us by (simp add: poolInv_def)
    qed
  qed
qed

lemma wait_step:
  assumes inv: "poolInv o' s" and d: "d \<in> set (syWaiting s)" and run: "waitDialCall st al io ctx d (syPool s) = (r, p)"
    and guard: "ctx \<or> dcNotified (plCalls (syPool s) d)"
  shows "poolInv o' (case r of WaitGot c \<Rightarrow> s\<lparr>syPool := p, syWaiting := remove1 d (syWaiting s), syHeld := c # syHeld s\<rparr>
    | _ \<Rightarrow> s\<lparr>syPool := p, syWaiting := remove1 d (syWaiting s)\<rparr>)"
proof -
  let ?p = "syPool s" and ?mx = "maxStream o'" and ?w = "remove1 d (syWaiting s)"
  have maps: "maps_ok ?mx (users s) (plBusy ?p) (plIdle ?p)" and calls: "calls_ok ?mx ?p (syDials s) (syWaiting s)"
    and cnt: "poMaxConn o' > 0 \<longrightarrow> int (conn_count ?p) \<le> poMaxConn o'" using inv by (auto simp: poolInv_def)
  have dialing: "dcConn (plCalls ?p e) = None \<and> \<not> dcErr (plCalls ?p e) \<and> \<not> dcNotified (plCalls ?p e)"
    if "\<not> plClosed ?p" "e \<in> syDials s" for e
    using calls that by (auto simp: calls_ok_def newDialCall_def)
  show ?thesis
  proof (cases "ctx \<and> dcConn (plCalls ?p d) = None \<and> \<not> dcErr (plCalls ?p d)")
    case True
    let ?c = "(plCalls ?p)(d := (plCalls ?p d)\<lparr>dcQueue := dcQueue (plCalls ?p d) - 1\<rparr>)"
    have p: "r = WaitCtx" "p = ?p\<lparr>plCalls := ?c\<rparr>" using run True by (auto simp: waitDialCall_def Let_def)
    have "dcConn (plCalls p e) = dcConn (plCalls ?p e)" for e using p(2) by simp
    then have "users (s\<lparr>syPool := p, syWaiting := ?w\<rparr>) = users s"
      using True by (simp add: fun_eq_iff users_def length_filter_remove1)
    moreover have "calls_ok ?mx p (syDials s) ?w" using calls p(2) by (auto simp: calls_ok_def count_remove1 newDialCall_def)
    ultimately show ?thesis using p maps cnt by (simp add: poolInv_def conn_count_def)
  next
    case False
    have nd: "\<not> plClosed ?p \<longrightarrow> d \<notin> syDials s" using dialing [of d] False guard by auto
    have cw: "calls_ok ?mx q (syDials s) ?w" if "same_calls ?p q" for q
      using that calls nd by (auto simp: calls_ok_def same_calls_def count_remove1)
    show ?thesis
    proof (cases "dcConn (plCalls ?p d)")
      case None
      then have p: "r = WaitFailed" "p = ?p" using run False by (auto simp: waitDialCall_def Let_def)
      have "users (s\<lparr>syPool := p, syWaiting := ?w\<rparr>) = users s" using None p(2) by (auto simp: fun_eq_iff users_def length_filter_remove1)
      then show ?thesis using p maps cnt cw [of p] by (simp add: poolInv_def same_calls_def)
    next
      case (Some c)
      have pos: "filter (\<lambda>e. dcConn (plCalls ?p e) = Some c) (syWaiting s) \<noteq> []" using d Some by (auto simp: filter_empty_conv)
      then have len: "length (filter (\<lambda>e. dcConn (plCalls ?p e) = Some c) (syWaiting s)) \<ge> 1" by (simp add: Suc_le_eq)
      then have u: "users s c \<ge> 1" by (auto simp: users_def Suc_le_eq)
      show ?thesis
      proof (cases "csAvailable (st c)")
        case True
        then have p: "r = WaitGot c" "p = ?p" using run False Some by (auto simp: waitDialCall_def Let_def)
        have "users (s\<lparr>syPool := p, syWaiting := ?w, syHeld := c # syHeld s\<rparr>) = users s"
          using Some d p(2) len by (auto simp: fun_eq_iff users_def length_filter_remove1)
        then show ?thesis using p maps cnt cw [of p] by (simp add: poolInv_def same_calls_def)
      next
        case na: False
        obtain cl where rel: "release st al io c ?p = (cl, p)" "r = WaitUnavailable" using run False Some na
          by (cases "release st al io c ?p") (auto simp: waitDialCall_def Let_def)
        note ok = release_ok [OF maps u rel(1)]
        then have pc: "plCalls p = plCalls ?p" by (simp add: same_calls_def)
        have "users (s\<lparr>syPool := p, syWaiting := ?w\<rparr>) = (users s)(c := users s c - 1)"
          using Some d len by (auto simp: fun_eq_iff users_def length_filter_remove1 pc)
        moreover have "conn_count p \<le> conn_count ?p" using ok by (simp add: conn_count_def same_calls_def fewer_def)
        ultimately show ?thesis using rel(2) ok cnt cw [of p] by (auto simp: poolInv_def)
      qed
    qed
  qed
qed

lemma pool_step:
  assumes inv: "poolInv o' s" and step: "poolStep o' al e s = Some s'"
  shows "poolInv o' s'"
proof (cases e)
  case (EvGet st bo io dc)
  obtain r p where g: "poolGet o' st bo io dc (syPool s) = (r, p)" by fastforce
  have c: "distinct bo" "distinct io" "set io = dom (plIdle (syPool s))" "dc \<notin> syDials s" "dc \<notin> set (syWaiting s)"
    using step EvGet by (auto split: if_splits)
  have "s' = (case r of GotConn c \<Rightarrow> s\<lparr>syPool := p, syHeld := c # syHeld s\<rparr>
    | WaitDial d \<Rightarrow> s\<lparr>syPool := p, syWaiting := d # syWaiting s, syDials := (if d = dc then insert d (syDials s) else syDials s)\<rparr>
    | _ \<Rightarrow> s\<lparr>syPool := p\<rparr>)" using step EvGet g by (cases r) (auto simp: Let_def split: if_splits)
  with get_step [OF inv c g] show ?thesis by simp
next
  case (EvDialed d r)
  then show ?thesis using dial_step [OF inv] step by (auto split: if_splits)
next
  case (EvWait ctx d st io)
  obtain r p where w: "waitDialCall st al io ctx d (syPool s) = (r, p)" by fastforce
  have c: "d \<in> set (syWaiting s)" "ctx \<or> dcNotified (plCalls (syPool s) d)" using step EvWait by (auto split: if_splits)
  have "s' = (case r of WaitGot c \<Rightarrow> s\<lparr>syPool := p, syWaiting := remove1 d (syWaiting s), syHeld := c # syHeld s\<rparr>
    | _ \<Rightarrow> s\<lparr>syPool := p, syWaiting := remove1 d (syWaiting s)\<rparr>)"
    using step EvWait w c by (cases r) (auto simp: Let_def)
  with wait_step [OF inv c(1) w c(2)] show ?thesis by simp
next
  case (EvRelease c st io)
  obtain cl p where r: "release st al io c (syPool s) = (cl, p)" by fastforce
  have c: "c \<in> set (syHeld s)" and s': "s' = s\<lparr>syPool := p, syHeld := remove1 c (syHeld s)\<rparr>"
    using step EvRelease r by (auto split: if_splits)
  then have u: "users s c \<ge> 1" by (auto simp: users_def Suc_le_eq count_list_0_iff neq0_conv [symmetric])
  have maps: "maps_ok (maxStream o') (users s) (plBusy (syPool s)) (plIdle (syPool s))" using inv by (simp add: poolInv_def)
  note ok = release_ok [OF maps u r]
  then have "plCalls p = plCalls (syPool s)" by (simp add: same_calls_def)
  moreover have "count_list (syHeld s) c \<ge> 1" using c by (simp add: Suc_le_eq count_list_0_iff neq0_conv [symmetric] del: neq0_conv)
  ultimately have "users s' = (users s)(c := users s c - 1)" using c s' by (auto simp: fun_eq_iff users_def count_remove1)
  moreover have "conn_count p \<le> conn_count (syPool s)" using ok by (simp add: conn_count_def same_calls_def fewer_def)
  ultimately show ?thesis using ok inv s' same_callsD by (auto simp: poolInv_def)
next
  case (EvMarkDead c)
  let ?p = "syPool s"
  have le: "(plBusy ?p)(c := None) \<subseteq>\<^sub>m plBusy ?p" "(plIdle ?p)(c := None) \<subseteq>\<^sub>m plIdle ?p" by (simp_all add: map_le_def)
  have maps: "maps_ok (maxStream o') (users s) (plBusy ?p) (plIdle ?p)" using inv by (simp add: poolInv_def)
  have s': "s' = s\<lparr>syPool := ?p\<lparr>plIdle := (plIdle ?p)(c := None), plBusy := (plBusy ?p)(c := None)\<rparr>\<rparr>"
    using step EvMarkDead by (auto simp: markDead_def)
  have "users s' = users s" unfolding s' by (rule users_calls) simp
  moreover have "conn_count (syPool s') \<le> conn_count ?p"
    using maps card_dom_le [OF le(1)] card_dom_le [OF le(2)] unfolding s' conn_count_def maps_ok_def by simp
  moreover have "maps_ok (maxStream o') (users s) (plBusy (syPool s')) (plIdle (syPool s'))"
    using maps_ok_le [OF maps le] by (simp add: s')
  ultimately show ?thesis using inv by (auto simp: poolInv_def calls_ok_def s')
next
  case EvClose
  have "users s' = users s" using step EvClose by (auto simp: fun_eq_iff poolClose_def users_def cancelDial_def intro!: arg_cong [where f = length] filter_cong)
  then show ?thesis using inv step EvClose
    by (cases "plClosed (syPool s)") (auto simp: poolInv_def poolClose_def calls_ok_def conn_count_def)
qed

interpretation pool: machine poolStart "poolStep o' al" "poolInv o'" for o' al
proof
  show "poolStart s \<Longrightarrow> poolInv o' s" for s
    by (auto simp: poolStart_def poolInv_def maps_ok_def calls_ok_def newPool_def conn_count_def)
qed (rule pool_step)

text \<open>C26: However callers, dialing goroutines and the peers interleave, the pool counts right: a busy connection has
  at least one and at most the maximal number of streams, which is the number of callers that hold it or will be
  handed it, a connection that is idle is used by nobody, and the connections with those being dialed
  are at most the maximal number, if there is one.\<close>

theorem pool_accounting:
  assumes "run (poolStep o' al) es s = Some s'" "poolStart s"
  shows "(\<forall>c k. plBusy (syPool s') c = Some k \<longrightarrow> 1 \<le> k \<and> k \<le> maxStream o' \<and> users s' c = k) \<and>
    (\<forall>c. plIdle (syPool s') c \<noteq> None \<longrightarrow> users s' c = 0) \<and>
    (poMaxConn o' > 0 \<longrightarrow> int (conn_count (syPool s')) \<le> poMaxConn o')"
  using pool.run_inv [OF assms] by (auto simp: poolInv_def maps_ok_def)

theorem pool_accounting_witness:
  "let ok = (\<lambda>_. \<lparr>csClosed = False, csAvailable = True\<rparr>); o' = \<lparr>poMaxConn = 1, poMaxStream = 2\<rparr>;
       s = \<lparr>syPool = newPool, syDials = {}, syWaiting = [], syHeld = []\<rparr> in
    \<exists>s'. run (poolStep o' id) [EvGet ok [] [] 1, EvGet ok [] [] 2, EvDialed 1 (Some 7), EvWait False 1 ok [], EvWait True 1 ok [],
        EvRelease 7 ok [], EvGet ok [7] [] 2] s = Some s' \<and>
      (\<forall>c k. plBusy (syPool s') c = Some k \<longrightarrow> 1 \<le> k \<and> k \<le> maxStream o' \<and> users s' c = k) \<and> users s' 7 = 2"
proof -
  let ?ok = "\<lambda>_ :: conn. \<lparr>csClosed = False, csAvailable = True\<rparr>" and ?o = "\<lparr>poMaxConn = 1, poMaxStream = 2\<rparr>"
  let ?s = "\<lparr>syPool = newPool, syDials = {}, syWaiting = [], syHeld = []\<rparr>"
  let ?es = "[EvGet ?ok [] [] 1, EvGet ?ok [] [] 2, EvDialed 1 (Some 7), EvWait False 1 ?ok [], EvWait True 1 ?ok [],
        EvRelease 7 ?ok [], EvGet ?ok [7] [] 2]"
  have "\<exists>s'. run (poolStep ?o id) ?es ?s = Some s' \<and> users s' 7 = 2"
    by (simp add: newPool_def newDialCall_def maxStream_def poolGet_def pickBusyConn_def dialDone_def waitDialCall_def release_def
        fresh_conn_def users_def Let_def)
  then obtain s' where s': "run (poolStep ?o id) ?es ?s = Some s'" "users s' 7 = 2" by blast
  from pool_accounting [OF s'(1)] s' show ?thesis unfolding Let_def poolStart_def by blast
qed

end
