(* ===== verification/Pipeline.thy ===== *)
theory Pipeline
  imports Machine Frame ConnPool
begin

text \<open>
  Exchanges that share a connection (\<^verbatim>\<open>internal/upstream/transport/pipeline_conn.go\<close> and
  \<^verbatim>\<open>pipeline_transport.go\<close>), and the retries of both transports over connections. The peer is whatever messages
  are read. The timer that sends a query again over UDP is not modelled: the message sent is the same.
\<close>

section \<open>The connection\<close>

text \<open>The channels of \<^verbatim>\<open>queue\<close> have room for one message and belong to one exchange, which is a number here.\<close>

record pipelineConn =
  pcClosed :: bool
  pcNextQid :: int
  pcReserved :: int
  pcQueue :: "u32 \<rightharpoonup> nat"

definition newPipelineConn :: pipelineConn where
  "newPipelineConn = \<lparr>pcClosed = False, pcNextQid = 0, pcReserved = 0, pcQueue = Map.empty\<rparr>"

definition pcStatus :: "pipelineConn \<Rightarrow> ConnStatus" where
  "pcStatus c = \<lparr>csClosed = pcClosed c, csAvailable = (pcNextQid c + pcReserved c \<le> 65535)\<rparr>"

definition pcReserve :: "pipelineConn \<Rightarrow> pipelineConn" where
  "pcReserve c = (if pcNextQid c + pcReserved c < 65535 then c\<lparr>pcReserved := pcReserved c + 1\<rparr> else c)"

definition pcClose :: "pipelineConn \<Rightarrow> pipelineConn" where
  "pcClose c = c\<lparr>pcClosed := True\<rparr>"

definition getQueueC :: "pipelineConn \<Rightarrow> u16 \<Rightarrow> nat option" where
  "getQueueC c qid = pcQueue c (ucast qid)"

text \<open>\<^verbatim>\<open>None\<close> is \<^verbatim>\<open>errPipelineConnEoL\<close>.\<close>

definition addQueueC :: "nat \<Rightarrow> pipelineConn \<Rightarrow> u16 option \<times> pipelineConn" where
  "addQueueC ch c =
    (let c = (if pcReserved c > 0 then c\<lparr>pcReserved := pcReserved c - 1\<rparr> else c) in
     if pcNextQid c > 65535 then (None, c)
     else let qid = word_of_int (pcNextQid c) :: u16 in
       (Some qid, c\<lparr>pcNextQid := pcNextQid c + 1, pcQueue := (pcQueue c)(ucast qid \<mapsto> ch)\<rparr>))"

definition deleteQueueC :: "u16 \<Rightarrow> pipelineConn \<Rightarrow> pipelineConn" where
  "deleteQueueC qid c =
    (let c = c\<lparr>pcQueue := (pcQueue c)(ucast qid := None)\<rparr>;
         eol = pcNextQid c > 65535 \<and> pcQueue c = Map.empty in
     if eol then pcClose c else c)"

section \<open>Exchanges\<close>

record exch =
  exQid :: u16
  exMsg :: Msg
  exChan :: "Msg option"

text \<open>
  \<open>pxLog\<close> are the queries written, with their numbers, \<open>pxRead\<close> the messages read, and \<open>pxDone\<close> the exchanges that
  ended with the response they returned, if any.
\<close>

record pipeSys =
  pxConn :: pipelineConn
  pxExs :: "nat \<rightharpoonup> exch"
  pxLog :: "(u16 \<times> nat \<times> Msg) list"
  pxRead :: "Msg list"
  pxDone :: "(nat \<times> Msg option) list"

datatype pipeEv =
    PReserve
  | PStart nat Msg
  | PRead bool "Msg option" nat
  | PFinish nat bool
  | PClose

text \<open>One turn of \<^verbatim>\<open>readLoop\<close>: a message, or an error after \<open>n\<close> bytes. A datagram that is no message is skipped.\<close>

definition readTurn :: "bool \<Rightarrow> Msg option \<Rightarrow> nat \<Rightarrow> pipeSys \<Rightarrow> pipeSys" where
  "readTurn isTCP r n s = (case r of
     None \<Rightarrow> if \<not> isTCP \<and> n > 0 then s else s\<lparr>pxConn := pcClose (pxConn s)\<rparr>
   | Some m \<Rightarrow>
     let s = s\<lparr>pxRead := m # pxRead s\<rparr> in
     (case getQueueC (pxConn s) (ID (mHeader m)) of None \<Rightarrow> s
      | Some x \<Rightarrow> (case pxExs s x of None \<Rightarrow> s
        | Some e \<Rightarrow> if exChan e = None then s\<lparr>pxExs := (pxExs s)(x \<mapsto> e\<lparr>exChan := Some m\<rparr>)\<rparr> else s)))"

text \<open>
  \<^verbatim>\<open>exchange\<close> starts by taking a number and ends with the response in its channel (\<open>got\<close>) or with an error of
  writing, of the context or of the connection; both ways it gives its number back.
\<close>

definition exchangeEnd :: "nat \<Rightarrow> bool \<Rightarrow> exch \<Rightarrow> pipeSys \<Rightarrow> pipeSys" where
  "exchangeEnd x got e s = s\<lparr>pxConn := deleteQueueC (exQid e) (pxConn s), pxExs := (pxExs s)(x := None),
     pxDone := (x, if got then map_option (\<lambda>r. with_id r (ID (mHeader (exMsg e)))) (exChan e) else None) # pxDone s\<rparr>"

fun pipeStep :: "pipeEv \<Rightarrow> pipeSys \<Rightarrow> pipeSys option" where
  "pipeStep PReserve s = Some (s\<lparr>pxConn := pcReserve (pxConn s)\<rparr>)"
| "pipeStep (PStart x m) s =
    (if x \<in> dom (pxExs s) \<or> x \<in> set (map fst (pxDone s)) then None
     else case addQueueC x (pxConn s) of
       (None, c) \<Rightarrow> Some (s\<lparr>pxConn := c, pxDone := (x, None) # pxDone s\<rparr>)
     | (Some qid, c) \<Rightarrow> Some (s\<lparr>pxConn := c, pxExs := (pxExs s)(x \<mapsto> \<lparr>exQid = qid, exMsg = m, exChan = None\<rparr>),
         pxLog := (qid, x, m) # pxLog s\<rparr>))"
| "pipeStep (PRead isTCP r n) s = (if pcClosed (pxConn s) then None else Some (readTurn isTCP r n s))"
| "pipeStep (PFinish x got) s = (case pxExs s x of None \<Rightarrow> None
   | Some e \<Rightarrow> if got \<and> exChan e = None then None else Some (exchangeEnd x got e s))"
| "pipeStep PClose s = Some (s\<lparr>pxConn := pcClose (pxConn s)\<rparr>)"

definition pipeStart :: "pipeSys \<Rightarrow> bool" where
  "pipeStart s \<longleftrightarrow> s = \<lparr>pxConn = newPipelineConn, pxExs = Map.empty, pxLog = [], pxRead = [], pxDone = []\<rparr>"

section \<open>Retries\<close>

text \<open>
  \<^verbatim>\<open>ExchangeContext\<close> of the transports: \<open>att i\<close> is what the attempt \<open>i\<close> comes to, an error of getting a
  connection or, with whether the connection is new, an error or a response. \<open>limit\<close> is 5 for the pipeline
  and 6 for the transport that uses connections serially.
\<close>

datatype 'a attempt = NoConn string | Tried bool "string + 'a"

function retryExchange :: "nat \<Rightarrow> (nat \<Rightarrow> 'a attempt) \<Rightarrow> (nat \<Rightarrow> bool) \<Rightarrow> nat \<Rightarrow> string list \<Rightarrow> string list + 'a" where
  "retryExchange limit att ctxDone retry errs = (case att retry of
     NoConn e \<Rightarrow> Inl (errs @ [e])
   | Tried newConn (Inl e) \<Rightarrow>
       if \<not> newConn \<and> retry < limit \<and> \<not> ctxDone retry then retryExchange limit att ctxDone (retry + 1) (errs @ [e])
       else Inl (errs @ [e])
   | Tried newConn (Inr resp) \<Rightarrow> Inr resp)"
  by pat_completeness auto
termination by (relation "measure (\<lambda>(limit, _, _, retry, _). limit - retry)") auto

declare retryExchange.simps [simp del]

section \<open>Numbers belong to one exchange\<close>

definition pipeInv :: "pipeSys \<Rightarrow> bool" where
  "pipeInv s \<longleftrightarrow> 0 \<le> pcNextQid (pxConn s) \<and> pcNextQid (pxConn s) \<le> 65536 \<and> 0 \<le> pcReserved (pxConn s) \<and>
     distinct (map fst (pxLog s)) \<and> (\<forall>q \<in> set (map fst (pxLog s)). uint q < pcNextQid (pxConn s)) \<and>
     (\<forall>x e. pxExs s x = Some e \<longrightarrow> (exQid e, x, exMsg e) \<in> set (pxLog s) \<and>
        (\<forall>r. exChan e = Some r \<longrightarrow> r \<in> set (pxRead s) \<and> ID (mHeader r) = exQid e)) \<and>
     (\<forall>q x. pcQueue (pxConn s) (ucast q) = Some x \<longrightarrow> (\<exists>e. pxExs s x = Some e \<and> exQid e = q)) \<and>
     distinct (map fst (pxDone s)) \<and> dom (pxExs s) \<inter> set (map fst (pxDone s)) = {} \<and>
     (\<forall>x resp. (x, Some resp) \<in> set (pxDone s) \<longrightarrow>
        (\<exists>q m r. (q, x, m) \<in> set (pxLog s) \<and> r \<in> set (pxRead s) \<and> ID (mHeader r) = q \<and> resp = with_id r (ID (mHeader m))))"

lemma ucast_u16_back: "ucast (ucast (a :: u16) :: u32) = a"
  by (rule bit_word_eqI) (auto simp: bit_simps)

lemma ucast_u16_inj [simp]: "(ucast (a :: u16) :: u32) = ucast b \<longleftrightarrow> a = b"
  by (metis ucast_u16_back)

lemma pipeInvD:
  assumes "pipeInv s"
  shows "0 \<le> pcNextQid (pxConn s)" "pcNextQid (pxConn s) \<le> 65536" "0 \<le> pcReserved (pxConn s)" "distinct (map fst (pxLog s))"
    "q \<in> set (map fst (pxLog s)) \<Longrightarrow> uint q < pcNextQid (pxConn s)"
    "pxExs s x = Some e \<Longrightarrow> (exQid e, x, exMsg e) \<in> set (pxLog s)"
    "pxExs s x = Some e \<Longrightarrow> exChan e = Some r \<Longrightarrow> r \<in> set (pxRead s) \<and> ID (mHeader r) = exQid e"
    "pcQueue (pxConn s) (ucast q) = Some x \<Longrightarrow> \<exists>e. pxExs s x = Some e \<and> exQid e = q"
    "distinct (map fst (pxDone s))" "dom (pxExs s) \<inter> set (map fst (pxDone s)) = {}"
    "(x, Some resp) \<in> set (pxDone s) \<Longrightarrow>
        (\<exists>q m r. (q, x, m) \<in> set (pxLog s) \<and> r \<in> set (pxRead s) \<and> ID (mHeader r) = q \<and> resp = with_id r (ID (mHeader m)))"
  using assms unfolding pipeInv_def by blast+

lemma pipeInv_exs:
  assumes "pipeInv s" "dom exs = dom (pxExs s)"
    and "\<And>x e. exs x = Some e \<Longrightarrow> (exQid e, x, exMsg e) \<in> set (pxLog s) \<and>
      (\<forall>r. exChan e = Some r \<longrightarrow> r \<in> set (pxRead s) \<and> ID (mHeader r) = exQid e)"
    and "\<And>q x. pcQueue (pxConn s) (ucast q) = Some x \<Longrightarrow> \<exists>e. exs x = Some e \<and> exQid e = q"
  shows "pipeInv (s\<lparr>pxExs := exs\<rparr>)"
proof -
  note I = pipeInvD [OF assms(1)]
  have d: "dom exs \<inter> set (map fst (pxDone s)) = {}" using I(10) assms(2) by simp
  have r: "pxConn (s\<lparr>pxExs := exs\<rparr>) = pxConn s" "pxExs (s\<lparr>pxExs := exs\<rparr>) = exs" "pxLog (s\<lparr>pxExs := exs\<rparr>) = pxLog s"
    "pxRead (s\<lparr>pxExs := exs\<rparr>) = pxRead s" "pxDone (s\<lparr>pxExs := exs\<rparr>) = pxDone s" by simp_all
  show ?thesis unfolding pipeInv_def r using I(1-5,9,11) d assms(3,4) by blast
qed

text \<open>Closing a connection and reserving change nothing the invariant is about.\<close>

lemma pipeInv_conn:
  assumes "pipeInv s" "pcNextQid c = pcNextQid (pxConn s)" "0 \<le> pcReserved c" "pcQueue c = pcQueue (pxConn s)"
  shows "pipeInv (s\<lparr>pxConn := c\<rparr>)"
  using assms unfolding pipeInv_def by simp

lemma start_step:
  assumes inv: "pipeInv s" and x: "x \<notin> dom (pxExs s)" "x \<notin> set (map fst (pxDone s))" and add: "addQueueC x (pxConn s) = (r, c)"
  shows "pipeInv (case r of None \<Rightarrow> s\<lparr>pxConn := c, pxDone := (x, None) # pxDone s\<rparr>
    | Some qid \<Rightarrow> s\<lparr>pxConn := c, pxExs := (pxExs s)(x \<mapsto> \<lparr>exQid = qid, exMsg = m, exChan = None\<rparr>), pxLog := (qid, x, m) # pxLog s\<rparr>)"
proof -
  note I = pipeInvD [OF inv]
  let ?n = "pcNextQid (pxConn s)"
  have res: "0 \<le> pcReserved c" using add I(3) by (auto simp: addQueueC_def Let_def split: if_splits)
  show ?thesis
  proof (cases r)
    case None
    then have "pcNextQid c = ?n" "pcQueue c = pcQueue (pxConn s)" using add by (auto simp: addQueueC_def Let_def split: if_splits)
    then have "pipeInv (s\<lparr>pxConn := c\<rparr>)" using pipeInv_conn [OF inv] res by simp
    then show ?thesis using x None unfolding pipeInv_def by auto
  next
    case (Some qid)
    then have q: "?n \<le> 65535" "qid = word_of_int ?n" "pcNextQid c = ?n + 1" "pcQueue c = (pcQueue (pxConn s))(ucast qid \<mapsto> x)"
      using add by (auto simp: addQueueC_def Let_def split: if_splits)
    then have u: "uint qid = ?n" using I(1) by (simp add: uint_word_of_int take_bit_eq_mod)
    then have new: "qid \<notin> set (map fst (pxLog s))" using I(5) by fastforce
    have "uint p < ?n + 1" if "p \<in> set (map fst (pxLog s))" for p using I(5) [OF that] by simp
    moreover have "pcQueue (pxConn s) (ucast (p :: u16)) \<noteq> Some x" for p using I(8) [of p x] x(1) by auto
    ultimately show ?thesis using inv x Some q u new res unfolding pipeInv_def by (auto simp: image_iff)
  qed
qed

lemma read_step: "pipeInv s \<Longrightarrow> pipeInv (readTurn isTCP r n s)"
proof (cases r)
  case None
  assume "pipeInv s"
  then show ?thesis using None pipeInv_conn [of s "pcClose (pxConn s)"] pipeInvD(3) by (auto simp: readTurn_def pcClose_def)
next
  case (Some m)
  assume inv: "pipeInv s"
  note I = pipeInvD [OF inv]
  have d: "\<exists>q m' r. (q, x, m') \<in> set (pxLog s) \<and> r \<in> set (m # pxRead s) \<and> ID (mHeader r) = q \<and> resp = with_id r (ID (mHeader m'))"
    if ended: "(x, Some resp) \<in> set (pxDone s)" for x resp
  proof -
    obtain q m' r where "(q, x, m') \<in> set (pxLog s)" "r \<in> set (pxRead s)" "ID (mHeader r) = q" "resp = with_id r (ID (mHeader m'))"
      using I(11) [OF ended] by blast
    then show ?thesis by (intro exI [of _ q] exI [of _ m'] exI [of _ r]) simp
  qed
  have rd: "pipeInv (s\<lparr>pxRead := m # pxRead s\<rparr>)" unfolding pipeInv_def using I d by simp
  show ?thesis
  proof (cases "getQueueC (pxConn s) (ID (mHeader m))")
    case None
    then show ?thesis using rd Some by (simp add: readTurn_def)
  next
    case q: (Some x)
    then obtain e where e: "pxExs s x = Some e" "exQid e = ID (mHeader m)" using I(8) by (auto simp: getQueueC_def)
    show ?thesis
    proof (cases "exChan e")
      case None
      let ?s = "s\<lparr>pxRead := m # pxRead s, pxExs := (pxExs s)(x \<mapsto> e\<lparr>exChan := Some m\<rparr>)\<rparr>"
      have eq: "readTurn isTCP r n s = ?s" using Some q e None by (simp add: readTurn_def)
      have ex: "(exQid f, y, exMsg f) \<in> set (pxLog s) \<and> (\<forall>r. exChan f = Some r \<longrightarrow> r \<in> set (m # pxRead s) \<and> ID (mHeader r) = exQid f)"
        if "((pxExs s)(x \<mapsto> e\<lparr>exChan := Some m\<rparr>)) y = Some f" for y f
      proof (cases "y = x")
        case True
        then show ?thesis using that I(6) [OF e(1)] e(2) by auto
      next
        case False
        then have f: "pxExs s y = Some f" using that by simp
        have "r \<in> set (m # pxRead s) \<and> ID (mHeader r) = exQid f" if "exChan f = Some r" for r
          using I(7) [OF f that] by simp
        then show ?thesis using I(6) [OF f] by blast
      qed
      have "pipeInv (s\<lparr>pxRead := m # pxRead s\<rparr>\<lparr>pxExs := (pxExs s)(x \<mapsto> e\<lparr>exChan := Some m\<rparr>)\<rparr>)"
      proof (rule pipeInv_exs [OF rd])
        show "dom ((pxExs s)(x \<mapsto> e\<lparr>exChan := Some m\<rparr>)) = dom (pxExs (s\<lparr>pxRead := m # pxRead s\<rparr>))" using e(1) by auto
        show "\<exists>f. ((pxExs s)(x \<mapsto> e\<lparr>exChan := Some m\<rparr>)) y = Some f \<and> exQid f = p"
          if "pcQueue (pxConn (s\<lparr>pxRead := m # pxRead s\<rparr>)) (ucast p) = Some y" for p y
          using that I(8) [of p y] e by auto
        fix y f
        assume "((pxExs s)(x \<mapsto> e\<lparr>exChan := Some m\<rparr>)) y = Some f"
        from ex [OF this] show "(exQid f, y, exMsg f) \<in> set (pxLog (s\<lparr>pxRead := m # pxRead s\<rparr>)) \<and>
            (\<forall>r. exChan f = Some r \<longrightarrow> r \<in> set (pxRead (s\<lparr>pxRead := m # pxRead s\<rparr>)) \<and> ID (mHeader r) = exQid f)"
          by simp
      qed
      then show ?thesis unfolding eq by simp
    qed (use rd Some q e in \<open>simp add: readTurn_def\<close>)
  qed
qed

lemma finish_step:
  assumes inv: "pipeInv s" and e: "pxExs s x = Some e"
  shows "pipeInv (exchangeEnd x got e s)"
proof -
  note I = pipeInvD [OF inv]
  let ?s = "exchangeEnd x got e s"
  have c: "pcNextQid (pxConn ?s) = pcNextQid (pxConn s)" "pcReserved (pxConn ?s) = pcReserved (pxConn s)"
    "pcQueue (pxConn ?s) = (pcQueue (pxConn s))(ucast (exQid e) := None)"
    by (auto simp: exchangeEnd_def deleteQueueC_def pcClose_def Let_def)
  have x: "x \<notin> set (map fst (pxDone s))" using I(10) e by auto
  have q: "\<exists>f. pxExs ?s y = Some f \<and> exQid f = p" if "pcQueue (pxConn ?s) (ucast p) = Some y" for p y
  proof -
    have p: "pcQueue (pxConn s) (ucast p) = Some y" "p \<noteq> exQid e" using that unfolding c by (auto split: if_splits)
    then obtain f where "pxExs s y = Some f" "exQid f = p" using I(8) by blast
    then show ?thesis using p(2) e by (auto simp: exchangeEnd_def)
  qed
  have d: "\<exists>q m r. (q, y, m) \<in> set (pxLog s) \<and> r \<in> set (pxRead s) \<and> ID (mHeader r) = q \<and> resp = with_id r (ID (mHeader m))"
    if ended: "(y, Some resp) \<in> set (pxDone ?s)" for y resp
  proof (cases "(y, Some resp) \<in> set (pxDone s)")
    case False
    then obtain r where r: "y = x" "exChan e = Some r" "resp = with_id r (ID (mHeader (exMsg e)))"
      using ended by (cases "exChan e") (auto simp: exchangeEnd_def split: if_splits)
    show ?thesis using I(6) [OF e] I(7) [OF e r(2)] r
      by (intro exI [of _ "exQid e"] exI [of _ "exMsg e"] exI [of _ r]) simp
  qed (rule I(11))
  have s: "pxExs ?s = (pxExs s)(x := None)" "pxLog ?s = pxLog s" "pxRead ?s = pxRead s" "map fst (pxDone ?s) = x # map fst (pxDone s)"
    by (simp_all add: exchangeEnd_def)
  have xs: "(exQid f, y, exMsg f) \<in> set (pxLog s) \<and> (\<forall>r. exChan f = Some r \<longrightarrow> r \<in> set (pxRead s) \<and> ID (mHeader r) = exQid f)"
    if "pxExs ?s y = Some f" for y f
  proof -
    have f: "pxExs s y = Some f" using that unfolding s by (auto split: if_splits)
    have "r \<in> set (pxRead s) \<and> ID (mHeader r) = exQid f" if "exChan f = Some r" for r using I(7) [OF f that] .
    then show ?thesis using I(6) [OF f] by blast
  qed
  have dm: "dom (pxExs ?s) \<inter> set (map fst (pxDone ?s)) = {}" "distinct (map fst (pxDone ?s))" unfolding s using I(9,10) x by auto
  show ?thesis unfolding pipeInv_def c(1,2) s(2,3) using I(1-5) dm q d xs by blast
qed

lemma pipe_step: "pipeInv s \<Longrightarrow> pipeStep e s = Some s' \<Longrightarrow> pipeInv s'"
proof (cases e)
  case PReserve
  assume "pipeInv s" "pipeStep e s = Some s'"
  then show ?thesis using PReserve pipeInv_conn [of s "pcReserve (pxConn s)"] pipeInvD(3) [of s] by (auto simp: pcReserve_def)
next
  case (PStart x m)
  assume inv: "pipeInv s" and st: "pipeStep e s = Some s'"
  obtain r c where a: "addQueueC x (pxConn s) = (r, c)" by fastforce
  have x: "x \<notin> dom (pxExs s)" "x \<notin> set (map fst (pxDone s))" using st PStart by (auto split: if_splits)
  from start_step [OF inv x a, of m] st PStart a x show ?thesis by (cases r) auto
next
  case (PRead b r n)
  assume "pipeInv s" "pipeStep e s = Some s'"
  then show ?thesis using PRead read_step by (auto split: if_splits)
next
  case (PFinish x got)
  assume "pipeInv s" "pipeStep e s = Some s'"
  then show ?thesis using PFinish finish_step by (auto split: if_splits option.splits)
next
  case PClose
  assume "pipeInv s" "pipeStep e s = Some s'"
  then show ?thesis using PClose pipeInv_conn [of s "pcClose (pxConn s)"] pipeInvD(3) [of s] by (auto simp: pcClose_def)
qed

interpretation pipe: machine pipeStart pipeStep pipeInv
proof
  show "pipeStart s \<Longrightarrow> pipeInv s" for s
    by (auto simp: pipeStart_def pipeInv_def newPipelineConn_def)
qed (rule pipe_step)

text \<open>C27: Exchanges that share a connection do not mix up their responses: a number is written once on a
  connection, and an exchange that returns a response returns a message that was read under the number its own
  query was written with, with the number of the query put back.\<close>

theorem pipeline_responses_match:
  assumes "run pipeStep es s = Some s'" "pipeStart s"
  shows "distinct (map fst (pxLog s')) \<and> distinct (map fst (pxDone s')) \<and>
    (\<forall>(x, resp) \<in> set (pxDone s'). \<forall>m'. resp = Some m' \<longrightarrow>
       (\<exists>q m r. (q, x, m) \<in> set (pxLog s') \<and> r \<in> set (pxRead s') \<and> ID (mHeader r) = q \<and> m' = with_id r (ID (mHeader m))))"
  using pipeInvD(4,9,11) [OF pipe.run_inv [OF assms]] by fast

theorem pipeline_responses_match_witness:
  "\<exists>s'. run pipeStep [PReserve, PStart 1 (with_id sampleMsg 50), PStart 2 (with_id sampleMsg 60), PRead True (Some (with_id sampleMsg 1)) 0,
      PRead True (Some (with_id sampleMsg 0)) 0, PFinish 1 True, PFinish 2 True]
      \<lparr>pxConn = newPipelineConn, pxExs = Map.empty, pxLog = [], pxRead = [], pxDone = []\<rparr> = Some s' \<and>
    pxDone s' = [(2, Some (with_id sampleMsg 60)), (1, Some (with_id sampleMsg 50))] \<and> distinct (map fst (pxLog s'))"
proof -
  let ?es = "[PReserve, PStart 1 (with_id sampleMsg 50), PStart 2 (with_id sampleMsg 60), PRead True (Some (with_id sampleMsg 1)) 0,
      PRead True (Some (with_id sampleMsg 0)) 0, PFinish 1 True, PFinish 2 True]"
  let ?s = "\<lparr>pxConn = newPipelineConn, pxExs = Map.empty, pxLog = [], pxRead = [], pxDone = []\<rparr>"
  have "\<exists>s'. run pipeStep ?es ?s = Some s' \<and> pxDone s' = [(2, Some (with_id sampleMsg 60)), (1, Some (with_id sampleMsg 50))]"
    by (simp add: newPipelineConn_def pcReserve_def addQueueC_def readTurn_def getQueueC_def exchangeEnd_def deleteQueueC_def Let_def pcClose_def)
  then obtain s' where s': "run pipeStep ?es ?s = Some s'" "pxDone s' = [(2, Some (with_id sampleMsg 60)), (1, Some (with_id sampleMsg 50))]" by blast
  from pipeline_responses_match [OF s'(1)] s' show ?thesis by (simp add: pipeStart_def)
qed

section \<open>The last number\<close>

text \<open>At the last number \<^verbatim>\<open>Reserve\<close> does not count, so the connection stays available and is picked twice; the second
  exchange finds no number left.\<close>

lemma last_number_picked_twice:
  assumes "pcNextQid c = 65535" "pcReserved c = 0"
  shows "pcReserve c = c \<and> csAvailable (pcStatus c) \<and> fst (addQueueC x c) \<noteq> None \<and> fst (addQueueC y (snd (addQueueC x c))) = None"
  using assms by (simp add: pcReserve_def pcStatus_def addQueueC_def Let_def)

text \<open>Before that a reserved exchange gets a number.\<close>

lemma reserved_gets_number: "pcNextQid c + pcReserved c \<le> 65535 \<Longrightarrow> pcReserved c \<ge> 0 \<Longrightarrow> fst (addQueueC x c) \<noteq> None"
  by (auto simp: addQueueC_def Let_def)

section \<open>Retrying ends\<close>

text \<open>At most \<open>limit\<close> attempts are repeated, each after one with a connection that was not new; the errors of all
  attempts are reported.\<close>

lemma retry_ends:
  assumes "retryExchange limit att ctxDone retry errs = r"
  shows "\<exists>n \<ge> retry. n \<le> max retry limit \<and> (\<forall>i. retry \<le> i \<and> i < n \<longrightarrow> (\<exists>e. att i = Tried False (Inl e))) \<and>
    (case r of Inr m \<Rightarrow> (\<exists>b. att n = Tried b (Inr m)) | Inl es \<Rightarrow> length es = length errs + (n - retry) + 1)"
  using assms
proof (induction limit att ctxDone retry errs arbitrary: r rule: retryExchange.induct)
  case (1 limit att ctxDone retry errs)
  show ?case
  proof (cases "\<exists>e. att retry = Tried False (Inl e) \<and> retry < limit \<and> \<not> ctxDone retry")
    case True
    then obtain e where e: "att retry = Tried False (Inl e)" "retry < limit" "\<not> ctxDone retry" by blast
    then have r: "retryExchange limit att ctxDone (retry + 1) (errs @ [e]) = r" using 1(2) by (simp add: retryExchange.simps [of _ _ _ retry])
    from 1(1) [OF e(1) refl _ r] e obtain n where n: "n \<ge> retry + 1" "n \<le> max (retry + 1) limit"
      "\<forall>i. retry + 1 \<le> i \<and> i < n \<longrightarrow> (\<exists>e. att i = Tried False (Inl e))"
      "case r of Inr m \<Rightarrow> (\<exists>b. att n = Tried b (Inr m)) | Inl es \<Rightarrow> length es = length (errs @ [e]) + (n - (retry + 1)) + 1" by auto
    have "\<forall>i. retry \<le> i \<and> i < n \<longrightarrow> (\<exists>e. att i = Tried False (Inl e))" using n(3) e(1) by (metis Suc_eq_plus1 Suc_leI le_neq_implies_less)
    then show ?thesis using n e(2) by (intro exI [of _ n]) (auto split: sum.splits)
  next
    case False
    then have "case r of Inr m \<Rightarrow> (\<exists>b. att retry = Tried b (Inr m)) | Inl es \<Rightarrow> length es = length errs + 1"
      using 1(2) by (auto simp: retryExchange.simps [of _ _ _ retry] split: attempt.splits sum.splits if_splits)
    then show ?thesis by (intro exI [of _ retry]) (auto split: sum.splits)
  qed
qed

end
