(* ===== verification/Reuse.thy ===== *)
theory Reuse
  imports Pipeline
begin

text \<open>
  Exchanges that use a connection one after the other
  (\<^verbatim>\<open>internal/upstream/transport/reuse_transport.go\<close>). Connections are numbers. Dialing, the peer and the timers
  are events.
\<close>

section \<open>A connection\<close>

text \<open>\<open>rcOpen\<close> tells whether the socket is open; a deadline can be set only then.\<close>

record reusableConn =
  rcServing :: bool
  rcClosed :: bool
  rcOpen :: bool

definition newReusableConn :: reusableConn where
  "newReusableConn = \<lparr>rcServing = False, rcClosed = False, rcOpen = True\<rparr>"

definition exitIdle :: "reusableConn \<Rightarrow> (unit, bool \<times> reusableConn) res" where
  "exitIdle c = (if rcClosed c then Inr (True, c) else if rcServing c then Inl Panic
     else Inr (\<not> rcOpen c, c\<lparr>rcServing := True\<rparr>))"

definition enterIdle :: "reusableConn \<Rightarrow> (unit, reusableConn) res" where
  "enterIdle c = (if \<not> rcServing c then Inl Panic else Inr (c\<lparr>rcServing := False\<rparr>))"

definition closeIfIdle :: "reusableConn \<Rightarrow> reusableConn" where
  "closeIfIdle c = (if \<not> rcServing c then c\<lparr>rcClosed := True, rcOpen := False\<rparr> else c)"

definition rcClose :: "reusableConn \<Rightarrow> reusableConn" where
  "rcClose c = (if rcClosed c then c else c\<lparr>rcClosed := True, rcOpen := False\<rparr>)"

section \<open>The transport\<close>

record reuseTransport =
  rtClosed :: bool
  rtIdle :: "conn set"
  rtConns :: "conn set"
  rtRc :: "conn \<Rightarrow> reusableConn"

definition newReuseTransport :: reuseTransport where
  "newReuseTransport = \<lparr>rtClosed = False, rtIdle = {}, rtConns = {}, rtRc = (\<lambda>_. \<lparr>rcServing = False, rcClosed = False, rcOpen = False\<rparr>)\<rparr>"

text \<open>The loop over the idle connections, in the order in which the map is iterated.\<close>

fun idleConnLoop :: "conn list \<Rightarrow> reuseTransport \<Rightarrow> (unit, conn option \<times> reuseTransport) res" where
  "idleConnLoop [] t = Inr (None, t)"
| "idleConnLoop (c # cs) t =
    (let t = t\<lparr>rtIdle := rtIdle t - {c}\<rparr> in
     thenE (exitIdle (rtRc t c)) (\<lambda>(closed, rc).
       let t = t\<lparr>rtRc := (rtRc t)(c := rc)\<rparr> in
       if closed then idleConnLoop cs (t\<lparr>rtConns := rtConns t - {c}\<rparr>) else Inr (Some c, t)))"

text \<open>\<^verbatim>\<open>ErrClosedTransport\<close> is the only error.\<close>

definition getIdleConn :: "conn list \<Rightarrow> reuseTransport \<Rightarrow> (unit, conn option \<times> reuseTransport) res" where
  "getIdleConn order t = (if rtClosed t then Inl (Err ()) else idleConnLoop order t)"

text \<open>The goroutine of \<^verbatim>\<open>asyncDial\<close> after it has dialed the connection \<open>c\<close>; true if the connection may be used.\<close>

definition dialed :: "conn \<Rightarrow> reuseTransport \<Rightarrow> (unit, bool \<times> reuseTransport) res" where
  "dialed c t = thenE (exitIdle newReusableConn) (\<lambda>(_, rc).
     if rtClosed t then Inr (False, t\<lparr>rtRc := (rtRc t)(c := rcClose rc)\<rparr>)
     else Inr (True, t\<lparr>rtRc := (rtRc t)(c := rc), rtConns := insert c (rtConns t)\<rparr>))"

text \<open>\<^verbatim>\<open>releaseConn\<close> changes the connection first, and then, under the lock, the transport.\<close>

definition releaseFirst :: "conn \<Rightarrow> bool \<Rightarrow> reuseTransport \<Rightarrow> (unit, reuseTransport) res" where
  "releaseFirst c failed t =
    (if failed then Inr (t\<lparr>rtRc := (rtRc t)(c := rcClose (rtRc t c))\<rparr>)
     else thenE (enterIdle (rtRc t c)) (\<lambda>rc. Inr (t\<lparr>rtRc := (rtRc t)(c := rc)\<rparr>)))"

definition releaseThen :: "conn \<Rightarrow> bool \<Rightarrow> reuseTransport \<Rightarrow> reuseTransport" where
  "releaseThen c failed t =
    (if rtClosed t then (if failed then t else t\<lparr>rtRc := (rtRc t)(c := rcClose (rtRc t c))\<rparr>)
     else if failed then t\<lparr>rtConns := rtConns t - {c}\<rparr>
     else t\<lparr>rtIdle := insert c (rtIdle t)\<rparr>)"

definition transportClose :: "reuseTransport \<Rightarrow> reuseTransport" where
  "transportClose t = (if rtClosed t then t
     else t\<lparr>rtClosed := True, rtRc := (\<lambda>c. if c \<in> rtConns t then (rtRc t c)\<lparr>rcOpen := False\<rparr> else rtRc t c)\<rparr>)"

section \<open>One exchange\<close>

text \<open>
  \<open>wrote\<close> tells whether the payload could be written, and \<open>answer\<close> is what can be read then, up to the
  time-out. \<^verbatim>\<open>exchangeConnCtx\<close> returns the bytes written, if it comes to that.
\<close>

datatype reuseErr = ErrWrite | ErrRead netErr

definition exchangeConn :: "bool \<Rightarrow> bytes \<Rightarrow> (reuseErr, Msg) res" where
  "exchangeConn wrote answer =
    (if \<not> wrote then Inl (Err ErrWrite)
     else case fst (readMsgFromTCP answer) of Inr r \<Rightarrow> Inr r | Inl Panic \<Rightarrow> Inl Panic | Inl (Err e) \<Rightarrow> Inl (Err (ErrRead e)))"

definition exchangeConnCtx :: "(nat \<Rightarrow> bytes) \<Rightarrow> Msg \<Rightarrow> bool \<Rightarrow> bytes \<Rightarrow> bytes option \<times> (reuseErr, Msg) res" where
  "exchangeConnCtx junk m wrote answer = (case packTcpMsg junk m 0 of
     Inl Panic \<Rightarrow> (None, Inl Panic)
   | Inl (Err e) \<Rightarrow> (None, Inl (Err (ErrRead e)))
   | Inr payload \<Rightarrow> (Some payload, exchangeConn wrote answer))"

definition reuseExchange :: "(nat \<Rightarrow> Msg attempt) \<Rightarrow> (nat \<Rightarrow> bool) \<Rightarrow> Msg \<Rightarrow> string list + Msg" where
  "reuseExchange att ctxDone m = map_sum id (\<lambda>resp. with_id resp (ID (mHeader m))) (retryExchange 6 att ctxDone 0 [])"

section \<open>The transport and its goroutines\<close>

text \<open>
  \<open>ruHeld\<close> are the connections in use, \<open>ruRel\<close> those that are between the two halves of \<^verbatim>\<open>releaseConn\<close>, with
  whether the exchange failed, and \<open>ruMade\<close> all the connections there have been.
\<close>

record reuseSys =
  ruT :: reuseTransport
  ruHeld :: "conn list"
  ruRel :: "(conn \<times> bool) list"
  ruMade :: "conn set"
  ruPanic :: bool

text \<open>
  \<open>RDialed\<close> is atomic: the timer of a new connection does not fire before the next statements stop it.
  \<open>RPackFailed\<close> is the exit of \<^verbatim>\<open>exchangeConnCtx\<close> that does not release the connection. A timer that has
  fired may close its connection at any later moment.
\<close>

datatype reuseEv = RGet "conn list" | RDialed conn | RPackFailed conn | RFinish conn bool | RReleased conn bool | RTimer conn | RClose

definition panics :: "(unit, 'a) res \<Rightarrow> ('a \<Rightarrow> reuseSys) \<Rightarrow> reuseSys \<Rightarrow> reuseSys" where
  "panics r k s = (case r of Inl Panic \<Rightarrow> s\<lparr>ruPanic := True\<rparr> | Inl (Err _) \<Rightarrow> s | Inr x \<Rightarrow> k x)"

fun reuseStep :: "reuseEv \<Rightarrow> reuseSys \<Rightarrow> reuseSys option" where
  "reuseStep (RGet order) s =
    (if distinct order \<and> set order = rtIdle (ruT s) then
       Some (panics (getIdleConn order (ruT s)) (\<lambda>(r, t). case r of None \<Rightarrow> s\<lparr>ruT := t\<rparr> | Some c \<Rightarrow> s\<lparr>ruT := t, ruHeld := c # ruHeld s\<rparr>) s)
     else None)"
| "reuseStep (RDialed c) s =
    (if c \<in> ruMade s then None
     else Some (panics (dialed c (ruT s)) (\<lambda>(ok, t). s\<lparr>ruT := t, ruMade := insert c (ruMade s), ruHeld := (if ok then c # ruHeld s else ruHeld s)\<rparr>) s))"
| "reuseStep (RPackFailed c) s = (if c \<in> set (ruHeld s) then Some (s\<lparr>ruHeld := remove1 c (ruHeld s)\<rparr>) else None)"
| "reuseStep (RFinish c failed) s =
    (if c \<in> set (ruHeld s) then
       Some (panics (releaseFirst c failed (ruT s)) (\<lambda>t. s\<lparr>ruT := t, ruHeld := remove1 c (ruHeld s), ruRel := (c, failed) # ruRel s\<rparr>) s)
     else None)"
| "reuseStep (RReleased c failed) s =
    (if (c, failed) \<in> set (ruRel s) then Some (s\<lparr>ruT := releaseThen c failed (ruT s), ruRel := remove1 (c, failed) (ruRel s)\<rparr>) else None)"
| "reuseStep (RTimer c) s = (if c \<in> ruMade s then Some (s\<lparr>ruT := (ruT s)\<lparr>rtRc := (rtRc (ruT s))(c := closeIfIdle (rtRc (ruT s) c))\<rparr>\<rparr>) else None)"
| "reuseStep RClose s = Some (s\<lparr>ruT := transportClose (ruT s)\<rparr>)"

definition reuseStart :: "reuseSys \<Rightarrow> bool" where
  "reuseStart s \<longleftrightarrow> s = \<lparr>ruT = newReuseTransport, ruHeld = [], ruRel = [], ruMade = {}, ruPanic = False\<rparr>"

section \<open>A connection serves one exchange\<close>

text \<open>What the invariant says of a connection in use, of one being released, and of one that is idle.\<close>

definition in_use :: "reusableConn \<Rightarrow> bool" where
  "in_use rc \<longleftrightarrow> rcServing rc \<and> \<not> rcClosed rc"

definition at_rest :: "reusableConn \<Rightarrow> bool" where
  "at_rest rc \<longleftrightarrow> \<not> rcServing rc \<or> rcClosed rc"

definition owners :: "reuseSys \<Rightarrow> conn list" where
  "owners s = ruHeld s @ map fst (ruRel s)"

text \<open>What holds of the transport alone.\<close>

definition sockets_ok :: "reuseTransport \<Rightarrow> bool" where
  "sockets_ok t \<longleftrightarrow> (\<forall>c \<in> rtIdle t. at_rest (rtRc t c)) \<and> (\<forall>c. rcClosed (rtRc t c) \<longrightarrow> \<not> rcOpen (rtRc t c)) \<and>
     (\<forall>c. rcOpen (rtRc t c) \<longrightarrow> c \<in> rtConns t \<and> \<not> rtClosed t)"

definition reuseInv :: "reuseSys \<Rightarrow> bool" where
  "reuseInv s \<longleftrightarrow> \<not> ruPanic s \<and> distinct (owners s) \<and> set (owners s) \<inter> rtIdle (ruT s) = {} \<and>
     set (owners s) \<union> rtIdle (ruT s) \<union> rtConns (ruT s) \<subseteq> ruMade s \<and> sockets_ok (ruT s) \<and>
     (\<forall>c \<in> set (ruHeld s). in_use (rtRc (ruT s) c)) \<and>
     (\<forall>c failed. (c, failed) \<in> set (ruRel s) \<longrightarrow> (if failed then \<not> rcOpen (rtRc (ruT s) c) else at_rest (rtRc (ruT s) c)))"

lemma exitIdle_rest: "at_rest rc \<Longrightarrow> exitIdle rc = Inr (if rcClosed rc then (True, rc) else (\<not> rcOpen rc, rc\<lparr>rcServing := True\<rparr>))"
  by (auto simp: exitIdle_def at_rest_def)

lemma idleConnLoop_ok:
  assumes "distinct order" "set order \<subseteq> rtIdle t" "sockets_ok t"
  shows "\<exists>r t'. idleConnLoop order t = Inr (r, t') \<and> sockets_ok t' \<and> rtIdle t' \<subseteq> rtIdle t \<and> rtConns t' \<subseteq> rtConns t \<and>
    (\<forall>c. c \<notin> rtIdle t \<longrightarrow> rtRc t' c = rtRc t c) \<and>
    (case r of None \<Rightarrow> True | Some c \<Rightarrow> c \<in> rtIdle t \<and> c \<notin> rtIdle t' \<and> in_use (rtRc t' c))"
  using assms
proof (induction order arbitrary: t)
  case (Cons c cs)
  have c: "c \<in> rtIdle t" "at_rest (rtRc t c)" "rcClosed (rtRc t c) \<longrightarrow> \<not> rcOpen (rtRc t c)"
    using Cons.prems by (auto simp: sockets_ok_def)
  then obtain closed rc where e: "exitIdle (rtRc t c) = Inr (closed, rc)" using exitIdle_rest by (metis surj_pair)
  let ?t = "t\<lparr>rtIdle := rtIdle t - {c}, rtRc := (rtRc t)(c := rc)\<rparr>"
  let ?u = "?t\<lparr>rtConns := rtConns t - {c}\<rparr>"
  show ?case
  proof (cases closed)
    case True
    then have "\<not> rcOpen rc" using e c(3) by (auto simp: exitIdle_def split: if_splits)
    then have "sockets_ok ?u" using Cons.prems(3) by (auto simp: sockets_ok_def)
    moreover have "set cs \<subseteq> rtIdle ?u" using Cons.prems by auto
    moreover have "distinct cs" using Cons.prems by simp
    ultimately have "\<exists>r t'. idleConnLoop cs ?u = Inr (r, t') \<and> sockets_ok t' \<and> rtIdle t' \<subseteq> rtIdle ?u \<and> rtConns t' \<subseteq> rtConns ?u \<and>
      (\<forall>d. d \<notin> rtIdle ?u \<longrightarrow> rtRc t' d = rtRc ?u d) \<and>
      (case r of None \<Rightarrow> True | Some d \<Rightarrow> d \<in> rtIdle ?u \<and> d \<notin> rtIdle t' \<and> in_use (rtRc t' d))"
      by (intro Cons.IH)
    then obtain r t' where t': "idleConnLoop cs ?u = Inr (r, t')" "sockets_ok t'" "rtIdle t' \<subseteq> rtIdle ?u" "rtConns t' \<subseteq> rtConns ?u"
      "\<forall>d. d \<notin> rtIdle ?u \<longrightarrow> rtRc t' d = rtRc ?u d"
      "case r of None \<Rightarrow> True | Some d \<Rightarrow> d \<in> rtIdle ?u \<and> d \<notin> rtIdle t' \<and> in_use (rtRc t' d)"
      by (elim exE conjE) (rule that)
    have "idleConnLoop (c # cs) t = Inr (r, t')" using e True t'(1) by (simp add: Let_def)
    moreover have "rtRc t' d = rtRc t d" if "d \<notin> rtIdle t" for d using spec [OF t'(5), of d] that c(1) by auto
    moreover have "case r of None \<Rightarrow> True | Some d \<Rightarrow> d \<in> rtIdle t \<and> d \<notin> rtIdle t' \<and> in_use (rtRc t' d)"
      using t'(6) by (simp split: option.splits)
    moreover have "rtIdle t' \<subseteq> rtIdle t" "rtConns t' \<subseteq> rtConns t" using t'(3,4) by auto
    ultimately show ?thesis using t'(2) by blast
  next
    case False
    then have "in_use rc" "rcOpen rc" using e by (auto simp: exitIdle_def in_use_def split: if_splits)
    moreover have "rcOpen (rtRc t c)" using e False by (auto simp: exitIdle_def split: if_splits)
    ultimately have "sockets_ok ?t" using Cons.prems(3) by (auto simp: sockets_ok_def in_use_def)
    moreover have "idleConnLoop (c # cs) t = Inr (Some c, ?t)" using e False by (simp add: Let_def)
    ultimately show ?thesis using c(1) \<open>in_use rc\<close> by auto
  qed
qed auto

text \<open>The steps.\<close>

lemma get_keeps:
  assumes inv: "reuseInv s" and order: "distinct order" "set order = rtIdle (ruT s)"
  shows "reuseInv (panics (getIdleConn order (ruT s)) (\<lambda>(r, t). case r of None \<Rightarrow> s\<lparr>ruT := t\<rparr> | Some c \<Rightarrow> s\<lparr>ruT := t, ruHeld := c # ruHeld s\<rparr>) s)"
proof (cases "rtClosed (ruT s)")
  case True
  then show ?thesis using inv by (simp add: getIdleConn_def panics_def)
next
  case False
  have "sockets_ok (ruT s)" using inv by (simp add: reuseInv_def)
  from idleConnLoop_ok [OF order(1) _ this] order(2) obtain r t' where t': "idleConnLoop order (ruT s) = Inr (r, t')" "sockets_ok t'"
    "rtIdle t' \<subseteq> rtIdle (ruT s)" "rtConns t' \<subseteq> rtConns (ruT s)" "\<And>c. c \<notin> rtIdle (ruT s) \<Longrightarrow> rtRc t' c = rtRc (ruT s) c"
    "case r of None \<Rightarrow> True | Some c \<Rightarrow> c \<in> rtIdle (ruT s) \<and> c \<notin> rtIdle t' \<and> in_use (rtRc t' c)" by auto
  have same: "rtRc t' c = rtRc (ruT s) c" if "c \<in> set (owners s)" for c using that inv t'(5) by (auto simp: reuseInv_def)
  have held: "in_use (rtRc t' c)" if "c \<in> set (ruHeld s)" for c using that same [of c] inv by (auto simp: reuseInv_def owners_def)
  have rel: "if failed then \<not> rcOpen (rtRc t' c) else at_rest (rtRc t' c)" if "(c, failed) \<in> set (ruRel s)" for c failed
  proof -
    have "c \<in> set (owners s)" using that by (force simp: owners_def)
    moreover have "if failed then \<not> rcOpen (rtRc (ruT s) c) else at_rest (rtRc (ruT s) c)" using inv that unfolding reuseInv_def by blast
    ultimately show ?thesis using same by simp
  qed
  have rest: "distinct (owners s)" "set (owners s) \<inter> rtIdle (ruT s) = {}" "set (owners s) \<union> rtIdle (ruT s) \<union> rtConns (ruT s) \<subseteq> ruMade s"
    "\<not> ruPanic s" using inv by (auto simp: reuseInv_def)
  have sub: "rtIdle t' \<union> rtConns t' \<subseteq> ruMade s" using t'(3,4) rest(3) by blast
  show ?thesis
  proof (cases r)
    case None
    have "reuseInv (s\<lparr>ruT := t'\<rparr>)"
      unfolding reuseInv_def owners_def using rest t'(2,3) sub held rel by (auto simp: owners_def)
    then show ?thesis using t'(1) False None by (simp add: getIdleConn_def panics_def)
  next
    case (Some c)
    then have c: "c \<in> rtIdle (ruT s)" "c \<notin> rtIdle t'" "in_use (rtRc t' c)" using t'(6) by auto
    then have new: "c \<notin> set (owners s)" "c \<in> ruMade s" using rest(2,3) by auto
    let ?s = "s\<lparr>ruT := t', ruHeld := c # ruHeld s\<rparr>"
    have "distinct (owners ?s)" "set (owners ?s) \<inter> rtIdle t' = {}" "set (owners ?s) \<subseteq> ruMade s"
      using rest(1-3) new c(2) t'(3) by (auto simp: owners_def)
    moreover have "\<forall>d \<in> set (ruHeld ?s). in_use (rtRc t' d)" using held c(3) by simp
    moreover have "\<forall>d failed. (d, failed) \<in> set (ruRel ?s) \<longrightarrow> (if failed then \<not> rcOpen (rtRc t' d) else at_rest (rtRc t' d))" using rel by simp
    ultimately have "reuseInv ?s" unfolding reuseInv_def using rest(4) sub t'(2) by simp
    then show ?thesis using t'(1) False Some by (simp add: getIdleConn_def panics_def)
  qed
qed

lemma dialed_keeps:
  assumes inv: "reuseInv s" and c: "c \<notin> ruMade s"
  shows "reuseInv (panics (dialed c (ruT s)) (\<lambda>(ok, t). s\<lparr>ruT := t, ruMade := insert c (ruMade s), ruHeld := (if ok then c # ruHeld s else ruHeld s)\<rparr>) s)"
proof -
  have "c \<notin> set (owners s)" "c \<notin> rtIdle (ruT s)" using inv c by (auto simp: reuseInv_def)
  moreover from this(1) have "(c, b) \<notin> set (ruRel s)" for b by (force simp: owners_def)
  ultimately show ?thesis using inv
    by (auto simp: dialed_def exitIdle_def newReusableConn_def panics_def reuseInv_def owners_def sockets_ok_def rcClose_def in_use_def)
qed

lemma finish_keeps:
  assumes inv: "reuseInv s" and c: "c \<in> set (ruHeld s)"
  shows "reuseInv (panics (releaseFirst c failed (ruT s)) (\<lambda>t. s\<lparr>ruT := t, ruHeld := remove1 c (ruHeld s), ruRel := (c, failed) # ruRel s\<rparr>) s)"
proof -
  have u: "in_use (rtRc (ruT s) c)" and o': "distinct (owners s)" "set (owners s) \<inter> rtIdle (ruT s) = {}" using inv c by (auto simp: reuseInv_def)
  define rc where "rc = (if failed then rcClose (rtRc (ruT s) c) else (rtRc (ruT s) c)\<lparr>rcServing := False\<rparr>)"
  let ?t = "(ruT s)\<lparr>rtRc := (rtRc (ruT s))(c := rc)\<rparr>"
  have r: "releaseFirst c failed (ruT s) = Inr ?t" using u by (simp add: releaseFirst_def rc_def enterIdle_def in_use_def)
  have rc: "if failed then \<not> rcOpen rc else at_rest rc" "rcClosed rc \<longrightarrow> \<not> rcOpen rc" "rcOpen rc \<longrightarrow> rcOpen (rtRc (ruT s) c)"
    using u by (auto simp: rc_def rcClose_def in_use_def at_rest_def)
  have "sockets_ok ?t" using inv rc(2,3) o' c by (auto simp: reuseInv_def sockets_ok_def owners_def)
  moreover have "distinct (remove1 c (ruHeld s) @ c # map fst (ruRel s))" "c \<notin> set (map fst (ruRel s))" "c \<notin> set (remove1 c (ruHeld s))"
    using o' c by (auto simp: owners_def)
  moreover have "(c, b) \<notin> set (ruRel s)" for b using calculation(3) by force
  ultimately show ?thesis using inv rc(1) c
    by (auto simp: r panics_def reuseInv_def owners_def dest: notin_set_remove1 set_remove1_subset [THEN subsetD])
qed

lemma distinct_keys_remove1:
  assumes "distinct (map fst xs)" "(c, b) \<in> set xs"
  shows "distinct (map fst (remove1 (c, b) xs)) \<and> fst ` set (remove1 (c, b) xs) = fst ` set xs - {c} \<and> set (remove1 (c, b) xs) \<subseteq> set xs"
  using assms
proof (induction xs)
  case (Cons x xs)
  have "c \<notin> fst ` set xs \<Longrightarrow> (c, b) \<notin> set xs" by force
  with Cons show ?case by (cases "x = (c, b)") (auto simp: image_iff)
qed simp

lemma released_keeps:
  assumes inv: "reuseInv s" and c: "(c, failed) \<in> set (ruRel s)"
  shows "reuseInv (s\<lparr>ruT := releaseThen c failed (ruT s), ruRel := remove1 (c, failed) (ruRel s)\<rparr>)"
proof -
  let ?t = "releaseThen c failed (ruT s)" and ?rel = "remove1 (c, failed) (ruRel s)"
  have o': "distinct (owners s)" "set (owners s) \<inter> rtIdle (ruT s) = {}" "set (owners s) \<union> rtIdle (ruT s) \<union> rtConns (ruT s) \<subseteq> ruMade s"
    using inv by (simp_all add: reuseInv_def)
  have co: "c \<in> set (owners s)" using c by (force simp: owners_def)
  then have ch: "c \<notin> set (ruHeld s)" using o'(1) c by (force simp: owners_def)
  have k: "distinct (map fst ?rel)" "fst ` set ?rel = fst ` set (ruRel s) - {c}" "set ?rel \<subseteq> set (ruRel s)"
    using distinct_keys_remove1 [OF _ c] o'(1) by (auto simp: owners_def)
  have ow: "set (ruHeld s @ map fst ?rel) = set (owners s) - {c}" using k(2) ch by (auto simp: owners_def)
  have rc: "if failed then \<not> rcOpen (rtRc (ruT s) c) else at_rest (rtRc (ruT s) c)" using inv c unfolding reuseInv_def by blast
  have other: "rtRc ?t d = rtRc (ruT s) d" if "d \<noteq> c" for d using that by (simp add: releaseThen_def)
  have sub: "rtIdle ?t \<subseteq> insert c (rtIdle (ruT s))" "rtConns ?t \<subseteq> rtConns (ruT s)" by (auto simp: releaseThen_def)
  have "sockets_ok (ruT s)" using inv by (simp add: reuseInv_def)
  then have sock: "sockets_ok ?t" using rc by (auto simp: releaseThen_def sockets_ok_def rcClose_def at_rest_def)
  have "distinct (ruHeld s @ map fst ?rel)" using o'(1) k(1,2) by (auto simp: owners_def)
  moreover have "set (ruHeld s @ map fst ?rel) \<inter> rtIdle ?t = {}" using o'(2) sub(1) unfolding ow by blast
  moreover have "set (ruHeld s @ map fst ?rel) \<union> rtIdle ?t \<union> rtConns ?t \<subseteq> ruMade s" using o'(3) sub co unfolding ow by blast
  moreover have "in_use (rtRc ?t d)" if "d \<in> set (ruHeld s)" for d
  proof -
    have "d \<noteq> c" using that ch by auto
    then show ?thesis using that other [of d] inv by (simp add: reuseInv_def)
  qed
  moreover have "if failed' then \<not> rcOpen (rtRc ?t d) else at_rest (rtRc ?t d)" if "(d, failed') \<in> set ?rel" for d failed'
  proof -
    have "d \<in> fst ` set ?rel" using that by force
    then have "d \<noteq> c" using k(2) by simp
    moreover have "if failed' then \<not> rcOpen (rtRc (ruT s) d) else at_rest (rtRc (ruT s) d)"
      using inv that k(3) unfolding reuseInv_def by blast
    ultimately show ?thesis using other by simp
  qed
  ultimately show ?thesis using inv sock by (simp add: reuseInv_def owners_def)
qed

lemma closeIfIdle_simps:
  "at_rest rc \<Longrightarrow> at_rest (closeIfIdle rc)" "in_use rc \<Longrightarrow> closeIfIdle rc = rc" "rcOpen (closeIfIdle rc) \<Longrightarrow> closeIfIdle rc = rc \<and> rcOpen rc"
  by (auto simp: closeIfIdle_def at_rest_def in_use_def)

lemma rcOpen_simps [simp]: "at_rest (rc\<lparr>rcOpen := b\<rparr>) = at_rest rc" "in_use (rc\<lparr>rcOpen := b\<rparr>) = in_use rc"
  by (auto simp: at_rest_def in_use_def)

lemma rest_keeps:
  assumes inv: "reuseInv s"
  shows "reuseInv (s\<lparr>ruHeld := remove1 c (ruHeld s)\<rparr>)"
    and "reuseInv (s\<lparr>ruT := (ruT s)\<lparr>rtRc := (rtRc (ruT s))(c := closeIfIdle (rtRc (ruT s) c))\<rparr>\<rparr>)"
    and "reuseInv (s\<lparr>ruT := transportClose (ruT s)\<rparr>)"
proof -
  show "reuseInv (s\<lparr>ruHeld := remove1 c (ruHeld s)\<rparr>)" using inv
    by (auto simp: reuseInv_def owners_def dest: set_remove1_subset [THEN subsetD])
  show "reuseInv (s\<lparr>ruT := (ruT s)\<lparr>rtRc := (rtRc (ruT s))(c := closeIfIdle (rtRc (ruT s) c))\<rparr>\<rparr>)" using inv
    by (auto simp: reuseInv_def owners_def sockets_ok_def closeIfIdle_simps(1,2) dest!: closeIfIdle_simps(3))
  show "reuseInv (s\<lparr>ruT := transportClose (ruT s)\<rparr>)" using inv
    by (auto simp: reuseInv_def owners_def sockets_ok_def transportClose_def)
qed

lemma reuse_step: "reuseInv s \<Longrightarrow> reuseStep e s = Some s' \<Longrightarrow> reuseInv s'"
  by (cases e) (auto simp: get_keeps dialed_keeps finish_keeps released_keeps rest_keeps split: if_splits)

interpretation reuse: machine reuseStart reuseStep reuseInv
  by unfold_locales (simp add: reuseStart_def newReuseTransport_def reuseInv_def owners_def sockets_ok_def, rule reuse_step)

text \<open>C30: Of the transport that uses connections one after the other: a connection is never used by two exchanges, nor
  is it idle or about to be while one uses it, so every answer read is to the query just written; the checks of
  \<^verbatim>\<open>exitIdle\<close> and \<^verbatim>\<open>enterIdle\<close> never panic; and once the transport is closed no connection is open.\<close>

theorem reuse_exclusive:
  assumes "reuseStart s0" "run reuseStep es s0 = Some s"
  shows "\<not> ruPanic s \<and> distinct (ruHeld s @ map fst (ruRel s)) \<and> set (ruHeld s) \<inter> rtIdle (ruT s) = {} \<and>
    (rtClosed (ruT s) \<longrightarrow> (\<forall>c. \<not> rcOpen (rtRc (ruT s) c)))"
  using reuse.run_inv [OF assms(2,1)] by (auto simp: reuseInv_def owners_def sockets_ok_def)

text \<open>A connection is dialed, used, released and used again; its timer fires late; the transport is closed.\<close>

theorem reuse_exclusive_witness:
  "\<exists>s0 s. reuseStart s0 \<and> run reuseStep [RDialed 1, RFinish 1 False, RReleased 1 False, RGet [1], RTimer 1, RDialed 2, RClose] s0 = Some s \<and>
    ruHeld s = [2, 1] \<and> \<not> ruPanic s \<and> (\<forall>c. \<not> rcOpen (rtRc (ruT s) c))"
proof -
  let ?es = "[RDialed 1, RFinish 1 False, RReleased 1 False, RGet [1], RTimer 1, RDialed 2, RClose]"
  obtain s0 where s0: "reuseStart s0" by (auto simp: reuseStart_def)
  have "\<exists>s. run reuseStep ?es s0 = Some s \<and> ruHeld s = [2, 1] \<and> rtClosed (ruT s)" using s0
    by (simp add: reuseStart_def newReuseTransport_def dialed_def exitIdle_def newReusableConn_def panics_def releaseFirst_def enterIdle_def
        releaseThen_def getIdleConn_def closeIfIdle_def transportClose_def)
  then obtain s where s: "run reuseStep ?es s0 = Some s" "ruHeld s = [2, 1]" "rtClosed (ruT s)" by blast
  from reuse_exclusive [OF s0 s(1)] s s0 show ?thesis by blast
qed

section \<open>What an exchange returns\<close>

text \<open>The peer reads the query with the number 0. If it answers with the frame of a message, the exchange returns the
  message with the number of the query.\<close>

lemma reuse_exchange:
  assumes "msg_ok m" "hdr_ok (mHeader m)" "maxPackLen m = Inr l" "l \<le> 65535" "\<forall>n. length (junk n) = n"
    and "length x \<le> 65535" "msgUnpack x = Inr r"
    and "att 0 = Tried b (case snd (exchangeConnCtx junk m True (put_u16 (word_of_nat (length x)) @ x)) of Inr r \<Rightarrow> Inr r | Inl _ \<Rightarrow> Inl e)"
  shows "(\<exists>p m'. fst (exchangeConnCtx junk m True (put_u16 (word_of_nat (length x)) @ x)) = Some p \<and>
      fst (readMsgFromTCP p) = Inr m' \<and> same_msg (with_id m 0) m') \<and>
    reuseExchange att ctxDone m = Inr (with_id r (ID (mHeader m)))"
proof -
  obtain p m' where p: "packTcpMsg junk m 0 = Inr p" "fst (readMsgFromTCP p) = Inr m'" "same_msg (with_id m 0) m'"
    using frame_sent [OF assms(1-5), of 0 "[]"] by auto
  have "readMsgFromTCP (put_u16 (word_of_nat (length x)) @ x) = (Inr r, length x + 2, [])" using read_frame [OF assms(6,7), of "[]"] by simp
  then have "exchangeConnCtx junk m True (put_u16 (word_of_nat (length x)) @ x) = (Some p, Inr r)"
    using p(1) by (simp add: exchangeConnCtx_def exchangeConn_def)
  then show ?thesis using p assms(8) by (simp add: reuseExchange_def retryExchange.simps)
qed

end
