(* ===== verification/Quic.thy ===== *)
theory Quic
  imports Pipeline
begin

text \<open>
  Queries to upstreams over QUIC (\<^verbatim>\<open>internal/upstream/transport/quic_transport.go\<close>). Connections and dial calls are
  numbers; what a stream brings and whether a connection is still alive are arguments.
\<close>

section \<open>The transport\<close>

record dialingQuicCall =
  dqDone :: bool
  dqConn :: "conn option"

record quicTransport =
  qtClosed :: bool
  qtDialing :: "dial option"
  qtConn :: "conn option"
  qtCalls :: "dial \<Rightarrow> dialingQuicCall"

definition newQuicTransport :: quicTransport where
  "newQuicTransport = \<lparr>qtClosed = False, qtDialing = None, qtConn = None, qtCalls = (\<lambda>_. \<lparr>dqDone = False, dqConn = None\<rparr>)\<rparr>"

text \<open>\<^verbatim>\<open>getConn\<close> up to the wait; \<open>dc\<close> is a new dial call.\<close>

datatype quicGet = QConn conn | QWait dial | QClosed

definition quicGetConn :: "(conn \<Rightarrow> bool) \<Rightarrow> dial \<Rightarrow> quicTransport \<Rightarrow> quicGet \<times> quicTransport" where
  "quicGetConn alive dc t =
    (if qtClosed t then (QClosed, t)
     else case (case qtConn t of Some c \<Rightarrow> if alive c then Some c else None | None \<Rightarrow> None) of
       Some c \<Rightarrow> (QConn c, t)
     | None \<Rightarrow>
       let t = t\<lparr>qtConn := None\<rparr> in
       (case qtDialing t of
          Some d \<Rightarrow> (QWait d, t)
        | None \<Rightarrow> (QWait dc, t\<lparr>qtDialing := Some dc, qtCalls := (qtCalls t)(dc := \<lparr>dqDone = False, dqConn = None\<rparr>)\<rparr>)))"

text \<open>The end of the goroutine that dials: the connections it closes. If the transport was closed the call is left as it is.\<close>

definition runDialingCall :: "dial \<Rightarrow> conn option \<Rightarrow> quicTransport \<Rightarrow> conn set \<times> quicTransport" where
  "runDialingCall dc r t =
    (let t = t\<lparr>qtDialing := None\<rparr> in
     if qtClosed t then (set_option r, t)
     else ({}, t\<lparr>qtConn := r, qtCalls := (qtCalls t)(dc := \<lparr>dqDone = True, dqConn = r\<rparr>)\<rparr>))"

definition quicClose :: "quicTransport \<Rightarrow> conn set \<times> quicTransport" where
  "quicClose t = (if qtClosed t then ({}, t) else (set_option (qtConn t), t\<lparr>qtClosed := True\<rparr>))"

section \<open>An exchange\<close>

text \<open>\<open>opened\<close> and \<open>wrote\<close> tell whether the stream could be opened and written, \<open>answer\<close> is what can be read from it.\<close>

datatype quicErr = QuicOpen | QuicWrite | QuicCtx | QuicRead netErr

definition exchangeStream :: "bool \<Rightarrow> bool \<Rightarrow> bytes \<Rightarrow> (quicErr, Msg) res" where
  "exchangeStream ctxDone wrote answer =
    (if ctxDone then Inl (Err QuicCtx)
     else if \<not> wrote then Inl (Err QuicWrite)
     else case fst (readMsgFromTCP answer) of Inl Panic \<Rightarrow> Inl Panic | Inl (Err e) \<Rightarrow> Inl (Err (QuicRead e)) | Inr r \<Rightarrow> Inr r)"

definition quicExchangeConn :: "bool \<Rightarrow> bool \<Rightarrow> bool \<Rightarrow> bytes \<Rightarrow> (quicErr, Msg) res" where
  "quicExchangeConn opened ctxDone wrote answer = (if \<not> opened then Inl (Err QuicOpen) else exchangeStream ctxDone wrote answer)"

text \<open>\<open>att i\<close> is what the attempt \<open>i\<close> comes to, as for the other transports; only the last error is returned.\<close>

definition exchangePayload :: "(nat \<Rightarrow> Msg attempt) \<Rightarrow> (nat \<Rightarrow> bool) \<Rightarrow> string + Msg" where
  "exchangePayload att ctxDone = map_sum last id (retryExchange 5 att ctxDone 0 [])"

definition quicExchangeContext :: "(nat \<Rightarrow> bytes) \<Rightarrow> (bytes \<Rightarrow> nat \<Rightarrow> Msg attempt) \<Rightarrow> (nat \<Rightarrow> bool) \<Rightarrow> Msg \<Rightarrow> (netErr, string + Msg) res" where
  "quicExchangeContext junk att ctxDone m = thenE (packTcpMsg junk m 0) (\<lambda>payload.
     Inr (map_sum id (\<lambda>resp. with_id resp (ID (mHeader m))) (exchangePayload (att payload) ctxDone)))"

section \<open>The transport and its goroutines\<close>

record quicSys =
  quT :: quicTransport
  quDials :: "dial set"
  quWaiting :: "dial list"
  quOpen :: "conn set"

datatype quicEv = QuGet "conn \<Rightarrow> bool" dial | QuDialed dial "conn option" | QuWake dial bool | QuDies conn | QuClose

fun quicStep :: "quicEv \<Rightarrow> quicSys \<Rightarrow> quicSys option" where
  "quicStep (QuGet alive dc) s =
    (if dc \<notin> quDials s \<and> dc \<notin> set (quWaiting s) \<and> (\<forall>c \<in> set_option (qtConn (quT s)). alive c \<longleftrightarrow> c \<in> quOpen s) then
       (case quicGetConn alive dc (quT s) of (r, t) \<Rightarrow> Some (case r of
          QWait d \<Rightarrow> s\<lparr>quT := t, quWaiting := d # quWaiting s, quDials := (if d = dc then insert d (quDials s) else quDials s)\<rparr>
        | _ \<Rightarrow> s\<lparr>quT := t\<rparr>))
     else None)"
| "quicStep (QuDialed d r) s =
    (if d \<in> quDials s \<and> set_option r \<inter> quOpen s = {} then
       (case runDialingCall d r (quT s) of (cl, t) \<Rightarrow> Some (s\<lparr>quT := t, quDials := quDials s - {d}, quOpen := quOpen s \<union> set_option r - cl\<rparr>))
     else None)"
| "quicStep (QuWake d ctxDone) s =
    (if d \<in> set (quWaiting s) \<and> (ctxDone \<or> dqDone (qtCalls (quT s) d)) then Some (s\<lparr>quWaiting := remove1 d (quWaiting s)\<rparr>) else None)"
| "quicStep (QuDies c) s = Some (s\<lparr>quOpen := quOpen s - {c}\<rparr>)"
| "quicStep QuClose s = (case quicClose (quT s) of (cl, t) \<Rightarrow> Some (s\<lparr>quT := t, quOpen := quOpen s - cl\<rparr>))"

definition quicStart :: "quicSys \<Rightarrow> bool" where
  "quicStart s \<longleftrightarrow> s = \<lparr>quT = newQuicTransport, quDials = {}, quWaiting = [], quOpen = {}\<rparr>"

definition quicInv :: "quicSys \<Rightarrow> bool" where
  "quicInv s \<longleftrightarrow> quDials s = set_option (qtDialing (quT s)) \<and>
     quOpen s \<subseteq> (if qtClosed (quT s) then {} else set_option (qtConn (quT s))) \<and> (qtConn (quT s) \<noteq> None \<longrightarrow> qtDialing (quT s) = None) \<and>
     (\<forall>d \<in> quDials s. \<not> dqDone (qtCalls (quT s) d)) \<and>
     (\<not> qtClosed (quT s) \<longrightarrow> (\<forall>d \<in> set (quWaiting s). d \<in> quDials s \<or> dqDone (qtCalls (quT s) d)))"

lemma quic_step: "quicInv s \<Longrightarrow> quicStep e s = Some s' \<Longrightarrow> quicInv s'"
proof (cases e)
  case (QuGet alive dc)
  assume "quicInv s" "quicStep e s = Some s'"
  then show ?thesis unfolding QuGet
    by (cases "qtConn (quT s)"; cases "qtDialing (quT s)")
      (auto simp: quicInv_def quicGetConn_def Let_def split: if_splits)
next
  case (QuDialed d r)
  assume "quicInv s" "quicStep e s = Some s'"
  then show ?thesis unfolding QuDialed
    by (cases "qtDialing (quT s)") (auto simp: quicInv_def runDialingCall_def Let_def split: if_splits)
next
  case (QuWake d ctxDone)
  assume "quicInv s" "quicStep e s = Some s'"
  then show ?thesis unfolding QuWake
    by (auto simp: quicInv_def split: if_splits dest: set_remove1_subset [THEN subsetD])
next
  case (QuDies c)
  assume "quicInv s" "quicStep e s = Some s'"
  then show ?thesis unfolding QuDies by (auto simp: quicInv_def)
next
  case QuClose
  assume "quicInv s" "quicStep e s = Some s'"
  then show ?thesis unfolding QuClose by (auto simp: quicInv_def quicClose_def split: if_splits)
qed

interpretation quic: machine quicStart quicStep quicInv
  by unfold_locales (simp add: quicStart_def newQuicTransport_def quicInv_def, rule quic_step)

text \<open>C34: Over QUIC there is at most one connection open and at most one being dialed, never both; a caller waits
  for a call that is being dialed or is decided; and once the transport is closed no connection is open.\<close>

theorem quic_one_connection:
  assumes "quicStart s0" "run quicStep es s0 = Some s"
  shows "(\<forall>c \<in> quOpen s. quOpen s = {c} \<and> quDials s = {}) \<and> (\<forall>d \<in> quDials s. quDials s = {d}) \<and>
    (qtClosed (quT s) \<longrightarrow> quOpen s = {}) \<and>
    (\<not> qtClosed (quT s) \<longrightarrow> (\<forall>d \<in> set (quWaiting s). d \<in> quDials s \<or> dqDone (qtCalls (quT s) d)))"
  using quic.run_inv [OF assms(2,1)] by (cases "qtConn (quT s)"; cases "qtDialing (quT s)") (auto simp: quicInv_def split: if_splits dest!: subset_singletonD)

theorem quic_one_connection_witness:
  "\<exists>s0 s. quicStart s0 \<and> run quicStep [QuGet (\<lambda>_. True) 1, QuGet (\<lambda>_. True) 2, QuDialed 1 (Some 7), QuWake 1 False] s0 = Some s \<and>
    quWaiting s = [1] \<and> (\<forall>c \<in> quOpen s. quOpen s = {c}) \<and> quOpen s = {7}"
proof -
  obtain s0 where s0: "quicStart s0" by (auto simp: quicStart_def)
  have "\<exists>s. run quicStep [QuGet (\<lambda>_. True) 1, QuGet (\<lambda>_. True) 2, QuDialed 1 (Some 7), QuWake 1 False] s0 = Some s \<and> quWaiting s = [1] \<and> quOpen s = {7}"
    using s0 by (simp add: quicStart_def newQuicTransport_def quicGetConn_def runDialingCall_def)
  then obtain s where s: "run quicStep [QuGet (\<lambda>_. True) 1, QuGet (\<lambda>_. True) 2, QuDialed 1 (Some 7), QuWake 1 False] s0 = Some s"
    "quWaiting s = [1]" "quOpen s = {7}" by (elim exE conjE) (rule that)
  from quic_one_connection [OF s0 s(1)] s s0 show ?thesis by (intro exI [of _ s0] exI [of _ s]) simp
qed

text \<open>A transport that is closed while it dials leaves the callers that wait for the call: no later step decides it.\<close>

lemma quic_stranded:
  assumes "quicStart s0"
  shows "\<exists>s. run quicStep [QuGet (\<lambda>_. True) 5, QuClose, QuDialed 5 (Some 7)] s0 = Some s \<and> quWaiting s = [5] \<and>
    \<not> dqDone (qtCalls (quT s) 5) \<and> quDials s = {}"
  using assms by (simp add: quicStart_def newQuicTransport_def quicGetConn_def runDialingCall_def quicClose_def)

end
