(* ===== verification/Server.thy ===== *)
theory Server
  imports Frame Handle
begin

text \<open>
  The servers: what they make of a query (\<^verbatim>\<open>server_utils.go\<close>), and the handlers of \<^verbatim>\<open>server_udp.go\<close>,
  \<^verbatim>\<open>server_tcp.go\<close>, \<^verbatim>\<open>server_quic.go\<close> and \<^verbatim>\<open>server_http_gohttp.go\<close> in \<^verbatim>\<open>app/router\<close>. Sockets,
  TLS and the HTTP library are not modelled: a handler is given what was received and returns what is sent. The new
  context of a query is an argument, as is \<open>H\<close>, the entry of the router.
\<close>

section \<open>Queries\<close>

definition parseQuery :: "QueryCtx \<Rightarrow> Msg \<Rightarrow> bool \<times> QueryCtx" where
  "parseQuery q m =
    (let notImpl = Response (mHeader m) \<or> \<not> RecursionDesired (mHeader m) \<or> OpCode (mHeader m) \<noteq> 0 in
     if notImpl then (False, q)
     else if length (Questions m) \<noteq> 1 \<or> length (Answers m) \<noteq> 0 \<or> length (Authorities m) \<noteq> 0 \<or>
       length (Additionals m) > 1 then (False, q)
     else (True, q\<lparr>cQuestion := questionCopyFrom (cQuestion q) (Questions m ! 0), ClientECS := findECS m\<rparr>))"

definition makeEmptyRespM :: "Msg \<Rightarrow> u16 \<Rightarrow> Msg" where
  "makeEmptyRespM m rcode =
    NewMsg\<lparr>mHeader := zeroHeader\<lparr>RCode := rcode\<rparr>, Questions := map questionCopy (take 1 (Questions m))\<rparr>"

text \<open>The last EDNS0 record counts.\<close>

definition calUdpSize :: "int \<Rightarrow> Msg \<Rightarrow> int" where
  "calUdpSize maxEdns0Size m =
    (let c = foldl (\<lambda>c r. if hType (Hdr r) = TypeOPT then uint (hClass (Hdr r)) else c) 0 (Additionals m);
         c = (if c > maxEdns0Size then maxEdns0Size else c) in
     if c < 512 then 512 else c)"

definition edns0SizeOf :: "int \<Rightarrow> int" where
  "edns0SizeOf cfgMax = (if cfgMax \<ge> 512 then cfgMax else uint udpSize)"

section \<open>Responses\<close>

datatype respErr = ErrPack err | ErrPayloadOverflowed

definition liftE :: "'a dres \<Rightarrow> (respErr, 'a) res" where
  "liftE r = (case r of Inr x \<Rightarrow> Inr x | Inl Panic \<Rightarrow> Inl Panic | Inl (Err e) \<Rightarrow> Inl (Err (ErrPack e)))"

definition packResp :: "Msg \<Rightarrow> int \<Rightarrow> (respErr, bytes) res" where
  "packResp m sz = thenE (liftE (maxPackLen m)) (\<lambda>l. liftE (msgPack m [] True sz))"

definition packRespTCP :: "(nat \<Rightarrow> bytes) \<Rightarrow> Msg \<Rightarrow> (respErr, bytes) res" where
  "packRespTCP junk m =
    thenE (liftE (maxPackLen m)) (\<lambda>l.
    thenE (liftE (msgPack m (take 2 (junk (2 + l))) True 65535)) (\<lambda>payload.
      let payloadLen = length payload - 2 in
      if payloadLen > 65535 then Inl (Err ErrPayloadOverflowed)
      else Inr (put_u16 (word_of_nat payloadLen) @ drop 2 payload)))"

text \<open>The closure \<^verbatim>\<open>postProcessResp\<close>.\<close>

definition postProcessResp :: "Msg \<Rightarrow> Msg \<Rightarrow> u16 \<Rightarrow> Msg" where
  "postProcessResp req resp us =
    (let resp = resp\<lparr>mHeader := (mHeader resp)\<lparr>ID := ID (mHeader req), Response := True, OpCode := OpCode (mHeader req),
           RecursionAvailable := True, RecursionDesired := RecursionDesired (mHeader req)\<rparr>\<rparr> in
     if hasEDNS0 req then addOrReplaceOpt resp us else removeEDNS0 resp)"

text \<open>If packing fails only a header is sent; the buffer it is written into is not cleared.\<close>

definition serverFinalRespB :: "(nat \<Rightarrow> bytes) \<Rightarrow> Msg \<Rightarrow> Msg \<Rightarrow> bool \<Rightarrow> int \<Rightarrow> (unit, bytes) res" where
  "serverFinalRespB junk req resp tcp sz =
    (let resp = postProcessResp req resp (if tcp then 4096 else word_of_int sz) in
     case (if tcp then packRespTCP junk resp else packResp resp sz) of
       Inr b \<Rightarrow> Inr b
     | Inl Panic \<Rightarrow> Inl Panic
     | Inl (Err _) \<Rightarrow>
         let (id, bits) = headerPack ((mHeader resp)\<lparr>RCode := 2\<rparr>); hdr = put_u16 id @ put_u16 bits in
         Inr (if tcp then put_u16 12 @ hdr @ drop 6 (junk 14) else hdr @ drop 4 (junk 12)))"

section \<open>Connections\<close>

text \<open>The connections a server has; \<^verbatim>\<open>Close\<close> returns those it closes and whether it closed the listener.\<close>

record 'c connTracker =
  ctClosed :: bool
  ctConns :: "'c set"

definition newConnTracker :: "'c connTracker" where
  "newConnTracker = \<lparr>ctClosed = False, ctConns = {}\<rparr>"

definition ctAdd :: "'c \<Rightarrow> 'c connTracker \<Rightarrow> bool \<times> 'c connTracker" where
  "ctAdd c ct = (if ctClosed ct then (False, ct) else (True, ct\<lparr>ctConns := insert c (ctConns ct)\<rparr>))"

definition ctDel :: "'c \<Rightarrow> 'c connTracker \<Rightarrow> 'c connTracker" where
  "ctDel c ct = ct\<lparr>ctConns := ctConns ct - {c}\<rparr>"

definition ctLen :: "'c connTracker \<Rightarrow> nat" where
  "ctLen ct = card (ctConns ct)"

definition ctClose :: "'c connTracker \<Rightarrow> ('c set \<times> bool) \<times> 'c connTracker" where
  "ctClose ct = (if ctClosed ct then (({}, False), ct) else ((ctConns ct, True), ct\<lparr>ctClosed := True\<rparr>))"

section \<open>UDP\<close>

record udpServer =
  usTag :: bytes
  usReadOob :: bool
  usMaxEdns0Size :: int

record udpSendOp =
  soB :: bytes
  soRemote :: AddrPort
  soOob :: Addr

text \<open>The handler of one query after it was parsed, with the response it ends with.\<close>

definition handleQuery :: "('w, 'm, 'r, 're) handler \<Rightarrow> QueryCtx \<Rightarrow> ('w, 'm, 'r, 're) router \<Rightarrow> (Msg \<Rightarrow> (unit, 'a) res) \<Rightarrow>
    (unit, 'a \<times> ('w, 'm, 'r, 're) router) res" where
  "handleQuery H q s reply = thenE (H q s) (\<lambda>(q, s). case cResp q of None \<Rightarrow> Inl Panic | Some resp \<Rightarrow>
     thenE (reply resp) (\<lambda>a. Inr (a, s)))"

definition udpHandleMsg :: "(nat \<Rightarrow> bytes) \<Rightarrow> (bytes \<Rightarrow> Addr option) \<Rightarrow> ('w, 'm, 'r, 're) handler \<Rightarrow> udpServer \<Rightarrow> bytes \<Rightarrow> bytes \<Rightarrow>
    AddrPort \<Rightarrow> QueryCtx \<Rightarrow> ('w, 'm, 'r, 're) router \<Rightarrow> (unit, udpSendOp option \<times> ('w, 'm, 'r, 're) router) res" where
  "udpHandleMsg junk parseLocalAddr H sv b oob remote q s =
    (case (if usReadOob sv \<and> length oob > 0 then parseLocalAddr oob else Some NoAddr) of
       None \<Rightarrow> Inr (None, s)
     | Some oobLocalAddr \<Rightarrow>
       (case msgUnpack b of
          Inl Panic \<Rightarrow> Inl Panic
        | Inl (Err _) \<Rightarrow> Inr (None, s)
        | Inr m \<Rightarrow>
          (case parseQuery q m of (ok, q) \<Rightarrow>
             if \<not> ok then Inr (None, s)
             else let q = q\<lparr>ServerTag := usTag sv, Protocol := ProtoUDP, RemoteAddr := remote\<rparr>;
                      sz = calUdpSize (usMaxEdns0Size sv) m in
               handleQuery H q s (\<lambda>resp. thenE (serverFinalRespB junk m resp False sz) (\<lambda>r.
                 Inr (Some \<lparr>soB = r, soRemote = remote, soOob = oobLocalAddr\<rparr>))))))"

section \<open>TCP, TLS and QUIC\<close>

text \<open>A query that is not acceptable gets an empty response with the code REFUSED.\<close>

definition streamHandleMsg :: "(nat \<Rightarrow> bytes) \<Rightarrow> ('w, 'm, 'r, 're) handler \<Rightarrow> (QueryCtx \<Rightarrow> QueryCtx) \<Rightarrow> Msg \<Rightarrow> QueryCtx \<Rightarrow>
    ('w, 'm, 'r, 're) router \<Rightarrow> (unit, bytes \<times> ('w, 'm, 'r, 're) router) res" where
  "streamHandleMsg junk H ann m q s =
    (case parseQuery q m of (ok, q) \<Rightarrow>
     if \<not> ok then thenE (serverFinalRespB junk m (makeEmptyRespM m RCodeRefused) True 0) (\<lambda>b. Inr (b, s))
     else handleQuery H (ann q) s (\<lambda>resp. serverFinalRespB junk m resp True 0))"

text \<open>\<open>tlsName\<close> is the server name of a TLS connection.\<close>

definition tcpHandleMsg :: "(nat \<Rightarrow> bytes) \<Rightarrow> ('w, 'm, 'r, 're) handler \<Rightarrow> bytes \<Rightarrow> AddrPort \<Rightarrow> bytes option \<Rightarrow> Msg \<Rightarrow> QueryCtx \<Rightarrow>
    ('w, 'm, 'r, 're) router \<Rightarrow> (unit, bytes \<times> ('w, 'm, 'r, 're) router) res" where
  "tcpHandleMsg junk H tag remote tlsName = streamHandleMsg junk H (\<lambda>q.
    let q = q\<lparr>ServerTag := tag, RemoteAddr := remote\<rparr> in
    case tlsName of Some sn \<Rightarrow> q\<lparr>Protocol := ProtoTLS, ServerName := ServerName q @ sn\<rparr> | None \<Rightarrow> q\<lparr>Protocol := ProtoTCP\<rparr>)"

definition quicHandleStream :: "(nat \<Rightarrow> bytes) \<Rightarrow> ('w, 'm, 'r, 're) handler \<Rightarrow> bytes \<Rightarrow> AddrPort \<Rightarrow> bytes \<Rightarrow> bytes \<Rightarrow> QueryCtx \<Rightarrow>
    ('w, 'm, 'r, 're) router \<Rightarrow> (unit, bytes option \<times> ('w, 'm, 'r, 're) router) res" where
  "quicHandleStream junk H tag remote sn stream q s =
    (case readMsgFromTCP stream of
       (Inl Panic, _) \<Rightarrow> Inl Panic
     | (Inl (Err _), _) \<Rightarrow> Inr (None, s)
     | (Inr m, _) \<Rightarrow> thenE (streamHandleMsg junk H (\<lambda>q. q\<lparr>ServerTag := tag, Protocol := ProtoQUIC, RemoteAddr := remote,
          ServerName := ServerName q @ sn\<rparr>) m q s) (\<lambda>(b, s). Inr (Some b, s)))"

lemma readMsgFromTCP_shorter: "readMsgFromTCP c = (Inr m, n, c') \<Longrightarrow> length c' < length c"
  by (auto simp: readMsgFromTCP_def readFull_def Let_def split: if_splits)

text \<open>
  The loop of \<^verbatim>\<open>handleConn\<close> reads queries until the stream ends or is invalid; the error is nil at an end between
  queries. The queries are handled by other goroutines.
\<close>

function tcpReadLoop :: "bytes \<Rightarrow> (unit, Msg list \<times> netErr option) res" where
  "tcpReadLoop c = (case readMsgFromTCP c of
     (Inl Panic, _) \<Rightarrow> Inl Panic
   | (Inl (Err e), n, _) \<Rightarrow> Inr ([], if n > 0 then Some e else None)
   | (Inr m, _, c') \<Rightarrow> thenE (tcpReadLoop c') (\<lambda>(ms, e). Inr (m # ms, e)))"
  by pat_completeness auto

termination
  by (relation "measure length") (auto dest: readMsgFromTCP_shorter [OF sym])

declare tcpReadLoop.simps [simp del]

section \<open>What clients receive\<close>

lemma hasEDNS0_eq: "hasEDNS0 m \<longleftrightarrow> (\<exists>r \<in> set (Additionals m). isOPT r)"
  by (simp add: hasEDNS0_def list_ex_iff)

lemma removeEDNS0_none: "\<not> hasEDNS0 m \<Longrightarrow> removeEDNS0 m = m"
  using popFrom_None [of "Additionals m" "length (Additionals m)"]
  by (simp add: removeEDNS0_def popEDNS0_def hasEDNS0_eq)

definition replyHeader :: "Msg \<Rightarrow> Msg \<Rightarrow> Header" where
  "replyHeader req resp = (mHeader resp)\<lparr>ID := ID (mHeader req), Response := True, OpCode := OpCode (mHeader req),
     RecursionAvailable := True, RecursionDesired := RecursionDesired (mHeader req)\<rparr>"

lemma postProcess_eq:
  assumes "\<not> hasEDNS0 resp"
  shows "postProcessResp req resp us = resp\<lparr>mHeader := replyHeader req resp,
    Additionals := Additionals resp @ (if hasEDNS0 req then [newEDNS0 us] else [])\<rparr>"
proof -
  have "\<not> hasEDNS0 (resp\<lparr>mHeader := replyHeader req resp\<rparr>)" using assms by (simp add: hasEDNS0_def)
  from removeEDNS0_none [OF this] show ?thesis
    by (simp add: postProcessResp_def addOrReplaceOpt_def Let_def replyHeader_def)
qed

lemma root_name: "packable (name_of [])" "nlabels (name_of []) = 0"
  by (simp_all add: packable_name_of)

lemma newEDNS0_simps [simp]: "isOPT (newEDNS0 us)" "resource_ok (newEDNS0 us)" "rr_depth (newEDNS0 us) = 0"
  by (simp_all add: newEDNS0_def isOPT_def resource_ok_def rr_depth_def root_name)

lemma names_depth_append [simp]: "names_depth f (xs @ ys) = max (names_depth f xs) (names_depth f ys)"
  by (induction xs) auto

lemma postProcess_ok:
  assumes "msg_ok resp" "hdr_ok (mHeader resp)" "hdr_ok (mHeader req)" "\<not> hasEDNS0 resp" "length (Additionals resp) < 65535"
    "msg_depth resp \<le> 10"
  shows "msg_ok (postProcessResp req resp us)" "hdr_ok (mHeader (postProcessResp req resp us))"
    "opt_last (postProcessResp req resp us)" "msg_depth (postProcessResp req resp us) \<le> 10"
  using assms unfolding postProcess_eq [OF assms(4)]
  by (auto simp: msg_ok_def counts_ok_def hdr_ok_def replyHeader_def opt_last_def hasEDNS0_eq msg_depth_def)

lemma same_isOPT: "same_rr r r' \<Longrightarrow> isOPT r' = isOPT r"
  by (cases r) (auto simp: same_rr_def isOPT_def)

text \<open>
  The reply to a request as the client reads it: all records of the response, and an EDNS0 record of the server with
  the size \<open>us\<close> if the request has one.
\<close>

definition reply_to :: "u16 \<Rightarrow> Msg \<Rightarrow> Msg \<Rightarrow> Msg \<Rightarrow> bool" where
  "reply_to us req resp m \<longleftrightarrow> mHeader m = replyHeader req resp \<and> Questions m = Questions resp \<and>
     list_all2 same_rr (Answers resp) (Answers m) \<and> list_all2 same_rr (Authorities resp) (Authorities m) \<and>
     list_all2 same_rr (Additionals resp @ (if hasEDNS0 req then [newEDNS0 us] else [])) (Additionals m) \<and>
     hasEDNS0 m = hasEDNS0 req"

lemma same_reply:
  assumes "same_msg (postProcessResp req resp us) m" "\<not> hasEDNS0 resp"
  shows "reply_to us req resp m"
proof -
  have a: "list_all2 same_rr (Additionals resp @ (if hasEDNS0 req then [newEDNS0 us] else [])) (Additionals m)"
    using assms by (simp add: same_msg_def postProcess_eq)
  have "(\<exists>r \<in> set ys. isOPT r) \<longleftrightarrow> (\<exists>r \<in> set xs. isOPT r)" if "list_all2 same_rr xs ys" for xs ys
    using that
  proof (induction rule: list_all2_induct)
    case (Cons x xs y ys)
    then show ?case using same_isOPT [OF Cons(1)] by simp
  qed simp
  from this [OF a] have "hasEDNS0 m \<longleftrightarrow>
      (\<exists>r \<in> set (Additionals resp @ (if hasEDNS0 req then [newEDNS0 us] else [])). isOPT r)" unfolding hasEDNS0_eq [of m] .
  also have "\<dots> \<longleftrightarrow> hasEDNS0 req" using assms(2) hasEDNS0_eq [of resp] by (cases "hasEDNS0 req") simp_all
  finally have "hasEDNS0 m = hasEDNS0 req" .
  then show ?thesis using assms a by (simp add: reply_to_def same_msg_def postProcess_eq)
qed

lemma liftE_simps [simp]: "liftE (Inr x) = Inr x" "liftE r = Inr x \<longleftrightarrow> r = Inr x"
  by (auto simp: liftE_def split: sum.splits fail.splits)

lemma reply_framed:
  assumes "msg_ok resp" "hdr_ok (mHeader resp)" "hdr_ok (mHeader req)" "\<not> hasEDNS0 resp" "length (Additionals resp) < 65535"
    "msg_depth resp \<le> 10" "\<forall>n. length (junk n) = n"
    and "maxPackLen (postProcessResp req resp 4096) = Inr l" "l \<le> 65533"
  shows "\<exists>x m. serverFinalRespB junk req resp True sz = Inr (put_u16 (word_of_nat (length x)) @ x) \<and> length x \<le> l \<and>
    msgUnpack x = Inr m \<and> reply_to 4096 req resp m"
proof -
  let ?m = "postProcessResp req resp 4096" and ?b = "take 2 (junk (2 + l))"
  note ok = postProcess_ok [OF assms(1-6)]
  have b: "length ?b = 2" using assms(7) by simp
  have room: "int (length ?b + l) \<le> minLimit 65535" using assms(9) b by (simp add: minLimit_def)
  from packed_fits_unpacks [OF ok(1-3) _ _ assms(8) room, of True] obtain x m where
    x: "msgPack ?m ?b True 65535 = Inr (?b @ x)" "msgUnpack x = Inr m" "same_msg ?m m" "length x \<le> l" using ok(4) by auto
  have "serverFinalRespB junk req resp True sz = Inr (put_u16 (word_of_nat (length x)) @ x)"
    using assms(8,9) x(1,4) b by (simp add: serverFinalRespB_def packRespTCP_def Let_def)
  then show ?thesis using x same_reply [OF x(3) assms(4)] by blast
qed

text \<open>C23: A response that fits is received by the client as the reply to its request: the frame or datagram decodes to
  a message with the number, the opcode and the recursion bit of the request, marked as a response, with the
  question and the records of all three sections of the response, and after them the server's EDNS0 record exactly if
  the request has one. A response fits if its uncompressed form is within the size, or within a frame.\<close>

theorem reply_received:
  assumes "msg_ok resp" "hdr_ok (mHeader resp)" "hdr_ok (mHeader req)" "\<not> hasEDNS0 resp" "length (Additionals resp) < 65535"
    "msg_depth resp \<le> 10" "\<forall>n. length (junk n) = n"
    and "maxPackLen (postProcessResp req resp (if tcp then 4096 else word_of_int sz)) = Inr l"
    and "if tcp then l \<le> 65533 else sz > 0 \<and> int l \<le> max 512 sz"
  shows "\<exists>out m. serverFinalRespB junk req resp tcp sz = Inr out \<and>
    reply_to (if tcp then 4096 else word_of_int sz) req resp m \<and>
    (if tcp then (\<exists>n. readMsgFromTCP (out @ rest) = (Inr m, n, rest)) else msgUnpack out = Inr m)"
proof -
  let ?m = "postProcessResp req resp (if tcp then 4096 else word_of_int sz)"
  note ok = postProcess_ok [OF assms(1-6)]
  show ?thesis
  proof (cases tcp)
    case False
    have "int (length [] + l) \<le> minLimit sz" using assms(9) False by (auto simp: minLimit_def)
    from packed_fits_unpacks [OF ok(1-3) _ _ assms(8) this, of True] obtain x m where
      "msgPack ?m [] True sz = Inr x" "msgUnpack x = Inr m" "same_msg ?m m" using ok(4) assms(9) False by auto
    then show ?thesis using False assms(8) same_reply [OF _ assms(4)]
      by (auto simp: serverFinalRespB_def packResp_def Let_def)
  next
    case True
    then obtain x m where x: "serverFinalRespB junk req resp True sz = Inr (put_u16 (word_of_nat (length x)) @ x)" "length x \<le> l"
      "msgUnpack x = Inr m" "reply_to 4096 req resp m"
      using reply_framed [OF assms(1-7), of l sz] assms(8,9) by auto
    have "readMsgFromTCP (put_u16 (word_of_nat (length x)) @ x @ rest) = (Inr m, length x + 2, rest)"
      using read_frame [OF _ x(3)] x(2) assms(9) True by simp
    then show ?thesis using True x(1,4) by auto
  qed
qed

text \<open>A query without the recursion bit.\<close>

definition sampleQuery :: Msg where
  "sampleQuery = NewMsg\<lparr>Questions := [\<lparr>qName = name_of [[97], [98]], qType = TypeA, qClass = ClassINET\<rparr>]\<rparr>"

lemma sampleQuery_ok: "msg_ok sampleQuery" "hdr_ok (mHeader sampleQuery)" "msg_depth sampleQuery \<le> 10"
    "\<not> hasEDNS0 sampleQuery" "Additionals sampleQuery = []"
  by (simp_all add: sampleQuery_def NewMsg_def zeroHeader_def msg_ok_def counts_ok_def question_ok_def hdr_ok_def
      packable_name_of label_ok_def msg_depth_def hasEDNS0_def)

lemma sampleQuery_len: "maxPackLen sampleQuery = Inr 21"
  by (simp add: sampleQuery_ok maxPackLen_def sampleQuery_def NewMsg_def questionPackLen_def namePackLen_def name_of_def hdrPackLen_def)

lemma sampleQuery_bytes: "\<exists>b. length b \<le> 65535 \<and> msgUnpack b = Inr sampleQuery"
proof -
  obtain x m' where x: "msgPack sampleQuery [] False 0 = Inr ([] @ x)" "msgUnpack x = Inr m'" "same_msg sampleQuery m'"
    using pack_unpack_unlimited [OF sampleQuery_ok(1,2), of 0 False "[]"] by auto
  have "m' = sampleQuery" using x(3) by (auto simp: same_msg_def sampleQuery_def NewMsg_def)
  moreover have "length x \<le> 21" using x(1) by (rule pack_len_le [OF sampleQuery_ok(1) sampleQuery_len])
  ultimately show ?thesis using x(2) by (intro exI [of _ x]) simp
qed

theorem reply_received_witness:
  "\<exists>out m. serverFinalRespB (\<lambda>n. replicate n 1) sampleQuery sampleQuery False 1200 = Inr out \<and>
    reply_to 1200 sampleQuery sampleQuery m \<and> msgUnpack out = Inr m"
proof -
  have "\<exists>l \<le> 512. maxPackLen (postProcessResp sampleQuery sampleQuery 1200) = Inr l"
    unfolding postProcess_eq [OF sampleQuery_ok(4)]
    by (simp add: sampleQuery_ok maxPackLen_def sampleQuery_def NewMsg_def questionPackLen_def namePackLen_def name_of_def hasEDNS0_def)
  then obtain l where l: "l \<le> 512" "maxPackLen (postProcessResp sampleQuery sampleQuery (if False then 4096 else word_of_int 1200)) = Inr l"
    by auto
  from reply_received [OF sampleQuery_ok(1,2,2,4) _ sampleQuery_ok(3) _ l(2), of "\<lambda>n. replicate n 1" "[]"] l(1) sampleQuery_ok(5)
  show ?thesis by simp
qed

lemma readMsgFromTCP_long:
  assumes "readMsgFromTCP c = (Inr m, n, c')"
  shows "length c' + 14 \<le> length c"
proof -
  have h: "msgUnpack x = Inr m \<Longrightarrow> 12 \<le> length x" for x
    by (auto simp: msgUnpack_def res_simps rawHeaderUnpack_def Let_def split: if_splits)
  show ?thesis using assms h [of "take (unat (get_u16 (take 2 c ! 0) (take 2 c ! 1))) (drop 2 c)"]
    by (auto simp: readMsgFromTCP_def readFull_def Let_def split: if_splits)
qed

text \<open>C24: Reading the queries of a connection ends whatever the client sends: every message takes at least fourteen
  bytes, and the bytes never make the server panic. Queries that were framed are read one by one in their order.\<close>

theorem tcp_reading_ends:
  "(\<exists>ms e. tcpReadLoop c = Inr (ms, e) \<and> 14 * length ms \<le> length c) \<and>
   (\<forall>fs ms. list_all2 (\<lambda>x m. length x \<le> 65535 \<and> msgUnpack x = Inr m) fs ms \<longrightarrow>
     tcpReadLoop (concat (map (\<lambda>x. put_u16 (word_of_nat (length x)) @ x) fs)) = Inr (ms, None))"
proof (intro conjI allI impI)
  show "\<exists>ms e. tcpReadLoop c = Inr (ms, e) \<and> 14 * length ms \<le> length c"
  proof (induction c rule: tcpReadLoop.induct)
    case (1 c)
    obtain r n c' where r: "readMsgFromTCP c = (r, n, c')" by (cases "readMsgFromTCP c") auto
    then have "safe r" using unpack_safe by (auto simp: readMsgFromTCP_def Let_def netE_def safe_def split: prod.splits option.splits sum.splits fail.splits)
    show ?case
    proof (cases r)
      case (Inl f)
      then show ?thesis using r \<open>safe r\<close> by (cases f) (auto simp: tcpReadLoop.simps [of c])
    next
      case (Inr m)
      then obtain ms e where "tcpReadLoop c' = Inr (ms, e)" "14 * length ms \<le> length c'" 
        using 1 [OF r [symmetric] Inr refl] by blast
      moreover have "length c' + 14 \<le> length c" using r Inr by (simp add: readMsgFromTCP_long)
      ultimately show ?thesis using r Inr by (simp add: tcpReadLoop.simps [of c])
    qed
  qed
next
  fix fs ms
  assume "list_all2 (\<lambda>x m. length x \<le> 65535 \<and> msgUnpack x = Inr m) fs ms"
  then show "tcpReadLoop (concat (map (\<lambda>x. put_u16 (word_of_nat (length x)) @ x) fs)) = Inr (ms, None)"
  proof (induction rule: list_all2_induct)
    case Nil
    show ?case by (simp add: tcpReadLoop.simps [of "[]"] readMsgFromTCP_def readFull_def)
  next
    case (Cons x xs y ys)
    then have "readMsgFromTCP (concat (map (\<lambda>x. put_u16 (word_of_nat (length x)) @ x) (x # xs))) =
        (Inr y, length x + 2, concat (map (\<lambda>x. put_u16 (word_of_nat (length x)) @ x) xs))" using read_frame by simp
    then show ?case using Cons by (subst tcpReadLoop.simps) simp
  qed
qed

text \<open>A framed query is read.\<close>

theorem tcp_reading_ends_witness:
  "\<exists>b. msgUnpack b = Inr sampleQuery \<and> tcpReadLoop (put_u16 (word_of_nat (length b)) @ b) = Inr ([sampleQuery], None)"
proof -
  obtain b where b: "length b \<le> 65535" "msgUnpack b = Inr sampleQuery" using sampleQuery_bytes by blast
  then have "list_all2 (\<lambda>x m. length x \<le> 65535 \<and> msgUnpack x = Inr m) [b] [sampleQuery]" by simp
  from conjunct2 [OF tcp_reading_ends, rule_format, OF this] b(2) show ?thesis by auto
qed

end
