(* ===== verification/Http.thy ===== *)
theory Http
  imports Server
begin

text \<open>
  DNS over HTTP: the handlers of \<^verbatim>\<open>app/router/server_http_gohttp.go\<close> and \<^verbatim>\<open>server_http_fasthttp.go\<close>, from the
  request the HTTP library has parsed to the response it is given. The parser of addresses is a parameter.
\<close>

section \<open>Requests\<close>

text \<open>A header that is missing has an empty value; \<open>hrTls\<close> is the server name of a TLS connection, and \<open>hrDns\<close> the
  value of the parameter \<^verbatim>\<open>dns\<close> as \<^verbatim>\<open>fasthttp\<close> decodes it.\<close>

record httpReq =
  hrMethod :: string
  hrUrlPath :: bytes
  hrHeader :: "bytes \<Rightarrow> bytes"
  hrRemote :: AddrPort
  hrTls :: "bytes option"
  hrHost :: bytes
  hrRawQuery :: bytes
  hrDns :: bytes
  hrBody :: bytes

datatype httpResp = Status nat | DnsMessage bytes

record httpHandler =
  hhTag :: bytes
  hhPath :: bytes
  hhClientAddrHeader :: bytes

abbreviation "StatusBadRequest \<equiv> 400 :: nat"
abbreviation "StatusNotFound \<equiv> 404 :: nat"
abbreviation "StatusRequestEntityTooLarge \<equiv> 413 :: nat"
abbreviation "StatusRequestURITooLong \<equiv> 414 :: nat"
abbreviation "StatusNotImplemented \<equiv> 501 :: nat"

abbreviation "maxHttpPostPayload \<equiv> 512 :: nat"
abbreviation "maxHttpGetPayload \<equiv> 512 :: nat"

definition readClientAddrFromXFF :: "(bytes \<Rightarrow> Addr option) \<Rightarrow> bytes \<Rightarrow> Addr option" where
  "readClientAddrFromXFF parseAddr s =
    (case indexByte 44 s of Some i \<Rightarrow> if i > 0 then parseAddr (take i s) else parseAddr s | None \<Rightarrow> parseAddr s)"

lemma cut_shorter: "cut s c = (a, b, ok) \<Longrightarrow> s \<noteq> [] \<Longrightarrow> length b < length s"
  by (auto simp: cut_def split: option.splits)

function getDnsKey :: "bytes \<Rightarrow> bytes" where
  "getDnsKey query =
    (if length query > 0 then
       (case cut query 38 of (key, query', _) \<Rightarrow>
          if key = [] then getDnsKey query'
          else case cut key 61 of (k, v, _) \<Rightarrow> if k = ascii ''dns'' then v else getDnsKey query')
     else [])"
  by pat_completeness auto
termination
  by (relation "measure length") (auto dest: cut_shorter [OF sym])

declare getDnsKey.simps [simp del]

section \<open>Base64 without padding\<close>

definition b64val :: "u8 \<Rightarrow> nat option" where
  "b64val c = (let n = unat c in
    if 65 \<le> n \<and> n \<le> 90 then Some (n - 65)
    else if 97 \<le> n \<and> n \<le> 122 then Some (n - 71)
    else if 48 \<le> n \<and> n \<le> 57 then Some (n + 4)
    else if n = 45 then Some 62
    else if n = 95 then Some 63 else None)"

text \<open>Four characters make three bytes; two or three characters at the end make one or two, the bits left over dropped.\<close>

fun b64quads :: "nat list \<Rightarrow> bytes option" where
  "b64quads [] = Some []"
| "b64quads [a] = None"
| "b64quads [a, b] = Some [byte_of (a * 4 + b div 16)]"
| "b64quads [a, b, c] = Some [byte_of (a * 4 + b div 16), byte_of (b mod 16 * 16 + c div 4)]"
| "b64quads (a # b # c # d # r) = map_option (\<lambda>x. byte_of (a * 4 + b div 16) # byte_of (b mod 16 * 16 + c div 4) #
     byte_of (c mod 4 * 64 + d) # x) (b64quads r)"

text \<open>The decoder skips line breaks.\<close>

definition base64Decode :: "bytes \<Rightarrow> bytes option" where
  "base64Decode s =
    (let s = filter (\<lambda>c. c \<noteq> 10 \<and> c \<noteq> 13) s; vs = map b64val s in
     if None \<in> set vs then None else b64quads (map the vs))"

definition decodedLen :: "nat \<Rightarrow> nat" where
  "decodedLen n = n * 6 div 8"

section \<open>Reading the query\<close>

text \<open>
  The part of \<^verbatim>\<open>readReqMsg\<close> for GET, which is the same in both servers. The length the decoder returns is ignored,
  so the message is the whole buffer.
\<close>

definition readGet :: "(nat \<Rightarrow> bytes) \<Rightarrow> bytes \<Rightarrow> nat + bytes" where
  "readGet junk s =
    (if length s = 0 then Inl StatusBadRequest
     else let msgSize = decodedLen (length s) in
     if msgSize > maxHttpGetPayload then Inl StatusRequestURITooLong
     else case base64Decode s of
       None \<Rightarrow> Inl StatusBadRequest
     | Some d \<Rightarrow> Inr (d @ drop (length d) (junk msgSize)))"

definition unpackReq :: "bytes \<Rightarrow> (unit, nat + Msg) res" where
  "unpackReq b = (case msgUnpack b of Inl Panic \<Rightarrow> Inl Panic | Inl (Err _) \<Rightarrow> Inr (Inl StatusBadRequest) | Inr m \<Rightarrow> Inr (Inr m))"

definition dnsMime :: bytes where
  "dnsMime = ascii ''application/dns-message''"

definition readReqMsg :: "(nat \<Rightarrow> bytes) \<Rightarrow> httpReq \<Rightarrow> (unit, nat + Msg) res" where
  "readReqMsg junk req =
    (case (if hrMethod req = ''GET'' then
             (if hrHeader req (ascii ''Accept'') \<noteq> dnsMime then Inl StatusBadRequest
              else readGet junk (getDnsKey (hrRawQuery req)))
           else if hrMethod req = ''POST'' then
             (if hrHeader req (ascii ''Content-Type'') \<noteq> dnsMime then Inl StatusBadRequest
              else if length (hrBody req) > maxHttpPostPayload then Inl StatusRequestEntityTooLarge
              else Inr (hrBody req))
           else Inl StatusNotImplemented) of
       Inl st \<Rightarrow> Inr (Inl st) | Inr b \<Rightarrow> unpackReq b)"

definition fastReadReqMsg :: "(nat \<Rightarrow> bytes) \<Rightarrow> httpReq \<Rightarrow> (unit, nat + Msg) res" where
  "fastReadReqMsg junk req =
    (case (if hrMethod req = ''GET'' then
             (if hrHeader req (ascii ''Accept'') \<noteq> dnsMime then Inl StatusBadRequest
              else readGet junk (hrDns req))
           else if hrMethod req = ''POST'' then
             (if hrHeader req (ascii ''Content-Type'') \<noteq> dnsMime then Inl StatusBadRequest
              else Inr (hrBody req))
           else Inl StatusNotImplemented) of
       Inl st \<Rightarrow> Inr (Inl st) | Inr b \<Rightarrow> unpackReq b)"

section \<open>Serving\<close>

definition clientAddr :: "(bytes \<Rightarrow> Addr option) \<Rightarrow> httpHandler \<Rightarrow> httpReq \<Rightarrow> AddrPort option" where
  "clientAddr parseAddr h req =
    (if length (hhClientAddrHeader h) \<noteq> 0 then
       (let xff = hrHeader req (hhClientAddrHeader h) in
        if length xff \<noteq> 0 then map_option (\<lambda>a. \<lparr>apAddr = a, apPort = 0\<rparr>) (readClientAddrFromXFF parseAddr xff)
        else Some noAddrPort)
     else Some (hrRemote req))"

definition httpQuery :: "httpHandler \<Rightarrow> httpReq \<Rightarrow> AddrPort \<Rightarrow> QueryCtx \<Rightarrow> QueryCtx" where
  "httpQuery h req remote q =
    (let q = q\<lparr>ServerTag := hhTag h, RemoteAddr := remote\<rparr>;
         q = (case hrTls req of Some sn \<Rightarrow> q\<lparr>Protocol := ProtoHTTPS, ServerName := ServerName q @ sn\<rparr>
              | None \<Rightarrow> q\<lparr>Protocol := ProtoHTTP\<rparr>) in
     q\<lparr>Host := Host q @ hrHost req, Path := Path q @ hrUrlPath req\<rparr>)"

text \<open>\<^verbatim>\<open>ServeHTTP\<close> and \<^verbatim>\<open>HandleFastHTTP\<close> differ in \<open>rd\<close>, how they read the query.\<close>

definition serveHTTP :: "(httpReq \<Rightarrow> (unit, nat + Msg) res) \<Rightarrow> (nat \<Rightarrow> bytes) \<Rightarrow> (bytes \<Rightarrow> Addr option) \<Rightarrow> ('w, 'm, 'r, 're) handler \<Rightarrow>
    httpHandler \<Rightarrow> httpReq \<Rightarrow> QueryCtx \<Rightarrow> ('w, 'm, 'r, 're) router \<Rightarrow> (unit, httpResp \<times> ('w, 'm, 'r, 're) router) res" where
  "serveHTTP rd junk parseAddr H h req q s =
    (if length (hhPath h) > 0 \<and> hhPath h \<noteq> hrUrlPath req then Inr (Status StatusNotFound, s)
     else case clientAddr parseAddr h req of None \<Rightarrow> Inr (Status StatusBadRequest, s) | Some remote \<Rightarrow>
     thenE (rd req) (\<lambda>r. case r of Inl st \<Rightarrow> Inr (Status st, s) | Inr m \<Rightarrow>
       (case parseQuery q m of (ok, q) \<Rightarrow>
        if \<not> ok then thenE (serverFinalRespB junk m (makeEmptyRespM m RCodeRefused) True 0) (\<lambda>b. Inr (DnsMessage b, s))
        else handleQuery H (httpQuery h req remote q) s (\<lambda>resp.
          thenE (serverFinalRespB junk m resp False (uint udpSize)) (\<lambda>b. Inr (DnsMessage b))))))"

definition goServeHTTP :: "(nat \<Rightarrow> bytes) \<Rightarrow> (bytes \<Rightarrow> Addr option) \<Rightarrow> ('w, 'm, 'r, 're) handler \<Rightarrow>
    httpHandler \<Rightarrow> httpReq \<Rightarrow> QueryCtx \<Rightarrow> ('w, 'm, 'r, 're) router \<Rightarrow> (unit, httpResp \<times> ('w, 'm, 'r, 're) router) res" where
  "goServeHTTP junk = serveHTTP (readReqMsg junk) junk"

definition fastServeHTTP :: "(nat \<Rightarrow> bytes) \<Rightarrow> (bytes \<Rightarrow> Addr option) \<Rightarrow> ('w, 'm, 'r, 're) handler \<Rightarrow>
    httpHandler \<Rightarrow> httpReq \<Rightarrow> QueryCtx \<Rightarrow> ('w, 'm, 'r, 're) router \<Rightarrow> (unit, httpResp \<times> ('w, 'm, 'r, 're) router) res" where
  "fastServeHTTP junk = serveHTTP (fastReadReqMsg junk) junk"

section \<open>The encoding of a query in a URL\<close>

definition b64char :: "nat \<Rightarrow> u8" where
  "b64char n = byte_of (if n < 26 then n + 65 else if n < 52 then n + 71 else if n < 62 then n - 4 else if n = 62 then 45 else 95)"

text \<open>RFC 4648, section 5, without padding.\<close>

fun base64Encode :: "nat list \<Rightarrow> nat list" where
  "base64Encode [] = []"
| "base64Encode [x] = [x div 4, x mod 4 * 16]"
| "base64Encode [x, y] = [x div 4, x mod 4 * 16 + y div 16, y mod 16 * 4]"
| "base64Encode (x # y # z # r) =
     [x div 4, x mod 4 * 16 + y div 16, y mod 16 * 4 + z div 64, z mod 64] @ base64Encode r"

definition b64url :: "bytes \<Rightarrow> bytes" where
  "b64url b = map b64char (base64Encode (map unat b))"

lemma b64char_val: "n < 64 \<Longrightarrow> b64val (b64char n) = Some n \<and> b64char n \<noteq> 10 \<and> b64char n \<noteq> 13"
proof -
  assume n: "n < 64"
  let ?k = "if n < 26 then n + 65 else if n < 52 then n + 71 else if n < 62 then n - 4 else if n = 62 then 45 else 95"
  have k: "?k < 256" "unat (b64char n) = ?k" using n unfolding b64char_def by (auto simp: unat_byte_of)
  then have "b64val (b64char n) = Some n" using n by (auto simp: b64val_def Let_def)
  moreover have "b64val 10 = None" "b64val 13 = None" by (simp_all add: b64val_def)
  ultimately show ?thesis by auto
qed

lemma base64Encode_small: "\<forall>x \<in> set b. x < 256 \<Longrightarrow> \<forall>v \<in> set (base64Encode b). v < 64"
  by (induction b rule: base64Encode.induct) auto

lemma quads_Encode: "\<forall>x \<in> set b. x < 256 \<Longrightarrow> b64quads (base64Encode b) = Some (map byte_of b)"
proof (induction b rule: base64Encode.induct)
  case (4 x y z r)
  have "x div 4 * 4 + (x mod 4 * 16 + y div 16) div 16 = x" "(x mod 4 * 16 + y div 16) mod 16 * 16 + (y mod 16 * 4 + z div 64) div 4 = y"
    "(y mod 16 * 4 + z div 64) mod 4 * 64 + z mod 64 = z" using 4(2) by auto
  then show ?case using 4 by simp
next
  case (2 x)
  have "x div 4 * 4 + x mod 4 * 16 div 16 = x" by simp
  then show ?case by simp
next
  case (3 x y)
  have "x div 4 * 4 + (x mod 4 * 16 + y div 16) div 16 = x" "(x mod 4 * 16 + y div 16) mod 16 * 16 + y mod 16 * 4 div 4 = y"
    using 3 by auto
  then show ?case by simp
qed simp

lemma decodedLen_Encode: "decodedLen (length (base64Encode b)) = length b"
  by (induction b rule: base64Encode.induct) (auto simp: decodedLen_def)

text \<open>A query that is encoded in a URL is read as it is, whatever the buffer held.\<close>

lemma readGet_b64url:
  assumes "b \<noteq> []" "length b \<le> 512" "\<forall>n. length (junk n) = n"
  shows "readGet junk (b64url b) = Inr b"
proof -
  let ?e = "base64Encode (map unat b)"
  have v: "\<forall>v \<in> set ?e. v < 64" by (rule base64Encode_small) simp
  then have "filter (\<lambda>c. c \<noteq> 10 \<and> c \<noteq> 13) (b64url b) = b64url b"
    by (auto simp: b64url_def b64char_val filter_id_conv)
  then have d: "base64Decode (b64url b) = (if None \<in> set (map b64val (b64url b)) then None
      else b64quads (map the (map b64val (b64url b))))" by (simp add: base64Decode_def Let_def)
  have "map b64val (b64url b) = map Some ?e" using v by (simp add: b64url_def b64char_val)
  then have d: "base64Decode (b64url b) = Some b"
    unfolding d using quads_Encode [of "map unat b"] by (auto simp: o_def)
  have l: "decodedLen (length (b64url b)) = length b" using decodedLen_Encode [of "map unat b"] by (simp add: b64url_def)
  then have "b64url b \<noteq> []" using assms(1) by (auto simp: decodedLen_def)
  then show ?thesis using d l assms(2,3) by (simp add: readGet_def)
qed

text \<open>Line breaks make the decoded message shorter than the buffer, the rest of which is what it held before.\<close>

lemma readGet_junk: "readGet junk [65, 65, 10, 10] = Inr (0 # drop 1 (junk 3))"
proof -
  have "b64val 65 = Some 0" by (simp add: b64val_def)
  then show ?thesis by (simp add: readGet_def decodedLen_def base64Decode_def byte_of_def)
qed

section \<open>What HTTP clients receive\<close>

lemma refused_ok:
  assumes "msgUnpack b = Inr m"
  shows "msg_ok (makeEmptyRespM m 5)" "hdr_ok (mHeader (makeEmptyRespM m 5))" "\<not> hasEDNS0 (makeEmptyRespM m 5)"
    "Additionals (makeEmptyRespM m 5) = []" "msg_depth (makeEmptyRespM m 5) \<le> msg_depth m"
proof -
  have q: "list_all question_ok (Questions m)" using unpack_msg_ok [OF assms] by (simp add: msg_ok_def)
  then show "msg_ok (makeEmptyRespM m 5)"
    by (cases "Questions m") (auto simp: makeEmptyRespM_def NewMsg_def msg_ok_def counts_ok_def list_all_iff)
  show "msg_depth (makeEmptyRespM m 5) \<le> msg_depth m"
    by (cases "Questions m") (auto simp: makeEmptyRespM_def NewMsg_def msg_depth_def)
qed (simp_all add: makeEmptyRespM_def NewMsg_def zeroHeader_def hdr_ok_def hasEDNS0_def)

lemma newEDNS0_len: "packRRLen (newEDNS0 us) None = Inr 11"
  by (simp add: newEDNS0_def packRRLen_def hdrPackLen_def namePackLen_def name_of_def)

lemma refused_len:
  assumes "msgUnpack b = Inr m"
  shows "\<exists>l \<le> 300. maxPackLen (postProcessResp req (makeEmptyRespM m 5) us) = Inr l"
proof -
  let ?add = "if hasEDNS0 req then [newEDNS0 us] else []"
  have e: "maxPackLen (postProcessResp req (makeEmptyRespM m 5) us) =
      thenE (newSectionErr ''question'' (sumLen (\<lambda>q. questionPackLen q None) (take 1 (Questions m)) 12))
        (\<lambda>s. newSectionErr ''additionals'' (sumLen (\<lambda>r. packRRLen r None) ?add s))"
    unfolding postProcess_eq [OF refused_ok(3) [OF assms]]
    by (simp add: maxPackLen_def makeEmptyRespM_def NewMsg_def comp_def map_idI)
  have a: "\<exists>l \<le> n + 11. sumLen (\<lambda>r. packRRLen r None) ?add n = Inr l" for n by (simp add: newEDNS0_len)
  have q: "list_all question_ok (Questions m)" using unpack_msg_ok [OF assms] by (simp add: msg_ok_def)
  have "\<exists>l \<le> 270. sumLen (\<lambda>q. questionPackLen q None) (take 1 (Questions m)) 12 = Inr l"
  proof (cases "Questions m")
    case (Cons x xs)
    then have "packable (qName x)" using q by (simp add: question_ok_def)
    from namePackLen_le [OF this, of None] show ?thesis using Cons by (auto simp: questionPackLen_def)
  qed simp
  then obtain l where "l \<le> 270" "sumLen (\<lambda>q. questionPackLen q None) (take 1 (Questions m)) 12 = Inr l" by blast
  then show ?thesis using a [of l] unfolding e by auto
qed

text \<open>C25: An HTTP request with a query that is not acceptable is answered with a body that is a frame of a stream: the
  refusal comes after two bytes with its length, which are not part of a DNS message.\<close>

theorem http_refusal_is_framed:
  assumes "rd req = Inr (Inr m)" "msgUnpack b = Inr m" "\<not> fst (parseQuery q m)" "msg_depth m \<le> 10" "\<forall>n. length (junk n) = n"
    and "hhPath h = [] \<or> hhPath h = hrUrlPath req" "clientAddr parseAddr h req \<noteq> None"
  shows "\<exists>x r. serveHTTP rd junk parseAddr H h req q s = Inr (DnsMessage (put_u16 (word_of_nat (length x)) @ x), s) \<and>
    length x \<le> 300 \<and> msgUnpack x = Inr r \<and> reply_to 4096 m (makeEmptyRespM m RCodeRefused) r"
proof -
  note r = refused_ok [OF assms(2)]
  obtain l where l: "l \<le> 300" "maxPackLen (postProcessResp m (makeEmptyRespM m 5) 4096) = Inr l" using refused_len [OF assms(2)] by blast
  have h: "hdr_ok (mHeader m)" using unpack_msg_ok [OF assms(2)] by simp
  obtain x m' where x: "serverFinalRespB junk m (makeEmptyRespM m 5) True 0 = Inr (put_u16 (word_of_nat (length x)) @ x)"
    "length x \<le> 300" "msgUnpack x = Inr m'" "reply_to 4096 m (makeEmptyRespM m 5) m'"
    using reply_framed [OF r(1,2) h r(3) _ _ assms(5) l(2), where sz = 0] r(4,5) l(1) assms(4) by auto
  obtain q' where "parseQuery q m = (False, q')" using assms(3) by (cases "parseQuery q m") auto
  then show ?thesis using x assms(1,6,7) by (auto simp: serveHTTP_def)
qed

theorem http_refusal_is_framed_witness:
  "\<exists>x r. serveHTTP (\<lambda>_. Inr (Inr sampleQuery)) (\<lambda>n. replicate n 0) (\<lambda>_. None) (\<lambda>q s. Inr (q, s))
      \<lparr>hhTag = [], hhPath = [], hhClientAddrHeader = []\<rparr>
      \<lparr>hrMethod = ''POST'', hrUrlPath = [], hrHeader = (\<lambda>_. []), hrRemote = noAddrPort, hrTls = None, hrHost = [],
        hrRawQuery = [], hrDns = [], hrBody = []\<rparr> zeroCtx sampleRouter =
      Inr (DnsMessage (put_u16 (word_of_nat (length x)) @ x), sampleRouter) \<and>
    length x \<le> 300 \<and> msgUnpack x = Inr r \<and> reply_to 4096 sampleQuery (makeEmptyRespM sampleQuery RCodeRefused) r"
proof -
  obtain b where b: "msgUnpack b = Inr sampleQuery" using sampleQuery_bytes by blast
  show ?thesis
    by (rule http_refusal_is_framed [OF refl b])
      (use sampleQuery_ok in \<open>simp_all add: parseQuery_def sampleQuery_def NewMsg_def zeroHeader_def clientAddr_def\<close>)
qed

end
