(* ===== verification/Doh.thy ===== *)
theory Doh
  imports Http
begin

text \<open>
  Queries to upstreams over HTTP (\<^verbatim>\<open>internal/upstream/transport/doh_transport.go\<close>). The HTTP library is not
  modelled: what comes back is an argument.
\<close>

section \<open>The transport\<close>

abbreviation "dohMaximumMsgSize \<equiv> 65535 :: nat"

text \<open>The query part of the URL; the query is sent with the number 0.\<close>

definition dohRawQuery :: "(nat \<Rightarrow> bytes) \<Rightarrow> Msg \<Rightarrow> (netErr, bytes) res" where
  "dohRawQuery junk m = thenE (packMsg junk m 0) (\<lambda>b.
     if length b > dohMaximumMsgSize then Inl (Err ErrPayloadOverFlow) else Inr (ascii ''dns='' @ b64url b))"

text \<open>A response has a status, and a body that is read to its end or fails to be.\<close>

datatype dohErr = DohPack netErr | DohRequest | DohStatus nat | DohBody | DohMsg err | DohCtx

datatype httpReply = NoReply | Reply nat bytes bool

definition dohExchange :: "httpReply \<Rightarrow> (dohErr, Msg) res" where
  "dohExchange r = (case r of
     NoReply \<Rightarrow> Inl (Err DohRequest)
   | Reply status body failed \<Rightarrow>
     if status \<noteq> 200 then Inl (Err (DohStatus status))
     else if failed then Inl (Err DohBody)
     else case msgUnpack (take 65535 body) of Inl Panic \<Rightarrow> Inl Panic | Inl (Err e) \<Rightarrow> Inl (Err (DohMsg e)) | Inr m \<Rightarrow> Inr m)"

definition dohExchangeContext :: "(nat \<Rightarrow> bytes) \<Rightarrow> bool \<Rightarrow> (bytes \<Rightarrow> httpReply) \<Rightarrow> Msg \<Rightarrow> (dohErr, Msg) res" where
  "dohExchangeContext junk ctxDone rt m = (case dohRawQuery junk m of
     Inl Panic \<Rightarrow> Inl Panic
   | Inl (Err e) \<Rightarrow> Inl (Err (DohPack e))
   | Inr q \<Rightarrow> if ctxDone then Inl (Err DohCtx) else thenE (dohExchange (rt q)) (\<lambda>r. Inr (with_id r (ID (mHeader m)))))"

section \<open>The server reads what the client sends\<close>

lemma b64char_query: "n < 64 \<Longrightarrow> b64char n \<noteq> 38"
  using b64char_val [of n] by (auto simp: b64val_def)

lemma indexByte_None: "c \<notin> set s \<Longrightarrow> indexByte c s = None"
  by (induction c s rule: indexByte.induct) auto

lemma getDnsKey_dns:
  assumes "38 \<notin> set v"
  shows "getDnsKey (ascii ''dns='' @ v) = v"
proof -
  have a: "ascii ''dns='' = [100, 110, 115, 61]" "ascii ''dns'' = [100, 110, 115]" by (simp_all add: ascii_def byte_of_def)
  have "indexByte 38 (ascii ''dns='' @ v) = None" using assms by (auto simp: a indexByte_None)
  then have "cut (ascii ''dns='' @ v) 38 = (ascii ''dns='' @ v, [], False)" by (simp add: cut_def)
  moreover have "cut (ascii ''dns='' @ v) 61 = (ascii ''dns'', v, True)" by (simp add: cut_def a)
  ultimately show ?thesis by (subst getDnsKey.simps) (simp add: a)
qed

lemma b64url_query: "38 \<notin> set (b64url b)"
  using base64Encode_small [of "map unat b"] b64char_query by (force simp: b64url_def)

text \<open>C33: What the HTTP transport sends is what the HTTP server reads: a query of at most 512 bytes becomes a URL from
  which the server reads this query, under the number 0; and a response that the server could unpack is
  returned under the number of the query.\<close>

theorem doh_reaches_server:
  assumes "msg_ok m" "hdr_ok (mHeader m)" "maxPackLen m = Inr l" "l \<le> 512"
    and "\<forall>n. length (junk n) = n" "\<forall>n. length (junk' n) = n"
    and "hrMethod req = ''GET''" "hrHeader req (ascii ''Accept'') = dnsMime"
    and "length x \<le> 65535" "msgUnpack x = Inr r"
  shows "\<exists>u m'. dohRawQuery junk m = Inr u \<and> readReqMsg junk' (req\<lparr>hrRawQuery := u\<rparr>) = Inr (Inr m') \<and> same_msg (with_id m 0) m' \<and>
    dohExchangeContext junk False (\<lambda>q. if q = u then Reply 200 x False else NoReply) m = Inr (with_id r (ID (mHeader m)))"
proof -
  obtain y m' where y: "msgPack m [] False 0 = Inr y" "length y = l" "l \<ge> 12"
    "msgUnpack (put_u16 0 @ drop 2 y) = Inr m'" "same_msg (with_id m 0) m'"
    using sent_bytes [OF assms(1-3), of "[]" 0] by auto
  let ?b = "put_u16 0 @ drop 2 y"
  have b: "length ?b = l" "?b \<noteq> []" using y(2,3) by auto
  have "packMsg junk m 0 = Inr ?b" using assms(3) y(1,2) by (simp add: packMsg_def)
  then have u: "dohRawQuery junk m = Inr (ascii ''dns='' @ b64url ?b)" using b(1) assms(4) by (simp add: dohRawQuery_def)
  have "readGet junk' (b64url ?b) = Inr ?b" by (rule readGet_b64url) (use b assms(4,6) in auto)
  then have "readReqMsg junk' (req\<lparr>hrRawQuery := ascii ''dns='' @ b64url ?b\<rparr>) = Inr (Inr m')"
    using assms(7,8) y(4) by (simp add: readReqMsg_def getDnsKey_dns b64url_query unpackReq_def)
  moreover have "dohExchangeContext junk False (\<lambda>q. if q = ascii ''dns='' @ b64url ?b then Reply 200 x False else NoReply) m = Inr (with_id r (ID (mHeader m)))"
    using u assms(9,10) by (simp add: dohExchangeContext_def dohExchange_def)
  ultimately show ?thesis using u y(5) by blast
qed

theorem doh_reaches_server_witness:
  "\<exists>u m' x. dohRawQuery (\<lambda>n. replicate n 7) sampleQuery = Inr u \<and> msgUnpack x = Inr sampleQuery \<and>
    readReqMsg (\<lambda>n. replicate n 9) \<lparr>hrMethod = ''GET'', hrUrlPath = [], hrHeader = (\<lambda>_. dnsMime), hrRemote = noAddrPort, hrTls = None,
      hrHost = [], hrRawQuery = u, hrDns = [], hrBody = []\<rparr> = Inr (Inr m') \<and> same_msg (with_id sampleQuery 0) m' \<and>
    dohExchangeContext (\<lambda>n. replicate n 7) False (\<lambda>q. if q = u then Reply 200 x False else NoReply) sampleQuery =
      Inr (with_id sampleQuery (ID (mHeader sampleQuery)))"
proof -
  obtain x where x: "length x \<le> 65535" "msgUnpack x = Inr sampleQuery" using sampleQuery_bytes by blast
  have j: "\<forall>n. length (replicate n (7 :: u8)) = n" "\<forall>n. length (replicate n (9 :: u8)) = n" by simp_all
  let ?r = "\<lparr>hrMethod = ''GET'', hrUrlPath = [], hrHeader = (\<lambda>_. dnsMime), hrRemote = noAddrPort, hrTls = None, hrHost = [], hrRawQuery = [], hrDns = [], hrBody = []\<rparr>"
  from doh_reaches_server [OF sampleQuery_ok(1,2) sampleQuery_len _ j, of ?r, OF _ _ _ x] show ?thesis using x(2) by (auto simp del: replicate.simps)
qed

end
