(* ===== verification/BufPool.thy ===== *)
theory BufPool
  imports Machine
begin

text \<open>
  The pool of buffers (\<^verbatim>\<open>internal/pool/bytespool.go\<close>). Arrays are numbers with the capacity they
  were made with; what a \<^verbatim>\<open>sync.Pool\<close> returns is an argument, since it may drop what it holds.
\<close>

section \<open>Size classes\<close>

text \<open>\<^verbatim>\<open>bits.Len\<close>.\<close>

fun bitLen :: "nat \<Rightarrow> nat" where
  "bitLen n = (if n = 0 then 0 else Suc (bitLen (n div 2)))"

declare bitLen.simps [simp del]

definition spIdx :: "nat \<Rightarrow> nat" where
  "spIdx sz = bitLen (sz - 1)"

definition spSize :: "nat \<Rightarrow> nat" where
  "spSize idx = push_bit idx 1"

definition lpIdx :: "nat \<Rightarrow> nat \<times> nat" where
  "lpIdx sz = (let b = bitLen (sz - 1); l = drop_bit (b - 3) (sz - 1) mod 4; h = b - 9 in (h, l))"

definition lpSize :: "nat \<Rightarrow> nat \<Rightarrow> nat" where
  "lpSize h l = push_bit (h + 8) 1 + push_bit (h + 6) (l + 1)"

section \<open>Buffers\<close>

record slice =
  slArr :: nat
  slLen :: nat
  slCap :: nat

text \<open>\<open>bpMade\<close> are the arrays there are, with their capacities.\<close>

record bytesPool =
  bpSmall :: "nat \<Rightarrow> nat set"
  bpLarge :: "nat \<times> nat \<Rightarrow> nat set"
  bpMade :: "nat \<rightharpoonup> nat"

definition emptyPool :: bytesPool where
  "emptyPool = \<lparr>bpSmall = (\<lambda>_. {}), bpLarge = (\<lambda>_. {}), bpMade = Map.empty\<rparr>"

text \<open>\<open>a\<close> is the number of a new array; \<open>pick\<close> is what the pool returns. An index out of range panics.\<close>

definition makeSlice :: "nat \<Rightarrow> nat \<Rightarrow> nat \<Rightarrow> bytesPool \<Rightarrow> slice \<times> bytesPool" where
  "makeSlice a len cap p = (\<lparr>slArr = a, slLen = len, slCap = cap\<rparr>, p\<lparr>bpMade := (bpMade p)(a \<mapsto> cap)\<rparr>)"

definition smallGet :: "nat option \<Rightarrow> nat \<Rightarrow> nat \<Rightarrow> bytesPool \<Rightarrow> (unit, slice \<times> bytesPool) res" where
  "smallGet pick a sz p =
    (let i = spIdx sz; arrayCap = spSize i in
     if i \<ge> 9 then Inl Panic
     else case pick of
       None \<Rightarrow> if sz > arrayCap then Inl Panic else Inr (makeSlice a sz arrayCap p)
     | Some arr \<Rightarrow> if sz > arrayCap then Inl Panic
         else Inr (\<lparr>slArr = arr, slLen = sz, slCap = arrayCap\<rparr>, p\<lparr>bpSmall := (bpSmall p)(i := bpSmall p i - {arr})\<rparr>))"

definition largeGet :: "nat option \<Rightarrow> nat \<Rightarrow> nat \<Rightarrow> bytesPool \<Rightarrow> (unit, slice \<times> bytesPool) res" where
  "largeGet pick a sz p =
    (case lpIdx sz of (h, l) \<Rightarrow>
     let arrayCap = lpSize h l in
     if h \<ge> 22 \<or> l \<ge> 4 then Inl Panic
     else case pick of
       None \<Rightarrow> if sz > arrayCap then Inl Panic else Inr (makeSlice a sz arrayCap p)
     | Some arr \<Rightarrow> if sz > arrayCap then Inl Panic
         else Inr (\<lparr>slArr = arr, slLen = sz, slCap = arrayCap\<rparr>, p\<lparr>bpLarge := (bpLarge p)((h, l) := bpLarge p (h, l) - {arr})\<rparr>))"

definition bpGet :: "nat option \<Rightarrow> nat \<Rightarrow> int \<Rightarrow> bytesPool \<Rightarrow> (unit, slice \<times> bytesPool) res" where
  "bpGet pick a sz p =
    (if sz \<le> 0 then Inr (makeSlice a 0 0 p)
     else if sz \<le> 2 ^ 8 then smallGet pick a (nat sz) p
     else if sz \<le> 2 ^ 30 then largeGet pick a (nat sz) p
     else Inr (makeSlice a (nat sz) (nat sz) p))"

text \<open>\<open>None\<close> is the nil slice.\<close>

definition bpRelease :: "slice option \<Rightarrow> bytesPool \<Rightarrow> (unit, bytesPool) res" where
  "bpRelease b p = (case b of None \<Rightarrow> Inl Panic | Some b \<Rightarrow>
     let c = slCap b in
     if c = 0 then Inr p
     else if c \<le> 2 ^ 8 then
       (let i = spIdx c in
        if c \<noteq> spSize i \<or> i \<ge> 9 then Inl Panic else Inr (p\<lparr>bpSmall := (bpSmall p)(i := insert (slArr b) (bpSmall p i))\<rparr>))
     else if c \<le> 2 ^ 30 then
       (case lpIdx c of (h, l) \<Rightarrow>
        if c \<noteq> lpSize h l \<or> h \<ge> 22 \<or> l \<ge> 4 then Inl Panic
        else Inr (p\<lparr>bpLarge := (bpLarge p)((h, l) := insert (slArr b) (bpLarge p (h, l)))\<rparr>))
     else Inr p)"

section \<open>The size classes fit\<close>

lemma bitLen_bounds: "n > 0 \<Longrightarrow> 2 ^ (bitLen n - 1) \<le> n \<and> n < 2 ^ bitLen n \<and> bitLen n > 0"
proof (induction n rule: bitLen.induct)
  case (1 n)
  show ?case
  proof (cases "n = 1")
    case True
    then show ?thesis by (simp add: bitLen.simps)
  next
    case False
    then have "n div 2 > 0" "n \<noteq> 0" using 1(2) by auto
    then have "2 ^ (bitLen (n div 2) - 1) \<le> n div 2 \<and> n div 2 < 2 ^ bitLen (n div 2) \<and> bitLen (n div 2) > 0" using 1(1) by blast
    moreover from this have "(2::nat) ^ bitLen (n div 2) = 2 * 2 ^ (bitLen (n div 2) - 1)" by (metis power_eq_if not_gr_zero)
    moreover have "bitLen n = Suc (bitLen (n div 2))" using \<open>n \<noteq> 0\<close> by (subst bitLen.simps) simp
    moreover have "n div 2 * 2 \<le> n" "n < (n div 2 + 1) * 2" by simp_all
    ultimately show ?thesis by simp linarith
  qed
qed

lemma bitLen_unique: "2 ^ k \<le> n \<Longrightarrow> n < 2 ^ Suc k \<Longrightarrow> bitLen n = Suc k"
proof -
  assume n: "2 ^ k \<le> n" "n < 2 ^ Suc k"
  then have "n > 0" by (metis gr0I less_le_trans zero_less_numeral zero_less_power)
  note b = bitLen_bounds [OF this]
  have "(2::nat) ^ k < 2 ^ bitLen n" using n(1) b by linarith
  then have "k < bitLen n" by simp
  moreover have "(2::nat) ^ (bitLen n - 1) < 2 ^ Suc k" using n(2) b by linarith
  then have "bitLen n - 1 < Suc k" by (rule power_less_imp_less_exp [rotated]) simp
  ultimately show ?thesis using b by simp
qed

text \<open>A class holds the sizes above those of the class before it; its own size is the largest of them.\<close>

lemma small_class:
  assumes "0 < sz" "sz \<le> 256"
  shows "spIdx sz < 9" "sz \<le> spSize (spIdx sz)" "spSize (spIdx sz) < 2 * sz" "spSize (spIdx sz) \<le> 256" "spIdx (spSize (spIdx sz)) = spIdx sz"
proof -
  have s: "spSize i = 2 ^ i" for i by (simp add: spSize_def push_bit_eq_mult)
  have same: "spIdx (2 ^ i) = i" for i
  proof (cases i)
    case (Suc k)
    have "bitLen (2 ^ Suc k - 1) = Suc k" by (rule bitLen_unique) simp_all
    then show ?thesis using Suc by (simp add: spIdx_def)
  qed (simp add: spIdx_def bitLen.simps)
  show "spIdx (spSize (spIdx sz)) = spIdx sz" by (simp add: s same)
  have "spIdx sz < 9 \<and> sz \<le> 2 ^ spIdx sz \<and> 2 ^ spIdx sz < 2 * sz"
  proof (cases "sz = 1")
    case False
    then have m: "sz - 1 > 0" using assms by simp
    note b = bitLen_bounds [OF m]
    have "(2::nat) ^ (bitLen (sz - 1) - 1) < 2 ^ 8" using b assms by simp linarith
    then have "bitLen (sz - 1) - 1 < 8" by (rule power_less_imp_less_exp [rotated]) simp
    moreover have "(2::nat) ^ bitLen (sz - 1) = 2 * 2 ^ (bitLen (sz - 1) - 1)" using b by (metis power_eq_if not_gr_zero)
    ultimately show ?thesis unfolding spIdx_def using b m by (intro conjI) linarith+
  qed (simp add: spIdx_def bitLen.simps)
  moreover from this have "(2::nat) ^ spIdx sz \<le> 2 ^ 8" by (intro power_increasing) auto
  ultimately show "spIdx sz < 9" "sz \<le> spSize (spIdx sz)" "spSize (spIdx sz) < 2 * sz" "spSize (spIdx sz) \<le> 256" by (simp_all add: s)
qed

lemma lpSize_eq: "lpSize h l = (5 + l) * 2 ^ (h + 6)"
  by (simp add: lpSize_def push_bit_eq_mult power_add algebra_simps)

lemma lpIdx_at:
  assumes "l < 4" "(4 + l) * 2 ^ (h + 6) < sz" "sz \<le> (5 + l) * 2 ^ (h + 6)"
  shows "lpIdx sz = (h, l)"
proof -
  have p: "(2::nat) ^ (h + 8) = 4 * 2 ^ (h + 6)" "(2::nat) ^ Suc (h + 8) = 8 * 2 ^ (h + 6)" by (simp_all add: power_add)
  have lo: "(4::nat) * 2 ^ (h + 6) \<le> (4 + l) * 2 ^ (h + 6)" and hi: "(5 + l) * (2::nat) ^ (h + 6) \<le> 8 * 2 ^ (h + 6)" using assms(1) by (auto intro: mult_le_mono1)
  have b: "bitLen (sz - 1) = Suc (h + 8)"
    by (rule bitLen_unique) (use p lo hi assms in linarith)+
  have "(sz - 1) div 2 ^ (h + 6) = 4 + l"
  proof (rule div_nat_eqI)
    show "2 ^ (h + 6) * (4 + l) \<le> sz - 1" using assms(2) by (simp add: mult.commute)
    show "sz - 1 < 2 ^ (h + 6) * Suc (4 + l)" using assms(2,3) by (simp add: mult.commute)
  qed
  then show ?thesis using b assms(1) by (simp add: lpIdx_def Let_def drop_bit_eq_div add.commute [of h])
qed

lemma large_class:
  assumes "256 < sz" "sz \<le> 2 ^ 30" and i: "lpIdx sz = (h, l)"
  shows "h < 22" "l < 4" "sz \<le> lpSize h l" "4 * lpSize h l < 5 * sz" "256 < lpSize h l" "lpSize h l \<le> 2 ^ 30" "lpIdx (lpSize h l) = (h, l)"
proof -
  define b where "b = bitLen (sz - 1)"
  have b: "2 ^ (b - 1) \<le> sz - 1" "sz - 1 < 2 ^ b" using bitLen_bounds [of "sz - 1"] assms(1) by (auto simp: b_def)
  have "(2::nat) ^ 8 < 2 ^ b" using b(2) assms(1) by simp
  then have b8: "8 < b" by (rule power_less_imp_less_exp [rotated]) simp
  have "(2::nat) ^ (b - 1) < 2 ^ 30" using b(1) assms(1,2) by linarith
  then have "b - 1 < 30" by (rule power_less_imp_less_exp [rotated]) simp
  moreover have h: "h = b - 9" "l = (sz - 1) div 2 ^ (b - 3) mod 4" using i by (auto simp: lpIdx_def b_def drop_bit_eq_div Let_def)
  ultimately have hb: "b = h + 9" "b - 3 = h + 6" "h < 22" using b8 by auto
  show "h < 22" by fact
  show l: "l < 4" using h by simp
  define d where "d = (sz - 1) div 2 ^ (h + 6)"
  have p: "(2::nat) ^ (b - 1) = 2 ^ (h + 6) * 4" "(2::nat) ^ b = 2 ^ (h + 6) * 8" using hb by (simp_all add: power_add)
  have "4 \<le> d" using b(1) unfolding p d_def by (metis div_le_mono div_mult_self1_is_m mult.commute zero_less_numeral zero_less_power)
  moreover have "d < 8" using b(2) unfolding p d_def by (simp add: less_mult_imp_div_less mult.commute)
  moreover have "l = d mod 4" using h(2) hb(2) by (simp add: d_def)
  ultimately have d: "d = 4 + l" by presburger
  have m: "d * 2 ^ (h + 6) \<le> sz - 1" "sz - 1 < (d + 1) * 2 ^ (h + 6)"
    unfolding d_def using dividend_less_div_times [of "2 ^ (h + 6)" "sz - 1"] by (auto simp: algebra_simps)
  then have up: "sz \<le> lpSize h l" and lo: "(4 + l) * 2 ^ (h + 6) < sz" using assms(1) by (simp_all add: lpSize_eq d algebra_simps)
  show "sz \<le> lpSize h l" by (rule up)
  have "4 * lpSize h l = 4 * ((4 + l) * 2 ^ (h + 6)) + 4 * 2 ^ (h + 6)" by (simp add: lpSize_eq algebra_simps)
  moreover have "4 * 2 ^ (h + 6) \<le> (4 + l) * (2::nat) ^ (h + 6)" by simp
  ultimately show "4 * lpSize h l < 5 * sz" using lo by linarith
  show "256 < lpSize h l" using up assms(1) by simp
  have "(5 + l) * (2::nat) ^ (h + 6) \<le> 8 * 2 ^ (h + 6)" using l by (intro mult_le_mono1) simp
  also have "\<dots> = 2 ^ (h + 9)" by (simp add: power_add)
  also have "\<dots> \<le> 2 ^ 30" using hb(3) by (intro power_increasing) auto
  finally show "lpSize h l \<le> 2 ^ 30" by (simp add: lpSize_eq)
  show "lpIdx (lpSize h l) = (h, l)" by (rule lpIdx_at) (use l in \<open>simp_all add: lpSize_eq\<close>)
qed

text \<open>What a buffer of a size has, and that it can be given back.\<close>

lemma spSize_inj: "spSize i = spSize j \<longleftrightarrow> i = j"
  by (simp add: spSize_def push_bit_eq_mult)

definition cap_ok :: "nat \<Rightarrow> bool" where
  "cap_ok c \<longleftrightarrow> c = 0 \<or> (c \<le> 2 ^ 8 \<and> spIdx c < 9 \<and> spSize (spIdx c) = c) \<or>
     (2 ^ 8 < c \<and> c \<le> 2 ^ 30 \<and> fst (lpIdx c) < 22 \<and> snd (lpIdx c) < 4 \<and> lpSize (fst (lpIdx c)) (snd (lpIdx c)) = c) \<or> 2 ^ 30 < c"

lemma smallGet_ok:
  assumes "0 < sz" "sz \<le> 256"
  shows "smallGet pick a sz p = Inr (case pick of None \<Rightarrow> makeSlice a sz (spSize (spIdx sz)) p
    | Some arr \<Rightarrow> (\<lparr>slArr = arr, slLen = sz, slCap = spSize (spIdx sz)\<rparr>, p\<lparr>bpSmall := (bpSmall p)(spIdx sz := bpSmall p (spIdx sz) - {arr})\<rparr>))"
  using small_class(1,2) [OF assms] by (auto simp: smallGet_def Let_def split: option.split)

lemma largeGet_ok:
  assumes "256 < sz" "sz \<le> 2 ^ 30" "lpIdx sz = (h, l)"
  shows "largeGet pick a sz p = Inr (case pick of None \<Rightarrow> makeSlice a sz (lpSize h l) p
    | Some arr \<Rightarrow> (\<lparr>slArr = arr, slLen = sz, slCap = lpSize h l\<rparr>, p\<lparr>bpLarge := (bpLarge p)((h, l) := bpLarge p (h, l) - {arr})\<rparr>))"
  using large_class(1-3) [OF assms] assms(3) by (auto simp: largeGet_def Let_def split: option.split)

text \<open>The capacity of the class of a size.\<close>

definition capOf :: "int \<Rightarrow> nat" where
  "capOf sz = (if sz \<le> 0 then 0 else if sz \<le> 2 ^ 8 then spSize (spIdx (nat sz))
     else if sz \<le> 2 ^ 30 then (case lpIdx (nat sz) of (h, l) \<Rightarrow> lpSize h l) else nat sz)"

lemma capOf_bounds:
  "cap_ok (capOf sz) \<and> nat sz \<le> capOf sz \<and> (0 < sz \<longrightarrow> capOf sz < 2 * nat sz) \<and> (2 ^ 8 < sz \<longrightarrow> 4 * capOf sz < 5 * nat sz)"
proof -
  consider "sz \<le> 0" | "0 < sz" "sz \<le> 2 ^ 8" | "2 ^ 8 < sz" "sz \<le> 2 ^ 30" | "2 ^ 30 < sz" by linarith
  then show ?thesis
  proof cases
    case 2
    then have "0 < nat sz" "nat sz \<le> 256" by auto
    note c = small_class [OF this]
    have "capOf sz = spSize (spIdx (nat sz))" using 2 by (simp add: capOf_def)
    then show ?thesis using 2 c by (simp add: cap_ok_def)
  next
    case 3
    then have sz: "256 < nat sz" "nat sz \<le> 2 ^ 30" by auto
    obtain h l where i: "lpIdx (nat sz) = (h, l)" by fastforce
    note c = large_class [OF sz i]
    have e: "capOf sz = lpSize h l" using 3 i by (simp add: capOf_def)
    have "lpSize h l < 2 * nat sz" using c(4) sz(1) by linarith
    moreover have "cap_ok (lpSize h l)" using c by (simp add: cap_ok_def)
    ultimately show ?thesis using c(3,4) by (simp add: e)
  qed (auto simp: capOf_def cap_ok_def)
qed

lemma bpGet_ok: "\<exists>b p'. bpGet pick a sz p = Inr (b, p') \<and> slLen b = nat sz \<and> slCap b = capOf sz"
proof -
  consider "sz \<le> 0" | "0 < sz" "sz \<le> 2 ^ 8" | "2 ^ 8 < sz" "sz \<le> 2 ^ 30" | "2 ^ 30 < sz" by linarith
  then show ?thesis
  proof cases
    case 2
    then have "0 < nat sz" "nat sz \<le> 256" by auto
    from smallGet_ok [OF this] 2 show ?thesis by (auto simp: bpGet_def capOf_def makeSlice_def split: option.split)
  next
    case 3
    then have sz: "256 < nat sz" "nat sz \<le> 2 ^ 30" by auto
    obtain h l where i: "lpIdx (nat sz) = (h, l)" by fastforce
    from largeGet_ok [OF sz i] 3 i show ?thesis by (auto simp: bpGet_def capOf_def makeSlice_def split: option.split)
  qed (auto simp: bpGet_def capOf_def makeSlice_def)
qed

lemma bpRelease_ok:
  assumes "cap_ok (slCap b)"
  shows "bpRelease (Some b) p = Inr (if slCap b = 0 \<or> 2 ^ 30 < slCap b then p
    else if slCap b \<le> 2 ^ 8 then p\<lparr>bpSmall := (bpSmall p)(spIdx (slCap b) := insert (slArr b) (bpSmall p (spIdx (slCap b))))\<rparr>
    else p\<lparr>bpLarge := (bpLarge p)(lpIdx (slCap b) := insert (slArr b) (bpLarge p (lpIdx (slCap b))))\<rparr>)"
proof -
  obtain h l where i: "lpIdx (slCap b) = (h, l)" by fastforce
  consider "slCap b = 0" | "slCap b \<noteq> 0" "slCap b \<le> 2 ^ 8" "spIdx (slCap b) < 9" "spSize (spIdx (slCap b)) = slCap b"
    | "2 ^ 8 < slCap b" "slCap b \<le> 2 ^ 30" "h < 22" "l < 4" "lpSize h l = slCap b" | "2 ^ 30 < slCap b"
    using assms unfolding cap_ok_def i fst_conv snd_conv by (cases "slCap b = 0") blast+
  then show ?thesis by cases (simp_all add: bpRelease_def i Let_def)
qed

text \<open>C32: A buffer has the length asked for, and a capacity of less than twice, and above 256 bytes less than
  five quarters, of it; no index of the classes is out of range, and the buffer can be given back.\<close>

theorem buffer_capacity:
  assumes "0 < sz"
  shows "\<exists>b p' p''. bpGet pick a sz p = Inr (b, p') \<and> int (slLen b) = sz \<and> sz \<le> int (slCap b) \<and> int (slCap b) < 2 * sz \<and>
    (sz > 256 \<longrightarrow> 4 * int (slCap b) < 5 * sz) \<and> bpRelease (Some b) p' = Inr p''"
proof -
  obtain b p' where b: "bpGet pick a sz p = Inr (b, p')" "slLen b = nat sz" "slCap b = capOf sz" using bpGet_ok by blast
  moreover obtain p'' where "bpRelease (Some b) p' = Inr p''" using bpRelease_ok [of b p'] capOf_bounds [of sz] unfolding b(3) by blast
  moreover have n: "int (nat sz) = sz" using assms by simp
  then have "int (slLen b) = sz" using b(2) by simp
  moreover have "nat sz \<le> slCap b" "slCap b < 2 * nat sz" "2 ^ 8 < sz \<longrightarrow> 4 * slCap b < 5 * nat sz"
    using capOf_bounds [of sz] assms unfolding b(3) by blast+
  then have "sz \<le> int (slCap b)" "int (slCap b) < 2 * sz" "sz > 256 \<longrightarrow> 4 * int (slCap b) < 5 * sz" using n by (linarith, linarith, simp, linarith)
  ultimately show ?thesis by blast
qed

theorem buffer_capacity_witness:
  "\<exists>b p' p''. bpGet None 1 300 emptyPool = Inr (b, p') \<and> int (slLen b) = 300 \<and> int (slCap b) < 375 \<and> bpRelease (Some b) p' = Inr p''"
  using buffer_capacity [of 300 None 1 emptyPool] by auto

section \<open>Who has a buffer\<close>

text \<open>A buffer is given back at most once, with the capacity it has. The runtime may drop what the pool holds.\<close>

record bufSys =
  bsPool :: bytesPool
  bsHeld :: "slice list"
  bsPanic :: bool

datatype bufEv = BGet "nat option" nat int | BRelease slice | BDrop nat

definition pick_ok :: "bytesPool \<Rightarrow> nat option \<Rightarrow> int \<Rightarrow> bool" where
  "pick_ok p pick sz \<longleftrightarrow> (case pick of None \<Rightarrow> True | Some arr \<Rightarrow>
     (0 < sz \<and> sz \<le> 2 ^ 8 \<longrightarrow> arr \<in> bpSmall p (spIdx (nat sz))) \<and> (2 ^ 8 < sz \<and> sz \<le> 2 ^ 30 \<longrightarrow> arr \<in> bpLarge p (lpIdx (nat sz))))"

fun bufStep :: "bufEv \<Rightarrow> bufSys \<Rightarrow> bufSys option" where
  "bufStep (BGet pick a sz) s =
    (if a \<notin> dom (bpMade (bsPool s)) \<and> pick_ok (bsPool s) pick sz then
       Some (case bpGet pick a sz (bsPool s) of Inl _ \<Rightarrow> s\<lparr>bsPanic := True\<rparr> | Inr (b, p) \<Rightarrow> s\<lparr>bsPool := p, bsHeld := b # bsHeld s\<rparr>)
     else None)"
| "bufStep (BRelease b) s =
    (if b \<in> set (bsHeld s) then
       Some (case bpRelease (Some b) (bsPool s) of Inl _ \<Rightarrow> s\<lparr>bsPanic := True\<rparr> | Inr p \<Rightarrow> s\<lparr>bsPool := p, bsHeld := remove1 b (bsHeld s)\<rparr>)
     else None)"
| "bufStep (BDrop arr) s = Some (s\<lparr>bsPool := (bsPool s)\<lparr>bpSmall := (\<lambda>i. bpSmall (bsPool s) i - {arr}), bpLarge := (\<lambda>k. bpLarge (bsPool s) k - {arr})\<rparr>\<rparr>)"

definition bufStart :: "bufSys \<Rightarrow> bool" where
  "bufStart s \<longleftrightarrow> s = \<lparr>bsPool = emptyPool, bsHeld = [], bsPanic = False\<rparr>"

definition pooled :: "bytesPool \<Rightarrow> nat \<Rightarrow> bool" where
  "pooled p arr \<longleftrightarrow> (\<exists>i. arr \<in> bpSmall p i) \<or> (\<exists>k. arr \<in> bpLarge p k)"

text \<open>An array in the pool has the capacity of its class, so the slice made of it ends with the array.\<close>

definition pool_ok :: "bytesPool \<Rightarrow> bool" where
  "pool_ok p \<longleftrightarrow> (\<forall>i arr. arr \<in> bpSmall p i \<longrightarrow> bpMade p arr = Some (spSize i) \<and> i < 9) \<and>
     (\<forall>h l arr. arr \<in> bpLarge p (h, l) \<longrightarrow> bpMade p arr = Some (lpSize h l) \<and> l < 4)"

definition bufInv :: "bufSys \<Rightarrow> bool" where
  "bufInv s \<longleftrightarrow> \<not> bsPanic s \<and> pool_ok (bsPool s) \<and> distinct (map slArr (bsHeld s)) \<and>
     (\<forall>b \<in> set (bsHeld s). slLen b \<le> slCap b \<and> cap_ok (slCap b) \<and> bpMade (bsPool s) (slArr b) = Some (slCap b) \<and> \<not> pooled (bsPool s) (slArr b))"

lemma lpSize_class: "l < 4 \<Longrightarrow> lpIdx (lpSize h l) = (h, l) \<and> 256 < lpSize h l"
proof -
  assume l: "l < 4"
  have "(5::nat) * 2 ^ 6 \<le> (5 + l) * 2 ^ (h + 6)" by (rule mult_le_mono) (use power_increasing [of 6 "h + 6" "2::nat"] in simp_all)
  then show ?thesis using lpIdx_at [OF l, of h "lpSize h l"] by (simp add: lpSize_eq)
qed

lemma pooled_made: "pool_ok p \<Longrightarrow> pooled p arr \<Longrightarrow> arr \<in> dom (bpMade p)"
  unfolding pooled_def pool_ok_def by (metis domI surj_pair)

lemma pool_ok_new:
  assumes "pool_ok p" "\<not> pooled p a"
  shows "pool_ok (p\<lparr>bpMade := (bpMade p)(a \<mapsto> c)\<rparr>)"
proof -
  have "arr \<noteq> a" if "arr \<in> bpSmall p i" for arr i using that assms(2) by (auto simp: pooled_def)
  moreover have "arr \<noteq> a" if "arr \<in> bpLarge p k" for arr k using that assms(2) unfolding pooled_def by blast
  ultimately show ?thesis using assms(1) by (simp add: pool_ok_def)
qed

text \<open>The capacity of an array determines its class.\<close>

lemma class_unique:
  assumes "pool_ok p"
  shows "arr \<in> bpSmall p i \<Longrightarrow> arr \<in> bpSmall p j \<Longrightarrow> i = j"
    and "arr \<in> bpSmall p i \<Longrightarrow> arr \<notin> bpLarge p k"
    and "arr \<in> bpLarge p k \<Longrightarrow> arr \<in> bpLarge p k' \<Longrightarrow> k = k'"
proof -
  have s: "bpMade p arr = Some (spSize i) \<and> i < 9" if "arr \<in> bpSmall p i" for arr i using assms that by (auto simp: pool_ok_def)
  have g: "bpMade p arr = Some (lpSize (fst k) (snd k)) \<and> snd k < 4" if "arr \<in> bpLarge p k" for arr k
    using assms that by (cases k) (auto simp: pool_ok_def)
  show "arr \<in> bpSmall p i \<Longrightarrow> arr \<in> bpSmall p j \<Longrightarrow> i = j" using s by (metis option.inject spSize_inj)
  have le: "spSize i \<le> 256" if "i < 9" for i
  proof -
    have "(2::nat) ^ i \<le> 2 ^ 8" using that by (intro power_increasing) auto
    then show ?thesis by (simp add: spSize_def push_bit_eq_mult)
  qed
  show "arr \<in> bpSmall p i \<Longrightarrow> arr \<notin> bpLarge p k" using s g le lpSize_class by (metis not_le option.inject)
  show "arr \<in> bpLarge p k \<Longrightarrow> arr \<in> bpLarge p k' \<Longrightarrow> k = k'" using g lpSize_class by (metis option.inject prod.collapse)
qed

lemma bpGet_Inr:
  assumes "bpGet pick a sz p = Inr (b, p')"
  shows "slArr b = a \<and> p' = p\<lparr>bpMade := (bpMade p)(a \<mapsto> slCap b)\<rparr> \<or>
    (\<exists>arr. pick = Some arr \<and> slArr b = arr \<and> 0 < sz \<and> sz \<le> 2 ^ 8 \<and> slCap b = spSize (spIdx (nat sz)) \<and>
      p' = p\<lparr>bpSmall := (bpSmall p)(spIdx (nat sz) := bpSmall p (spIdx (nat sz)) - {arr})\<rparr>) \<or>
    (\<exists>arr h l. pick = Some arr \<and> slArr b = arr \<and> 2 ^ 8 < sz \<and> sz \<le> 2 ^ 30 \<and> lpIdx (nat sz) = (h, l) \<and> slCap b = lpSize h l \<and>
      p' = p\<lparr>bpLarge := (bpLarge p)((h, l) := bpLarge p (h, l) - {arr})\<rparr>)"
proof -
  consider "sz \<le> 0 \<or> 2 ^ 30 < sz" | "0 < sz" "sz \<le> 2 ^ 8" | "2 ^ 8 < sz" "sz \<le> 2 ^ 30" by linarith
  then show ?thesis
  proof cases
    case 1
    then show ?thesis using assms by (auto simp: bpGet_def makeSlice_def split: if_splits)
  next
    case 2
    then have sz: "0 < nat sz" "nat sz \<le> 256" by auto
    have "bpGet pick a sz p = smallGet pick a (nat sz) p" using 2 by (simp add: bpGet_def)
    then show ?thesis using assms 2 unfolding smallGet_ok [OF sz] by (auto simp: makeSlice_def split: option.splits)
  next
    case 3
    then have sz: "256 < nat sz" "nat sz \<le> 2 ^ 30" by auto
    obtain h l where i: "lpIdx (nat sz) = (h, l)" by fastforce
    have "bpGet pick a sz p = largeGet pick a (nat sz) p" using 3 by (simp add: bpGet_def)
    then show ?thesis using assms 3 i unfolding largeGet_ok [OF sz i] by (auto simp: makeSlice_def split: option.splits)
  qed
qed

text \<open>The steps.\<close>

lemma get_buf_keeps:
  assumes inv: "bufInv s" and a: "a \<notin> dom (bpMade (bsPool s))" "pick_ok (bsPool s) pick sz"
    and get: "bpGet pick a sz (bsPool s) = Inr (b, p)"
  shows "bufInv (s\<lparr>bsPool := p, bsHeld := b # bsHeld s\<rparr>)"
proof -
  have ok: "pool_ok (bsPool s)" using inv by (simp add: bufInv_def)
  have cap: "slLen b \<le> slCap b" "cap_ok (slCap b)" using bpGet_ok [of pick a sz "bsPool s"] get capOf_bounds [of sz] by auto
  have held: "slLen d \<le> slCap d" "cap_ok (slCap d)" "bpMade (bsPool s) (slArr d) = Some (slCap d)" "\<not> pooled (bsPool s) (slArr d)"
    if "d \<in> set (bsHeld s)" for d using that inv by (auto simp: bufInv_def)
  have rest: "\<not> bsPanic s" "distinct (map slArr (bsHeld s))" using inv by (auto simp: bufInv_def)
  have taken: "bufInv (s\<lparr>bsPool := p, bsHeld := b # bsHeld s\<rparr>)"
    if "slArr b = arr" "bpMade (bsPool s) arr = Some (slCap b)" "pool_ok p" "\<not> pooled p arr" "\<And>d. pooled p d \<Longrightarrow> pooled (bsPool s) d"
      "pooled (bsPool s) arr" "bpMade p = bpMade (bsPool s)" for arr
  proof -
    have "arr \<notin> slArr ` set (bsHeld s)" using held(4) that(6) by blast
    moreover have "\<forall>d \<in> set (bsHeld s). slLen d \<le> slCap d \<and> cap_ok (slCap d) \<and> bpMade p (slArr d) = Some (slCap d) \<and> \<not> pooled p (slArr d)"
      using held that(5) unfolding that(7) by blast
    ultimately show ?thesis using that(1-4,7) cap rest by (simp add: bufInv_def)
  qed
  from bpGet_Inr [OF get] show ?thesis
  proof (elim disjE exE conjE)
    assume n: "slArr b = a" "p = (bsPool s)\<lparr>bpMade := (bpMade (bsPool s))(a \<mapsto> slCap b)\<rparr>"
    have old: "\<not> pooled (bsPool s) a" using pooled_made [OF ok] a(1) by blast
    have "pool_ok p" unfolding n(2) using ok old by (rule pool_ok_new)
    moreover have np: "\<not> pooled p a" using old by (simp add: pooled_def n(2))
    moreover have "pooled p = pooled (bsPool s)" by (simp add: pooled_def n(2) fun_eq_iff)
    moreover have "a \<notin> slArr ` set (bsHeld s)" using held(3) a(1) by force
    moreover have "bpMade p (slArr d) = Some (slCap d)" if "d \<in> set (bsHeld s)" for d using held(3) [OF that] a(1) n(2) by auto
    ultimately show ?thesis using cap held rest n(1) by (simp add: bufInv_def n(2))
  next
    fix arr
    assume n: "pick = Some arr" "slArr b = arr" "0 < sz" "sz \<le> 2 ^ 8" "slCap b = spSize (spIdx (nat sz))"
      "p = (bsPool s)\<lparr>bpSmall := (bpSmall (bsPool s))(spIdx (nat sz) := bpSmall (bsPool s) (spIdx (nat sz)) - {arr})\<rparr>"
    then have i: "arr \<in> bpSmall (bsPool s) (spIdx (nat sz))" using a(2) by (simp add: pick_ok_def)
    then have "bpMade (bsPool s) arr = Some (slCap b)" using ok n(5) by (auto simp: pool_ok_def)
    moreover have "pool_ok p" using ok by (auto simp: pool_ok_def n(6))
    moreover have "arr \<notin> bpSmall p j" for j using class_unique(1) [OF ok i, of j] by (cases "j = spIdx (nat sz)") (auto simp: n(6))
    then have np: "\<not> pooled p arr" using class_unique(2) [OF ok i] unfolding pooled_def by (simp add: n(6))
    moreover have "pooled p d \<Longrightarrow> pooled (bsPool s) d" for d unfolding pooled_def n(6) by (auto split: if_splits)
    moreover have "pooled (bsPool s) arr" using i unfolding pooled_def by blast
    ultimately show ?thesis using taken [OF n(2)] by (simp add: n(6))
  next
    fix arr h l
    assume n: "pick = Some arr" "slArr b = arr" "2 ^ 8 < sz" "sz \<le> 2 ^ 30" "lpIdx (nat sz) = (h, l)" "slCap b = lpSize h l"
      "p = (bsPool s)\<lparr>bpLarge := (bpLarge (bsPool s))((h, l) := bpLarge (bsPool s) (h, l) - {arr})\<rparr>"
    then have i: "arr \<in> bpLarge (bsPool s) (h, l)" using a(2) by (simp add: pick_ok_def)
    then have "bpMade (bsPool s) arr = Some (slCap b)" using ok n(6) by (auto simp: pool_ok_def)
    moreover have "pool_ok p" using ok by (auto simp: pool_ok_def n(7))
    moreover have "\<not> pooled p arr"
    proof -
      have "arr \<notin> bpLarge p k" for k using class_unique(3) [OF ok i, of k] by (cases "k = (h, l)") (auto simp: n(7))
      moreover have "arr \<notin> bpSmall p j" for j using class_unique(2) [OF ok, of arr j "(h, l)"] i by (auto simp: n(7))
      ultimately show ?thesis unfolding pooled_def by blast
    qed
    moreover have "pooled p d \<Longrightarrow> pooled (bsPool s) d" for d unfolding pooled_def n(7) by (auto split: if_splits)
    moreover have "pooled (bsPool s) arr" using i unfolding pooled_def by blast
    ultimately show ?thesis using taken [OF n(2)] by (simp add: n(7))
  qed
qed

lemma release_buf_keeps:
  assumes inv: "bufInv s" and b: "b \<in> set (bsHeld s)" and rel: "bpRelease (Some b) (bsPool s) = Inr p"
  shows "bufInv (s\<lparr>bsPool := p, bsHeld := remove1 b (bsHeld s)\<rparr>)"
proof -
  have held: "slLen d \<le> slCap d" "cap_ok (slCap d)" "bpMade (bsPool s) (slArr d) = Some (slCap d)" "\<not> pooled (bsPool s) (slArr d)"
    if "d \<in> set (bsHeld s)" for d using that inv by (auto simp: bufInv_def)
  note h = held(2,3) [OF b]
  have p: "p = (if slCap b = 0 \<or> 2 ^ 30 < slCap b then bsPool s
    else if slCap b \<le> 2 ^ 8 then (bsPool s)\<lparr>bpSmall := (bpSmall (bsPool s))(spIdx (slCap b) := insert (slArr b) (bpSmall (bsPool s) (spIdx (slCap b))))\<rparr>
    else (bsPool s)\<lparr>bpLarge := (bpLarge (bsPool s))(lpIdx (slCap b) := insert (slArr b) (bpLarge (bsPool s) (lpIdx (slCap b))))\<rparr>)"
    using rel unfolding bpRelease_ok [OF h(1)] by simp
  have "pool_ok (bsPool s)" using inv by (simp add: bufInv_def)
  then have ok: "pool_ok p" using h unfolding p by (cases "lpIdx (slCap b)") (auto simp: pool_ok_def cap_ok_def)
  have made: "bpMade p = bpMade (bsPool s)" unfolding p by simp
  have "bpSmall p i \<subseteq> insert (slArr b) (bpSmall (bsPool s) i)" "bpLarge p k \<subseteq> insert (slArr b) (bpLarge (bsPool s) k)" for i k
    unfolding p by auto
  then have more: "pooled p d \<Longrightarrow> pooled (bsPool s) d \<or> d = slArr b" for d unfolding pooled_def by blast
  have dist: "distinct (map slArr (remove1 b (bsHeld s)))" and other: "\<forall>d \<in> set (remove1 b (bsHeld s)). d \<in> set (bsHeld s) \<and> slArr d \<noteq> slArr b"
    using inv b by (auto simp: bufInv_def distinct_map inj_on_def)
  have "slLen d \<le> slCap d \<and> cap_ok (slCap d) \<and> bpMade p (slArr d) = Some (slCap d) \<and> \<not> pooled p (slArr d)"
    if "d \<in> set (remove1 b (bsHeld s))" for d
  proof -
    from bspec [OF other that] have d: "d \<in> set (bsHeld s)" "slArr d \<noteq> slArr b" by blast+
    then show ?thesis using held [OF d(1)] more [of "slArr d"] unfolding made by blast
  qed
  with ok dist inv show ?thesis by (simp add: bufInv_def)
qed

lemma buf_step: "bufInv s \<Longrightarrow> bufStep e s = Some s' \<Longrightarrow> bufInv s'"
proof (cases e)
  case (BGet pick a sz)
  assume inv: "bufInv s" and st: "bufStep e s = Some s'"
  obtain b p where "bpGet pick a sz (bsPool s) = Inr (b, p)" using bpGet_ok by blast
  moreover have "a \<notin> dom (bpMade (bsPool s))" "pick_ok (bsPool s) pick sz" using st BGet by (simp_all split: if_splits)
  ultimately show ?thesis using get_buf_keeps [OF inv, of a pick sz b p] st BGet by simp
next
  case (BRelease b)
  assume inv: "bufInv s" and st: "bufStep e s = Some s'"
  then have b: "b \<in> set (bsHeld s)" using BRelease by (simp split: if_splits)
  then obtain p where "bpRelease (Some b) (bsPool s) = Inr p" using inv bpRelease_ok by (fastforce simp: bufInv_def)
  then show ?thesis using release_buf_keeps [OF inv b] st BRelease by (auto split: if_splits)
next
  case (BDrop arr)
  assume inv: "bufInv s" and st: "bufStep e s = Some s'"
  then show ?thesis using BDrop by (auto simp: bufInv_def pool_ok_def pooled_def)
qed

interpretation bufs: machine bufStart bufStep bufInv
  by unfold_locales (simp add: bufStart_def emptyPool_def bufInv_def pool_ok_def pooled_def, rule buf_step)

text \<open>C31: No array is in two buffers that are in use, or in one that is in use and in the pool, if every buffer is given back once;
  a buffer never reaches beyond its array; and nothing panics.\<close>

theorem buffers_disjoint:
  assumes "bufStart s0" "run bufStep es s0 = Some s"
  shows "\<not> bsPanic s \<and> distinct (map slArr (bsHeld s)) \<and>
    list_all (\<lambda>b. slLen b \<le> slCap b \<and> bpMade (bsPool s) (slArr b) = Some (slCap b) \<and> \<not> pooled (bsPool s) (slArr b)) (bsHeld s)"
  using bufs.run_inv [OF assms(2,1)] by (auto simp: bufInv_def list_all_iff)

text \<open>A buffer of 300 bytes is given back and its array used for one of 310.\<close>

theorem buffers_disjoint_witness:
  "\<exists>s0 s. bufStart s0 \<and> run bufStep [BGet None 5 300, BRelease \<lparr>slArr = 5, slLen = 300, slCap = 320\<rparr>, BGet (Some 5) 6 310, BGet None 6 310] s0 = Some s \<and>
    map slArr (bsHeld s) = [6, 5] \<and> \<not> bsPanic s \<and> distinct (map slArr (bsHeld s))"
proof -
  let ?es = "[BGet None 5 300, BRelease \<lparr>slArr = 5, slLen = 300, slCap = 320\<rparr>, BGet (Some 5) 6 310, BGet None 6 310]"
  have i: "lpIdx 300 = (0, 0)" "lpIdx 310 = (0, 0)" "lpIdx 320 = (0, 0)" "lpSize 0 0 = 320" by code_simp+
  obtain s0 where s0: "bufStart s0" by (auto simp: bufStart_def)
  have g: "bpGet pick a 300 p = largeGet pick a 300 p" "bpGet pick a 310 p = largeGet pick a 310 p" for pick a p by (simp_all add: bpGet_def)
  have r: "bpRelease (Some \<lparr>slArr = 5, slLen = 300, slCap = 320\<rparr>) p = Inr (p\<lparr>bpLarge := (bpLarge p)((0, 0) := insert 5 (bpLarge p (0, 0)))\<rparr>)" for p
    by (simp add: bpRelease_def i)
  have "\<exists>s. run bufStep ?es s0 = Some s \<and> map slArr (bsHeld s) = [6, 5]" using s0
    by (simp add: bufStart_def emptyPool_def pick_ok_def g r largeGet_def i makeSlice_def)
  then obtain s where s: "run bufStep ?es s0 = Some s" "map slArr (bsHeld s) = [6, 5]" by (elim exE conjE) (rule that)
  with buffers_disjoint [OF s0 s(1)] s0 show ?thesis by (intro exI [of _ s0] exI [of _ s]) simp
qed

end
