(* ===== verification/Upstream.thy ===== *)
theory Upstream
  imports Frame RouterCtx DomainMatcher
begin

text \<open>
  How an upstream is set up: the addresses of \<^verbatim>\<open>internal/upstream/utils.go\<close>, the choice of the transport in
  \<^verbatim>\<open>NewUpstream\<close> (\<^verbatim>\<open>internal/upstream/upstream.go\<close>) and the checks of \<^verbatim>\<open>initUpstream\<close>
  (\<^verbatim>\<open>app/router/upstream.go\<close>). The parsers of URLs and of addresses are parameters.
\<close>

section \<open>Hosts and ports\<close>

text \<open>\<^verbatim>\<open>net.SplitHostPort\<close>, which returns \<open>None\<close> for its errors, and \<^verbatim>\<open>net.JoinHostPort\<close>. The bytes 58, 91 and 93 are
  the colon and the brackets.\<close>

definition lastIndexByte :: "u8 \<Rightarrow> bytes \<Rightarrow> nat option" where
  "lastIndexByte c s = map_option (\<lambda>i. length s - 1 - i) (indexByte c (rev s))"

definition splitHostPort :: "bytes \<Rightarrow> (bytes \<times> bytes) option" where
  "splitHostPort s = (case lastIndexByte 58 s of None \<Rightarrow> None | Some i \<Rightarrow>
     (case (if s ! 0 = 91 then
              (case indexByte 93 s of
                 None \<Rightarrow> None
               | Some e \<Rightarrow> if e + 1 = i then Some (take (e - 1) (drop 1 s), 1, e + 1) else None)
            else if 58 \<in> set (take i s) then None else Some (take i s, 0, 0)) of
        None \<Rightarrow> None
      | Some (host, j, k) \<Rightarrow> if 91 \<in> set (drop j s) \<or> 93 \<in> set (drop k s) then None else Some (host, drop (i + 1) s)))"

definition joinHostPort :: "bytes \<Rightarrow> bytes \<Rightarrow> bytes" where
  "joinHostPort host port = (if 58 \<in> set host then [91] @ host @ [93, 58] @ port else host @ [58] @ port)"

section \<open>The address to dial\<close>

definition trySplitHostPort :: "bytes \<Rightarrow> bytes \<times> bytes" where
  "trySplitHostPort s = (case splitHostPort s of Some hp \<Rightarrow> hp | None \<Rightarrow> (s, []))"

definition tryRemovePort :: "bytes \<Rightarrow> bytes" where
  "tryRemovePort s = (case splitHostPort s of None \<Rightarrow> s | Some (host, _) \<Rightarrow> host)"

text \<open>The byte 64 is \<^verbatim>\<open>@\<close>, which marks the address of an abstract unix socket.\<close>

definition isUnix :: "bytes \<Rightarrow> bool" where
  "isUnix s \<longleftrightarrow> take 1 s = [64]"

definition getDialAddr :: "bytes \<Rightarrow> bytes \<Rightarrow> bytes \<Rightarrow> bytes" where
  "getDialAddr urlAddr dialAddr defaultPort =
    (if length dialAddr > 0 then
       (if isUnix dialAddr then dialAddr
        else case trySplitHostPort dialAddr of (host, port) \<Rightarrow>
          if length port = 0 then joinHostPort host defaultPort else dialAddr)
     else case trySplitHostPort urlAddr of (host, port) \<Rightarrow>
       if length port = 0 then joinHostPort host defaultPort else urlAddr)"

definition dialNetworkTcpOrUnix :: "bytes \<Rightarrow> string" where
  "dialNetworkTcpOrUnix a = (if isUnix a then ''unix'' else ''tcp'')"

definition tryTrimIpv6Brackets :: "bytes \<Rightarrow> bytes" where
  "tryTrimIpv6Brackets s =
    (if length s < 2 then s else if s ! 0 = 91 \<and> s ! (length s - 1) = 93 then take (length s - 2) (drop 1 s) else s)"

section \<open>The transport of an upstream\<close>

text \<open>
  Times are in seconds. \<open>oTls\<close> is the server name of the TLS configuration, if there is one. The resolver of the addresses
  to dial is in theory \<open>Bootstrap\<close>.
\<close>

record opt =
  oDialAddr :: bytes
  oDialTimeout :: int
  oIdleTimeout :: int
  oPipeline :: bool
  oHttp3 :: bool
  oTls :: "bytes option"

datatype dialSpec = DialUdp bytes | DialTcp bytes | DialStream bytes | DialTls bytes bytes

record pipelineOpts =
  ppDial :: dialSpec
  ppDialTimeout :: int
  ppIdleTimeout :: int
  ppIsTCP :: bool
  ppMaxConcurrent :: int

record reuseOpts =
  roDial :: dialSpec
  roDialTimeout :: int
  roIdleTimeout :: int

datatype transport =
    UdpWithFallback pipelineOpts reuseOpts
  | PipelineT pipelineOpts
  | ReuseT reuseOpts
  | DohT bool bytes int
  | QuicT bytes bytes int

datatype upErr = ErrUrl | ErrScheme bytes | ErrHttpInH3 | ErrSocket | ErrHttp2 | ErrDoh

text \<open>
  The calls of other code: \<open>parseURL\<close> gives the scheme and the host of a URL and \<open>urlHostname\<close> its host without port and
  brackets, \<open>parseAddr\<close> is \<^verbatim>\<open>netip.ParseAddr\<close>; whether a UDP socket can be made, a client for HTTP/2 configured and
  the request of the endpoint made.
\<close>

record upEnv =
  parseURL :: "bytes \<Rightarrow> (bytes \<times> bytes) option"
  urlHostname :: "bytes \<Rightarrow> bytes option"
  parseAddr :: "bytes \<Rightarrow> Addr option"
  listenUdp :: bool
  http2Ok :: bool
  newRequestOk :: bool

abbreviation "pipelineConcurrentLimit \<equiv> 64 :: int"

definition upUdp :: "opt \<Rightarrow> bytes \<Rightarrow> transport" where
  "upUdp o' host =
    (let dialAddr = getDialAddr host (oDialAddr o') (ascii ''53'') in
     UdpWithFallback
       \<lparr>ppDial = DialUdp dialAddr, ppDialTimeout = oDialTimeout o', ppIdleTimeout = 60, ppIsTCP = False, ppMaxConcurrent = 4096\<rparr>
       \<lparr>roDial = DialTcp dialAddr, roDialTimeout = oDialTimeout o', roIdleTimeout = 0\<rparr>)"

text \<open>The dial time-out is not passed on if there is no pipelining.\<close>

definition upTcp :: "opt \<Rightarrow> bytes \<Rightarrow> transport" where
  "upTcp o' host =
    (let idleTimeout = (if oIdleTimeout o' \<le> 0 then 10 else oIdleTimeout o');
         dial = DialStream (getDialAddr host (oDialAddr o') (ascii ''53'')) in
     if oPipeline o' then PipelineT \<lparr>ppDial = dial, ppDialTimeout = oDialTimeout o', ppIdleTimeout = idleTimeout, ppIsTCP = True, ppMaxConcurrent = pipelineConcurrentLimit\<rparr>
     else ReuseT \<lparr>roDial = dial, roDialTimeout = 0, roIdleTimeout = idleTimeout\<rparr>)"

definition tlsServerName :: "opt \<Rightarrow> bytes \<Rightarrow> bytes" where
  "tlsServerName o' host =
    (let name = (case oTls o' of None \<Rightarrow> [] | Some n \<Rightarrow> n) in if length name = 0 then tryRemovePort host else name)"

definition upTls :: "opt \<Rightarrow> bytes \<Rightarrow> transport" where
  "upTls o' host =
    (let idleTimeout = (if oIdleTimeout o' \<le> 0 then 10 else oIdleTimeout o');
         dial = DialTls (getDialAddr host (oDialAddr o') (ascii ''853'')) (tlsServerName o' host) in
     if oPipeline o' then PipelineT \<lparr>ppDial = dial, ppDialTimeout = oDialTimeout o', ppIdleTimeout = idleTimeout, ppIsTCP = True, ppMaxConcurrent = pipelineConcurrentLimit\<rparr>
     else ReuseT \<lparr>roDial = dial, roDialTimeout = oDialTimeout o', roIdleTimeout = idleTimeout\<rparr>)"

text \<open>The first component of \<open>DohT\<close> is whether it is HTTP/3.\<close>

definition upHttp :: "upEnv \<Rightarrow> opt \<Rightarrow> bytes \<Rightarrow> bytes \<Rightarrow> (upErr, transport) res" where
  "upHttp env o' scheme host =
    (let dialAddr = getDialAddr host (oDialAddr o') (if scheme = ascii ''http'' then ascii ''80'' else ascii ''443'');
         idleConnTimeout = (if oIdleTimeout o' > 0 then oIdleTimeout o' else 30) in
     if oHttp3 o' then
       (if scheme = ascii ''http'' then Inl (Err ErrHttpInH3)
        else if \<not> listenUdp env then Inl (Err ErrSocket)
        else if \<not> newRequestOk env then Inl (Err ErrDoh)
        else Inr (DohT True dialAddr idleConnTimeout))
     else if \<not> http2Ok env then Inl (Err ErrHttp2)
     else if \<not> newRequestOk env then Inl (Err ErrDoh)
     else Inr (DohT False dialAddr idleConnTimeout))"

definition upQuic :: "upEnv \<Rightarrow> opt \<Rightarrow> bytes \<Rightarrow> (upErr, transport) res" where
  "upQuic env o' host =
    (if \<not> listenUdp env then Inl (Err ErrSocket)
     else Inr (QuicT (getDialAddr host (oDialAddr o') (ascii ''853'')) (tlsServerName o' host)
       (if oIdleTimeout o' > 0 then oIdleTimeout o' else 30)))"

definition hasScheme :: "bytes \<Rightarrow> bool" where
  "hasScheme addr \<longleftrightarrow> (\<exists>i < length addr. take 3 (drop i addr) = ascii ''://'')"

definition withScheme :: "bytes \<Rightarrow> bytes" where
  "withScheme addr = (if hasScheme addr then addr else ascii ''udp://'' @ addr)"

definition helperScheme :: "bytes \<Rightarrow> opt \<Rightarrow> bytes \<times> opt" where
  "helperScheme scheme o' =
    (if scheme = ascii ''tcp+pipeline'' \<or> scheme = ascii ''tls+pipeline'' then (take 3 scheme, o'\<lparr>oPipeline := True\<rparr>)
     else if scheme = ascii ''h3'' then (ascii ''https'', o'\<lparr>oHttp3 := True\<rparr>)
     else (scheme, o'))"

definition newUpstream :: "upEnv \<Rightarrow> bytes \<Rightarrow> opt \<Rightarrow> (upErr, transport) res" where
  "newUpstream env addr o' = (case parseURL env (withScheme addr) of None \<Rightarrow> Inl (Err ErrUrl) | Some (scheme, urlHost) \<Rightarrow>
     (case helperScheme scheme o' of (scheme, o') \<Rightarrow>
      let host = tryTrimIpv6Brackets urlHost in
      if scheme = [] \<or> scheme = ascii ''udp'' then Inr (upUdp o' host)
      else if scheme = ascii ''tcp'' then Inr (upTcp o' host)
      else if scheme = ascii ''tls'' then Inr (upTls o' host)
      else if scheme = ascii ''https'' \<or> scheme = ascii ''http'' then upHttp env o' scheme host
      else if scheme = ascii ''quic'' \<or> scheme = ascii ''doq'' then upQuic env o' host
      else Inl (Err (ErrScheme scheme))))"

text \<open>A response over UDP that is truncated is asked for again over TCP.\<close>

definition fallbackExchange :: "'e + Msg \<Rightarrow> 'e + Msg \<Rightarrow> 'e + Msg" where
  "fallbackExchange u t = (case u of Inl e \<Rightarrow> Inl e | Inr r \<Rightarrow> if Truncated (mHeader r) then t else Inr r)"

text \<open>The network of a dial call.\<close>

fun dialNetwork :: "dialSpec \<Rightarrow> string" where
  "dialNetwork (DialUdp _) = ''udp''"
| "dialNetwork (DialTcp _) = ''tcp''"
| "dialNetwork (DialStream a) = dialNetworkTcpOrUnix a"
| "dialNetwork (DialTls a _) = dialNetworkTcpOrUnix a"

section \<open>The upstreams of the router\<close>

record upAddrCfg =
  uaAddr :: bytes
  uaDialAddr :: bytes

definition hostNeedsDNS :: "upEnv \<Rightarrow> bytes \<Rightarrow> bool" where
  "hostNeedsDNS env s =
    (if isUnix s then False
     else let host = (case splitHostPort s of None \<Rightarrow> s | Some (h, _) \<Rightarrow> h) in parseAddr env host = None)"

definition upstreamAddrNeedsDNS :: "upEnv \<Rightarrow> upAddrCfg \<Rightarrow> bool" where
  "upstreamAddrNeedsDNS env cfg =
    (if length (uaDialAddr cfg) > 0 then hostNeedsDNS env (uaDialAddr cfg)
     else case urlHostname env (withScheme (uaAddr cfg)) of None \<Rightarrow> True | Some h \<Rightarrow> hostNeedsDNS env h)"

text \<open>
  The configuration of an upstream. \<open>ucTls\<close> is what \<^verbatim>\<open>makeTlsConfig\<close> makes of its TLS part, with the name of the server,
  and \<open>ucMetrics\<close> tells whether the metrics of the upstream can be registered.
\<close>

record upCfg =
  ucTag :: string
  ucAddr :: bytes
  ucDialAddr :: bytes
  ucBootstrap :: string
  ucTls :: "bytes option"
  ucMetrics :: bool

record upWrapper =
  uwAddrCfg :: upAddrCfg
  uwTransport :: transport
  uwBootstrap :: "string option"

datatype initUpErr =
    ErrTag | ErrDupTag string | ErrAddr | ErrTls | ErrNoBootstrap string | ErrBootstrapAddr string | ErrBoth string
  | ErrUnnecessary string | ErrNew upErr | ErrMetrics

definition bootstrapError :: "upEnv \<Rightarrow> upCfg \<Rightarrow> (string \<rightharpoonup> upWrapper) \<Rightarrow> initUpErr option" where
  "bootstrapError env cfg ups = (case ups (ucBootstrap cfg) of
     None \<Rightarrow> Some (ErrNoBootstrap (ucBootstrap cfg))
   | Some bw \<Rightarrow>
     if upstreamAddrNeedsDNS env (uwAddrCfg bw) then Some (ErrBootstrapAddr (ucBootstrap cfg))
     else if length (ucDialAddr cfg) > 0 then Some (ErrBoth (ucTag cfg))
     else if \<not> upstreamAddrNeedsDNS env \<lparr>uaAddr = ucAddr cfg, uaDialAddr = []\<rparr> then Some (ErrUnnecessary (ucTag cfg))
     else None)"

text \<open>\<open>socketCtlOk\<close> is true on Linux only.\<close>

definition initUpstream :: "upEnv \<Rightarrow> bool \<Rightarrow> upCfg \<Rightarrow> (string \<rightharpoonup> upWrapper) \<Rightarrow> (initUpErr, string \<rightharpoonup> upWrapper) res" where
  "initUpstream env socketCtlOk cfg ups =
    (if length (ucTag cfg) = 0 then Inl (Err ErrTag)
     else if ups (ucTag cfg) \<noteq> None then Inl (Err (ErrDupTag (ucTag cfg)))
     else if length (ucAddr cfg) = 0 then Inl (Err ErrAddr)
     else case ucTls cfg of None \<Rightarrow> Inl (Err ErrTls) | Some name \<Rightarrow>
     (case (if length (ucBootstrap cfg) > 0 then bootstrapError env cfg ups else None) of
        Some e \<Rightarrow> Inl (Err e)
      | None \<Rightarrow>
        (case newUpstream env (ucAddr cfg) \<lparr>oDialAddr = ucDialAddr cfg, oDialTimeout = 0, oIdleTimeout = (if socketCtlOk then 60 else 0),
              oPipeline = False, oHttp3 = False, oTls = Some name\<rparr> of
           Inl Panic \<Rightarrow> Inl Panic
         | Inl (Err e) \<Rightarrow> Inl (Err (ErrNew e))
         | Inr u \<Rightarrow>
           if \<not> ucMetrics cfg then Inl (Err ErrMetrics)
           else Inr (ups(ucTag cfg \<mapsto>
             \<lparr>uwAddrCfg = \<lparr>uaAddr = ucAddr cfg, uaDialAddr = ucDialAddr cfg\<rparr>, uwTransport = u,
              uwBootstrap = (if length (ucBootstrap cfg) > 0 then Some (ucBootstrap cfg) else None)\<rparr>)))))"

text \<open>The loop over the configured upstreams in \<^verbatim>\<open>Run\<close>.\<close>

fun initUpstreams :: "upEnv \<Rightarrow> bool \<Rightarrow> upCfg list \<Rightarrow> (string \<rightharpoonup> upWrapper) \<Rightarrow> (initUpErr, string \<rightharpoonup> upWrapper) res" where
  "initUpstreams env ctl [] ups = Inr ups"
| "initUpstreams env ctl (cfg # cfgs) ups = (case initUpstream env ctl cfg ups of
     Inl e \<Rightarrow> Inl e
   | Inr ups \<Rightarrow> initUpstreams env ctl cfgs ups)"

section \<open>Splitting what was joined\<close>

lemma indexByte_append: "c \<notin> set xs \<Longrightarrow> indexByte c (xs @ c # ys) = Some (length xs)"
  by (induction xs) auto

lemma lastIndexByte_append: "c \<notin> set ys \<Longrightarrow> lastIndexByte c (xs @ c # ys) = Some (length xs)"
  by (simp add: lastIndexByte_def indexByte_append)

lemma split_join_host_port:
  assumes "set h \<inter> {91, 93} = {}" and "set p \<inter> {58, 91, 93} = {}"
  shows "splitHostPort (joinHostPort h p) = Some (h, p)"
proof (cases "58 \<in> set h")
  case True
  have "lastIndexByte 58 ((91 # h @ [93]) @ 58 # p) = Some (length h + 2)"
    using assms(2) by (subst lastIndexByte_append) auto
  moreover have "indexByte 93 ((91 # h) @ 93 # 58 # p) = Some (length h + 1)"
    using assms(1) by (subst indexByte_append) auto
  ultimately show ?thesis
    using True assms by (auto simp: splitHostPort_def joinHostPort_def disjoint_iff)
next
  case False
  have "lastIndexByte 58 (h @ 58 # p) = Some (length h)"
    using assms(2) by (simp add: lastIndexByte_append)
  moreover have "(h @ 58 # p) ! 0 \<noteq> 91"
    using assms(1) by (cases h) auto
  ultimately show ?thesis
    using False assms by (auto simp: splitHostPort_def joinHostPort_def disjoint_iff)
qed

lemma indexByte_take: "indexByte c s = Some e \<Longrightarrow> c \<notin> set (take e s)"
  by (induction s arbitrary: e) (auto split: if_splits)

lemma split_host_no_brackets: "splitHostPort s = Some (h, p) \<Longrightarrow> set h \<inter> {91, 93} = {}"
proof -
  assume a: "splitHostPort s = Some (h, p)"
  then obtain i where i: "lastIndexByte 58 s = Some i"
    by (auto simp: splitHostPort_def split: option.splits)
  show ?thesis
  proof (cases "s ! 0 = 91")
    case True
    from a i True obtain e where e: "indexByte 93 s = Some e" "h = take (e - 1) (drop 1 s)" "91 \<notin> set (drop 1 s)"
      by (auto simp: splitHostPort_def split: option.splits if_splits)
    have "91 \<notin> set h"
      using e(2,3) by (auto dest: in_set_takeD)
    moreover have "93 \<notin> set h"
      using e(2) indexByte_take [OF e(1)] by (auto simp: drop_take [symmetric] dest: in_set_dropD)
    ultimately show ?thesis
      by simp
  next
    case False
    with a i show ?thesis
      by (auto simp: splitHostPort_def split: option.splits if_splits dest: in_set_takeD)
  qed
qed

lemma getDialAddr_split:
  assumes "a = (if dialAddr = [] then urlAddr else dialAddr)" and "\<not> isUnix dialAddr" and "set a \<inter> {91, 93} = {} \<or> splitHostPort a \<noteq> None"
    and "set dp \<inter> {58, 91, 93} = {}" and "trySplitHostPort a = (h, p)"
  shows "splitHostPort (getDialAddr urlAddr dialAddr dp) = Some (h, if p = [] then dp else p)"
proof -
  have "set h \<inter> {91, 93} = {}"
    using assms(3,5) split_host_no_brackets by (cases "splitHostPort a") (auto simp: trySplitHostPort_def)
  then have "splitHostPort (joinHostPort h dp) = Some (h, dp)"
    using assms(4) by (rule split_join_host_port)
  moreover have "p \<noteq> [] \<Longrightarrow> splitHostPort a = Some (h, p)"
    using assms(5) by (auto simp: trySplitHostPort_def split: option.splits)
  ultimately show ?thesis
    using assms(1,2,5) by (auto simp: getDialAddr_def split: if_splits)
qed

section \<open>What an upstream dials\<close>

fun dialTo :: "dialSpec \<Rightarrow> bytes" where
  "dialTo (DialUdp a) = a"
| "dialTo (DialTcp a) = a"
| "dialTo (DialStream a) = a"
| "dialTo (DialTls a _) = a"

fun dialsOf :: "transport \<Rightarrow> bytes set" where
  "dialsOf (UdpWithFallback p r) = {dialTo (ppDial p), dialTo (roDial r)}"
| "dialsOf (PipelineT p) = {dialTo (ppDial p)}"
| "dialsOf (ReuseT r) = {dialTo (roDial r)}"
| "dialsOf (DohT _ a _) = {a}"
| "dialsOf (QuicT a _ _) = {a}"

text \<open>The ports of the protocols.\<close>

definition wellKnownPort :: "bytes \<Rightarrow> bytes" where
  "wellKnownPort scheme =
    (if scheme = ascii ''http'' then ascii ''80''
     else if scheme = ascii ''https'' \<or> scheme = ascii ''h3'' then ascii ''443''
     else if scheme = ascii ''tls'' \<or> scheme = ascii ''tls+pipeline'' \<or> scheme = ascii ''quic'' \<or> scheme = ascii ''doq'' then ascii ''853''
     else ascii ''53'')"

lemma helper_dial_addr [simp]: "helperScheme scheme o' = (s, o'') \<Longrightarrow> oDialAddr o'' = oDialAddr o'"
  by (auto simp: helperScheme_def split: if_splits)

lemma ascii_eq [simp]: "ascii a = ascii b \<longleftrightarrow> a = b"
proof -
  have "inj (\<lambda>c :: char. byte_of (of_char c))"
  proof (rule injI)
    fix c d :: char
    assume "byte_of (of_char c) = byte_of (of_char d)"
    then have "(of_char c :: nat) = of_char d"
      by (simp add: byte_of_def word_of_nat_eq_iff take_bit_nat_eq_self)
    then show "c = d"
      by simp
  qed
  then show ?thesis
    by (simp add: ascii_def inj_map_eq_map)
qed

lemma ascii_Nil [simp]: "ascii s = [] \<longleftrightarrow> s = []" "[] = ascii s \<longleftrightarrow> s = []"
  by (auto simp: ascii_def)

lemma drop_ascii: "drop n (ascii s) = ascii (drop n s)"
  by (simp add: ascii_def drop_map)

lemma append_ascii: "ascii s @ ascii s' = ascii (s @ s')"
  by (simp add: ascii_def)

lemma length_ascii [simp]: "length (ascii s) = length s"
  by (simp add: ascii_def)

lemma take_ascii [simp]: "take n (ascii s) = ascii (take n s)"
  by (simp add: ascii_def take_map)

lemma dials_upUdp [simp]: "dialsOf (upUdp o' h) = {getDialAddr h (oDialAddr o') (ascii ''53'')}"
  and dials_upTcp [simp]: "dialsOf (upTcp o' h) = {getDialAddr h (oDialAddr o') (ascii ''53'')}"
  and dials_upTls [simp]: "dialsOf (upTls o' h) = {getDialAddr h (oDialAddr o') (ascii ''853'')}"
  by (simp_all add: upUdp_def upTcp_def upTls_def Let_def)

lemma dials_upHttp:
  "upHttp env o' s h = Inr t \<Longrightarrow> dialsOf t = {getDialAddr h (oDialAddr o') (if s = ascii ''http'' then ascii ''80'' else ascii ''443'')}"
  by (auto simp: upHttp_def Let_def split: if_splits)

lemma dials_upQuic: "upQuic env o' h = Inr t \<Longrightarrow> dialsOf t = {getDialAddr h (oDialAddr o') (ascii ''853'')}"
  by (auto simp: upQuic_def split: if_splits)

lemma dials_cases:
  assumes "newUpstream env addr o' = Inr t" and "parseURL env (withScheme addr) = Some (scheme, urlHost)"
  shows "dialsOf t = {getDialAddr (tryTrimIpv6Brackets urlHost) (oDialAddr o') (wellKnownPort scheme)}"
proof -
  have h: "newUpstream env addr o' = (case helperScheme scheme o' of (s, o'') \<Rightarrow>
      let host = tryTrimIpv6Brackets urlHost in
      if s = [] \<or> s = ascii ''udp'' then Inr (upUdp o'' host)
      else if s = ascii ''tcp'' then Inr (upTcp o'' host)
      else if s = ascii ''tls'' then Inr (upTls o'' host)
      else if s = ascii ''https'' \<or> s = ascii ''http'' then upHttp env o'' s host
      else if s = ascii ''quic'' \<or> s = ascii ''doq'' then upQuic env o'' host
      else Inl (Err (ErrScheme s)))"
    using assms(2) by (simp add: newUpstream_def)
  consider "scheme = ascii ''tcp+pipeline''" | "scheme = ascii ''tls+pipeline''" | "scheme = ascii ''h3''"
    | "scheme \<noteq> ascii ''tcp+pipeline''" "scheme \<noteq> ascii ''tls+pipeline''" "scheme \<noteq> ascii ''h3''"
    by blast
  then show ?thesis
  proof cases
    case 4
    then have "helperScheme scheme o' = (scheme, o')"
      by (simp add: helperScheme_def)
    then have u: "newUpstream env addr o' = (let host = tryTrimIpv6Brackets urlHost in
      if scheme = [] \<or> scheme = ascii ''udp'' then Inr (upUdp o' host)
      else if scheme = ascii ''tcp'' then Inr (upTcp o' host)
      else if scheme = ascii ''tls'' then Inr (upTls o' host)
      else if scheme = ascii ''https'' \<or> scheme = ascii ''http'' then upHttp env o' scheme host
      else if scheme = ascii ''quic'' \<or> scheme = ascii ''doq'' then upQuic env o' host
      else Inl (Err (ErrScheme scheme)))"
      by (simp add: h)
    consider "scheme = []" | "scheme = ascii ''udp''" | "scheme = ascii ''tcp''" | "scheme = ascii ''tls''" | "scheme = ascii ''https''"
      | "scheme = ascii ''http''" | "scheme = ascii ''quic''" | "scheme = ascii ''doq''"
      using assms(1) unfolding u Let_def by (metis Inl_Inr_False)
    then show ?thesis
      by cases (use assms(1) in \<open>auto simp: u wellKnownPort_def dest: dials_upHttp dials_upQuic\<close>)
  next
    case 1
    then have "helperScheme scheme o' = (ascii ''tcp'', o'\<lparr>oPipeline := True\<rparr>)"
      by (simp add: helperScheme_def)
    then have "upTcp (o'\<lparr>oPipeline := True\<rparr>) (tryTrimIpv6Brackets urlHost) = t"
      using assms(1) by (simp add: h Let_def)
    then show ?thesis
      using 1 by (simp add: wellKnownPort_def flip: \<open>upTcp _ _ = t\<close>)
  next
    case 2
    then have "helperScheme scheme o' = (ascii ''tls'', o'\<lparr>oPipeline := True\<rparr>)"
      by (simp add: helperScheme_def)
    then have "upTls (o'\<lparr>oPipeline := True\<rparr>) (tryTrimIpv6Brackets urlHost) = t"
      using assms(1) by (simp add: h Let_def)
    then show ?thesis
      using 2 by (simp add: wellKnownPort_def flip: \<open>upTls _ _ = t\<close>)
  next
    case 3
    then have "helperScheme scheme o' = (ascii ''https'', o'\<lparr>oHttp3 := True\<rparr>)"
      by (simp add: helperScheme_def)
    then have "upHttp env (o'\<lparr>oHttp3 := True\<rparr>) (ascii ''https'') (tryTrimIpv6Brackets urlHost) = Inr t"
      using assms(1) by (simp add: h Let_def)
    from dials_upHttp [OF this] show ?thesis
      using 3 by (simp add: wellKnownPort_def)
  qed
qed

text \<open>C35: An upstream dials the host and the port of its address, or of the dial address if one is configured; an address
  without a port is dialed at the port of the protocol. The helper protocols have the port of the protocol they stand for.\<close>

theorem upstream_dials:
  assumes "newUpstream env addr o' = Inr t" and "parseURL env (withScheme addr) = Some (scheme, urlHost)"
    and "\<not> isUnix (oDialAddr o')" and "a = (if oDialAddr o' = [] then tryTrimIpv6Brackets urlHost else oDialAddr o')"
    and "set a \<inter> {91, 93} = {} \<or> splitHostPort a \<noteq> None" and "trySplitHostPort a = (host, port)"
  shows "splitHostPort ` dialsOf t = {Some (host, if port = [] then wellKnownPort scheme else port)}"
proof -
  have "set (wellKnownPort scheme) \<inter> {58, 91, 93} = {}"
    by (simp add: wellKnownPort_def ascii_def byte_of_def)
  from getDialAddr_split [OF assms(4,3,5) this assms(6)] show ?thesis
    using dials_cases [OF assms(1,2)] by simp
qed

definition "witUpEnv =
  \<lparr>parseURL = (\<lambda>a. if a = ascii ''tls://d'' then Some (ascii ''tls'', ascii ''d'') else if a = ascii ''udp://9.9.9.9'' then Some (ascii ''udp'', ascii ''9.9.9.9'') else None),
   urlHostname = (\<lambda>a. if a = ascii ''tls://d'' then Some (ascii ''d'') else if a = ascii ''udp://9.9.9.9'' then Some (ascii ''9.9.9.9'') else None),
   parseAddr = (\<lambda>a. if a = ascii ''9.9.9.9'' then Some (Addr4 [9, 9, 9, 9]) else None), listenUdp = True, http2Ok = True, newRequestOk = True\<rparr>"

definition "witUpOpt = \<lparr>oDialAddr = [], oDialTimeout = 5, oIdleTimeout = 0, oPipeline = False, oHttp3 = False, oTls = None\<rparr>"

lemma hasScheme_colon: "hasScheme (ascii s) \<Longrightarrow> CHR '':'' \<in> set s"
proof -
  assume "hasScheme (ascii s)"
  then obtain i where "ascii (take 3 (drop i s)) = ascii ''://''"
    by (auto simp: hasScheme_def drop_ascii)
  then have "take 3 (drop i s) = ''://''"
    by simp
  then have "CHR '':'' \<in> set (take 3 (drop i s))"
    by simp
  then show ?thesis
    by (auto dest: in_set_takeD in_set_dropD)
qed

lemma withScheme_tls: "withScheme (ascii ''tls://d'') = ascii ''tls://d''"
proof -
  have "hasScheme (ascii ''tls://d'')"
    unfolding hasScheme_def by (rule exI [of _ 3]) (simp add: drop_ascii)
  then show ?thesis
    by (simp add: withScheme_def)
qed

lemma withScheme_ip: "withScheme (ascii ''9.9.9.9'') = ascii ''udp://9.9.9.9''"
proof -
  have "\<not> hasScheme (ascii ''9.9.9.9'')"
    using hasScheme_colon [of "''9.9.9.9''"] by auto
  then show ?thesis
    by (simp add: withScheme_def append_ascii)
qed

lemma newUpstream_tls: "newUpstream witUpEnv (ascii ''tls://d'') o' = Inr (upTls o' (ascii ''d''))"
  unfolding newUpstream_def withScheme_tls by (simp add: witUpEnv_def helperScheme_def tryTrimIpv6Brackets_def)

lemma newUpstream_ip: "newUpstream witUpEnv (ascii ''9.9.9.9'') o' = Inr (upUdp o' (ascii ''9.9.9.9''))"
  unfolding newUpstream_def withScheme_ip by (simp add: witUpEnv_def helperScheme_def tryTrimIpv6Brackets_def ascii_def byte_of_def)

lemma splitHostPort_none: "58 \<notin> set s \<Longrightarrow> splitHostPort s = None"
proof -
  assume "58 \<notin> set s"
  moreover have "c \<notin> set xs \<Longrightarrow> indexByte c xs = None" for c :: u8 and xs
    by (induction xs) auto
  ultimately show ?thesis
    by (simp add: splitHostPort_def lastIndexByte_def)
qed

lemma needsDNS_ip: "\<not> upstreamAddrNeedsDNS witUpEnv \<lparr>uaAddr = ascii ''9.9.9.9'', uaDialAddr = []\<rparr>"
proof -
  have "splitHostPort (ascii ''9.9.9.9'') = None" "\<not> isUnix (ascii ''9.9.9.9'')"
    by (simp_all add: splitHostPort_none isUnix_def ascii_def byte_of_def)
  then show ?thesis
    by (simp add: upstreamAddrNeedsDNS_def withScheme_ip hostNeedsDNS_def witUpEnv_def)
qed

lemma needsDNS_tls: "upstreamAddrNeedsDNS witUpEnv \<lparr>uaAddr = ascii ''tls://d'', uaDialAddr = []\<rparr>"
proof -
  have "splitHostPort (ascii ''d'') = None" "\<not> isUnix (ascii ''d'')"
    by (simp_all add: splitHostPort_none isUnix_def ascii_def byte_of_def)
  then show ?thesis
    by (simp add: upstreamAddrNeedsDNS_def withScheme_tls hostNeedsDNS_def witUpEnv_def)
qed

theorem upstream_dials_witness:
  "splitHostPort ` dialsOf (upTls witUpOpt (ascii ''d'')) = {Some (ascii ''d'', ascii ''853'')}"
proof -
  have "parseURL witUpEnv (withScheme (ascii ''tls://d'')) = Some (ascii ''tls'', ascii ''d'')"
    by (simp add: withScheme_tls witUpEnv_def)
  from upstream_dials [OF newUpstream_tls [of witUpOpt] this, of "ascii ''d''" "ascii ''d''" "[]"] show ?thesis
    by (simp add: witUpOpt_def isUnix_def tryTrimIpv6Brackets_def trySplitHostPort_def splitHostPort_def lastIndexByte_def wellKnownPort_def
        ascii_def byte_of_def)
qed

section \<open>Resolvers are not chained\<close>

definition bootsResolve :: "upEnv \<Rightarrow> (string \<rightharpoonup> upWrapper) \<Rightarrow> bool" where
  "bootsResolve env ups \<longleftrightarrow> (\<forall>t w b. ups t = Some w \<longrightarrow> uwBootstrap w = Some b \<longrightarrow>
     upstreamAddrNeedsDNS env (uwAddrCfg w) \<and> (\<exists>bw. ups b = Some bw \<and> \<not> upstreamAddrNeedsDNS env (uwAddrCfg bw)))"

lemma bootsResolve_init: "bootsResolve env Map.empty"
  by (simp add: bootsResolve_def)

lemma initUpstream_cases:
  assumes "initUpstream env ctl cfg ups = Inr ups'"
  obtains u where "ups (ucTag cfg) = None"
    and "ups' = ups(ucTag cfg \<mapsto> \<lparr>uwAddrCfg = \<lparr>uaAddr = ucAddr cfg, uaDialAddr = ucDialAddr cfg\<rparr>, uwTransport = u,
      uwBootstrap = (if length (ucBootstrap cfg) > 0 then Some (ucBootstrap cfg) else None)\<rparr>)"
    and "length (ucBootstrap cfg) > 0 \<Longrightarrow> bootstrapError env cfg ups = None"
  using assms by (auto simp: initUpstream_def split: if_splits option.splits sum.splits fail.splits)

lemma initUpstream_dom: "initUpstream env ctl cfg ups = Inr ups' \<Longrightarrow> dom ups' = insert (ucTag cfg) (dom ups)"
  by (erule initUpstream_cases) auto

lemma initUpstreams_dom: "initUpstreams env ctl cfgs ups = Inr ups' \<Longrightarrow> dom ups' = dom ups \<union> ucTag ` set cfgs"
  by (induction cfgs arbitrary: ups) (auto split: sum.splits simp: initUpstream_dom)

lemma bootstrapError_None:
  assumes "bootstrapError env cfg ups = None"
  obtains bw where "ups (ucBootstrap cfg) = Some bw" and "\<not> upstreamAddrNeedsDNS env (uwAddrCfg bw)" and "ucDialAddr cfg = []"
    and "upstreamAddrNeedsDNS env \<lparr>uaAddr = ucAddr cfg, uaDialAddr = []\<rparr>"
  using assms by (auto simp: bootstrapError_def split: if_splits option.splits)

lemma bootsResolve_step:
  assumes "bootsResolve env ups" and "initUpstream env ctl cfg ups = Inr ups'"
  shows "bootsResolve env ups'"
  unfolding bootsResolve_def
proof (intro allI impI)
  fix t w b
  assume t: "ups' t = Some w" and b: "uwBootstrap w = Some b"
  from assms(2) obtain u where new: "ups (ucTag cfg) = None"
    and ups': "ups' = ups(ucTag cfg \<mapsto> \<lparr>uwAddrCfg = \<lparr>uaAddr = ucAddr cfg, uaDialAddr = ucDialAddr cfg\<rparr>, uwTransport = u,
      uwBootstrap = (if length (ucBootstrap cfg) > 0 then Some (ucBootstrap cfg) else None)\<rparr>)"
    and err: "length (ucBootstrap cfg) > 0 \<Longrightarrow> bootstrapError env cfg ups = None"
    by (rule initUpstream_cases) blast
  have "upstreamAddrNeedsDNS env (uwAddrCfg w) \<and> (\<exists>bw. ups b = Some bw \<and> \<not> upstreamAddrNeedsDNS env (uwAddrCfg bw))"
  proof (cases "t = ucTag cfg")
    case True
    then have "b = ucBootstrap cfg" "length (ucBootstrap cfg) > 0" "uwAddrCfg w = \<lparr>uaAddr = ucAddr cfg, uaDialAddr = ucDialAddr cfg\<rparr>"
      using t b ups' by (auto split: if_splits)
    with err show ?thesis
      by (auto elim!: bootstrapError_None)
  next
    case False
    then show ?thesis
      using assms(1) t b ups' by (auto simp: bootsResolve_def)
  qed
  moreover have "ups b = Some bw \<Longrightarrow> ups' b = Some bw" for bw
    using new ups' by auto
  ultimately show "upstreamAddrNeedsDNS env (uwAddrCfg w) \<and> (\<exists>bw. ups' b = Some bw \<and> \<not> upstreamAddrNeedsDNS env (uwAddrCfg bw))"
    by blast
qed

lemma bootsResolve_all: "bootsResolve env ups \<Longrightarrow> initUpstreams env ctl cfgs ups = Inr ups' \<Longrightarrow> bootsResolve env ups'"
  by (induction cfgs arbitrary: ups) (auto split: sum.splits intro: bootsResolve_step)

text \<open>C36: However the upstreams are configured, the resolver of an upstream is another upstream of the router, whose address
  is dialed without DNS and which has no resolver of its own: to resolve an address never needs another resolution.\<close>

theorem bootstrap_not_chained:
  assumes "initUpstreams env ctl cfgs Map.empty = Inr ups" and "ups t = Some w" and "uwBootstrap w = Some b"
  shows "\<exists>bw. ups b = Some bw \<and> b \<noteq> t \<and> uwBootstrap bw = None \<and> \<not> upstreamAddrNeedsDNS env (uwAddrCfg bw)"
proof -
  have inv: "bootsResolve env ups"
    by (rule bootsResolve_all [OF bootsResolve_init assms(1)])
  then have "upstreamAddrNeedsDNS env (uwAddrCfg w) \<and> (\<exists>bw. ups b = Some bw \<and> \<not> upstreamAddrNeedsDNS env (uwAddrCfg bw))"
    using assms(2,3) unfolding bootsResolve_def by blast
  then obtain bw where bw: "ups b = Some bw" "\<not> upstreamAddrNeedsDNS env (uwAddrCfg bw)" "upstreamAddrNeedsDNS env (uwAddrCfg w)"
    by blast
  then have "uwBootstrap bw = None"
    using inv by (cases "uwBootstrap bw") (auto simp: bootsResolve_def)
  then show ?thesis
    using bw assms(2) by auto
qed

definition "witUpCfgs =
  [\<lparr>ucTag = ''b'', ucAddr = ascii ''9.9.9.9'', ucDialAddr = [], ucBootstrap = [], ucTls = Some [], ucMetrics = True\<rparr>,
   \<lparr>ucTag = ''t'', ucAddr = ascii ''tls://d'', ucDialAddr = [], ucBootstrap = ''b'', ucTls = Some [], ucMetrics = True\<rparr>]"

definition "witUps = (case initUpstreams witUpEnv True witUpCfgs Map.empty of Inr ups \<Rightarrow> ups | Inl _ \<Rightarrow> Map.empty)"

lemma witUps_runs: "initUpstreams witUpEnv True witUpCfgs Map.empty = Inr witUps"
  and witUps_t: "map_option uwBootstrap (witUps ''t'') = Some (Some ''b'')"
  by (simp_all add: witUps_def witUpCfgs_def initUpstream_def bootstrapError_def newUpstream_tls newUpstream_ip needsDNS_ip needsDNS_tls)

theorem bootstrap_not_chained_witness:
  "\<exists>bw. witUps ''b'' = Some bw \<and> ''b'' \<noteq> ''t'' \<and> uwBootstrap bw = None
    \<and> \<not> upstreamAddrNeedsDNS witUpEnv (uwAddrCfg bw)"
proof -
  from witUps_t obtain w where "witUps ''t'' = Some w" "uwBootstrap w = Some ''b''"
    by auto
  from bootstrap_not_chained [OF witUps_runs this] show ?thesis .
qed

end
