(* ===== verification/Bootstrap.thy ===== *)
theory Bootstrap
  imports Upstream Machine DnsText IpSet
begin

text \<open>
  The resolver of the addresses of upstreams (\<^verbatim>\<open>internal/upstream/bootstrap.go\<close>): what it asks and makes of the
  responses, its cache, and the queries that callers share. Queries in flight are numbers; the clock, the random choice
  of an address and the responses are arguments. Times are in seconds.
\<close>

section \<open>Asking the upstream\<close>

definition isDotTerminated :: "bytes \<Rightarrow> bool" where
  "isDotTerminated s \<longleftrightarrow> length s > 0 \<and> s ! (length s - 1) = 46"

text \<open>The error of \<^verbatim>\<open>Parse\<close> is ignored; \<open>left\<close> is the name it leaves then.\<close>

definition bootstrapQuery :: "Name \<Rightarrow> bytes \<Rightarrow> u16 \<Rightarrow> Msg" where
  "bootstrapQuery left host qtype =
    (let fqdn = (if isDotTerminated host then host else host @ [46]);
         name = (case ParseName emptyName fqdn of Inr n \<Rightarrow> n | Inl _ \<Rightarrow> left)
     in NewMsg\<lparr>mHeader := zeroHeader\<lparr>RecursionDesired := True\<rparr>, Questions := [\<lparr>qName = name, qType = qtype, qClass = ClassINET\<rparr>]\<rparr>)"

fun answerAddr :: "Resource \<Rightarrow> Addr option" where
  "answerAddr (A_rr h a) = Some (Addr4 a)"
| "answerAddr (AAAA_rr h a) = Some (unmap (Addr6 a []))"
| "answerAddr _ = None"

fun answerLoop :: "Resource list \<Rightarrow> Addr list \<Rightarrow> u32 \<Rightarrow> Addr list \<times> u32" where
  "answerLoop [] ips minTTL = (ips, minTTL)"
| "answerLoop (rr # rrs) ips minTTL = (case answerAddr rr of
     Some a \<Rightarrow> answerLoop rrs (ips @ [a]) (if hTTL (Hdr rr) < minTTL then hTTL (Hdr rr) else minTTL)
   | None \<Rightarrow> answerLoop rrs ips minTTL)"

record queryResult =
  qrIps :: "Addr list"
  qrTtl :: u32
  qrErr :: "string option"

abbreviation "noTTL \<equiv> 0xFFFFFFFF :: u32"

definition queryFn :: "string + Msg \<Rightarrow> queryResult" where
  "queryFn resp = (case resp of
     Inl e \<Rightarrow> \<lparr>qrIps = [], qrTtl = 0, qrErr = Some e\<rparr>
   | Inr m \<Rightarrow> (case answerLoop (Answers m) [] noTTL of (ips, minTTL) \<Rightarrow>
       \<lparr>qrIps = ips, qrTtl = (if minTTL = noTTL then 300 else minTTL), qrErr = None\<rparr>))"

fun mergeLoop :: "queryResult list \<Rightarrow> Addr list \<Rightarrow> u32 \<Rightarrow> Addr list \<times> u32" where
  "mergeLoop [] ips minTTL = (ips, minTTL)"
| "mergeLoop (r # rs) ips minTTL =
    (if qrErr r = None \<and> length (qrIps r) > 0 then mergeLoop rs (ips @ qrIps r) (if qrTtl r < minTTL then qrTtl r else minTTL)
     else mergeLoop rs ips minTTL)"

definition queryUpstream :: "string + Msg \<Rightarrow> string + Msg \<Rightarrow> Addr list \<times> int \<times> string option" where
  "queryUpstream resp4 resp6 =
    (let r4 = queryFn resp4; r6 = queryFn resp6 in
     case mergeLoop [r4, r6] [] noTTL of (ips, minTTL) \<Rightarrow>
       if length ips = 0 then ([], 0, if qrErr r4 \<noteq> None then qrErr r4 else qrErr r6)
       else (ips, uint (if minTTL = noTTL then 300 else minTTL), None))"

section \<open>The resolver\<close>

datatype bsErr = BsExchange string | BsNoAddress bytes | BsCause

record resolveResult =
  rsIps :: "Addr list"
  rsExpireAt :: int

record inflightQuery =
  iqDone :: bool
  iqIps :: "Addr list"
  iqTtl :: int
  iqErr :: "bsErr option"

record bootstrapResolver =
  brCache :: "bytes \<rightharpoonup> resolveResult"
  brInflight :: "bytes \<rightharpoonup> nat"
  brQuery :: "nat \<Rightarrow> inflightQuery"

definition newBootstrapResolver :: bootstrapResolver where
  "newBootstrapResolver = \<lparr>brCache = Map.empty, brInflight = Map.empty, brQuery = (\<lambda>_. \<lparr>iqDone = False, iqIps = [], iqTtl = 0, iqErr = None\<rparr>)\<rparr>"

text \<open>\<open>rnd\<close> stands for \<^verbatim>\<open>rand.IntN\<close>, which panics on an empty range.\<close>

definition pickIp :: "nat \<Rightarrow> Addr list \<Rightarrow> (bsErr, Addr) res" where
  "pickIp rnd ips = (if length ips = 0 then Inl Panic else Inr (ips ! (rnd mod length ips)))"

text \<open>\<^verbatim>\<open>resolve\<close> up to the first wait; \<open>q\<close> is a new query.\<close>

datatype resolveNext = RsHit "Addr list" | RsWait nat | RsLead nat

definition resolveBegin :: "int \<Rightarrow> bytes \<Rightarrow> nat \<Rightarrow> bootstrapResolver \<Rightarrow> resolveNext \<times> bootstrapResolver" where
  "resolveBegin now host q r = (case (case brCache r host of Some res \<Rightarrow> if now < rsExpireAt res then Some (rsIps res) else None | None \<Rightarrow> None) of
     Some ips \<Rightarrow> (RsHit ips, r)
   | None \<Rightarrow> (case brInflight r host of
       Some q' \<Rightarrow> (RsWait q', r)
     | None \<Rightarrow> (RsLead q, r\<lparr>brInflight := (brInflight r)(host \<mapsto> q), brQuery := (brQuery r)(q := \<lparr>iqDone = False, iqIps = [], iqTtl = 0, iqErr = None\<rparr>)\<rparr>)))"

text \<open>What the caller that asks the upstream makes of its result, before it takes the lock again, and after that.\<close>

definition publish :: "bytes \<Rightarrow> nat \<Rightarrow> Addr list \<times> int \<times> string option \<Rightarrow> bootstrapResolver \<Rightarrow> bootstrapResolver" where
  "publish host q res r = (case res of (ips, ttl, err) \<Rightarrow>
     let err = (case err of Some e \<Rightarrow> Some (BsExchange e) | None \<Rightarrow> if length ips = 0 then Some (BsNoAddress host) else None)
     in r\<lparr>brQuery := (brQuery r)(q := \<lparr>iqDone = True, iqIps = ips, iqTtl = ttl, iqErr = err\<rparr>)\<rparr>)"

definition storeResult :: "int \<Rightarrow> bytes \<Rightarrow> nat \<Rightarrow> bootstrapResolver \<Rightarrow> bootstrapResolver" where
  "storeResult now host q r =
    (let r = r\<lparr>brInflight := (brInflight r)(host := None)\<rparr>; iq = brQuery r q in
     if iqErr iq = None then
       r\<lparr>brCache := (brCache r)(host \<mapsto> \<lparr>rsIps = iqIps iq, rsExpireAt = now + (if iqTtl iq < 30 then 30 else iqTtl iq)\<rparr>)\<rparr>
     else r)"

definition resolveEnd :: "nat \<Rightarrow> inflightQuery \<Rightarrow> (bsErr, Addr) res" where
  "resolveEnd rnd iq = (case iqErr iq of Some e \<Rightarrow> Inl (Err e) | None \<Rightarrow> pickIp rnd (iqIps iq))"

text \<open>\<open>resolve\<close> is the method above and \<open>str\<close> prints an address.\<close>

definition resolveDialAddr :: "upEnv \<Rightarrow> (Addr \<Rightarrow> bytes) \<Rightarrow> (bytes \<Rightarrow> (bsErr, Addr) res) \<Rightarrow> bytes \<Rightarrow> (bsErr, bytes) res" where
  "resolveDialAddr env str resolve addr =
    (case (case splitHostPort addr of Some hp \<Rightarrow> hp | None \<Rightarrow> (addr, [])) of (host, port) \<Rightarrow>
     if parseAddr env host \<noteq> None then Inr addr
     else case resolve host of
       Inl e \<Rightarrow> Inl e
     | Inr ip \<Rightarrow> Inr (if length port > 0 then joinHostPort (str ip) port else str ip))"

section \<open>What the responses say\<close>

definition addrsIn :: "string + Msg \<Rightarrow> Addr set" where
  "addrsIn resp = (case resp of Inl _ \<Rightarrow> {} | Inr m \<Rightarrow> {a. \<exists>rr \<in> set (Answers m). answerAddr rr = Some a})"

lemma answerLoop_sound:
  assumes "answerLoop rrs ips m = (ips', m')"
  shows "set ips' = set ips \<union> {a. \<exists>rr \<in> set rrs. answerAddr rr = Some a}" and "m' \<le> m"
    and "rr \<in> set rrs \<Longrightarrow> answerAddr rr \<noteq> None \<Longrightarrow> m' \<le> hTTL (Hdr rr)"
proof -
  have "set ips' = set ips \<union> {a. \<exists>rr \<in> set rrs. answerAddr rr = Some a} \<and> m' \<le> m \<and>
    (\<forall>rr \<in> set rrs. answerAddr rr \<noteq> None \<longrightarrow> m' \<le> hTTL (Hdr rr))"
    using assms by (induction rrs ips m rule: answerLoop.induct) (auto split: option.splits if_splits intro: order.trans)
  then show "set ips' = set ips \<union> {a. \<exists>rr \<in> set rrs. answerAddr rr = Some a}" and "m' \<le> m"
    and "rr \<in> set rrs \<Longrightarrow> answerAddr rr \<noteq> None \<Longrightarrow> m' \<le> hTTL (Hdr rr)"
    by auto
qed

lemma queryFn_sound: "set (qrIps (queryFn resp)) = addrsIn resp" "qrErr (queryFn resp) \<noteq> None \<Longrightarrow> addrsIn resp = {}"
proof -
  show "set (qrIps (queryFn resp)) = addrsIn resp"
  proof (cases resp)
    case (Inr m)
    obtain ips t where l: "answerLoop (Answers m) [] noTTL = (ips, t)" by fastforce
    from answerLoop_sound(1) [OF l] show ?thesis
      by (simp add: Inr l queryFn_def addrsIn_def)
  qed (simp add: queryFn_def addrsIn_def)
  show "qrErr (queryFn resp) \<noteq> None \<Longrightarrow> addrsIn resp = {}"
    by (auto simp: queryFn_def addrsIn_def split: sum.splits prod.splits)
qed

lemma queryFn_ttl:
  assumes "rr \<in> set (Answers m)" "answerAddr rr \<noteq> None"
  shows "qrTtl (queryFn (Inr m)) \<le> hTTL (Hdr rr)"
proof -
  obtain ips t where l: "answerLoop (Answers m) [] noTTL = (ips, t)" by fastforce
  have "t \<le> hTTL (Hdr rr)"
    by (rule answerLoop_sound(3) [OF l assms])
  moreover have "hTTL (Hdr rr) \<le> noTTL"
  proof -
    have "noTTL = - 1" by simp
    then show ?thesis using word_order.extremum [of "hTTL (Hdr rr)"] by metis
  qed
  ultimately show ?thesis
    by (cases "t = noTTL") (auto simp: queryFn_def l intro: order.trans)
qed

lemma queryUpstream_sound:
  assumes "queryUpstream resp4 resp6 = (ips, ttl, err)"
  shows "set ips = addrsIn resp4 \<union> addrsIn resp6" and "ips \<noteq> [] \<Longrightarrow> err = None"
proof -
  show "set ips = addrsIn resp4 \<union> addrsIn resp6" and "ips \<noteq> [] \<Longrightarrow> err = None"
    using assms queryFn_sound [of resp4] queryFn_sound [of resp6]
    by (auto simp: queryUpstream_def Let_def split: if_splits)
qed

lemma queryUpstream_ttl:
  assumes "queryUpstream resp4 resp6 = (ips, ttl, err)" and "resp4 = Inr m \<or> resp6 = Inr m"
    and "rr \<in> set (Answers m)" "answerAddr rr \<noteq> None"
  shows "ttl \<le> uint (hTTL (Hdr rr))"
proof -
  define r4 r6 where r: "r4 = queryFn resp4" "r6 = queryFn resp6"
  have m: "qrTtl (queryFn (Inr m)) \<le> hTTL (Hdr rr)" "qrErr (queryFn (Inr m)) = None" "length (qrIps (queryFn (Inr m))) > 0"
  proof -
    show "qrTtl (queryFn (Inr m)) \<le> hTTL (Hdr rr)"
      by (rule queryFn_ttl [OF assms(3,4)])
    have "addrsIn (Inr m) \<noteq> {}"
      using assms(3,4) by (auto simp: addrsIn_def)
    then show "length (qrIps (queryFn (Inr m))) > 0"
      using queryFn_sound(1) [of "Inr m"] by auto
    show "qrErr (queryFn (Inr m)) = None"
      by (simp add: queryFn_def split: prod.splits)
  qed
  obtain is' t where l: "mergeLoop [r4, r6] [] noTTL = (is', t)" by fastforce
  have n: "noTTL = - 1" by simp
  have "t \<le> hTTL (Hdr rr) \<and> is' \<noteq> []"
    using l assms(2) m r by (auto split: if_splits intro: order.trans)
  moreover have "t = noTTL \<Longrightarrow> 300 \<le> hTTL (Hdr rr)"
    using calculation order.trans [of 300 noTTL "hTTL (Hdr rr)"] by simp
  ultimately have "(if t = noTTL then 300 else t) \<le> hTTL (Hdr rr)" "is' \<noteq> []"
    by auto
  then show ?thesis
    using assms(1) l by (auto simp: queryUpstream_def Let_def word_le_def simp flip: r)
qed

section \<open>The resolver and its callers as a machine\<close>

text \<open>
  \<open>bmLeads\<close> are the callers that ask the upstream, \<open>bmDone\<close> those that have published the result and still have to store
  it, each with its query and host; \<open>bmWaits\<close> are those who ever waited for a query. \<open>bmGiven\<close> are the results callers got, and \<open>bmHeard\<close> the addresses the upstream gave
  for a host.
\<close>

record bootMachine =
  bmR :: bootstrapResolver
  bmLeads :: "nat \<rightharpoonup> bytes"
  bmDone :: "nat \<rightharpoonup> bytes"
  bmWaits :: "(bytes \<times> nat) set"
  bmUsed :: "nat set"
  bmGiven :: "(bytes \<times> (bsErr, Addr) res) set"
  bmHeard :: "(bytes \<times> Addr) set"

datatype bootEvent =
    BResolve int bytes nat nat
  | BPublish nat "string + Msg" "string + Msg"
  | BStore int nat nat
  | BWake bytes nat nat
  | BGiveUp bytes nat

fun bootStep :: "bootEvent \<Rightarrow> bootMachine \<Rightarrow> bootMachine option" where
  "bootStep (BResolve now host q rnd) s =
    (if q \<in> bmUsed s then None
     else case resolveBegin now host q (bmR s) of
       (RsHit ips, r) \<Rightarrow> Some (s\<lparr>bmR := r, bmGiven := insert (host, pickIp rnd ips) (bmGiven s)\<rparr>)
     | (RsWait q', r) \<Rightarrow> Some (s\<lparr>bmR := r, bmWaits := insert (host, q') (bmWaits s)\<rparr>)
     | (RsLead q, r) \<Rightarrow> Some (s\<lparr>bmR := r, bmLeads := (bmLeads s)(q \<mapsto> host), bmUsed := insert q (bmUsed s)\<rparr>))"
| "bootStep (BPublish q resp4 resp6) s = (case bmLeads s q of None \<Rightarrow> None | Some host \<Rightarrow>
     Some (s\<lparr>bmR := publish host q (queryUpstream resp4 resp6) (bmR s), bmLeads := (bmLeads s)(q := None), bmDone := (bmDone s)(q \<mapsto> host),
       bmHeard := bmHeard s \<union> {host} \<times> (addrsIn resp4 \<union> addrsIn resp6)\<rparr>))"
| "bootStep (BStore now q rnd) s = (case bmDone s q of None \<Rightarrow> None | Some host \<Rightarrow>
     Some (s\<lparr>bmR := storeResult now host q (bmR s), bmDone := (bmDone s)(q := None),
       bmGiven := insert (host, resolveEnd rnd (brQuery (bmR s) q)) (bmGiven s)\<rparr>))"
| "bootStep (BWake host q rnd) s =
    (if (host, q) \<in> bmWaits s \<and> iqDone (brQuery (bmR s) q)
     then Some (s\<lparr>bmGiven := insert (host, resolveEnd rnd (brQuery (bmR s) q)) (bmGiven s)\<rparr>) else None)"
| "bootStep (BGiveUp host q) s =
    (if (host, q) \<in> bmWaits s then Some (s\<lparr>bmGiven := insert (host, Inl (Err BsCause)) (bmGiven s)\<rparr>) else None)"

definition bootStart :: "bootMachine \<Rightarrow> bool" where
  "bootStart s \<longleftrightarrow> s = \<lparr>bmR = newBootstrapResolver, bmLeads = Map.empty, bmDone = Map.empty, bmWaits = {}, bmUsed = {}, bmGiven = {}, bmHeard = {}\<rparr>"

section \<open>The invariant\<close>

definition heardAll :: "(bytes \<times> Addr) set \<Rightarrow> bytes \<Rightarrow> Addr list \<Rightarrow> bool" where
  "heardAll H host ips \<longleftrightarrow> ips \<noteq> [] \<and> {host} \<times> set ips \<subseteq> H"

definition decided :: "(bytes \<times> Addr) set \<Rightarrow> bytes \<Rightarrow> inflightQuery \<Rightarrow> bool" where
  "decided H host iq \<longleftrightarrow> iqDone iq \<and> (iqErr iq = None \<longrightarrow> heardAll H host (iqIps iq))"

definition givenOk :: "(bytes \<times> Addr) set \<Rightarrow> bytes \<Rightarrow> (bsErr, Addr) res \<Rightarrow> bool" where
  "givenOk H host r \<longleftrightarrow> (case r of Inl e \<Rightarrow> e \<noteq> Panic | Inr a \<Rightarrow> (host, a) \<in> H)"

definition bootInv :: "bootMachine \<Rightarrow> bool" where
  "bootInv s \<longleftrightarrow>
    (\<forall>h q. brInflight (bmR s) h = Some q \<longleftrightarrow> bmLeads s q = Some h \<or> bmDone s q = Some h) \<and>
    (\<forall>q h. bmLeads s q = Some h \<longrightarrow> q \<in> bmUsed s \<and> bmDone s q = None \<and> \<not> iqDone (brQuery (bmR s) q)) \<and>
    (\<forall>q h. bmDone s q = Some h \<longrightarrow> q \<in> bmUsed s \<and> decided (bmHeard s) h (brQuery (bmR s) q)) \<and>
    (\<forall>(h, q) \<in> bmWaits s. q \<in> bmUsed s \<and> (bmLeads s q = Some h \<or> decided (bmHeard s) h (brQuery (bmR s) q))) \<and>
    (\<forall>h c. brCache (bmR s) h = Some c \<longrightarrow> heardAll (bmHeard s) h (rsIps c)) \<and>
    (\<forall>(h, r) \<in> bmGiven s. givenOk (bmHeard s) h r)"

lemma heardAll_mono: "heardAll H h ips \<Longrightarrow> H \<subseteq> H' \<Longrightarrow> heardAll H' h ips"
  and decided_mono: "decided H h iq \<Longrightarrow> H \<subseteq> H' \<Longrightarrow> decided H' h iq"
  and givenOk_mono: "givenOk H h r \<Longrightarrow> H \<subseteq> H' \<Longrightarrow> givenOk H' h r"
  by (auto simp: heardAll_def decided_def givenOk_def split: sum.splits)

lemma pick_ok: "heardAll H h ips \<Longrightarrow> givenOk H h (pickIp rnd ips)"
  by (auto simp: heardAll_def givenOk_def pickIp_def)

lemma end_ok: "decided H h iq \<Longrightarrow> givenOk H h (resolveEnd rnd iq)"
  by (auto simp: decided_def resolveEnd_def givenOk_def pick_ok [unfolded givenOk_def] split: option.splits)

lemma publish_decided:
  "decided (H \<union> {h} \<times> (addrsIn resp4 \<union> addrsIn resp6)) h (brQuery (publish h q (queryUpstream resp4 resp6) r) q)"
proof -
  obtain ips ttl err where "queryUpstream resp4 resp6 = (ips, ttl, err)" by (rule prod_cases3)
  then show ?thesis
    using queryUpstream_sound [of resp4 resp6 ips ttl err]
    by (auto simp: decided_def heardAll_def publish_def split: option.splits)
qed

lemma publish_other:
  "brInflight (publish h q res r) = brInflight r" "brCache (publish h q res r) = brCache r"
  "q' \<noteq> q \<Longrightarrow> brQuery (publish h q res r) q' = brQuery r q'"
  by (auto simp: publish_def split: prod.splits)

lemma bootInvI:
  assumes "\<And>h q. brInflight (bmR s) h = Some q \<longleftrightarrow> bmLeads s q = Some h \<or> bmDone s q = Some h"
    and "\<And>q h. bmLeads s q = Some h \<Longrightarrow> q \<in> bmUsed s \<and> bmDone s q = None \<and> \<not> iqDone (brQuery (bmR s) q)"
    and "\<And>q h. bmDone s q = Some h \<Longrightarrow> q \<in> bmUsed s \<and> decided (bmHeard s) h (brQuery (bmR s) q)"
    and "\<And>h q. (h, q) \<in> bmWaits s \<Longrightarrow> q \<in> bmUsed s \<and> (bmLeads s q = Some h \<or> decided (bmHeard s) h (brQuery (bmR s) q))"
    and "\<And>h c. brCache (bmR s) h = Some c \<Longrightarrow> heardAll (bmHeard s) h (rsIps c)"
    and "\<And>h r. (h, r) \<in> bmGiven s \<Longrightarrow> givenOk (bmHeard s) h r"
  shows "bootInv s"
  unfolding bootInv_def Ball_def split_paired_All prod.case by (intro conjI allI impI; use assms in blast)

lemma bootInvD:
  assumes "bootInv s"
  shows inv_inflight: "brInflight (bmR s) h = Some q \<longleftrightarrow> bmLeads s q = Some h \<or> bmDone s q = Some h"
    and inv_leads: "bmLeads s q = Some h \<Longrightarrow> q \<in> bmUsed s \<and> bmDone s q = None \<and> \<not> iqDone (brQuery (bmR s) q)"
    and inv_done: "bmDone s q = Some h \<Longrightarrow> q \<in> bmUsed s \<and> decided (bmHeard s) h (brQuery (bmR s) q)"
    and inv_waits: "(h, q) \<in> bmWaits s \<Longrightarrow> q \<in> bmUsed s \<and> (bmLeads s q = Some h \<or> decided (bmHeard s) h (brQuery (bmR s) q))"
    and inv_cache: "brCache (bmR s) h = Some c \<Longrightarrow> heardAll (bmHeard s) h (rsIps c)"
    and inv_given: "(h, r) \<in> bmGiven s \<Longrightarrow> givenOk (bmHeard s) h r"
  using assms by (auto simp: bootInv_def)

lemma boot_give:
  assumes "bootInv s" and "givenOk (bmHeard s) h r"
  shows "bootInv (s\<lparr>bmGiven := insert (h, r) (bmGiven s)\<rparr>)"
  using assms by (simp add: bootInv_def)

lemma boot_wait:
  assumes "bootInv s" and "brInflight (bmR s) h = Some q"
  shows "bootInv (s\<lparr>bmWaits := insert (h, q) (bmWaits s)\<rparr>)"
proof -
  have "q \<in> bmUsed s \<and> (bmLeads s q = Some h \<or> decided (bmHeard s) h (brQuery (bmR s) q))"
    using inv_inflight [OF assms(1)] inv_leads [OF assms(1)] inv_done [OF assms(1)] assms(2) by blast
  with assms(1) show ?thesis
    by (simp add: bootInv_def)
qed

lemma boot_lead:
  assumes inv: "bootInv s" and free: "brInflight (bmR s) h = None" and q: "q \<notin> bmUsed s" and iq: "\<not> iqDone iq"
  shows "bootInv (s\<lparr>bmR := (bmR s)\<lparr>brInflight := (brInflight (bmR s))(h \<mapsto> q), brQuery := (brQuery (bmR s))(q := iq)\<rparr>,
    bmLeads := (bmLeads s)(q \<mapsto> h), bmUsed := insert q (bmUsed s)\<rparr>)" (is "bootInv ?s")
proof -
  have fresh: "bmLeads s q = None" "bmDone s q = None"
    using inv_leads [OF inv, of q] inv_done [OF inv, of q] q by (metis not_Some_eq)+
  have none: "bmLeads s q' \<noteq> Some h" "bmDone s q' \<noteq> Some h" for q'
    using inv_inflight [OF inv, of h q'] free by auto
  show ?thesis
  proof (rule bootInvI)
    fix h' q'
    show "brInflight (bmR ?s) h' = Some q' \<longleftrightarrow> bmLeads ?s q' = Some h' \<or> bmDone ?s q' = Some h'"
      using inv_inflight [OF inv, of h' q'] fresh none by auto
    show "bmLeads ?s q' = Some h' \<Longrightarrow> q' \<in> bmUsed ?s \<and> bmDone ?s q' = None \<and> \<not> iqDone (brQuery (bmR ?s) q')"
      using inv_leads [OF inv, of q' h'] fresh iq by (auto split: if_splits)
    show "bmDone ?s q' = Some h' \<Longrightarrow> q' \<in> bmUsed ?s \<and> decided (bmHeard ?s) h' (brQuery (bmR ?s) q')"
      using inv_done [OF inv, of q' h'] fresh by auto
    show "(h', q') \<in> bmWaits ?s \<Longrightarrow> q' \<in> bmUsed ?s \<and> (bmLeads ?s q' = Some h' \<or> decided (bmHeard ?s) h' (brQuery (bmR ?s) q'))"
      using inv_waits [OF inv, of h' q'] q by auto
  qed (use inv_cache [OF inv] inv_given [OF inv] in simp_all)
qed

lemma boot_resolve:
  assumes "bootInv s" and "bootStep (BResolve now host q rnd) s = Some s'"
  shows "bootInv s'"
proof -
  consider (hit) c where "brCache (bmR s) host = Some c" "s' = s\<lparr>bmGiven := insert (host, pickIp rnd (rsIps c)) (bmGiven s)\<rparr>"
    | (wait) q' where "brInflight (bmR s) host = Some q'" "s' = s\<lparr>bmWaits := insert (host, q') (bmWaits s)\<rparr>"
    | (lead) "brInflight (bmR s) host = None" "q \<notin> bmUsed s"
      "s' = s\<lparr>bmR := (bmR s)\<lparr>brInflight := (brInflight (bmR s))(host \<mapsto> q),
        brQuery := (brQuery (bmR s))(q := \<lparr>iqDone = False, iqIps = [], iqTtl = 0, iqErr = None\<rparr>)\<rparr>,
        bmLeads := (bmLeads s)(q \<mapsto> host), bmUsed := insert q (bmUsed s)\<rparr>"
    using assms(2) by (auto simp: resolveBegin_def split: option.splits if_splits)
  then show ?thesis
    by cases (use assms(1) in \<open>auto intro!: boot_give boot_wait boot_lead pick_ok inv_cache\<close>)
qed

lemma boot_publish:
  assumes inv: "bootInv s" and step: "bootStep (BPublish q resp4 resp6) s = Some s'"
  shows "bootInv s'"
proof -
  from step obtain h where h: "bmLeads s q = Some h" and s': "s' = s\<lparr>bmR := publish h q (queryUpstream resp4 resp6) (bmR s),
    bmLeads := (bmLeads s)(q := None), bmDone := (bmDone s)(q \<mapsto> h), bmHeard := bmHeard s \<union> {h} \<times> (addrsIn resp4 \<union> addrsIn resp6)\<rparr>"
    by (auto split: option.splits)
  have mono: "bmHeard s \<subseteq> bmHeard s'"
    by (simp add: s')
  have q: "decided (bmHeard s') h (brQuery (bmR s') q)"
    using publish_decided by (simp add: s')
  have other: "brQuery (bmR s') q' = brQuery (bmR s) q'" if "q' \<noteq> q" for q'
    using that by (simp add: s' publish_other)
  have undone: "\<not> decided H h' (brQuery (bmR s) q)" for H h'
    using inv_leads [OF inv h] by (simp add: decided_def)
  show ?thesis
  proof (rule bootInvI)
    fix h' q'
    show "brInflight (bmR s') h' = Some q' \<longleftrightarrow> bmLeads s' q' = Some h' \<or> bmDone s' q' = Some h'"
      using inv_inflight [OF inv, of h' q'] inv_leads [OF inv h] h by (auto simp: s' publish_other)
    show "bmLeads s' q' = Some h' \<Longrightarrow> q' \<in> bmUsed s' \<and> bmDone s' q' = None \<and> \<not> iqDone (brQuery (bmR s') q')"
      using inv_leads [OF inv, of q' h'] by (auto simp: s' publish_other split: if_splits)
    show "bmDone s' q' = Some h' \<Longrightarrow> q' \<in> bmUsed s' \<and> decided (bmHeard s') h' (brQuery (bmR s') q')"
      using inv_done [OF inv, of q' h'] inv_leads [OF inv h] q other [of q'] decided_mono [OF _ mono] by (cases "q' = q") (auto simp: s')
    show "(h', q') \<in> bmWaits s' \<Longrightarrow> q' \<in> bmUsed s' \<and> (bmLeads s' q' = Some h' \<or> decided (bmHeard s') h' (brQuery (bmR s') q'))"
    proof (cases "q' = q")
      case True
      show "(h', q') \<in> bmWaits s' \<Longrightarrow> ?thesis"
        using inv_waits [OF inv, of h' q] undone q h by (auto simp: s' True)
    next
      case False
      show "(h', q') \<in> bmWaits s' \<Longrightarrow> ?thesis"
        using inv_waits [OF inv, of h' q'] other [OF False] decided_mono [OF _ mono] False by (auto simp: s')
    qed
  next
    fix h' c
    show "brCache (bmR s') h' = Some c \<Longrightarrow> heardAll (bmHeard s') h' (rsIps c)"
      using inv_cache [OF inv, of h' c] heardAll_mono [OF _ mono] by (simp add: s' publish_other)
  next
    fix h' r
    show "(h', r) \<in> bmGiven s' \<Longrightarrow> givenOk (bmHeard s') h' r"
      using inv_given [OF inv, of h' r] givenOk_mono [OF _ mono] by (simp add: s')
  qed
qed

lemma boot_store:
  assumes inv: "bootInv s" and step: "bootStep (BStore now q rnd) s = Some s'"
  shows "bootInv s'"
proof -
  from step obtain h where h: "bmDone s q = Some h" and s': "s' = s\<lparr>bmR := storeResult now h q (bmR s), bmDone := (bmDone s)(q := None),
      bmGiven := insert (h, resolveEnd rnd (brQuery (bmR s) q)) (bmGiven s)\<rparr>"
    by (auto split: option.splits)
  note d = inv_done [OF inv h, THEN conjunct2]
  have only: "bmLeads s q' \<noteq> Some h" "bmDone s q' = Some h \<longleftrightarrow> q' = q" for q'
    using inv_inflight [OF inv, of h q'] inv_inflight [OF inv, of h q] inv_leads [OF inv, of q' h] h by auto
  have r: "brQuery (bmR s') = brQuery (bmR s)" "brInflight (bmR s') = (brInflight (bmR s))(h := None)" "bmLeads s' = bmLeads s"
    "bmDone s' = (bmDone s)(q := None)" "bmUsed s' = bmUsed s" "bmWaits s' = bmWaits s" "bmHeard s' = bmHeard s"
    by (auto simp: s' storeResult_def Let_def)
  show ?thesis
  proof (rule bootInvI)
    fix h' q'
    show "brInflight (bmR s') h' = Some q' \<longleftrightarrow> bmLeads s' q' = Some h' \<or> bmDone s' q' = Some h'"
      using inv_inflight [OF inv, of h' q'] only [of q'] h by (cases "h' = h"; cases "q' = q") (simp_all add: r)
  next
    fix h' c
    show "brCache (bmR s') h' = Some c \<Longrightarrow> heardAll (bmHeard s') h' (rsIps c)"
      using inv_cache [OF inv, of h' c] d by (auto simp: s' storeResult_def Let_def decided_def split: if_splits)
  next
    fix h' x
    show "(h', x) \<in> bmGiven s' \<Longrightarrow> givenOk (bmHeard s') h' x"
      using inv_given [OF inv, of h' x] end_ok [OF d] by (auto simp: s')
  qed (use inv_leads [OF inv] inv_done [OF inv] inv_waits [OF inv] in \<open>auto simp: r split: if_splits\<close>)
qed

lemma boot_step: "bootInv s \<Longrightarrow> bootStep e s = Some s' \<Longrightarrow> bootInv s'"
proof (cases e)
  case (BWake h q rnd)
  assume inv: "bootInv s" and step: "bootStep e s = Some s'"
  have "decided (bmHeard s) h (brQuery (bmR s) q)"
    using step BWake inv_waits [OF inv, of h q] inv_leads [OF inv, of q h] by (auto split: if_splits)
  then show ?thesis
    using step BWake by (auto split: if_splits intro: boot_give [OF inv end_ok])
next
  case (BGiveUp h q)
  assume inv: "bootInv s" and step: "bootStep e s = Some s'"
  then show ?thesis
    using BGiveUp by (auto split: if_splits intro!: boot_give simp: givenOk_def)
qed (auto intro: boot_resolve boot_publish boot_store simp del: bootStep.simps)

interpretation boot: machine bootStart bootStep bootInv
  by unfold_locales (simp add: bootStart_def newBootstrapResolver_def bootInv_def, rule boot_step)

text \<open>C37: However the callers, the responses and the clock interleave, no caller panics on an empty list of addresses; an
  address given for a host is one the upstream gave in its answers for that host; at most one caller at a time asks for a host;
  and every caller that waits is waiting for a query that is being asked or has its result.\<close>

theorem bootstrap_shares:
  assumes "bootStart s0" and "run bootStep es s0 = Some s"
  shows "(\<forall>(h, r) \<in> bmGiven s. case r of Inl e \<Rightarrow> e \<noteq> Panic | Inr a \<Rightarrow> (h, a) \<in> bmHeard s) \<and>
    (\<forall>h q q'. bmLeads s q = Some h \<longrightarrow> bmLeads s q' = Some h \<longrightarrow> q = q') \<and>
    (\<forall>(h, q) \<in> bmWaits s. bmLeads s q = Some h \<or> iqDone (brQuery (bmR s) q))"
proof -
  have inv: "bootInv s"
    by (rule boot.run_inv [OF assms(2,1)])
  have "\<forall>(h, r) \<in> bmGiven s. case r of Inl e \<Rightarrow> e \<noteq> Panic | Inr a \<Rightarrow> (h, a) \<in> bmHeard s"
    using inv_given [OF inv] by (auto simp: givenOk_def)
  moreover have "\<forall>h q q'. bmLeads s q = Some h \<longrightarrow> bmLeads s q' = Some h \<longrightarrow> q = q'"
    using inv_inflight [OF inv] by (metis option.inject)
  moreover have "\<forall>(h, q) \<in> bmWaits s. bmLeads s q = Some h \<or> iqDone (brQuery (bmR s) q)"
    using inv_waits [OF inv] by (auto simp: decided_def)
  ultimately show ?thesis by blast
qed

definition "bootResp = NewMsg\<lparr>Answers := [A_rr \<lparr>hName = emptyName, hType = TypeA, hClass = ClassINET, hTTL = 60, hLength = 4\<rparr> [9, 9, 9, 9]]\<rparr>"

definition "bootEvents = [BResolve 0 [100] 2 5, BResolve 0 [100] 3 5, BPublish 2 (Inr bootResp) (Inl ''time-out''), BWake [100] 2 7, BStore 0 2 5,
  BResolve 59 [100] 4 9]"

theorem bootstrap_shares_witness:
  "\<exists>s0 s. bootStart s0 \<and> run bootStep bootEvents s0 = Some s \<and> ([100], Inr (Addr4 [9, 9, 9, 9])) \<in> bmGiven s \<and>
    ([100], Addr4 [9, 9, 9, 9]) \<in> bmHeard s"
proof -
  obtain s0 where s0: "bootStart s0" by (auto simp: bootStart_def)
  have q: "queryUpstream (Inr bootResp) (Inl ''time-out'') = ([Addr4 [9, 9, 9, 9]], 60, None)"
    by (simp add: queryUpstream_def queryFn_def bootResp_def)
  have "\<exists>s. run bootStep bootEvents s0 = Some s \<and> ([100], Inr (Addr4 [9, 9, 9, 9])) \<in> bmGiven s"
    using s0 by (simp add: bootEvents_def bootStart_def newBootstrapResolver_def resolveBegin_def q publish_def resolveEnd_def storeResult_def pickIp_def Let_def)
  then obtain s where s: "run bootStep bootEvents s0 = Some s" "([100], Inr (Addr4 [9, 9, 9, 9])) \<in> bmGiven s"
    by (elim exE conjE) (rule that)
  from bootstrap_shares [OF s0 s(1)] s(2) have "([100], Addr4 [9, 9, 9, 9]) \<in> bmHeard s"
    by fastforce
  with s0 s show ?thesis by blast
qed

text \<open>A result stays in the cache no longer than the shortest time to live of the addresses in it, or 30 seconds.\<close>

lemma cached_no_longer:
  assumes "resp4 = Inr m \<or> resp6 = Inr m" and "rr \<in> set (Answers m)" "answerAddr rr \<noteq> None"
    and "brCache (storeResult now h q (publish h q (queryUpstream resp4 resp6) r)) h = Some c"
  shows "rsExpireAt c \<le> now + max 30 (uint (hTTL (Hdr rr)))"
proof -
  obtain ips ttl err where res: "queryUpstream resp4 resp6 = (ips, ttl, err)" by (rule prod_cases3)
  have ttl: "ttl \<le> uint (hTTL (Hdr rr))"
    by (rule queryUpstream_ttl [OF res assms(1,2,3)])
  have "set ips \<noteq> {}"
    using queryUpstream_sound(1) [OF res] assms(1-3) by (auto simp: addrsIn_def)
  then have "ips \<noteq> []" "err = None"
    using queryUpstream_sound(2) [OF res] by auto
  then show ?thesis
    using assms(4) ttl by (auto simp: res publish_def storeResult_def Let_def)
qed

text \<open>The port of the address is kept.\<close>

lemma resolved_port:
  assumes "resolveDialAddr env str resolve addr = Inr a" and "splitHostPort addr = Some (host, port)" and "port \<noteq> []"
    and "parseAddr env host = None" and "resolve host = Inr ip" and "set (str ip) \<inter> {91, 93} = {}" and "set port \<inter> {58, 91, 93} = {}"
  shows "splitHostPort a = Some (str ip, port)"
  using assms(1-5) split_join_host_port [OF assms(6,7)] by (auto simp: resolveDialAddr_def)

end
