(* ===== verification/RouterRun.thy ===== *)
theory RouterRun
  imports Upstream LoadBalancer
begin

text \<open>
  Starting and closing the router (\<^verbatim>\<open>Run\<close>, \<^verbatim>\<open>Close\<close> and \<^verbatim>\<open>closeImpl\<close> in \<^verbatim>\<open>app/router/router.go\<close>, \<^verbatim>\<open>startServer\<close> in
  \<^verbatim>\<open>sever.go\<close>, \<^verbatim>\<open>initCache\<close> in \<^verbatim>\<open>cache.go\<close>): which listeners, caches, upstreams and middlewares are open when a step fails
  and what is closed. A server that was started runs in a goroutine of its own; when it ends with an error it closes the
  router, which may happen while \<^verbatim>\<open>Run\<close> is still going.
\<close>

section \<open>The state of the router\<close>

text \<open>
  An upstream is a transport with the connections in its pool; one over QUIC has besides a \<^verbatim>\<open>quic.Transport\<close> and the UDP
  socket that it was made with. An upstream over HTTP has no connections but those of its HTTP client, over HTTP/3 a
  \<^verbatim>\<open>quic.Transport\<close> and its socket.
\<close>

datatype resource = RApi | RServer nat | RMiddleware nat | RUpstream string | RHttpConns string | RQuicTransport string
  | RQuicSocket string | RMemCache | RRedis

text \<open>
  The last four components are not in the code: what has been opened and not closed yet, whether a server has been
  started, how many points in \<^verbatim>\<open>Run\<close> at which a server may end have been passed, and what closing the router has closed.
\<close>

record runState =
  roClosers :: "resource list"
  roMws :: "(nat \<times> bool) list"
  roUps :: "string \<rightharpoonup> upWrapper"
  roLbs :: "string \<rightharpoonup> LoadBalancer"
  roCache :: "resource set option"
  roClosed :: bool
  roOpen :: "resource set"
  roLive :: bool
  roStep :: nat
  roGone :: "resource set"

definition newRouter :: runState where
  "newRouter = \<lparr>roClosers = [], roMws = [], roUps = Map.empty, roLbs = Map.empty, roCache = None, roClosed = False, roOpen = {},
     roLive = False, roStep = 0, roGone = {}\<rparr>"

text \<open>
  The calls of other code, as for upstreams; whether closing a \<^verbatim>\<open>quic.Transport\<close> closes the socket it was given; and at which
  points of \<^verbatim>\<open>Run\<close> a server ends.
\<close>

record runEnv =
  reUp :: upEnv
  reCtl :: bool
  reTrCloses :: bool
  reEnds :: "nat \<Rightarrow> bool"

text \<open>What a step of \<^verbatim>\<open>Run\<close> leads to: whether it succeeded, and the router.\<close>

type_synonym stage = "runState \<Rightarrow> bool \<times> runState"

definition thenS :: "stage \<Rightarrow> stage \<Rightarrow> stage" where
  "thenS f g r = (case f r of (ok, r) \<Rightarrow> if ok then g r else (False, r))"

section \<open>Closing\<close>

text \<open>What \<^verbatim>\<open>NewUpstream\<close> opens for a transport, and what its \<^verbatim>\<open>Close\<close> closes. A \<^verbatim>\<open>DoHTransport\<close> closes its
  \<^verbatim>\<open>Closer\<close>, which is the \<^verbatim>\<open>quic.Transport\<close> or nil.\<close>

fun upOpens :: "string \<Rightarrow> transport \<Rightarrow> resource set" where
  "upOpens t (DohT h3 _ _) = (if h3 then {RQuicTransport t, RQuicSocket t} else {RHttpConns t})"
| "upOpens t (QuicT _ _ _) = {RUpstream t, RQuicTransport t, RQuicSocket t}"
| "upOpens t _ = {RUpstream t}"

fun upCloses :: "bool \<Rightarrow> string \<Rightarrow> transport \<Rightarrow> resource set" where
  "upCloses tc t (DohT h3 _ _) = (if h3 then {RQuicTransport t} \<union> (if tc then {RQuicSocket t} else {}) else {})"
| "upCloses tc t _ = {RUpstream t}"

text \<open>What closing the router reaches.\<close>

definition closes :: "runEnv \<Rightarrow> runState \<Rightarrow> resource set" where
  "closes e r = set (roClosers r) \<union> RMiddleware ` {i. (i, True) \<in> set (roMws r)} \<union>
     (\<Union>t \<in> dom (roUps r). upCloses (reTrCloses e) t (uwTransport (the (roUps r t)))) \<union>
     (case roCache r of None \<Rightarrow> {} | Some c \<Rightarrow> c)"

definition closeRouter :: "runEnv \<Rightarrow> runState \<Rightarrow> runState" where
  "closeRouter e r =
    (if roClosed r then r
     else r\<lparr>roClosed := True, roOpen := roOpen r - closes e r, roGone := closes e r\<rparr>)"

text \<open>A point of \<^verbatim>\<open>Run\<close>: if a server ends here, it closes the router.\<close>

definition tick :: "runEnv \<Rightarrow> runState \<Rightarrow> runState" where
  "tick e r = (let r' = r\<lparr>roStep := Suc (roStep r)\<rparr> in if roLive r \<and> reEnds e (roStep r) then closeRouter e r' else r')"

definition opens :: "resource set \<Rightarrow> runState \<Rightarrow> runState" where
  "opens X r = r\<lparr>roOpen := roOpen r \<union> X\<rparr>"

section \<open>The steps\<close>

datatype starter = StartUdp | StartTcp bool | StartHttp bool | StartFastHttp | StartHttp3 | StartQuic

definition serverStarter :: "string \<Rightarrow> starter option" where
  "serverStarter p =
    (if p = [] \<or> p = ''udp'' then Some StartUdp
     else if p = ''tcp'' then Some (StartTcp False)
     else if p = ''tls'' then Some (StartTcp True)
     else if p = ''http'' then Some (StartHttp False)
     else if p = ''fasthttp'' then Some StartFastHttp
     else if p = ''https'' then Some (StartHttp True)
     else if p = ''http3'' then Some StartHttp3
     else if p = ''quic'' then Some StartQuic
     else None)"

text \<open>
  The configuration as far as it decides about these steps: whether the metrics of the router can be registered and the
  listener of the API (if there is one) opened; \<open>rcData\<close> tells for the subnet zones, the domain sets, the address sets, the
  hosts and the rules, in this order, whether they can be loaded. For a middleware it is whether it can be made and whether it
  is an \<^verbatim>\<open>io.Closer\<close>, for a server its protocol and whether the server of its kind starts.
\<close>

record cacheRun =
  ckMem :: bool
  ckMemOk :: bool
  ckMemMetrics :: bool
  ckRedis :: bool
  ckRedisOk :: bool
  ckRedisMetrics :: bool

record runCfg =
  rcMetrics :: bool
  rcApi :: "bool option"
  rcUpstreams :: "upCfg list"
  rcLbs :: "LoadBalancerConfig list"
  rcData :: "bool list"
  rcCache :: cacheRun
  rcMiddlewares :: "(bool \<times> bool) list"
  rcServers :: "(string \<times> (starter \<Rightarrow> bool)) list"

definition startApi :: "runEnv \<Rightarrow> bool option \<Rightarrow> stage" where
  "startApi e api r = (case api of
     None \<Rightarrow> (True, r)
   | Some False \<Rightarrow> (False, r)
   | Some True \<Rightarrow> (True, tick e ((opens {RApi} r)\<lparr>roClosers := roClosers r @ [RApi], roLive := True\<rparr>)))"

text \<open>The transport of an upstream, once its options are known to be right, and whether it is one of HTTP/3.\<close>

definition upMade :: "runEnv \<Rightarrow> upCfg \<Rightarrow> (upErr, transport) res option" where
  "upMade e cfg = map_option (\<lambda>name. newUpstream (reUp e) (ucAddr cfg) \<lparr>oDialAddr = ucDialAddr cfg, oDialTimeout = 0,
     oIdleTimeout = (if reCtl e then 60 else 0), oPipeline = False, oHttp3 = False, oTls = Some name\<rparr>) (ucTls cfg)"

definition h3Url :: "runEnv \<Rightarrow> upCfg \<Rightarrow> bool" where
  "h3Url e cfg = (case parseURL (reUp e) (withScheme (ucAddr cfg)) of Some (scheme, _) \<Rightarrow> scheme = ascii ''h3'' | None \<Rightarrow> False)"

text \<open>
  What is left of an upstream that could not be set up: one whose metrics cannot be registered has been made, but is not
  among the upstreams. If the request of an endpoint over HTTP/3 cannot be made, the \<^verbatim>\<open>quic.Transport\<close> is closed.
\<close>

definition upFailed :: "runEnv \<Rightarrow> upCfg \<Rightarrow> initUpErr fail \<Rightarrow> resource set" where
  "upFailed e cfg err = (case err of
     Err ErrMetrics \<Rightarrow> (case upMade e cfg of Some (Inr u) \<Rightarrow> upOpens (ucTag cfg) u | _ \<Rightarrow> {})
   | Err (ErrNew ErrDoh) \<Rightarrow> if h3Url e cfg \<and> \<not> reTrCloses e then {RQuicSocket (ucTag cfg)} else {}
   | _ \<Rightarrow> {})"

fun runUpstreams :: "runEnv \<Rightarrow> upCfg list \<Rightarrow> stage" where
  "runUpstreams e [] r = (True, r)"
| "runUpstreams e (cfg # cfgs) r = (case initUpstream (reUp e) (reCtl e) cfg (roUps r) of
     Inl err \<Rightarrow> (False, opens (upFailed e cfg err) r)
   | Inr ups \<Rightarrow>
     let r = tick e (opens (upOpens (ucTag cfg) (uwTransport (the (ups (ucTag cfg))))) r) in
     runUpstreams e cfgs (tick e (r\<lparr>roUps := ups\<rparr>)))"

fun runLbs :: "LoadBalancerConfig list \<Rightarrow> stage" where
  "runLbs [] r = (True, r)"
| "runLbs (cfg # cfgs) r = (case initLoadBalancer (dom (roUps r)) (\<lambda>_. False) cfg of
     Inl _ \<Rightarrow> (False, r)
   | Inr lb \<Rightarrow> runLbs cfgs (r\<lparr>roLbs := (roLbs r)(lcTag cfg \<mapsto> lb)\<rparr>))"

definition runCache :: "runEnv \<Rightarrow> cacheRun \<Rightarrow> stage" where
  "runCache e c r =
    (if ckMem c \<and> (\<not> ckMemOk c \<or> \<not> ckMemMetrics c) then (False, r)
     else let mem = (if ckMem c then {RMemCache} else {}); r = tick e (opens mem r) in
     if ckRedis c \<and> \<not> ckRedisOk c then (False, r)
     else if ckRedis c \<and> \<not> ckRedisMetrics c then (False, r\<lparr>roOpen := roOpen r - mem\<rparr>)
     else let rd = (if ckRedis c then {RRedis} else {}); r = tick e (opens rd r) in
     (True, tick e (r\<lparr>roCache := Some (mem \<union> rd)\<rparr>)))"

text \<open>The middlewares are kept in the router only when all of them have been made.\<close>

fun runMiddlewares :: "runEnv \<Rightarrow> (bool \<times> bool) list \<Rightarrow> nat \<Rightarrow> (nat \<times> bool) list \<Rightarrow> stage" where
  "runMiddlewares e [] i ms r = (True, tick e (r\<lparr>roMws := ms\<rparr>))"
| "runMiddlewares e ((ok, closer) # cfgs) i ms r =
    (if \<not> ok then (False, r)
     else runMiddlewares e cfgs (i + 1) (ms @ [(i, closer)]) (tick e (opens (if closer then {RMiddleware i} else {}) r)))"

fun runServers :: "runEnv \<Rightarrow> (string \<times> (starter \<Rightarrow> bool)) list \<Rightarrow> nat \<Rightarrow> stage" where
  "runServers e [] i r = (True, r)"
| "runServers e ((protocol, starts) # cfgs) i r = (case serverStarter protocol of
     None \<Rightarrow> (False, r)
   | Some st \<Rightarrow>
     if \<not> starts st then (False, r)
     else let r = tick e ((opens {RServer i} r)\<lparr>roLive := True\<rparr>) in
     runServers e cfgs (i + 1) (tick e (r\<lparr>roClosers := roClosers r @ [RServer i]\<rparr>)))"

section \<open>Running\<close>

definition runStages :: "runEnv \<Rightarrow> runCfg \<Rightarrow> stage" where
  "runStages e cfg =
    thenS (\<lambda>r. (rcMetrics cfg, r))
    (thenS (startApi e (rcApi cfg))
    (thenS (runUpstreams e (rcUpstreams cfg))
    (thenS (runLbs (rcLbs cfg))
    (thenS (\<lambda>r. (list_all id (rcData cfg), r))
    (thenS (runCache e (rcCache cfg))
    (thenS (runMiddlewares e (rcMiddlewares cfg) 0 [])
      (runServers e (rcServers cfg) 0)))))))"

definition runRouter :: "runEnv \<Rightarrow> runCfg \<Rightarrow> bool \<times> runState" where
  "runRouter e cfg = (case runStages e cfg newRouter of (ok, r) \<Rightarrow> if ok then (True, r) else (False, closeRouter e r))"

section \<open>What is left open\<close>

text \<open>
  What closing the router does not reach: of an upstream that was set up, what its transport does not close; an upstream whose
  metrics could not be registered, and the socket of one over HTTP/3 that could not be made; the middlewares before one that
  could not be made; and the cache in memory if the one in redis could not be made.
\<close>

definition upLeaks :: "runEnv \<Rightarrow> upCfg \<Rightarrow> resource set" where
  "upLeaks e c = upFailed e c (Err (ErrNew ErrDoh)) \<union> (case upMade e c of
     Some (Inr u) \<Rightarrow> if ucMetrics c then upOpens (ucTag c) u - upCloses (reTrCloses e) (ucTag c) u else upOpens (ucTag c) u
   | _ \<Rightarrow> {})"

definition runLeaks :: "runEnv \<Rightarrow> runCfg \<Rightarrow> resource set" where
  "runLeaks e cfg = (\<Union>c \<in> set (rcUpstreams cfg). upLeaks e c) \<union>
    (if list_all fst (rcMiddlewares cfg) then {} else RMiddleware ` {i. i < length (rcMiddlewares cfg) \<and> snd (rcMiddlewares cfg ! i)}) \<union>
    (if ckMem (rcCache cfg) \<and> ckRedis (rcCache cfg) \<and> \<not> ckRedisOk (rcCache cfg) then {RMemCache} else {})"

text \<open>
  Before the router is closed, all that is open is reached by closing, is a leak or is about to be kept (\<open>P\<close>). Afterwards
  nothing is open again that was closed; for this, \<open>K\<close> bounds what could have been closed.
\<close>

definition inv :: "runEnv \<Rightarrow> resource set \<Rightarrow> resource set \<Rightarrow> resource set \<Rightarrow> runState \<Rightarrow> bool" where
  "inv e L K P r \<longleftrightarrow> closes e r \<subseteq> K \<and>
    (if roClosed r then roGone r \<subseteq> K \<and> roGone r \<inter> roOpen r = {} else roGone r = {} \<and> roOpen r \<subseteq> closes e r \<union> L \<union> P)"

lemma closes_simps [simp]: "closes e (r\<lparr>roStep := n\<rparr>) = closes e r" "closes e (r\<lparr>roOpen := x\<rparr>) = closes e r"
    "closes e (r\<lparr>roLive := b\<rparr>) = closes e r" "closes e (opens X r) = closes e r" "closes e (r\<lparr>roLbs := l\<rparr>) = closes e r"
    "closes e (r\<lparr>roClosers := cs\<rparr>\<lparr>roLive := b\<rparr>) = closes e (r\<lparr>roClosers := cs\<rparr>)"
  by (simp_all add: closes_def opens_def)

lemma closeRouter_simps [simp]: "closes e (closeRouter e r) = closes e r" "roUps (closeRouter e r) = roUps r"
    "roMws (closeRouter e r) = roMws r" "roCache (closeRouter e r) = roCache r" "roClosers (closeRouter e r) = roClosers r"
    "roClosed (closeRouter e r)"
  by (simp_all add: closeRouter_def closes_def)

lemma tick_simps [simp]: "closes e (tick e r) = closes e r" "roUps (tick e r) = roUps r" "roMws (tick e r) = roMws r"
    "roCache (tick e r) = roCache r" "roClosers (tick e r) = roClosers r"
  by (simp_all add: tick_def Let_def)

lemma opens_simps [simp]: "roUps (opens X r) = roUps r" "roMws (opens X r) = roMws r" "roCache (opens X r) = roCache r"
    "roClosers (opens X r) = roClosers r" "roClosed (opens X r) = roClosed r" "roGone (opens X r) = roGone r"
    "roOpen (opens X r) = roOpen r \<union> X"
  by (simp_all add: opens_def)

lemma tick_open: "\<not> roClosed (tick e r) \<Longrightarrow> \<not> roClosed r \<and> roOpen (tick e r) = roOpen r"
  by (auto simp: tick_def Let_def split: if_splits)

lemma inv_close: "inv e L K P r \<Longrightarrow> inv e L K P (closeRouter e r)"
  by (auto simp: inv_def closeRouter_def closes_def)

lemma inv_tick: "inv e L K P r \<Longrightarrow> inv e L K P (tick e r)"
proof -
  assume r: "inv e L K P r"
  then have "inv e L K P (r\<lparr>roStep := n\<rparr>)" for n by (simp add: inv_def)
  from this inv_close [OF this] show ?thesis by (simp add: tick_def Let_def)
qed

lemma inv_opens: "inv e L K P r \<Longrightarrow> X \<inter> K = {} \<Longrightarrow> inv e L K (P \<union> X) (opens X r)"
  by (auto simp: inv_def split: if_splits)

text \<open>What was about to be kept is now kept, or a leak.\<close>

lemma inv_keep:
  assumes "inv e L K P r" "roOpen r' = roOpen r" "roGone r' = roGone r" "roClosed r' = roClosed r"
    and "closes e r \<subseteq> closes e r'" "closes e r' \<subseteq> K'" "K \<subseteq> K'" "P \<subseteq> closes e r' \<union> L \<union> P'"
  shows "inv e L K' P' r'"
  using assms unfolding inv_def by (auto split: if_splits)

lemma inv_weaken: "inv e L K P r \<Longrightarrow> K \<subseteq> K' \<Longrightarrow> P \<subseteq> L \<union> P' \<Longrightarrow> inv e L K' P' r"
  by (rule inv_keep [of e L K P r r]) (auto simp: inv_def)

section \<open>The steps keep the invariant\<close>

text \<open>A step that starts where \<open>P\<close> holds keeps the invariant, and \<open>Q\<close> holds where it succeeds.\<close>

definition staged :: "(runState \<Rightarrow> bool) \<Rightarrow> (runState \<Rightarrow> bool) \<Rightarrow> stage \<Rightarrow> (runState \<Rightarrow> bool) \<Rightarrow> bool" where
  "staged I P f Q \<longleftrightarrow> (\<forall>r. P r \<longrightarrow> I (snd (f r)) \<and> (fst (f r) \<longrightarrow> Q (snd (f r))))"

lemma stagedI: "(\<And>r. P r \<Longrightarrow> I (snd (f r)) \<and> (fst (f r) \<longrightarrow> Q (snd (f r)))) \<Longrightarrow> staged I P f Q"
  by (simp add: staged_def)

lemma staged_then: "staged I P f Q \<Longrightarrow> staged I Q g R \<Longrightarrow> staged I P (thenS f g) R"
  by (fastforce simp: staged_def thenS_def split: prod.splits)

text \<open>What can have been closed before each step.\<close>

definition upRes :: "string \<Rightarrow> resource set" where
  "upRes t = {RUpstream t, RHttpConns t, RQuicTransport t, RQuicSocket t}"

definition kUps :: "string set \<Rightarrow> resource set" where
  "kUps D = {RApi} \<union> (\<Union>t \<in> D. upRes t)"

definition kServers :: "nat \<Rightarrow> resource set" where
  "kServers i = kUps UNIV \<union> {RMemCache, RRedis} \<union> range RMiddleware \<union> RServer ` {..<i}"

abbreviation "fresh r \<equiv> roMws r = [] \<and> roCache r = None"

lemma upOpens_res: "upOpens t u \<subseteq> upRes t" "upCloses tc t u \<subseteq> upOpens t u"
  by (cases u; simp add: upRes_def)+

lemma kUps_simps: "t \<notin> D \<Longrightarrow> X \<subseteq> upRes t \<Longrightarrow> X \<inter> kUps D = {}" "kUps (insert t D) = upRes t \<union> kUps D"
  by (auto simp: kUps_def upRes_def)

lemma staged_check: "(\<And>r. P r \<Longrightarrow> I r) \<Longrightarrow> staged I P (\<lambda>r. (b, r)) P"
  by (simp add: staged_def)

lemma startApi_inv: "staged (inv e L (kServers n) {}) (\<lambda>r. r = newRouter) (startApi e api) (\<lambda>r. inv e L (kUps (dom (roUps r))) {} r \<and> fresh r)"
proof (rule stagedI)
  fix r assume r: "r = newRouter"
  have n: "inv e L {} {} newRouter" by (simp add: inv_def newRouter_def closes_def)
  have k: "{} \<subseteq> kServers n" "{} \<subseteq> kUps D" "kUps D \<subseteq> kServers n" for D by (auto simp: kServers_def kUps_def)
  let ?r = "(opens {RApi} newRouter)\<lparr>roClosers := roClosers newRouter @ [RApi], roLive := True\<rparr>"
  have "inv e L {} ({} \<union> {RApi}) (opens {RApi} newRouter)" by (rule inv_opens [OF n]) simp
  then have "inv e L (kUps {}) {} ?r"
    by (rule inv_keep) (auto simp: closes_def newRouter_def kUps_def opens_def)
  from inv_tick [OF this] have t: "inv e L (kUps {}) {} (tick e ?r)" .
  have d: "dom (roUps newRouter) = {}" "fresh newRouter" by (simp_all add: newRouter_def)
  show "inv e L (kServers n) {} (snd (startApi e api r)) \<and>
      (fst (startApi e api r) \<longrightarrow> inv e L (kUps (dom (roUps (snd (startApi e api r))))) {} (snd (startApi e api r)) \<and> fresh (snd (startApi e api r)))"
    using r t n d inv_weaken [OF n k(1)] inv_weaken [OF n k(2)] inv_weaken [OF t k(3)]
    by (auto simp: startApi_def split: option.split bool.split)
qed

lemma initUpstream_failed:
  assumes "initUpstream (reUp e) (reCtl e) cfg ups = Inl err"
  shows "upFailed e cfg err \<subseteq> upLeaks e cfg \<and> (upFailed e cfg err \<noteq> {} \<longrightarrow> ups (ucTag cfg) = None)"
proof (cases "err = Err ErrMetrics \<or> err = Err (ErrNew ErrDoh)")
  case True
  then have "ups (ucTag cfg) = None \<and> (err = Err ErrMetrics \<longrightarrow> \<not> ucMetrics cfg)"
    using assms by (auto simp: initUpstream_def bootstrapError_def split: if_splits option.splits sum.splits fail.splits)
  with True show ?thesis by (auto simp: upLeaks_def upFailed_def split: option.splits sum.splits)
next
  case False
  then have "upFailed e cfg err = {}" by (auto simp: upFailed_def split: fail.splits initUpErr.splits upErr.splits)
  then show ?thesis by simp
qed

lemma initUpstream_made:
  assumes "initUpstream (reUp e) (reCtl e) cfg ups = Inr ups'"
  shows "\<exists>w. ups (ucTag cfg) = None \<and> ups' = ups(ucTag cfg \<mapsto> w) \<and> upMade e cfg = Some (Inr (uwTransport w)) \<and> ucMetrics cfg"
  using assms by (auto simp: initUpstream_def upMade_def split: if_splits option.splits sum.splits fail.splits)

lemma failed_res: "upFailed e cfg err \<subseteq> upRes (ucTag cfg)"
  using upOpens_res(1) [of "ucTag cfg"] by (auto simp: upFailed_def upRes_def split: fail.splits initUpErr.splits upErr.splits option.splits sum.splits)

lemma runUpstreams_inv:
  assumes "inv e L (kUps (dom (roUps r))) {} r" "fresh r" "(\<Union>c \<in> set cfgs. upLeaks e c) \<subseteq> L"
  shows "(\<exists>D. inv e L (kUps D) {} (snd (runUpstreams e cfgs r))) \<and> fresh (snd (runUpstreams e cfgs r)) \<and>
    (fst (runUpstreams e cfgs r) \<longrightarrow> inv e L (kUps (dom (roUps (snd (runUpstreams e cfgs r))))) {} (snd (runUpstreams e cfgs r)))"
  using assms
proof (induction cfgs arbitrary: r)
  case (Cons cfg cfgs)
  let ?D = "dom (roUps r)"
  show ?case
  proof (cases "initUpstream (reUp e) (reCtl e) cfg (roUps r)")
    case (Inl err)
    let ?X = "upFailed e cfg err"
    have "?X \<inter> kUps ?D = {}"
      using initUpstream_failed [OF Inl] kUps_simps(1) [OF _ failed_res, of cfg ?D e err] by (cases "?X = {}") auto
    from inv_opens [OF Cons.prems(1) this] have "inv e L (kUps ?D) ({} \<union> ?X) (opens ?X r)" .
    then have "inv e L (kUps ?D) {} (opens ?X r)"
      by (rule inv_weaken) (use initUpstream_failed [OF Inl] Cons.prems(3) in auto)
    then show ?thesis using Inl Cons.prems(2) by auto
  next
    case (Inr ups)
    obtain w where w: "roUps r (ucTag cfg) = None" "ups = (roUps r)(ucTag cfg \<mapsto> w)" "upMade e cfg = Some (Inr (uwTransport w))" "ucMetrics cfg"
      using initUpstream_made [OF Inr] by blast
    let ?t = "ucTag cfg" and ?X = "upOpens (ucTag cfg) (uwTransport w)"
    let ?r1 = "tick e (opens ?X r)"
    let ?r2 = "?r1\<lparr>roUps := ups\<rparr>"
    have "?X \<inter> kUps ?D = {}" by (rule kUps_simps(1) [of ?t]) (use w upOpens_res in auto)
    from inv_tick [OF inv_opens [OF Cons.prems(1) this]] have 1: "inv e L (kUps ?D) ({} \<union> ?X) ?r1" .
    have c: "closes e ?r2 = closes e r \<union> upCloses (reTrCloses e) ?t (uwTransport w)"
    proof -
      have "closes e ?r1 = closes e r" by simp
      moreover have "(\<Union>t \<in> dom ups. upCloses (reTrCloses e) t (uwTransport (the (ups t)))) =
          (\<Union>t \<in> ?D. upCloses (reTrCloses e) t (uwTransport (the (roUps r t)))) \<union> upCloses (reTrCloses e) ?t (uwTransport w)"
      proof -
        have "dom ups = insert ?t ?D" using w(2) by auto
        moreover have "ups t = roUps r t" if "t \<in> ?D" for t using that w(1,2) by auto
        ultimately show ?thesis using w(2) by auto
      qed
      ultimately show ?thesis by (auto simp: closes_def)
    qed
    have "?X - upCloses (reTrCloses e) ?t (uwTransport w) \<subseteq> L"
      using Cons.prems(3) w(3,4) by (auto simp: upLeaks_def)
    moreover have "upCloses (reTrCloses e) ?t (uwTransport w) \<subseteq> upRes ?t" using upOpens_res by blast
    moreover have "closes e r \<subseteq> kUps ?D" using Cons.prems(1) by (simp add: inv_def)
    ultimately have "inv e L (kUps (insert ?t ?D)) {} ?r2"
      using c by (intro inv_keep [OF 1]) (auto simp: kUps_simps(2))
    moreover have "dom ups = insert ?t ?D" using w(2) by auto
    ultimately have "inv e L (kUps (dom (roUps (tick e ?r2)))) {} (tick e ?r2)" using inv_tick by simp
    moreover have "fresh (tick e ?r2)" using Cons.prems(2) by simp
    moreover have "(\<Union>c \<in> set cfgs. upLeaks e c) \<subseteq> L" using Cons.prems(3) by simp
    ultimately have "(\<exists>D. inv e L (kUps D) {} (snd (runUpstreams e cfgs (tick e ?r2)))) \<and> fresh (snd (runUpstreams e cfgs (tick e ?r2))) \<and>
      (fst (runUpstreams e cfgs (tick e ?r2)) \<longrightarrow> inv e L (kUps (dom (roUps (snd (runUpstreams e cfgs (tick e ?r2)))))) {} (snd (runUpstreams e cfgs (tick e ?r2))))"
      by (rule Cons.IH)
    moreover have "runUpstreams e (cfg # cfgs) r = runUpstreams e cfgs (tick e ?r2)" using Inr w(2) by (simp add: Let_def)
    ultimately show ?thesis by simp
  qed
qed auto

lemma runLbs_inv: "inv e L K P (snd (runLbs cfgs r)) = inv e L K P r \<and> fresh (snd (runLbs cfgs r)) = fresh r"
proof -
  have "inv e L K P (r\<lparr>roLbs := l\<rparr>) = inv e L K P r" for l r by (simp add: inv_def)
  then show ?thesis by (induction cfgs arbitrary: r) (simp_all split: sum.splits)
qed

lemma runCache_inv:
  assumes "inv e L (kUps UNIV) {} r" "fresh r" "ckMem c \<and> ckRedis c \<and> \<not> ckRedisOk c \<Longrightarrow> RMemCache \<in> L"
  shows "inv e L (kUps UNIV \<union> {RMemCache, RRedis}) {} (snd (runCache e c r)) \<and> roMws (snd (runCache e c r)) = []"
proof -
  let ?K = "kUps UNIV" and ?mem = "if ckMem c then {RMemCache} else {}" and ?rd = "if ckRedis c then {RRedis} else {}"
  let ?r1 = "tick e (opens ?mem r)" and ?r2 = "tick e (opens ?rd (tick e (opens ?mem r)))"
  have "?mem \<inter> ?K = {}" "?rd \<inter> ?K = {}" by (auto simp: kUps_def upRes_def)
  then have 1: "inv e L ?K ({} \<union> ?mem) ?r1" and 2: "inv e L ?K ({} \<union> ?mem \<union> ?rd) ?r2"
    using assms(1) by (intro inv_tick inv_opens; simp)+
  have m: "fresh ?r1" "fresh ?r2" using assms(2) by simp_all
  have 3: "inv e L (?K \<union> {RMemCache, RRedis}) {} (tick e (?r2\<lparr>roCache := Some (?mem \<union> ?rd)\<rparr>))"
  proof (rule inv_tick, rule inv_keep [OF 2])
    have "closes e ?r2 \<subseteq> ?K" using 2 by (simp add: inv_def)
    moreover have c: "closes e (?r2\<lparr>roCache := Some (?mem \<union> ?rd)\<rparr>) = closes e ?r2 \<union> ?mem \<union> ?rd"
      using m(2) by (auto simp: closes_def)
    ultimately show "closes e (?r2\<lparr>roCache := Some (?mem \<union> ?rd)\<rparr>) \<subseteq> ?K \<union> {RMemCache, RRedis}" by auto
    show "closes e ?r2 \<subseteq> closes e (?r2\<lparr>roCache := Some (?mem \<union> ?rd)\<rparr>)"
      "{} \<union> ?mem \<union> ?rd \<subseteq> closes e (?r2\<lparr>roCache := Some (?mem \<union> ?rd)\<rparr>) \<union> L \<union> {}" unfolding c by auto
  qed (simp_all add: subset_insertI2)
  have 4: "inv e L ?K {} (?r1\<lparr>roOpen := roOpen ?r1 - ?mem\<rparr>)" using 1 by (auto simp: inv_def split: if_splits)
  have 5: "inv e L ?K {} ?r1" if "ckRedis c" "\<not> ckRedisOk c" using assms(3) that by (intro inv_weaken [OF 1]) auto
  have w: "inv e L ?K {} x \<Longrightarrow> inv e L (?K \<union> {RMemCache, RRedis}) {} x" for x by (erule inv_weaken) blast+
  show ?thesis using w [OF assms(1)] 3 w [OF 4] w [OF 5] assms(2) m by (auto simp: runCache_def Let_def)
qed

lemma runMiddlewares_inv:
  assumes "inv e L K (RMiddleware ` {j. (j, True) \<in> set ms}) r" "roMws r = []" "K \<inter> range RMiddleware = {}"
    and "\<not> list_all fst cfgs \<Longrightarrow> RMiddleware ` ({j. (j, True) \<in> set ms} \<union> {i + j |j. j < length cfgs \<and> snd (cfgs ! j)}) \<subseteq> L"
  shows "inv e L (K \<union> range RMiddleware) {} (snd (runMiddlewares e cfgs i ms r))"
  using assms
proof (induction cfgs arbitrary: i ms r)
  case Nil
  have "closes e (r\<lparr>roMws := ms\<rparr>) = closes e r \<union> RMiddleware ` {j. (j, True) \<in> set ms}" using Nil.prems(2) by (auto simp: closes_def)
  moreover have "closes e r \<subseteq> K" using Nil.prems(1) by (simp add: inv_def)
  ultimately show ?case by (auto intro!: inv_tick inv_keep [OF Nil.prems(1)])
next
  case (Cons c cfgs)
  obtain ok closer where c: "c = (ok, closer)" by fastforce
  show ?case
  proof (cases ok)
    case False
    then have "RMiddleware ` {j. (j, True) \<in> set ms} \<subseteq> L" using Cons.prems(4) by (auto simp: c)
    then show ?thesis using inv_weaken [OF Cons.prems(1)] False by (auto simp: c)
  next
    case True
    let ?X = "if closer then {RMiddleware i} else {}"
    let ?r = "tick e (opens ?X r)"
    have "?X \<inter> K = {}" using Cons.prems(3) by auto
    from inv_tick [OF inv_opens [OF Cons.prems(1) this]]
    have 1: "inv e L K (RMiddleware ` {j. (j, True) \<in> set (ms @ [(i, closer)])}) ?r" by (rule inv_weaken) auto
    have 2: "RMiddleware ` ({j. (j, True) \<in> set (ms @ [(i, closer)])} \<union> {i + 1 + j |j. j < length cfgs \<and> snd (cfgs ! j)}) \<subseteq> L"
      if "\<not> list_all fst cfgs"
    proof -
      have "{i + 1 + j |j. j < length cfgs \<and> snd (cfgs ! j)} \<subseteq> {i + j |j. j < length (c # cfgs) \<and> snd ((c # cfgs) ! j)}"
      proof
        fix x assume "x \<in> {i + 1 + j |j. j < length cfgs \<and> snd (cfgs ! j)}"
        then obtain j where "x = i + Suc j" "j < length cfgs" "snd (cfgs ! j)" by auto
        then show "x \<in> {i + j |j. j < length (c # cfgs) \<and> snd ((c # cfgs) ! j)}" by (intro CollectI exI [of _ "Suc j"]) simp
      qed
      moreover have "closer \<Longrightarrow> i \<in> {i + j |j. j < length (c # cfgs) \<and> snd ((c # cfgs) ! j)}"
        by (auto simp: c intro!: exI [of _ "0 :: nat"])
      ultimately have "{j. (j, True) \<in> set (ms @ [(i, closer)])} \<union> {i + 1 + j |j. j < length cfgs \<and> snd (cfgs ! j)}
          \<subseteq> {j. (j, True) \<in> set ms} \<union> {i + j |j. j < length (c # cfgs) \<and> snd ((c # cfgs) ! j)}" by auto
      moreover have "\<not> list_all fst (c # cfgs)" using that by simp
      ultimately show ?thesis using Cons.prems(4) by (meson image_mono order.trans)
    qed
    have "inv e L (K \<union> range RMiddleware) {} (snd (runMiddlewares e cfgs (i + 1) (ms @ [(i, closer)]) ?r))"
      by (rule Cons.IH [OF 1]) (use Cons.prems(2,3) 2 in auto)
    then show ?thesis by (simp add: c True)
  qed
qed

lemma runServers_inv:
  assumes "inv e L (kServers i) {} r"
  shows "inv e L (kServers (i + length cfgs)) {} (snd (runServers e cfgs i r)) \<and>
    (\<not> roClosed (snd (runServers e cfgs i r)) \<longrightarrow> \<not> roClosed r \<and>
      (fst (runServers e cfgs i r) \<longrightarrow> roOpen r \<union> RServer ` {i..<i + length cfgs} \<subseteq> roOpen (snd (runServers e cfgs i r))))"
  using assms
proof (induction cfgs arbitrary: i r)
  case (Cons c cfgs)
  obtain p starts where c: "c = (p, starts)" by fastforce
  let ?r1 = "tick e ((opens {RServer i} r)\<lparr>roLive := True\<rparr>)"
  let ?r2 = "?r1\<lparr>roClosers := roClosers r @ [RServer i]\<rparr>"
  have "{RServer i} \<inter> kServers i = {}" by (auto simp: kServers_def kUps_def upRes_def)
  from inv_opens [OF Cons.prems this] have "inv e L (kServers i) ({} \<union> {RServer i}) ((opens {RServer i} r)\<lparr>roLive := True\<rparr>)"
    by (rule inv_keep) (use Cons.prems in \<open>auto simp: inv_def\<close>)
  from inv_tick [OF this] have 1: "inv e L (kServers i) ({} \<union> {RServer i}) ?r1" .
  have cl: "closes e ?r2 = closes e r \<union> {RServer i}"
  proof -
    have "closes e ?r1 = closes e r" by simp
    then show ?thesis by (auto simp: closes_def)
  qed
  have mono: "kServers i \<subseteq> kServers j" if "i \<le> j" for i j using that by (auto simp: kServers_def)
  have "closes e r \<subseteq> kServers i" using Cons.prems by (simp add: inv_def)
  moreover have "RServer i \<in> kServers (Suc i)" by (simp add: kServers_def)
  ultimately have "inv e L (kServers (Suc i)) {} ?r2"
    using cl mono [of i "Suc i"] by (intro inv_keep [OF 1]) auto
  from Cons.IH [OF inv_tick [OF this]]
  have IH: "inv e L (kServers (Suc i + length cfgs)) {} (snd (runServers e cfgs (Suc i) (tick e ?r2)))"
    "\<not> roClosed (snd (runServers e cfgs (Suc i) (tick e ?r2))) \<longrightarrow> \<not> roClosed (tick e ?r2) \<and>
      (fst (runServers e cfgs (Suc i) (tick e ?r2)) \<longrightarrow>
        roOpen (tick e ?r2) \<union> RServer ` {Suc i..<Suc i + length cfgs} \<subseteq> roOpen (snd (runServers e cfgs (Suc i) (tick e ?r2))))"
    by blast+
  have o: "\<not> roClosed r \<and> roOpen (tick e ?r2) = roOpen r \<union> {RServer i}" if "\<not> roClosed (tick e ?r2)"
  proof -
    have 2: "\<not> roClosed ?r1" "roOpen (tick e ?r2) = roOpen ?r1" using tick_open [OF that] by simp_all
    from tick_open [OF 2(1)] 2(2) show ?thesis by simp
  qed
  have iv: "{i..<i + length (c # cfgs)} = insert i {Suc i..<Suc i + length cfgs}" by auto
  have stop: "inv e L (kServers (i + length (c # cfgs))) {} r" by (rule inv_weaken [OF Cons.prems mono]) simp_all
  show ?case
  proof (cases "serverStarter p")
    case None
    then show ?thesis using stop by (simp add: c)
  next
    case (Some st)
    have eq: "runServers e (c # cfgs) i r = (if starts st then runServers e cfgs (Suc i) (tick e ?r2) else (False, r))"
      using Some by (simp add: c Let_def)
    show ?thesis
    proof (cases "starts st")
      case True
      then have eq: "runServers e (c # cfgs) i r = runServers e cfgs (Suc i) (tick e ?r2)" using eq by simp
      show ?thesis unfolding eq iv using IH o by auto
    next
      case False
      then show ?thesis using eq stop by simp
    qed
  qed
qed simp

lemma runStages_inv:
  "inv e (runLeaks e cfg) (kServers (length (rcServers cfg))) {} (snd (runStages e cfg newRouter)) \<and>
    (fst (runStages e cfg newRouter) \<and> \<not> roClosed (snd (runStages e cfg newRouter)) \<longrightarrow>
      RServer ` {..<length (rcServers cfg)} \<subseteq> roOpen (snd (runStages e cfg newRouter)))"
proof -
  let ?L = "runLeaks e cfg" and ?n = "length (rcServers cfg)"
  let ?I = "inv e ?L (kServers ?n) {}" and ?K = "kUps UNIV \<union> {RMemCache, RRedis}"
  let ?U = "\<lambda>r. inv e ?L (kUps (dom (roUps r))) {} r \<and> fresh r"
  have k: "kUps D \<subseteq> kServers n" "?K \<subseteq> kServers n" "?K \<union> range RMiddleware = kServers 0" "kServers 0 \<subseteq> kServers n" "kUps D \<subseteq> kUps UNIV" for D n
    by (auto simp: kServers_def kUps_def)
  have w: "inv e ?L K {} r \<Longrightarrow> K \<subseteq> kServers ?n \<Longrightarrow> ?I r" for K r by (rule inv_weaken) auto
  have ups: "staged ?I ?U (runUpstreams e (rcUpstreams cfg)) ?U"
  proof (rule stagedI)
    fix r assume r: "?U r"
    have "(\<Union>c \<in> set (rcUpstreams cfg). upLeaks e c) \<subseteq> ?L" by (auto simp: runLeaks_def)
    from runUpstreams_inv [OF conjunct1 [OF r] conjunct2 [OF r] this] w k(1)
    show "?I (snd (runUpstreams e (rcUpstreams cfg) r)) \<and> (fst (runUpstreams e (rcUpstreams cfg) r) \<longrightarrow> ?U (snd (runUpstreams e (rcUpstreams cfg) r)))"
      by blast
  qed
  have lbs: "staged ?I ?U (runLbs (rcLbs cfg)) (\<lambda>r. inv e ?L (kUps UNIV) {} r \<and> fresh r)"
  proof (rule stagedI)
    fix r assume r: "?U r"
    then have "inv e ?L (kUps UNIV) {} r" using k(5) by (auto intro: inv_weaken)
    then show "?I (snd (runLbs (rcLbs cfg) r)) \<and> (fst (runLbs (rcLbs cfg) r) \<longrightarrow>
        inv e ?L (kUps UNIV) {} (snd (runLbs (rcLbs cfg) r)) \<and> fresh (snd (runLbs (rcLbs cfg) r)))"
      using r w k(1) by (simp add: runLbs_inv)
  qed
  have check: "staged ?I (\<lambda>r. inv e ?L (kUps UNIV) {} r \<and> fresh r) (\<lambda>r. (b, r)) (\<lambda>r. inv e ?L (kUps UNIV) {} r \<and> fresh r)" for b
    using w k(1) by (intro staged_check) blast
  have metrics: "staged ?I (\<lambda>r. r = newRouter) (\<lambda>r. (b, r)) (\<lambda>r. r = newRouter)" for b
    by (rule staged_check) (simp add: inv_def newRouter_def closes_def)
  have cache: "staged ?I (\<lambda>r. inv e ?L (kUps UNIV) {} r \<and> fresh r) (runCache e (rcCache cfg)) (\<lambda>r. inv e ?L ?K {} r \<and> roMws r = [])"
  proof (rule stagedI)
    fix r assume r: "inv e ?L (kUps UNIV) {} r \<and> fresh r"
    have "RMemCache \<in> ?L" if "ckMem (rcCache cfg) \<and> ckRedis (rcCache cfg) \<and> \<not> ckRedisOk (rcCache cfg)" using that by (simp add: runLeaks_def)
    from runCache_inv [OF conjunct1 [OF r] conjunct2 [OF r] this] w k(2)
    show "?I (snd (runCache e (rcCache cfg) r)) \<and> (fst (runCache e (rcCache cfg) r) \<longrightarrow>
        inv e ?L ?K {} (snd (runCache e (rcCache cfg) r)) \<and> roMws (snd (runCache e (rcCache cfg) r)) = [])" by blast
  qed
  have mws: "staged ?I (\<lambda>r. inv e ?L ?K {} r \<and> roMws r = []) (runMiddlewares e (rcMiddlewares cfg) 0 []) (inv e ?L (kServers 0) {})"
  proof (rule stagedI)
    fix r assume r: "inv e ?L ?K {} r \<and> roMws r = []"
    have "RMiddleware ` {i. i < length (rcMiddlewares cfg) \<and> snd (rcMiddlewares cfg ! i)} \<subseteq> ?L" if "\<not> list_all fst (rcMiddlewares cfg)"
      using that by (auto simp: runLeaks_def)
    moreover have "?K \<inter> range RMiddleware = {}" by (auto simp: kUps_def upRes_def)
    ultimately have "inv e ?L (kServers 0) {} (snd (runMiddlewares e (rcMiddlewares cfg) 0 [] r))"
      unfolding k(3) [symmetric] using r by (intro runMiddlewares_inv) simp_all
    then show "?I (snd (runMiddlewares e (rcMiddlewares cfg) 0 [] r)) \<and> (fst (runMiddlewares e (rcMiddlewares cfg) 0 [] r) \<longrightarrow>
        inv e ?L (kServers 0) {} (snd (runMiddlewares e (rcMiddlewares cfg) 0 [] r)))" using w k(4) by blast
  qed
  have servers: "staged ?I (inv e ?L (kServers 0) {}) (runServers e (rcServers cfg) 0)
      (\<lambda>r. \<not> roClosed r \<longrightarrow> RServer ` {..<?n} \<subseteq> roOpen r)"
  proof (rule stagedI)
    fix r assume "inv e ?L (kServers 0) {} r"
    from runServers_inv [OF this, of "rcServers cfg"]
    show "?I (snd (runServers e (rcServers cfg) 0 r)) \<and> (fst (runServers e (rcServers cfg) 0 r) \<longrightarrow>
        \<not> roClosed (snd (runServers e (rcServers cfg) 0 r)) \<longrightarrow> RServer ` {..<?n} \<subseteq> roOpen (snd (runServers e (rcServers cfg) 0 r)))"
      by (simp add: atLeast0LessThan)
  qed
  have "staged ?I (\<lambda>r. r = newRouter) (runStages e cfg) (\<lambda>r. \<not> roClosed r \<longrightarrow> RServer ` {..<?n} \<subseteq> roOpen r)"
    unfolding runStages_def
    by (rule staged_then [OF metrics] staged_then [OF startApi_inv] staged_then [OF ups] staged_then [OF lbs]
        staged_then [OF check] staged_then [OF cache] staged_then [OF mws] servers)+
  then show ?thesis by (simp add: staged_def)
qed

lemma close_inv: "inv e L K {} r \<Longrightarrow> roGone (closeRouter e r) \<inter> roOpen (closeRouter e r) = {} \<and> (\<not> roClosed r \<longrightarrow> roOpen (closeRouter e r) \<subseteq> L)"
  by (auto simp: inv_def closeRouter_def)

lemma close_twice: "closeRouter e (closeRouter e r) = closeRouter e r"
  by (simp add: closeRouter_def)


definition "witRun =
  \<lparr>rcMetrics = True, rcApi = Some True, rcUpstreams = witUpCfgs,
   rcLbs = [\<lparr>lcTag = ''lb'', lcMethod = [], lcBackends = [\<lparr>bcTag = ''t'', bcWeight = 0, bcQPS = 0\<rparr>]\<rparr>], rcData = [True],
   rcCache = \<lparr>ckMem = True, ckMemOk = True, ckMemMetrics = True, ckRedis = False, ckRedisOk = False, ckRedisMetrics = False\<rparr>,
   rcMiddlewares = [(True, True)], rcServers = [(''udp'', \<lambda>_. True), (''tls'', \<lambda>st. st = StartTcp True)]\<rparr>"

definition witEnv :: "(nat \<Rightarrow> bool) \<Rightarrow> runEnv" where
  "witEnv ends = \<lparr>reUp = witUpEnv, reCtl = True, reTrCloses = False, reEnds = ends\<rparr>"

lemmas run_simps = runRouter_def runStages_def witRun_def witUpCfgs_def thenS_def startApi_def newRouter_def runCache_def serverStarter_def
  initLoadBalancer_def initLbBackend_def parseMethod_def initUpstream_def bootstrapError_def newUpstream_tls newUpstream_ip
  needsDNS_ip needsDNS_tls witEnv_def upUdp_def upTls_def

lemma run_rec:
  "opens X \<lparr>roClosers = cs, roMws = ms, roUps = us, roLbs = ls, roCache = c, roClosed = b, roOpen = x, roLive = l, roStep = n, roGone = g\<rparr> = \<lparr>roClosers = cs, roMws = ms, roUps = us, roLbs = ls, roCache = c, roClosed = b, roOpen = x, roLive = l, roStep = n, roGone = g\<rparr>\<lparr>roOpen := x \<union> X\<rparr>"
  "tick e \<lparr>roClosers = cs, roMws = ms, roUps = us, roLbs = ls, roCache = c, roClosed = b, roOpen = x, roLive = l, roStep = n, roGone = g\<rparr> = (if l \<and> reEnds e n then closeRouter e (\<lparr>roClosers = cs, roMws = ms, roUps = us, roLbs = ls, roCache = c, roClosed = b, roOpen = x, roLive = l, roStep = n, roGone = g\<rparr>\<lparr>roStep := Suc n\<rparr>) else \<lparr>roClosers = cs, roMws = ms, roUps = us, roLbs = ls, roCache = c, roClosed = b, roOpen = x, roLive = l, roStep = n, roGone = g\<rparr>\<lparr>roStep := Suc n\<rparr>)"
  "closeRouter e \<lparr>roClosers = cs, roMws = ms, roUps = us, roLbs = ls, roCache = c, roClosed = b, roOpen = x, roLive = l, roStep = n, roGone = g\<rparr> = (if b then \<lparr>roClosers = cs, roMws = ms, roUps = us, roLbs = ls, roCache = c, roClosed = b, roOpen = x, roLive = l, roStep = n, roGone = g\<rparr> else \<lparr>roClosers = cs, roMws = ms, roUps = us, roLbs = ls, roCache = c, roClosed = b, roOpen = x, roLive = l, roStep = n, roGone = g\<rparr>\<lparr>roClosed := True, roOpen := x - closes e \<lparr>roClosers = cs, roMws = ms, roUps = us, roLbs = ls, roCache = c, roClosed = b, roOpen = x, roLive = l, roStep = n, roGone = g\<rparr>, roGone := closes e \<lparr>roClosers = cs, roMws = ms, roUps = us, roLbs = ls, roCache = c, roClosed = b, roOpen = x, roLive = l, roStep = n, roGone = g\<rparr>\<rparr>)"
  by (simp_all add: opens_def tick_def closeRouter_def Let_def)

lemma witRun_runs: "fst (runRouter (witEnv (\<lambda>_. False)) witRun) \<and> \<not> roClosed (snd (runStages (witEnv (\<lambda>_. False)) witRun newRouter))"
  by (simp add: run_simps run_rec Let_def)

lemma witRun_h3: "\<not> h3Url (witEnv ends) upcfg" if "upcfg \<in> set witUpCfgs" for upcfg
  using that by (auto simp: h3Url_def witEnv_def witUpCfgs_def withScheme_tls withScheme_ip) (simp_all add: witUpEnv_def ascii_def byte_of_def)

lemma witRun_made: "map (upMade (witEnv ends)) witUpCfgs =
    [Some (Inr (upUdp \<lparr>oDialAddr = [], oDialTimeout = 0, oIdleTimeout = 60, oPipeline = False, oHttp3 = False, oTls = Some []\<rparr> (ascii ''9.9.9.9''))),
     Some (Inr (upTls \<lparr>oDialAddr = [], oDialTimeout = 0, oIdleTimeout = 60, oPipeline = False, oHttp3 = False, oTls = Some []\<rparr> (ascii ''d'')))]"
  by (simp add: upMade_def witEnv_def witUpCfgs_def newUpstream_tls newUpstream_ip)

lemma witRun_leaks: "runLeaks (witEnv ends) witRun = {}"
proof -
  have "upLeaks (witEnv ends) c = {}" if "c \<in> set witUpCfgs" for c
    using that witRun_h3 [OF that, of ends] witRun_made [of ends]
    by (auto simp: upLeaks_def upFailed_def witUpCfgs_def upUdp_def upTls_def Let_def)
  then show ?thesis by (simp add: runLeaks_def witRun_def)
qed


text \<open>
  If the listener of the API fails at once, \<^verbatim>\<open>Run\<close> goes on and succeeds, but what it opens from then on is never closed: the
  router is closed already.
\<close>

lemma early_close_leaks:
  "fst (runRouter (witEnv (\<lambda>n. n = 0)) witRun) \<and>
    {RServer 0, RServer 1, RMemCache, RMiddleware 0, RUpstream ''t''} \<subseteq>
      roOpen (closeRouter (witEnv (\<lambda>n. n = 0)) (snd (runRouter (witEnv (\<lambda>n. n = 0)) witRun)))"
  by (simp add: run_simps run_rec closes_def Let_def)

text \<open>Closing an upstream over QUIC leaves the transport and the socket open.\<close>

lemma quic_socket_stays: "upOpens t (QuicT a n i) - upCloses tc t (QuicT a n i) = {RQuicTransport t, RQuicSocket t}"
  by auto

end
