(* ===== verification/Proxy.thy ===== *)
theory Proxy
  imports Upstream LoadBalancer Rule
begin

text \<open>
  The command \<^verbatim>\<open>proxy\<close> (\<^verbatim>\<open>app/proxy/proxy.go\<close>): the configuration it makes of its flags. Parsing a URL, a number
  and a truth value are parameters.
\<close>

section \<open>Flags and configuration\<close>

record proxyFlags =
  pfListen :: bytes
  pfProtocol :: string
  pfTlsCert :: bytes
  pfTlsKey :: bytes
  pfHttpPath :: bytes
  pfUpstreams :: "bytes list"
  pfUpstreamLb :: string
  pfEcs :: bool
  pfEcsIpZone :: bytes
  pfCache :: int
  pfCacheRedis :: bytes
  pfCacheOptimisticTTL :: int
  pfAccessLog :: bool
  pfApi :: bytes

record proxyServer =
  psListen :: bytes
  psProtocol :: string
  psCerts :: "bytes list"
  psKeys :: "bytes list"
  psHttpPath :: bytes

record proxyUpstream =
  puTag :: string
  puAddr :: bytes
  puDialAddr :: bytes
  puInsecure :: bool
  puMaxFails :: int

record proxyConfig =
  pcServers :: "proxyServer list"
  pcUpstreams :: "proxyUpstream list"
  pcLoadBalancers :: "LoadBalancerConfig list"
  pcRules :: "RuleConfig list"
  pcEcs :: bool
  pcIpZone :: "bytes list"
  pcMemSize :: int
  pcRedis :: bytes
  pcOptimisticTTL :: int
  pcMaximumTTL :: int
  pcQueries :: bool
  pcApi :: bytes

datatype proxyErr = ErrNoUpstream | ErrUpstreamUrl bytes | ErrArg string | ErrInsecure

text \<open>\<open>peParse\<close> gives the query parameters of a URL, and the URL without its query.\<close>

record proxyEnv =
  peParse :: "bytes \<Rightarrow> ((string \<Rightarrow> bytes) \<times> bytes) option"
  peAtoi :: "bytes \<Rightarrow> int option"
  peParseBool :: "bytes \<Rightarrow> bool option"

section \<open>Making the configuration\<close>

definition strOf :: "bytes \<Rightarrow> string" where
  "strOf s = map (\<lambda>b. char_of (unat b)) s"

text \<open>\<^verbatim>\<open>--http-path\<close> is read into a variable that is not used.\<close>

definition proxyServers :: "proxyFlags \<Rightarrow> proxyServer list" where
  "proxyServers fl =
    (if length (pfProtocol fl) = 0 then
       [\<lparr>psListen = pfListen fl, psProtocol = ''udp'', psCerts = [], psKeys = [], psHttpPath = []\<rparr>,
        \<lparr>psListen = pfListen fl, psProtocol = ''tcp'', psCerts = [], psKeys = [], psHttpPath = []\<rparr>]
     else
       [\<lparr>psListen = pfListen fl, psProtocol = pfProtocol fl,
         psCerts = (if length (pfTlsCert fl) > 0 then [pfTlsCert fl] else []),
         psKeys = (if length (pfTlsKey fl) > 0 then [pfTlsKey fl] else []), psHttpPath = []\<rparr>])"

definition mustParseInt :: "proxyEnv \<Rightarrow> (string \<Rightarrow> bytes) \<Rightarrow> string \<Rightarrow> int \<Rightarrow> (proxyErr, int) res" where
  "mustParseInt env q k df =
    (if length (q k) > 0 then (case peAtoi env (q k) of None \<Rightarrow> Inl (Err (ErrArg k)) | Some i \<Rightarrow> Inr i) else Inr df)"

definition proxyUpstreamOf :: "proxyEnv \<Rightarrow> bytes \<Rightarrow> (proxyErr, proxyUpstream \<times> BackendConfig) res" where
  "proxyUpstreamOf env u =
    (let u = withScheme u in
     case peParse env u of None \<Rightarrow> Inl (Err (ErrUpstreamUrl u)) | Some (q, addr) \<Rightarrow>
     let tag = (if length (q ''tag'') = 0 then u else q ''tag'') in
     thenE (mustParseInt env q ''max_fails'' 5) (\<lambda>maxFails.
     thenE (mustParseInt env q ''weight'' 1) (\<lambda>weight.
     thenE (mustParseInt env q ''qps'' 0) (\<lambda>qps.
     thenE (if length (q ''insecure'') > 0 then (case peParseBool env (q ''insecure'') of None \<Rightarrow> Inl (Err ErrInsecure) | Some b \<Rightarrow> Inr b)
            else Inr False) (\<lambda>insecure.
       Inr (\<lparr>puTag = strOf tag, puAddr = addr, puDialAddr = q ''dial_addr'', puInsecure = insecure, puMaxFails = maxFails\<rparr>,
            \<lparr>bcTag = strOf tag, bcWeight = weight, bcQPS = qps\<rparr>))))))"

fun proxyUpstreams :: "proxyEnv \<Rightarrow> bytes list \<Rightarrow> (proxyErr, (proxyUpstream \<times> BackendConfig) list) res" where
  "proxyUpstreams env [] = Inr []"
| "proxyUpstreams env (u # us) = thenE (proxyUpstreamOf env u) (\<lambda>x. thenE (proxyUpstreams env us) (\<lambda>xs. Inr (x # xs)))"

definition forwardRule :: "string \<Rightarrow> RuleConfig" where
  "forwardRule tag = \<lparr>rcReverse = False, rcDomain = [], rcServer = [], rcServerName = [], rcPath = [], rcClientIP = [], rcReject = 0,
     rcHosts = [], rcForward = tag, rcRespIP = [], rcRespIPForward = []\<rparr>"

definition proxyConfigOf :: "proxyEnv \<Rightarrow> proxyFlags \<Rightarrow> (proxyErr, proxyConfig) res" where
  "proxyConfigOf env fl =
    (if length (pfUpstreams fl) = 0 then Inl (Err ErrNoUpstream)
     else thenE (proxyUpstreams env (pfUpstreams fl)) (\<lambda>ups. Inr
       \<lparr>pcServers = proxyServers fl, pcUpstreams = map fst ups,
        pcLoadBalancers = [\<lparr>lcTag = ''lb'', lcMethod = pfUpstreamLb fl, lcBackends = map snd ups\<rparr>],
        pcRules = [forwardRule ''lb''], pcEcs = pfEcs fl,
        pcIpZone = (if length (pfEcsIpZone fl) > 0 then [pfEcsIpZone fl] else []),
        pcMemSize = pfCache fl, pcRedis = pfCacheRedis fl, pcOptimisticTTL = pfCacheOptimisticTTL fl, pcMaximumTTL = 3600 * 24,
        pcQueries = pfAccessLog fl, pcApi = pfApi fl\<rparr>))"

section \<open>The router takes the configuration\<close>

text \<open>The configuration of an upstream as the router reads it. Without files the TLS configuration is always made.\<close>

definition upCfgOf :: "(string \<Rightarrow> bool) \<Rightarrow> proxyUpstream \<Rightarrow> upCfg" where
  "upCfgOf metrics u = \<lparr>ucTag = puTag u, ucAddr = puAddr u, ucDialAddr = puDialAddr u, ucBootstrap = [], ucTls = Some [], ucMetrics = metrics (puTag u)\<rparr>"

lemma proxyUpstreams_tags: "proxyUpstreams env us = Inr xs \<Longrightarrow> map (puTag \<circ> fst) xs = map (bcTag \<circ> snd) xs \<and> length xs = length us"
proof (induction us arbitrary: xs)
  case (Cons u us)
  then obtain x ys where "proxyUpstreamOf env u = Inr x" "proxyUpstreams env us = Inr ys" "xs = x # ys"
    by (auto simp: thenE_eq_Inr)
  moreover from this(1) have "puTag (fst x) = bcTag (snd x)"
    by (auto simp: proxyUpstreamOf_def Let_def thenE_eq_Inr split: option.splits prod.splits)
  ultimately show ?case
    using Cons.IH [of ys] by simp
qed simp

lemma initBackends_known:
  "bcTag ` set cfgs \<subseteq> ups \<Longrightarrow> \<exists>e'. initBackends ups i cfgs e = Inr (e @ e') \<and> (e' = [] \<longleftrightarrow> (\<forall>c \<in> set cfgs. bcWeight c < 0))"
proof (induction cfgs arbitrary: i e)
  case (Cons c cfgs)
  define x where "x = (if bcWeight c < 0 then [] else [\<lparr>bTag = bcTag c, bWeight = defaultIfELZero (bcWeight c) 1,
    bLimiter = (if bcQPS c > 0 then Some i else None)\<rparr>])"
  have c: "initLbBackend ups i c e = Inr (e @ x)"
    using Cons.prems by (simp add: initLbBackend_def x_def)
  from Cons.prems obtain e' where e': "initBackends ups (i + 1) cfgs (e @ x) = Inr ((e @ x) @ e')" "e' = [] \<longleftrightarrow> (\<forall>c \<in> set cfgs. bcWeight c < 0)"
    using Cons.IH [of "i + 1" "e @ x"] by auto
  have "initBackends ups i (c # cfgs) e = Inr (e @ (x @ e'))"
    using c e'(1) by simp
  moreover have "x @ e' = [] \<longleftrightarrow> (\<forall>c \<in> set (c # cfgs). bcWeight c < 0)"
    using e'(2) by (simp add: x_def)
  ultimately show ?case
    by blast
qed simp

text \<open>C39: Once the upstreams of the flags can be made, the router also takes the rest of the configuration of the command: if the method
  is known and a weight is not negative, the balancer is made, and the rule forwards every query to it; but if an upstream is
  given the tag of the balancer, the rule forwards all queries to that upstream.\<close>

theorem proxy_config_accepted:
  assumes "proxyConfigOf env fl = Inr cfg" and "initUpstreams uenv ctl (map (upCfgOf metrics) (pcUpstreams cfg)) Map.empty = Inr ups"
    and "parseMethod (pfUpstreamLb fl) \<noteq> None" and "\<exists>c \<in> set (pcLoadBalancers cfg). \<exists>b \<in> set (lcBackends c). bcWeight b \<ge> 0"
    and "tUpstreams t = dom ups" and "tBalancers t = lcTag ` set (pcLoadBalancers cfg)"
  shows "\<exists>lc lb rc ru. pcLoadBalancers cfg = [lc] \<and> initLoadBalancer (dom ups) off lc = Inr lb \<and> pcRules cfg = [rc] \<and>
    loadRule pa pp t rc = Inr ru \<and> ruDomainSet ru = None \<and> ruClientIp ru = None \<and>
    ruUpstream ru = Some (if lbTag lb \<in> dom ups then ToUpstream (lbTag lb) else ToBalancer (lbTag lb))"
proof -
  from assms(1) obtain xs where xs: "proxyUpstreams env (pfUpstreams fl) = Inr xs" "pcUpstreams cfg = map fst xs"
    "pcLoadBalancers cfg = [\<lparr>lcTag = ''lb'', lcMethod = pfUpstreamLb fl, lcBackends = map snd xs\<rparr>]" "pcRules cfg = [forwardRule ''lb'']"
    by (auto simp: proxyConfigOf_def thenE_eq_Inr split: if_splits)
  have "dom ups = (puTag \<circ> fst) ` set xs"
    using initUpstreams_dom [OF assms(2)] xs(2) by (simp add: image_image upCfgOf_def)
  moreover have "(puTag \<circ> fst) ` set xs = (bcTag \<circ> snd) ` set xs"
    using proxyUpstreams_tags [OF xs(1)] by (metis list.set_map)
  ultimately have "bcTag ` set (map snd xs) \<subseteq> dom ups"
    by (simp add: image_image)
  from initBackends_known [OF this, of 0 "[]"] obtain e where
    e: "initBackends (dom ups) 0 (map snd xs) [] = Inr e" "e = [] \<longleftrightarrow> (\<forall>c \<in> set (map snd xs). bcWeight c < 0)"
    by auto
  have "e \<noteq> []"
    using assms(4) e(2) by (auto simp: xs(3) not_less)
  moreover obtain m where "parseMethod (pfUpstreamLb fl) = Some m"
    using assms(3) by auto
  ultimately obtain lb where lb: "initLoadBalancer (dom ups) off \<lparr>lcTag = ''lb'', lcMethod = pfUpstreamLb fl, lcBackends = map snd xs\<rparr> = Inr lb"
    "lbTag lb = ''lb''"
    by (simp add: initLoadBalancer_def e(1))
  have "\<exists>ru. loadRule pa pp t (forwardRule ''lb'') = Inr ru \<and> ruDomainSet ru = None \<and> ruClientIp ru = None \<and>
      ruUpstream ru = Some (if ''lb'' \<in> dom ups then ToUpstream ''lb'' else ToBalancer ''lb'')"
    using assms(5,6) xs(3) by (simp add: loadRule_def forwardRule_def resolve_def lookTarget_def clientList_def)
  then obtain ru where "loadRule pa pp t (forwardRule ''lb'') = Inr ru" "ruDomainSet ru = None" "ruClientIp ru = None"
      "ruUpstream ru = Some (if ''lb'' \<in> dom ups then ToUpstream ''lb'' else ToBalancer ''lb'')"
    by blast
  with lb show ?thesis
    unfolding xs(3,4) by (intro exI [of _ lb] exI [of _ ru] exI) simp
qed

definition "witProxyEnv = \<lparr>peParse = (\<lambda>u. Some (\<lambda>_. [], u)), peAtoi = (\<lambda>_. None), peParseBool = (\<lambda>_. None)\<rparr>"

definition "witFlags =
  \<lparr>pfListen = ascii '':53'', pfProtocol = [], pfTlsCert = [], pfTlsKey = [], pfHttpPath = [], pfUpstreams = [ascii ''9.9.9.9''],
   pfUpstreamLb = ''random'', pfEcs = False, pfEcsIpZone = [], pfCache = 4096, pfCacheRedis = [], pfCacheOptimisticTTL = 0,
   pfAccessLog = False, pfApi = []\<rparr>"

definition "witTables upTags = \<lparr>tDomainSets = Map.empty, tIpSets = Map.empty, tHosts = Map.empty, tUpstreams = upTags, tBalancers = {''lb''}\<rparr>"

lemma withScheme_udp_ip: "withScheme (ascii ''udp://9.9.9.9'') = ascii ''udp://9.9.9.9''"
proof -
  have "hasScheme (ascii ''udp://9.9.9.9'')"
    unfolding hasScheme_def by (rule exI [of _ 3]) (simp add: drop_ascii)
  then show ?thesis
    by (simp add: withScheme_def)
qed

lemma newUpstream_udp_ip: "newUpstream witUpEnv (ascii ''udp://9.9.9.9'') o' = Inr (upUdp o' (ascii ''9.9.9.9''))"
  unfolding newUpstream_def withScheme_udp_ip by (simp add: witUpEnv_def helperScheme_def tryTrimIpv6Brackets_def ascii_def byte_of_def)

theorem proxy_config_accepted_witness:
  "\<exists>cfg ups lc lb rc ru. proxyConfigOf witProxyEnv witFlags = Inr cfg \<and>
    initUpstreams witUpEnv True (map (upCfgOf (\<lambda>_. True)) (pcUpstreams cfg)) Map.empty = Inr ups \<and> pcLoadBalancers cfg = [lc] \<and>
    initLoadBalancer (dom ups) (\<lambda>_. False) lc = Inr lb \<and> pcRules cfg = [rc] \<and>
    loadRule (\<lambda>_. None) (\<lambda>_. None) (witTables (dom ups) :: unit tables) rc = Inr ru \<and>
    ruUpstream ru = Some (if lbTag lb \<in> dom ups then ToUpstream (lbTag lb) else ToBalancer (lbTag lb))"
proof -
  let ?tag = "strOf (ascii ''udp://9.9.9.9'')"
  let ?cfg = "\<lparr>pcServers = proxyServers witFlags,
    pcUpstreams = [\<lparr>puTag = ?tag, puAddr = ascii ''udp://9.9.9.9'', puDialAddr = [], puInsecure = False, puMaxFails = 5\<rparr>],
    pcLoadBalancers = [\<lparr>lcTag = ''lb'', lcMethod = ''random'', lcBackends = [\<lparr>bcTag = ?tag, bcWeight = 1, bcQPS = 0\<rparr>]\<rparr>],
    pcRules = [forwardRule ''lb''], pcEcs = False, pcIpZone = [], pcMemSize = 4096, pcRedis = [], pcOptimisticTTL = 0,
    pcMaximumTTL = 86400, pcQueries = False, pcApi = []\<rparr>"
  have "proxyUpstreams witProxyEnv [ascii ''9.9.9.9''] = Inr [(\<lparr>puTag = ?tag, puAddr = ascii ''udp://9.9.9.9'', puDialAddr = [], puInsecure = False,
      puMaxFails = 5\<rparr>, \<lparr>bcTag = ?tag, bcWeight = 1, bcQPS = 0\<rparr>)]"
    by (simp add: proxyUpstreamOf_def witProxyEnv_def withScheme_ip mustParseInt_def Let_def)
  then have cfg: "proxyConfigOf witProxyEnv witFlags = Inr ?cfg"
    by (simp add: proxyConfigOf_def witFlags_def)
  have "strOf (ascii ''udp://9.9.9.9'') \<noteq> []"
    by (simp add: strOf_def)
  then obtain u where u: "initUpstreams witUpEnv True (map (upCfgOf (\<lambda>_. True)) (pcUpstreams ?cfg)) Map.empty = Inr u"
    by (simp add: upCfgOf_def initUpstream_def newUpstream_udp_ip)
  from proxy_config_accepted [OF cfg u, of "witTables (dom u) :: unit tables" "\<lambda>_. False" "\<lambda>_. None" "\<lambda>_. None"] obtain lc lb rc ru where
    "pcLoadBalancers ?cfg = [lc]" "initLoadBalancer (dom u) (\<lambda>_. False) lc = Inr lb" "pcRules ?cfg = [rc]"
    "loadRule (\<lambda>_. None) (\<lambda>_. None) (witTables (dom u) :: unit tables) rc = Inr ru"
    "ruUpstream ru = Some (if lbTag lb \<in> dom u then ToUpstream (lbTag lb) else ToBalancer (lbTag lb))"
    by (auto simp: witFlags_def parseMethod_def witTables_def)
  with cfg u show ?thesis by blast
qed

end
