(* ===== verification/NameStore.thy ===== *)
theory NameStore
  imports DnsNameWire
begin

text \<open>
  Names with the arrays they share (\<^verbatim>\<open>Reset\<close>, \<^verbatim>\<open>CopyFrom\<close> and \<^verbatim>\<open>parseLabels\<close> in \<^verbatim>\<open>pkg/dnsmsg/name.go\<close>): \<^verbatim>\<open>n.b\<close> is
  a slice of an array, and the labels \<^verbatim>\<open>n.s\<close> are slices too. The other theories take a name for the value it has in
  the store here; this one shows how long that is right for a copy.
\<close>

section \<open>The store\<close>

type_synonym store = "nat \<Rightarrow> bytes"

text \<open>A slice of an array that starts at its beginning has the array and a length; a label the array, its start and its end.\<close>

record sName =
  sArr :: nat
  sLen :: nat
  sLabels :: "(nat \<times> nat \<times> nat) list"

definition dataIn :: "store \<Rightarrow> sName \<Rightarrow> bytes" where
  "dataIn h n = take (sLen n) (h (sArr n))"

definition labelsIn :: "store \<Rightarrow> sName \<Rightarrow> bytes list" where
  "labelsIn h n = map (\<lambda>(a, r). slice (h a) r) (sLabels n)"

text \<open>The value of a name whose labels are all slices of its own array.\<close>

definition valueIn :: "store \<Rightarrow> sName \<Rightarrow> Name" where
  "valueIn h n = \<lparr>nb = dataIn h n, ns = map snd (sLabels n)\<rparr>"

definition own :: "store \<Rightarrow> sName \<Rightarrow> bool" where
  "own h n \<longleftrightarrow> sLen n \<le> length (h (sArr n)) \<and> (\<forall>(a, i, j) \<in> set (sLabels n). a = sArr n \<and> i \<le> j \<and> j \<le> sLen n)"

section \<open>The operations\<close>

text \<open>\<^verbatim>\<open>clear\<close> sets the bytes of the slice to zero.\<close>

definition sReset :: "store \<Rightarrow> sName \<Rightarrow> store \<times> sName" where
  "sReset h n = (h(sArr n := replicate (sLen n) 0 @ drop (sLen n) (h (sArr n))), n\<lparr>sLen := 0, sLabels := []\<rparr>)"

text \<open>\<^verbatim>\<open>append\<close> writes behind the slice, or moves it to a new array (\<open>a\<close>) if it does not fit.\<close>

definition sAppend :: "nat \<Rightarrow> store \<Rightarrow> sName \<Rightarrow> bytes \<Rightarrow> store \<times> sName" where
  "sAppend a h n bs =
    (if sLen n + length bs \<le> length (h (sArr n)) then
       (h(sArr n := take (sLen n) (h (sArr n)) @ bs @ drop (sLen n + length bs) (h (sArr n))), n\<lparr>sLen := sLen n + length bs\<rparr>)
     else (h(a := take (sLen n) (h (sArr n)) @ bs), n\<lparr>sArr := a, sLen := sLen n + length bs\<rparr>))"

definition sCopyFrom :: "nat \<Rightarrow> store \<Rightarrow> sName \<Rightarrow> sName \<Rightarrow> store \<times> sName" where
  "sCopyFrom a h n n2 =
    (case sReset h n of (h, n) \<Rightarrow> case sAppend a h n (dataIn h n2) of (h, n) \<Rightarrow> (h, n\<lparr>sLabels := sLabels n @ sLabels n2\<rparr>))"

definition sParseLabels :: "store \<Rightarrow> sName \<Rightarrow> sName dres" where
  "sParseLabels h n = thenE (parseLabelsFrom 0 (dataIn h n) (map snd (sLabels n)))
    (\<lambda>s. Inr (n\<lparr>sLabels := map (\<lambda>r. (sArr n, r)) s\<rparr>))"

section \<open>A name and its value\<close>

lemma own_labels: "own h n \<Longrightarrow> labelsIn h n = Labels (valueIn h n)"
proof -
  assume o: "own h n"
  have "slice (h a) (i, j) = slice (dataIn h n) (i, j)" if "(a, i, j) \<in> set (sLabels n)" for a i j
    using o that by (fastforce simp: own_def slice_def dataIn_def drop_take min_def)
  then show ?thesis
    by (auto simp: labelsIn_def Labels_def valueIn_def)
qed

lemma sParseLabels_value:
  assumes "sLabels n = []"
  shows "map_sum id (valueIn h) (sParseLabels h n) = parseLabels (valueIn h n)"
proof (cases "parseLabelsFrom 0 (dataIn h n) []")
  case (Inr s)
  then show ?thesis
    using assms by (simp add: sParseLabels_def parseLabels_def valueIn_def dataIn_def comp_def)
qed (use assms in \<open>simp add: sParseLabels_def parseLabels_def valueIn_def\<close>)

lemma copy_result:
  assumes "own h n2" and "sArr n \<noteq> sArr n2" and "a \<noteq> sArr n2" and "sLen n \<le> length (h (sArr n))"
  obtains h' c where "sCopyFrom a h n n2 = (h', c)" and "h' (sArr n2) = h (sArr n2)" and "sArr c \<noteq> sArr n2"
    and "dataIn h' c = dataIn h n2" and "sLabels c = sLabels n2"
proof -
  have len: "length (dataIn h n2) = sLen n2"
    using assms(1) by (simp add: own_def dataIn_def)
  show thesis
  proof (cases "sLen n2 \<le> length (h (sArr n))")
    case True
    then show thesis
      using assms(2,4) len by (intro that [OF prod.collapse [symmetric]]) (simp_all add: sCopyFrom_def sReset_def sAppend_def dataIn_def)
  next
    case False
    then show thesis
      using assms(2-4) len by (intro that [OF prod.collapse [symmetric]]) (simp_all add: sCopyFrom_def sReset_def sAppend_def dataIn_def)
  qed
qed

text \<open>C40: A copy of a name has its data and its labels. The data stay when the original is reset, but the labels are slices
  of the array of the original: they then are the zeros that \<^verbatim>\<open>Reset\<close> writes.\<close>

theorem copied_labels_alias:
  assumes "own h n2" and "sArr n \<noteq> sArr n2" and "a \<noteq> sArr n2" and "sLen n \<le> length (h (sArr n))"
    and "sCopyFrom a h n n2 = (h', c)" and "sReset h' n2 = (h'', n2')"
  shows "dataIn h' c = dataIn h n2 \<and> labelsIn h' c = labelsIn h n2 \<and> dataIn h'' c = dataIn h n2 \<and>
    labelsIn h'' c = map (\<lambda>l. replicate (length l) 0) (labelsIn h n2)"
proof -
  from assms(5) have c: "h' (sArr n2) = h (sArr n2)" "sArr c \<noteq> sArr n2" "dataIn h' c = dataIn h n2" "sLabels c = sLabels n2"
    using copy_result [OF assms(1-4)] by (metis prod.inject)+
  have h'': "h'' (sArr n2) = replicate (sLen n2) 0 @ drop (sLen n2) (h (sArr n2))" "h'' (sArr c) = h' (sArr c)"
    using assms(6) c(1,2) by (auto simp: sReset_def)
  have "slice (h'' x) r = replicate (length (slice (h x) r)) 0 \<and> slice (h' x) r = slice (h x) r" if "(x, r) \<in> set (sLabels n2)" for x r
  proof -
    obtain i j where r: "r = (i, j)" by fastforce
    have "x = sArr n2" "i \<le> j" "j \<le> sLen n2" "sLen n2 \<le> length (h (sArr n2))"
      using assms(1) that by (auto simp: own_def r)
    then show ?thesis
      by (simp add: r h''(1) c(1) slice_def)
  qed
  then show ?thesis
    using c(3) h''(2) by (auto simp: labelsIn_def c(4) dataIn_def)
qed

definition "witStore = (\<lambda>a :: nat. if a = 2 then [1, 97, 2, 98, 99, 0, 0] else if a = 3 then [7, 7] else [] :: bytes)"

definition "witName = \<lparr>sArr = 2, sLen = 6, sLabels = [(2, 1, 2), (2, 3, 5)]\<rparr>"

theorem copied_labels_alias_witness:
  "\<exists>h' c h'' n2'. sCopyFrom 4 witStore \<lparr>sArr = 3, sLen = 0, sLabels = []\<rparr> witName = (h', c) \<and> sReset h' witName = (h'', n2') \<and>
    dataIn h'' c = [1, 97, 2, 98, 99, 0] \<and> labelsIn h' c = [[97], [98, 99]] \<and> labelsIn h'' c = [[0], [0, 0]]"
proof -
  obtain h' c where c: "sCopyFrom 4 witStore \<lparr>sArr = 3, sLen = 0, sLabels = []\<rparr> witName = (h', c)" by fastforce
  obtain h'' n2' where r: "sReset h' witName = (h'', n2')" by fastforce
  have "own witStore witName"
    by (simp add: own_def witStore_def witName_def)
  from copied_labels_alias [OF this _ _ _ c r] c r show ?thesis
    by (simp add: witName_def witStore_def dataIn_def labelsIn_def slice_def)
qed

end
