(* ===== verification/Spec2Isabelle.thy ===== *)
theory Spec2Isabelle
  imports DnsMsgCodec DnsText DomainSerialize IpSet Ecs Reload Handle Middleware Reuse Quic Doh BufPool Bootstrap RouterRun Proxy NameStore
begin

text \<open>
  A verification of mosproxy, a forwarder of DNS queries written in Go. File names are below \<^verbatim>\<open>src/\<close>.

  \<^bold>\<open>The program.\<close> A server (\<^verbatim>\<open>app/router/server_*.go\<close>) receives a query over UDP, TCP, TLS, QUIC or HTTP, unpacks
  it (\<^verbatim>\<open>pkg/dnsmsg\<close>) and gives it as a query context to the entry of the router (\<^verbatim>\<open>router_handle.go\<close>). That runs the
  chain of middlewares, chooses the client subnet to send, and goes through the rules; a rule that matches rejects the
  query, answers it from static hosts, or forwards it to an upstream or a load balancer, through the cache. An upstream
  (\<^verbatim>\<open>internal/upstream\<close>) sends the query over one of its transports. Domain sets (\<^verbatim>\<open>internal/domain_matcher\<close>), address
  sets (\<^verbatim>\<open>internal/netlist\<close>), zones of client subnets (\<^verbatim>\<open>internal/ipmarker\<close>) and hosts are files that can be loaded again
  while the program runs. \<^verbatim>\<open>Run\<close> in \<^verbatim>\<open>router.go\<close> builds all this from the configuration, and the command \<^verbatim>\<open>proxy\<close>
  makes a configuration of its flags.

  \<^bold>\<open>The model.\<close> A struct is a record, a function or method a HOL function on values or one that returns the new state, and
  a call that can fail returns an error, \<^verbatim>\<open>Panic\<close> where Go would panic, or its value. Fixed-width integers are words or
  integers with the wrap-around written out; Go's \<^verbatim>\<open>int\<close> is an integer. What the clock, random numbers, sockets, hashes,
  compression, regular expressions, parsers of addresses and URLs and other libraries give are arguments; what is assumed of
  them are hypotheses of the theorems. Where several goroutines share state, a component is a step function (theory
  \<open>Machine\<close>) whose steps are the critical sections of the code; its properties hold for every order of steps.

  \<^bold>\<open>Theories, in the order they build on each other.\<close>

  \<^item> \<open>Prelude\<close>: the result type, bytes and big-endian integers. \<open>Machine\<close>: step functions, runs and the locale of their invariants.

  \<^item> \<open>DnsName\<close>, \<open>DnsNameWire\<close>, \<open>DnsNamePack\<close>: names (\<^verbatim>\<open>pkg/dnsmsg/name.go\<close>), what their wire format with compression means
  independently of the loops, and that packing and unpacking follow it. \<open>DnsText\<close>: the printed form of names. \<open>NameStore\<close>: the
  arrays names share, which shows that the labels of a copy are those of the original only as long as the original is not reset; the
  other theories take names as values.

  \<^item> \<open>DnsCodec\<close>: the readers of \<^verbatim>\<open>utils.go\<close> and the locale \<open>wire_codec\<close> of what every part of a message promises; \<open>DnsRR\<close>,
  \<open>DnsRRCodec\<close>, \<open>DnsMsg\<close>, \<open>DnsMsgHeader\<close>, \<open>DnsMsgCodec\<close>: questions, resource records, the header and messages, with
  interpretations of that locale. Unpacking never panics, packing and unpacking are inverse, the length is exact, and a size limit is kept up to the
  EDNS0 header. \<open>DnsFit\<close>: what fits a limit is packed without loss.

  \<^item> \<open>DomainTree\<close>, \<open>DomainTreeBuild\<close>, \<open>DomainTreeMatch\<close>, \<open>DomainMatcher\<close>, \<open>DomainSerialize\<close>: the tree of domain rules, its compilation to
  arrays and the binary search in them (\<^verbatim>\<open>tree.go\<close>, \<^verbatim>\<open>compiled_tree.go\<close>), the rule files (\<^verbatim>\<open>matcher.go\<close>) and the binary form
  (\<^verbatim>\<open>serialize.go\<close>). The tree is an abstract map from paths to rules; matching finds the deepest rule that covers a name. What the rules of
  a file match is compared with what they ask for, which differs where a \<^verbatim>\<open>full\<close> rule follows a rule for the same domain. The file is read from
  a stream that may return less than asked for; it is read back as it was written only if the stream fills every buffer.

  \<^item> \<open>NetList\<close>, \<open>IpAddr\<close>, \<open>IpSet\<close>: sorted address ranges (\<^verbatim>\<open>internal/netlist\<close>), prefixes as ranges of numbers, and the files of address sets
  and of client subnet zones (\<^verbatim>\<open>ip_set.go\<close>, \<^verbatim>\<open>ecs_zone.go\<close>, \<^verbatim>\<open>internal/ipmarker\<close>). \<open>Ecs\<close>: the client subnet option
  (\<^verbatim>\<open>ecs.go\<close>). \<open>Reload\<close>: loading files and publishing all new versions or none (\<^verbatim>\<open>data_loader.go\<close>, \<^verbatim>\<open>api_reload.go\<close>), with the
  locale \<open>dataloader\<close> for a file and for a group.

  \<^item> \<open>Cache\<close>: times to live, the two stores and \<^verbatim>\<open>cache.go\<close>, with a clock in nanoseconds; what is served was stored, and has expired by less
  than a second in memory and not at all at the second level. \<open>RouterCtx\<close>: the query context,
  its pool and the cache key, which are equal for equal name, class, type, upstream and zone or subnet. \<open>Hosts\<close>, \<open>LoadBalancer\<close>, \<open>Health\<close>,
  \<open>Forward\<close>, \<open>Rule\<close>: static hosts, the weighted choice (with sums of 64 bits that wrap around) and its index, the
  health check of an upstream, what is sent upstream, and rules. \<open>Handle\<close>: all of \<^verbatim>\<open>router_handle.go\<close>; every query gets a
  response, and the first rule that does not pass the query on decides, with a response of the cache or of its upstream. \<open>Middleware\<close>: the
  chain and the middlewares \<^verbatim>\<open>limit\<close> and \<^verbatim>\<open>rvlookup\<close>, whose cache may forget names.

  \<^item> \<open>Frame\<close>: messages on streams and in datagrams (\<^verbatim>\<open>internal/dnsutils/net_io.go\<close>, \<^verbatim>\<open>transport/utils.go\<close>). \<open>Server\<close>, \<open>Http\<close>: the
  servers, from the bytes received to those sent.

  \<^item> \<open>ConnPool\<close>, \<open>Pipeline\<close>, \<open>Reuse\<close>, \<open>Quic\<close>, \<open>Doh\<close>, \<open>BufPool\<close>: the connection pool (\<^verbatim>\<open>internal/connpool\<close>), the four transports
  (\<^verbatim>\<open>internal/upstream/transport\<close>) and the pool of buffers (\<^verbatim>\<open>internal/pool\<close>). A response belongs to the query it answers,
  connections and buffers are not used by two at once, and a query over HTTP arrives at the server of \<open>Http\<close> as it was sent.

  \<^item> \<open>Upstream\<close>, \<open>Bootstrap\<close>: what an upstream dials and which transport it has (\<^verbatim>\<open>internal/upstream\<close>, \<^verbatim>\<open>initUpstream\<close>), and the
  resolver of upstream addresses. \<open>RouterRun\<close>: \<^verbatim>\<open>Run\<close> and \<^verbatim>\<open>Close\<close>, what each opens and closes and what stays open, also when a server
  closes the router while \<^verbatim>\<open>Run\<close> goes on. \<open>Proxy\<close>: the command \<^verbatim>\<open>proxy\<close>.

  \<^bold>\<open>Lemmas.\<close> Each theory states an invariant or an abstract meaning of its data, that the operations keep or implement it, and then the properties,
  which are numbered C1, C2 and so on over all theories. A property with hypotheses is followed by its use on a concrete input.

  \<^bold>\<open>Bounds and loops.\<close> No definition uses fuel: every function is total, with a measure where the recursion is not structural. The loop
  over a compressed name ends because it follows at most ten pointers, as in the code; retries of the transports by their limit; the
  searches by the width of their interval; the reading loop of a TCP connection by the bytes that are left. Goroutines that run for ever are
  not loops of the model but events of a machine.

  \<^bold>\<open>Not modelled.\<close> Sockets, TLS, QUIC and HTTP themselves and the options handed to them, time-outs other than as events; log lines and metrics;
  \<^verbatim>\<open>internal/udpcmsg\<close> and the socket options, which are memory layouts and system calls; the command line library, signals,
  YAML and the template of \<^verbatim>\<open>gen-config\<close>; the pools of \<^verbatim>\<open>sync.Pool\<close>, other than that of buffers and of query contexts.
  Memory is modelled only where sharing matters: buffers in \<open>BufPool\<close>, names in \<open>NameStore\<close>, contexts in \<open>RouterCtx\<close>. A message that is
  used after it was released is not noticed elsewhere: a copy of a name or of a message is the value itself, and the name of a record's
  header is not touched by the reset of the buffer it was read from.

  \<^bold>\<open>Simplifications of order.\<close> The ranges over one map of children when a tree is compiled (\<^verbatim>\<open>compiled_tree.go\<close>) go through it in one order, where Go
  may take another each time. In \<open>Pipeline\<close> nothing is read after the connection was closed, where the code may still hand on what its
  buffer holds, and finding the channel of a response and sending to it are one step. In \<open>Reuse\<close> the end of a dial is one step, within
  which the idle timer does not fire. In \<open>Cache\<close> an operation reads the clock once.
\<close>

end
